(* ===== verification/Prelude.thy ===== *)
theory Prelude
  imports Main "HOL-Library.Word" "HOL-Library.Multiset"
begin

text \<open>
  The base of the development: names for the C integer types, the result type of code that can
  abort, the memory images of integers in messages, and the list lemmas the components share.

  \<^item> \<open>unsigned\<close> integers are words of their width, so that \<open>+\<close> and \<open>-\<close> wrap around as in C.
    A plain \<open>int\<close> is a HOL \<open>int\<close>: signed overflow is undefined in C, so the model agrees with
    every run that has none.
  \<^item> A failed \<open>assert\<close>, a call of \<open>NiceExit\<close> (which ends the process) and an access the C
    standard gives no meaning are values of \<open>error\<close>; code that can meet one returns a
    \<open>'a res\<close>, with \<open>Inl\<close> for the abort.
  \<^item> The build does not define \<open>NDEBUG\<close>, so every \<open>assert\<close> of the source is a check of the model.
\<close>

unbundle bit_operations_syntax

section \<open>Types of the model\<close>

type_synonym byte = "8 word"
type_synonym u16 = "16 word"
type_synonym u32 = "32 word"
type_synonym u64 = "64 word"

datatype error =
    AssertFail
  | NiceExit
  | UndefinedBehaviour

type_synonym 'a res = "error + 'a"

named_theorems res_simps \<open>equations of the result type\<close>
named_theorems wire_simps \<open>lengths and layouts of messages\<close>
named_theorems table_simps \<open>equations of the table operations\<close>

section \<open>Code that can abort\<close>

definition rbind :: "'a res \<Rightarrow> ('a \<Rightarrow> 'b res) \<Rightarrow> 'b res" where
  "rbind m f = (case m of Inl e \<Rightarrow> Inl e | Inr x \<Rightarrow> f x)"

definition ensure :: "bool \<Rightarrow> 'a res \<Rightarrow> 'a res" where
  "ensure b m = (if b then m else Inl AssertFail)"

lemma rbind_simps [simp, res_simps]:
  "rbind (Inr x) f = f x"
  "rbind (Inl e) f = Inl e"
  by (simp_all add: rbind_def)

lemma rbind_eq_Inr [res_simps]: "rbind m f = Inr y \<longleftrightarrow> (\<exists>x. m = Inr x \<and> f x = Inr y)"
  by (cases m) auto

lemma rbind_eq_Inl [res_simps]:
  "rbind m f = Inl e \<longleftrightarrow> m = Inl e \<or> (\<exists>x. m = Inr x \<and> f x = Inl e)"
  by (cases m) auto

lemma rbind_cong [fundef_cong]:
  "m = m' \<Longrightarrow> (\<And>x. m' = Inr x \<Longrightarrow> f x = f' x) \<Longrightarrow> rbind m f = rbind m' f'"
  by (cases m') auto

lemma ensure_simps [simp, res_simps]:
  "ensure True m = m"
  "ensure False m = Inl AssertFail"
  by (simp_all add: ensure_def)

lemma ensure_eq_Inr [res_simps]: "ensure b m = Inr y \<longleftrightarrow> b \<and> m = Inr y"
  by (cases b) auto

lemma ensure_eq_Inl [res_simps]:
  "ensure b m = Inl e \<longleftrightarrow> (\<not> b \<and> e = AssertFail) \<or> (b \<and> m = Inl e)"
  by (cases b) auto

lemma ensure_cong [fundef_cong]: "b = b' \<Longrightarrow> (b' \<Longrightarrow> m = m') \<Longrightarrow> ensure b m = ensure b' m'"
  by (cases b') auto

text \<open>A loop over a list whose body can abort.\<close>

primrec rfold :: "('x \<Rightarrow> 's \<Rightarrow> 's res) \<Rightarrow> 'x list \<Rightarrow> 's \<Rightarrow> 's res" where
  "rfold f [] s = Inr s"
| "rfold f (x # xs) s = rbind (f x s) (rfold f xs)"

lemma rfold_append [simp]: "rfold f (xs @ ys) s = rbind (rfold f xs s) (rfold f ys)"
  by (induction xs arbitrary: s) (auto simp: rbind_def split: sum.splits)

lemma rfold_map: "rfold f (map g xs) s = rfold (f \<circ> g) xs s"
  by (induction xs arbitrary: s) (auto simp: rbind_def split: sum.splits)

text \<open>A relation between states that every step respects.\<close>

lemma rfold_related:
  assumes "rfold f xs s = Inr s'" "\<And>x s s'. f x s = Inr s' \<Longrightarrow> R s s'" "\<And>s. R s s"
    and "\<And>s1 s2 s3. R s1 s2 \<Longrightarrow> R s2 s3 \<Longrightarrow> R s1 s3"
  shows "R s s'"
  using assms(1) by (induction xs arbitrary: s) (auto simp: res_simps intro: assms(2-4))

text \<open>An invariant that every step keeps, and under which no step aborts.\<close>

lemma rfold_invariant:
  assumes "P s" "\<And>x s. x \<in> set xs \<Longrightarrow> P s \<Longrightarrow> \<exists>s'. f x s = Inr s' \<and> P s'"
  shows "\<exists>s'. rfold f xs s = Inr s' \<and> P s'"
  using assms
proof (induction xs arbitrary: s)
  case (Cons x xs)
  from Cons.prems obtain s1 where "f x s = Inr s1" "P s1" by (metis list.set_intros(1))
  with Cons.IH[of s1] Cons.prems(2) show ?case by (metis list.set_intros(2) rbind_simps(1) rfold.simps(2))
qed simp

section \<open>Integers in memory\<close>

text \<open>
  \<open>be32 w\<close> is the memory image of \<open>htonl(w)\<close>, \<open>be16 w\<close> that of \<open>htons(w)\<close>; \<open>rd_be32\<close> and
  \<open>rd_be16\<close> read them back (\<open>ntohl\<close>, \<open>ntohs\<close>). \<open>host32\<close> is the image of an integer copied with
  \<open>memcpy\<close>, on the little-endian machines the program runs on.
\<close>

definition be32 :: "u32 \<Rightarrow> byte list" where
  "be32 w = [ucast (drop_bit 24 w), ucast (drop_bit 16 w), ucast (drop_bit 8 w), ucast w]"

definition rd_be32 :: "byte list \<Rightarrow> u32" where
  "rd_be32 bs = push_bit 24 (ucast (bs ! 0)) OR push_bit 16 (ucast (bs ! 1))
      OR push_bit 8 (ucast (bs ! 2)) OR ucast (bs ! 3)"

definition be16 :: "u16 \<Rightarrow> byte list" where
  "be16 w = [ucast (drop_bit 8 w), ucast w]"

definition rd_be16 :: "byte list \<Rightarrow> u16" where
  "rd_be16 bs = push_bit 8 (ucast (bs ! 0)) OR ucast (bs ! 1)"

definition host32 :: "u32 \<Rightarrow> byte list" where
  "host32 w = [ucast w, ucast (drop_bit 8 w), ucast (drop_bit 16 w), ucast (drop_bit 24 w)]"

definition rd_host32 :: "byte list \<Rightarrow> u32" where
  "rd_host32 bs = rd_be32 [bs ! 3, bs ! 2, bs ! 1, bs ! 0]"

lemma length_be [simp, wire_simps]:
  "length (be32 w) = 4" "length (be16 v) = 2" "length (host32 w) = 4"
  by (simp_all add: be32_def be16_def host32_def)

lemma rd_be32_bytes:
  fixes w :: u32
  shows "push_bit 24 (ucast (ucast (drop_bit 24 w) :: byte)) OR
     push_bit 16 (ucast (ucast (drop_bit 16 w) :: byte)) OR
     push_bit 8 (ucast (ucast (drop_bit 8 w) :: byte)) OR
     ucast (ucast w :: byte) = w" (is "?l = w")
proof (rule bit_word_eqI)
  fix n assume n: "n < LENGTH(32)"
  consider "n < 8" | "8 \<le> n" "n < 16" | "16 \<le> n" "n < 24" | "24 \<le> n"
    by linarith
  then show "bit ?l n = bit w n"
    using n by cases (simp_all add: bit_simps, linarith+)
qed

lemma rd_be32_be32 [simp]: "rd_be32 (be32 w @ rest) = w"
  by (simp add: rd_be32_def be32_def rd_be32_bytes)

lemma rd_be32_be32' [simp]: "rd_be32 (be32 w) = w"
  using rd_be32_be32[of w "[]"] by simp

lemma rd_host32_host32 [simp]: "rd_host32 (host32 w @ rest) = w"
  by (simp add: rd_host32_def host32_def rd_be32_def rd_be32_bytes)

lemma rd_be16_be16 [simp]: "rd_be16 (be16 w @ rest) = w"
proof -
  have "push_bit 8 (ucast (ucast (drop_bit 8 w) :: byte)) OR ucast (ucast w :: byte) = w"
    by (rule bit_word_eqI) (auto simp: bit_simps not_le)
  then show ?thesis by (simp add: rd_be16_def be16_def)
qed

section \<open>Lists\<close>

lemma find_append: "find P (xs @ ys) = (case find P xs of None \<Rightarrow> find P ys | Some x \<Rightarrow> Some x)"
  by (induction xs) auto

lemma find_cong': "(\<And>x. x \<in> set xs \<Longrightarrow> P x = Q x) \<Longrightarrow> find P xs = find Q xs"
  by (induction xs) auto

text \<open>A search for a property that at most one element has does not depend on the order.\<close>

lemma find_mset_unique:
  assumes "mset xs = mset ys"
    and "\<And>x y. x \<in> set xs \<Longrightarrow> y \<in> set xs \<Longrightarrow> P x \<Longrightarrow> P y \<Longrightarrow> x = y"
  shows "find P xs = find P ys"
proof -
  have s: "set xs = set ys" using assms(1) by (rule mset_eq_setD)
  show ?thesis
  proof (cases "find P xs")
    case None
    then have "\<not> (\<exists>x\<in>set ys. P x)" by (simp add: find_None_iff s)
    then have "find P ys = None" by (auto simp: find_None_iff)
    with None show ?thesis by simp
  next
    case (Some x)
    then have x: "x \<in> set xs" "P x" by (auto simp: find_Some_iff)
    then have "find P ys \<noteq> None" using s by (auto simp: find_None_iff)
    then obtain y where y: "find P ys = Some y" by blast
    then have "y \<in> set ys" "P y" by (auto simp: find_Some_iff)
    then have "y = x" using assms(2) x s by blast
    with Some y show ?thesis by simp
  qed
qed

lemma concat_upd: "i < length xs \<Longrightarrow>
    mset (concat (xs[i := ys])) + mset (xs ! i) = mset (concat xs) + mset ys"
proof (induction xs arbitrary: i)
  case Nil
  then show ?case by simp
next
  case (Cons x xs)
  then show ?case by (cases i) (auto simp: ac_simps)
qed

lemma sum_list_nonneg_int: "(\<And>x. x \<in> set xs \<Longrightarrow> 0 \<le> (x::int)) \<Longrightarrow> 0 \<le> sum_list xs"
  by (induction xs) auto

lemma take_drop_split: "take n xs @ take m (drop n xs) = take (n + m) xs"
  by (simp add: take_add)

end
