(* ===== verification/Hashtable.thy ===== *)
theory Hashtable
  imports Prelude
begin

text \<open>
  The chained hash table that every cache and request table of the proxy is built on
  (waprox/hashtable.c, hashtable_private.h).

  The table is an array of chains; a chain is the list of its entries, head first. The outcome of
  each \<open>malloc\<close> and \<open>realloc\<close> is an argument (\<open>alloc\<close>), so that the out-of-memory branches are
  branches of the model. The lemmas show that the operations keep the representation invariant
  \<open>ht_invar\<close> and that, through \<open>hashtable_search\<close>, they behave as the operations of a finite map;
  the interface the other components use is the locale \<open>keyed_table\<close>.
\<close>

section \<open>Data\<close>

record ('k, 'v) entry =
  ent_k :: 'k
  ent_v :: 'v
  ent_h :: u32

record ('k, 'v) hashtable =
  tablelength :: u32
  table :: "('k, 'v) entry list list"
  entrycount :: u32
  loadlimit :: u32
  primeindex :: nat
  hashfn :: "'k \<Rightarrow> u32"
  eqfn :: "'k \<Rightarrow> 'k \<Rightarrow> bool"

definition primes :: "u32 list" where
  "primes = [53, 97, 193, 389, 769, 1543, 3079, 6151, 12289, 24593, 49157, 98317,
     196613, 393241, 786433, 1572869, 3145739, 6291469, 12582917, 25165843,
     50331653, 100663319, 201326611, 402653189, 805306457, 1610612741]"

definition prime_table_length :: nat where
  "prime_table_length = 26"

text \<open>Which allocations of a call succeed.\<close>

record alloc =
  ok_table :: bool
  ok_realloc :: bool
  ok_entry :: bool

definition alloc_ok :: alloc where
  "alloc_ok = \<lparr>ok_table = True, ok_realloc = True, ok_entry = True\<rparr>"

section \<open>Operations\<close>

text \<open>
  The load limit is \<open>(unsigned int) ceil(size * max_load_factor)\<close>, with \<open>max_load_factor\<close> the
  \<open>float\<close> nearest to 0.65, which is \<open>10905190 / 2 ^ 24\<close>. The product is a \<open>float\<close> product:
  \<open>f32_round\<close> rounds an integer significand to the 24 bits of a \<open>float\<close>, ties to even.
\<close>

fun f32_exp :: "nat \<Rightarrow> nat" where
  "f32_exp n = (if n < 2 ^ 24 then 0 else Suc (f32_exp (n div 2)))"

declare f32_exp.simps [simp del]

definition f32_round :: "nat \<Rightarrow> nat" where
  "f32_round n = (let e = f32_exp n; q = n div 2 ^ e; r = n mod 2 ^ e in
     if e = 0 then n
     else if r > 2 ^ (e - 1) \<or> (r = 2 ^ (e - 1) \<and> odd q) then (q + 1) * 2 ^ e
     else q * 2 ^ e)"

definition load_limit :: "u32 \<Rightarrow> u32" where
  "load_limit sz =
     of_nat ((f32_round (f32_round (unat sz) * 10905190) + (2 ^ 24 - 1)) div 2 ^ 24)"

definition indexFor :: "u32 \<Rightarrow> u32 \<Rightarrow> u32" where
  "indexFor tlen hashvalue = hashvalue mod tlen"

text \<open>The prime loop of \<open>create_hashtable\<close>: the first prime above \<open>minsize\<close> and its index.\<close>

fun find_prime :: "u32 list \<Rightarrow> nat \<Rightarrow> u32 \<Rightarrow> nat \<times> u32" where
  "find_prime [] pindex minsize = (pindex, primes ! 0)"
| "find_prime (p # ps) pindex minsize =
     (if p > minsize then (pindex, p) else find_prime ps (Suc pindex) minsize)"

definition create_hashtable ::
  "bool \<Rightarrow> bool \<Rightarrow> u32 \<Rightarrow> ('k \<Rightarrow> u32) \<Rightarrow> ('k \<Rightarrow> 'k \<Rightarrow> bool) \<Rightarrow> ('k, 'v) hashtable option" where
  "create_hashtable ok_h ok_t minsize hashf eqf =
     (if minsize > 2 ^ 30 then None
      else let (pindex, sz) = find_prime primes 0 minsize in
        if \<not> ok_h then None
        else if \<not> ok_t then None
        else Some \<lparr>tablelength = sz, table = replicate (unat sz) [], entrycount = 0,
                   loadlimit = load_limit sz, primeindex = pindex,
                   hashfn = hashf, eqfn = eqf\<rparr>)"

definition mix :: "u32 \<Rightarrow> u32" where
  "mix i0 = (let i1 = i0 + NOT (push_bit 9 i0);
                 i2 = i1 XOR (drop_bit 14 i1 OR push_bit 18 i1);
                 i3 = i2 + push_bit 4 i2;
                 i4 = i3 XOR (drop_bit 10 i3 OR push_bit 22 i3)
             in i4)"

definition hash :: "('k, 'v) hashtable \<Rightarrow> 'k \<Rightarrow> u32" where
  "hash h k = mix (hashfn h k)"

text \<open>
  Moving the entries of the old table: each chain is emptied from its head, and each entry is
  pushed on the head of its chain in the new table.
\<close>

fun move_chain :: "u32 \<Rightarrow> ('k, 'v) entry list \<Rightarrow> ('k, 'v) entry list list \<Rightarrow>
    ('k, 'v) entry list list" where
  "move_chain newsize [] nt = nt"
| "move_chain newsize (e # es) nt =
     (let index = unat (indexFor newsize (ent_h e)) in
      move_chain newsize es (nt[index := e # nt ! index]))"

fun move_table :: "u32 \<Rightarrow> ('k, 'v) entry list list \<Rightarrow> ('k, 'v) entry list list \<Rightarrow>
    ('k, 'v) entry list list" where
  "move_table newsize [] nt = nt"
| "move_table newsize (c # cs) nt = move_table newsize cs (move_chain newsize c nt)"

text \<open>
  When the new table cannot be allocated, the code tries \<open>realloc\<close>. Its \<open>memset\<close> is then called
  with \<open>newtable[tablelength]\<close>, an uninitialised cell of the grown table, as its destination.
\<close>

definition hashtable_expand :: "alloc \<Rightarrow> ('k, 'v) hashtable \<Rightarrow> (('k, 'v) hashtable \<times> bool) res" where
  "hashtable_expand a h =
     (if primeindex h = prime_table_length - 1 then Inr (h, False)
      else let pi = primeindex h + 1; newsize = primes ! pi in
        if ok_table a then
          Inr (h\<lparr>primeindex := pi,
                 table := move_table newsize (table h) (replicate (unat newsize) []),
                 tablelength := newsize,
                 loadlimit := load_limit newsize\<rparr>, True)
        else if \<not> ok_realloc a then Inr (h\<lparr>primeindex := pi - 1\<rparr>, False)
        else Inl UndefinedBehaviour)"

definition hashtable_count :: "('k, 'v) hashtable \<Rightarrow> u32" where
  "hashtable_count h = entrycount h"

definition hashtable_insert ::
  "alloc \<Rightarrow> ('k, 'v) hashtable \<Rightarrow> 'k \<Rightarrow> 'v \<Rightarrow> (('k, 'v) hashtable \<times> bool) res" where
  "hashtable_insert a h0 k v =
     (let h1 = h0\<lparr>entrycount := entrycount h0 + 1\<rparr> in
      rbind (if entrycount h1 > loadlimit h1 then
               rbind (hashtable_expand a h1) (\<lambda>(h2, _). Inr h2)
             else Inr h1)
        (\<lambda>h2. if \<not> ok_entry a then Inr (h2\<lparr>entrycount := entrycount h2 - 1\<rparr>, False)
               else let hv = hash h2 k;
                        index = unat (indexFor (tablelength h2) hv);
                        e = \<lparr>ent_k = k, ent_v = v, ent_h = hv\<rparr>
                    in Inr (h2\<lparr>table := (table h2)[index := e # table h2 ! index]\<rparr>, True)))"

fun chain_search :: "('k \<Rightarrow> 'k \<Rightarrow> bool) \<Rightarrow> u32 \<Rightarrow> 'k \<Rightarrow> ('k, 'v) entry list \<Rightarrow> 'v option" where
  "chain_search eq hv k [] = None"
| "chain_search eq hv k (e # es) =
     (if hv = ent_h e \<and> eq k (ent_k e) then Some (ent_v e) else chain_search eq hv k es)"

definition hashtable_search :: "('k, 'v) hashtable \<Rightarrow> 'k \<Rightarrow> 'v option" where
  "hashtable_search h k =
     (let hashvalue = hash h k; index = unat (indexFor (tablelength h) hashvalue) in
      chain_search (eqfn h) hashvalue k (table h ! index))"

fun chain_remove :: "('k \<Rightarrow> 'k \<Rightarrow> bool) \<Rightarrow> u32 \<Rightarrow> 'k \<Rightarrow> ('k, 'v) entry list \<Rightarrow>
    ('k, 'v) entry list \<times> 'v option" where
  "chain_remove eq hv k [] = ([], None)"
| "chain_remove eq hv k (e # es) =
     (if hv = ent_h e \<and> eq k (ent_k e) then (es, Some (ent_v e))
      else let (es', r) = chain_remove eq hv k es in (e # es', r))"

definition hashtable_remove :: "('k, 'v) hashtable \<Rightarrow> 'k \<Rightarrow> ('k, 'v) hashtable \<times> 'v option" where
  "hashtable_remove h k =
     (let hashvalue = hash h k;
          index = unat (indexFor (tablelength h) (hash h k));
          (c, r) = chain_remove (eqfn h) hashvalue k (table h ! index)
      in case r of
           None \<Rightarrow> (h, None)
         | Some v \<Rightarrow> (h\<lparr>table := (table h)[index := c], entrycount := entrycount h - 1\<rparr>, Some v))"

text \<open>
  \<open>hashtable_destroy\<close> frees each key and entry and, with \<open>free_values\<close>, each value: the model
  returns the keys and the values it frees, in the order of the frees.
\<close>

fun destroy_chain :: "bool \<Rightarrow> ('k, 'v) entry list \<Rightarrow> ('k \<times> 'v option) list" where
  "destroy_chain fv [] = []"
| "destroy_chain fv (e # es) = (ent_k e, if fv then Some (ent_v e) else None) # destroy_chain fv es"

definition hashtable_destroy :: "('k, 'v) hashtable \<Rightarrow> bool \<Rightarrow> ('k \<times> 'v option) list" where
  "hashtable_destroy h free_values = concat (map (destroy_chain free_values) (table h))"

section \<open>The representation invariant\<close>

definition ht_entries :: "('k, 'v) hashtable \<Rightarrow> ('k, 'v) entry list" where
  "ht_entries h = concat (table h)"

text \<open>Each entry carries the hash of its key and sits in the chain that hash selects.\<close>

definition chains_ok :: "('k \<Rightarrow> u32) \<Rightarrow> u32 \<Rightarrow> ('k, 'v) entry list list \<Rightarrow> bool" where
  "chains_ok hf tlen tab \<longleftrightarrow>
     (\<forall>i < length tab. \<forall>e \<in> set (tab ! i).
        ent_h e = mix (hf (ent_k e)) \<and> unat (indexFor tlen (ent_h e)) = i)"

definition ht_invar :: "('k, 'v) hashtable \<Rightarrow> bool" where
  "ht_invar h \<longleftrightarrow>
     primeindex h < prime_table_length \<and>
     tablelength h = primes ! primeindex h \<and>
     length (table h) = unat (tablelength h) \<and>
     loadlimit h = load_limit (tablelength h) \<and>
     entrycount h = of_nat (length (ht_entries h)) \<and>
     chains_ok (hashfn h) (tablelength h) (table h)"

text \<open>What a key type must satisfy: equal keys have equal hashes.\<close>

definition key_fns :: "('k \<Rightarrow> u32) \<Rightarrow> ('k \<Rightarrow> 'k \<Rightarrow> bool) \<Rightarrow> bool" where
  "key_fns hf eq \<longleftrightarrow> equivp eq \<and> (\<forall>a b. eq a b \<longrightarrow> hf a = hf b)"

text \<open>No two entries have equal keys (the comment of \<open>hashtable_insert\<close> asks for it).\<close>

definition nodup :: "('k \<Rightarrow> 'k \<Rightarrow> bool) \<Rightarrow> ('k, 'v) entry list \<Rightarrow> bool" where
  "nodup eq es \<longleftrightarrow> (\<forall>e \<in> set es. length (filter (\<lambda>e'. eq (ent_k e) (ent_k e')) es) = 1)"

lemma key_fnsD:
  assumes "key_fns hf eq"
  shows "eq a a" "eq a b \<Longrightarrow> eq b a" "eq a b \<Longrightarrow> eq b c \<Longrightarrow> eq a c" "eq a b \<Longrightarrow> hf a = hf b"
  using assms unfolding key_fns_def
  by (blast dest: equivp_reflp equivp_symp equivp_transp)+

lemma length_primes [simp]: "length primes = prime_table_length"
  by (simp add: primes_def prime_table_length_def)

lemma primes_props:
  assumes "i < prime_table_length"
  shows "0 < primes ! i" and "53 \<le> primes ! i"
proof -
  have *: "\<forall>p \<in> set primes. 0 < p \<and> 53 \<le> p" by (simp add: primes_def)
  have "primes ! i \<in> set primes"
    using assms by (intro nth_mem) simp
  with * show "0 < primes ! i" "53 \<le> primes ! i" by blast+
qed

lemma indexFor_less: "0 < tlen \<Longrightarrow> unat (indexFor tlen hv) < unat tlen"
  by (simp add: indexFor_def unat_mod word_less_nat_alt)

lemma ht_invar_index:
  "ht_invar h \<Longrightarrow> unat (indexFor (tablelength h) hv) < length (table h)"
  using indexFor_less primes_props(1) by (fastforce simp: ht_invar_def)

lemma chains_okD:
  "chains_ok hf tlen tab \<Longrightarrow> i < length tab \<Longrightarrow> e \<in> set (tab ! i) \<Longrightarrow>
     ent_h e = mix (hf (ent_k e)) \<and> unat (indexFor tlen (ent_h e)) = i"
  unfolding chains_ok_def by blast

lemma chains_okI:
  "(\<And>i e. i < length tab \<Longrightarrow> e \<in> set (tab ! i) \<Longrightarrow>
      ent_h e = mix (hf (ent_k e)) \<and> unat (indexFor tlen (ent_h e)) = i) \<Longrightarrow>
   chains_ok hf tlen tab"
  unfolding chains_ok_def by blast

lemma chains_ok_entry:
  assumes "chains_ok hf tlen tab" "e \<in> set (concat tab)"
  shows "ent_h e = mix (hf (ent_k e))"
proof -
  obtain c where "c \<in> set tab" "e \<in> set c" using assms(2) by auto
  then obtain i where "i < length tab" "e \<in> set (tab ! i)" by (auto simp: in_set_conv_nth)
  then show ?thesis using chains_okD[OF assms(1)] by blast
qed

lemma chains_ok_replicate [simp]: "chains_ok hf tlen (replicate n [])"
  by (simp add: chains_ok_def)

lemma chains_ok_push:
  assumes "chains_ok hf tlen tab" "ent_h e = mix (hf (ent_k e))" "i = unat (indexFor tlen (ent_h e))"
  shows "chains_ok hf tlen (tab[i := e # tab ! i])"
proof (rule chains_okI)
  fix j e' assume j: "j < length (tab[i := e # tab ! i])" "e' \<in> set (tab[i := e # tab ! i] ! j)"
  then consider "j = i" "e' = e" | "e' \<in> set (tab ! j)"
    by (cases "j = i") auto
  then show "ent_h e' = mix (hf (ent_k e')) \<and> unat (indexFor tlen (ent_h e')) = j"
    using assms(2,3) chains_okD[OF assms(1), of j e'] j(1) by cases auto
qed

lemma chains_ok_shrink:
  assumes "chains_ok hf tlen tab" "set c \<subseteq> set (tab ! i)"
  shows "chains_ok hf tlen (tab[i := c])"
proof (rule chains_okI)
  fix j e assume j: "j < length (tab[i := c])" "e \<in> set (tab[i := c] ! j)"
  then have "e \<in> set (tab ! j)" using assms(2) by (cases "j = i") auto
  moreover have "j < length tab" using j(1) by simp
  ultimately show "ent_h e = mix (hf (ent_k e)) \<and> unat (indexFor tlen (ent_h e)) = j"
    using chains_okD[OF assms(1)] by blast
qed

section \<open>Searching a chain and searching all entries\<close>

lemma chain_search_find:
  "chain_search eq hv k c = map_option ent_v (find (\<lambda>e. hv = ent_h e \<and> eq k (ent_k e)) c)"
  by (induction c) auto

lemma find_concat_other:
  assumes "\<And>c x. c \<in> set cs \<Longrightarrow> x \<in> set c \<Longrightarrow> \<not> P x"
  shows "find P (concat cs) = None"
  using assms by (auto simp: find_None_iff)

lemma find_concat_nth:
  assumes "i < length tab" and "\<And>j x. j < length tab \<Longrightarrow> j \<noteq> i \<Longrightarrow> x \<in> set (tab ! j) \<Longrightarrow> \<not> P x"
  shows "find P (concat tab) = find P (tab ! i)"
proof -
  have "concat tab = concat (take i tab) @ tab ! i @ concat (drop (Suc i) tab)"
    using assms(1) by (metis concat.simps(2) concat_append id_take_nth_drop)
  moreover have "find P (concat (take i tab)) = None"
  proof (rule find_concat_other)
    fix c x assume "c \<in> set (take i tab)" "x \<in> set c"
    then obtain j where "j < i" "c = tab ! j" by (auto simp: in_set_conv_nth)
    then show "\<not> P x" using assms \<open>x \<in> set c\<close> by (metis less_trans nat_neq_iff)
  qed
  moreover have "find P (concat (drop (Suc i) tab)) = None"
  proof (rule find_concat_other)
    fix c x assume "c \<in> set (drop (Suc i) tab)" "x \<in> set c"
    then obtain j where "j < length (drop (Suc i) tab)" "c = drop (Suc i) tab ! j"
      by (auto simp only: in_set_conv_nth)
    then have "Suc i + j < length tab" "c = tab ! (Suc i + j)" by auto
    then show "\<not> P x" using assms(2)[of "Suc i + j" x] \<open>x \<in> set c\<close> by simp
  qed
  ultimately show ?thesis by (simp add: find_append split: option.split)
qed

text \<open>The bucket search finds what a search of all entries by key finds.\<close>

lemma hashtable_search_find:
  assumes "ht_invar h" "key_fns (hashfn h) (eqfn h)"
  shows "hashtable_search h k = map_option ent_v (find (\<lambda>e. eqfn h k (ent_k e)) (ht_entries h))"
proof -
  let ?i = "unat (indexFor (tablelength h) (hash h k))"
  have ok: "chains_ok (hashfn h) (tablelength h) (table h)" and i: "?i < length (table h)"
    using assms(1) ht_invar_index[OF assms(1)] unfolding ht_invar_def by blast+
  have m: "ent_h e = hash h k \<and> j = ?i"
    if "j < length (table h)" "e \<in> set (table h ! j)" "eqfn h k (ent_k e)" for j e
    using chains_okD[OF ok that(1,2)] key_fnsD(4)[OF assms(2) that(3)] by (auto simp: hash_def)
  have "find (\<lambda>e. hash h k = ent_h e \<and> eqfn h k (ent_k e)) (table h ! ?i) =
        find (\<lambda>e. eqfn h k (ent_k e)) (table h ! ?i)"
    using m[OF i] by (intro find_cong') metis
  also have "\<dots> = find (\<lambda>e. eqfn h k (ent_k e)) (concat (table h))"
    using m i by (intro find_concat_nth[symmetric]) blast+
  finally show ?thesis
    by (simp add: hashtable_search_def Let_def chain_search_find ht_entries_def)
qed

lemma nodup_unique:
  assumes "nodup eq es" "key_fns hf eq" "x \<in> set es" "y \<in> set es"
    and "eq k (ent_k x)" "eq k (ent_k y)"
  shows "x = y"
proof -
  have "eq (ent_k x) (ent_k x)" "eq (ent_k x) (ent_k y)"
    using assms(2,5,6) key_fnsD by meson+
  then have "x \<in> set (filter (\<lambda>e'. eq (ent_k x) (ent_k e')) es)"
    "y \<in> set (filter (\<lambda>e'. eq (ent_k x) (ent_k e')) es)" using assms(3,4) by auto
  moreover obtain z where "filter (\<lambda>e'. eq (ent_k x) (ent_k e')) es = [z]"
    using assms(1,3) by (auto simp: nodup_def length_Suc_conv)
  ultimately show ?thesis by (metis empty_iff empty_set set_ConsD)
qed

lemma nodup_mset: "mset es = mset es' \<Longrightarrow> nodup eq es \<Longrightarrow> nodup eq es'"
  unfolding nodup_def by (metis mset_eq_setD mset_filter size_mset)

text \<open>Two tables with the same entries, in whatever chains, answer every search alike.\<close>

lemma hashtable_search_mset:
  assumes "ht_invar h" "ht_invar h'" "key_fns (hashfn h) (eqfn h)"
    and "hashfn h' = hashfn h" "eqfn h' = eqfn h" "nodup (eqfn h) (ht_entries h)"
    and "mset (ht_entries h') = mset (ht_entries h)"
  shows "hashtable_search h' k = hashtable_search h k"
proof -
  have "find (\<lambda>e. eqfn h k (ent_k e)) (ht_entries h) = find (\<lambda>e. eqfn h k (ent_k e)) (ht_entries h')"
    using assms(3,6,7) nodup_unique by (intro find_mset_unique) (fastforce dest: mset_eq_setD)+
  with assms show ?thesis by (simp add: hashtable_search_find)
qed

section \<open>The operations keep the invariant and refine a finite map\<close>

lemma move_chain_props:
  assumes "0 < newsize" "length nt = unat newsize" "chains_ok hf newsize nt"
    and "\<And>e. e \<in> set c \<Longrightarrow> ent_h e = mix (hf (ent_k e))"
  shows "length (move_chain newsize c nt) = length nt \<and>
     chains_ok hf newsize (move_chain newsize c nt) \<and>
     mset (concat (move_chain newsize c nt)) = mset c + mset (concat nt)"
  using assms
proof (induction newsize c nt rule: move_chain.induct)
  case (1 newsize nt)
  then show ?case by simp
next
  case (2 newsize e es nt)
  let ?i = "unat (indexFor newsize (ent_h e))" and ?nt = "nt[unat (indexFor newsize (ent_h e)) :=
    e # nt ! unat (indexFor newsize (ent_h e))]"
  have i: "?i < length nt" using indexFor_less 2(2,3) by simp
  have "chains_ok hf newsize ?nt" using 2(4,5) by (intro chains_ok_push) auto
  then have "length (move_chain newsize es ?nt) = length nt \<and>
     chains_ok hf newsize (move_chain newsize es ?nt) \<and>
     mset (concat (move_chain newsize es ?nt)) = mset es + mset (concat ?nt)"
    using 2 by simp
  moreover have "mset (concat ?nt) = add_mset e (mset (concat nt))"
    using concat_upd[OF i, of "e # nt ! ?i"] by simp
  ultimately show ?case by (simp add: Let_def)
qed

lemma move_table_props:
  assumes "0 < newsize" "length nt = unat newsize" "chains_ok hf newsize nt"
    and "\<And>e. e \<in> set (concat tab) \<Longrightarrow> ent_h e = mix (hf (ent_k e))"
  shows "length (move_table newsize tab nt) = length nt \<and>
     chains_ok hf newsize (move_table newsize tab nt) \<and>
     mset (concat (move_table newsize tab nt)) = mset (concat tab) + mset (concat nt)"
  using assms
proof (induction newsize tab nt rule: move_table.induct)
  case (1 newsize nt)
  then show ?case by simp
next
  case (2 newsize c cs nt)
  have "length (move_chain newsize c nt) = length nt \<and>
     chains_ok hf newsize (move_chain newsize c nt) \<and>
     mset (concat (move_chain newsize c nt)) = mset c + mset (concat nt)"
    using 2(2-5) by (intro move_chain_props) auto
  then show ?case using 2 by simp
qed

lemma ht_invar_entry: "ht_invar h \<Longrightarrow> e \<in> set (concat (table h)) \<Longrightarrow> ent_h e = mix (hashfn h (ent_k e))"
  by (rule chains_ok_entry) (auto simp: ht_invar_def)

text \<open>Growing the table changes no entry; only the entry count may differ from the entries then
  (\<open>hashtable_insert\<close> counts the new entry before it grows the table).\<close>

definition ht_shape :: "('k, 'v) hashtable \<Rightarrow> bool" where
  "ht_shape h \<longleftrightarrow> ht_invar (h\<lparr>entrycount := of_nat (length (ht_entries h))\<rparr>)"

lemma hashtable_expand_props:
  assumes "ht_shape h" "hashtable_expand a h = Inr (h', r)"
  shows "ht_shape h' \<and> mset (ht_entries h') = mset (ht_entries h) \<and>
    entrycount h' = entrycount h \<and> hashfn h' = hashfn h \<and> eqfn h' = eqfn h"
proof (cases "primeindex h = prime_table_length - 1 \<or> \<not> ok_table a")
  case True
  with assms show ?thesis
    by (auto simp: hashtable_expand_def Let_def split: if_splits)
next
  case False
  let ?n = "primes ! Suc (primeindex h)"
  have pi: "Suc (primeindex h) < prime_table_length"
    using assms(1) False by (auto simp: ht_shape_def ht_invar_def)
  have *: "length (move_table ?n (table h) (replicate (unat ?n) [])) = unat ?n \<and>
     chains_ok (hashfn h) ?n (move_table ?n (table h) (replicate (unat ?n) [])) \<and>
     mset (concat (move_table ?n (table h) (replicate (unat ?n) []))) = mset (concat (table h))"
    using move_table_props[of ?n "replicate (unat ?n) []" "hashfn h" "table h"] primes_props(1)[OF pi]
      assms(1) chains_ok_entry by (fastforce simp: ht_shape_def ht_invar_def)
  from False assms(2) have h': "h' = h\<lparr>primeindex := Suc (primeindex h),
      table := move_table ?n (table h) (replicate (unat ?n) []), tablelength := ?n,
      loadlimit := load_limit ?n\<rparr>"
    by (auto simp: hashtable_expand_def Let_def split: if_splits)
  show ?thesis
    using * pi by (simp add: h' ht_shape_def ht_invar_def ht_entries_def)
qed

lemma ht_invar_shape: "ht_invar h \<Longrightarrow> ht_shape (h\<lparr>entrycount := n\<rparr>)"
  by (auto simp: ht_shape_def ht_invar_def ht_entries_def)

text \<open>The state in which \<open>hashtable_insert\<close> links the new entry.\<close>

lemma insert_prepared:
  assumes "ht_invar h"
    and "(if entrycount h + 1 > loadlimit h then
            rbind (hashtable_expand a (h\<lparr>entrycount := entrycount h + 1\<rparr>)) (\<lambda>(h2, _). Inr h2)
          else Inr (h\<lparr>entrycount := entrycount h + 1\<rparr>)) = Inr h2"
  shows "ht_shape h2 \<and> mset (ht_entries h2) = mset (ht_entries h) \<and>
    entrycount h2 = entrycount h + 1 \<and> hashfn h2 = hashfn h \<and> eqfn h2 = eqfn h"
proof (cases "entrycount h + 1 > loadlimit h")
  case True
  with assms(2) obtain r where r: "hashtable_expand a (h\<lparr>entrycount := entrycount h + 1\<rparr>) = Inr (h2, r)"
    by (auto simp: res_simps)
  show ?thesis
    using hashtable_expand_props[OF ht_invar_shape[OF assms(1)] r] by (simp add: ht_entries_def)
next
  case False
  with assms show ?thesis by (auto simp: ht_entries_def intro: ht_invar_shape)
qed

lemma hashtable_insert_props:
  assumes "ht_invar h" "hashtable_insert a h k v = Inr (h', r)"
  shows "ht_invar h' \<and> hashfn h' = hashfn h \<and> eqfn h' = eqfn h \<and> r = ok_entry a \<and>
    mset (ht_entries h') =
      (if r then add_mset \<lparr>ent_k = k, ent_v = v, ent_h = hash h k\<rparr> (mset (ht_entries h))
       else mset (ht_entries h))"
proof -
  from assms(2) obtain h2 where
    h2: "(if entrycount h + 1 > loadlimit h then
            rbind (hashtable_expand a (h\<lparr>entrycount := entrycount h + 1\<rparr>)) (\<lambda>(h2, _). Inr h2)
          else Inr (h\<lparr>entrycount := entrycount h + 1\<rparr>)) = Inr h2"
    and r: "(if \<not> ok_entry a then Inr (h2\<lparr>entrycount := entrycount h2 - 1\<rparr>, False)
       else let hv = hash h2 k; index = unat (indexFor (tablelength h2) hv);
                e = \<lparr>ent_k = k, ent_v = v, ent_h = hv\<rparr>
            in Inr (h2\<lparr>table := (table h2)[index := e # table h2 ! index]\<rparr>, True)) = (Inr (h', r) :: _ res)"
    by (auto simp: hashtable_insert_def Let_def rbind_eq_Inr)
  note p = insert_prepared[OF assms(1) h2]
  have len: "length (ht_entries h2) = length (ht_entries h)" using p by (metis size_mset)
  have cnt: "entrycount h = of_nat (length (ht_entries h))" using assms(1) by (simp add: ht_invar_def)
  show ?thesis
  proof (cases "ok_entry a")
    case False
    with r p len cnt show ?thesis by (auto simp: ht_shape_def ht_entries_def)
  next
    case True
    let ?e = "\<lparr>ent_k = k, ent_v = v, ent_h = hash h2 k\<rparr>"
    let ?i = "unat (indexFor (tablelength h2) (hash h2 k))"
    have i: "?i < length (table h2)"
      using p ht_invar_index[of "h2\<lparr>entrycount := of_nat (length (ht_entries h2))\<rparr>"]
      by (auto simp: ht_shape_def)
    have hh: "hash h2 k = hash h k" using p by (simp add: hash_def)
    have ms: "mset (concat ((table h2)[?i := ?e # table h2 ! ?i])) = add_mset ?e (mset (ht_entries h2))"
      using concat_upd[OF i, of "?e # table h2 ! ?i"] by (simp add: ht_entries_def)
    then have sz: "length (concat ((table h2)[?i := ?e # table h2 ! ?i])) = Suc (length (ht_entries h))"
      using len by (metis size_add_mset size_mset)
    have "chains_ok (hashfn h2) (tablelength h2) ((table h2)[?i := ?e # table h2 ! ?i])"
      using p by (intro chains_ok_push) (auto simp: ht_shape_def ht_invar_def hash_def)
    with True r p ms sz cnt hh show ?thesis
      by (auto simp: ht_shape_def ht_invar_def ht_entries_def Let_def add.commute)
  qed
qed

lemma chain_remove_props:
  "chain_remove eq hv k c = (c', r) \<Longrightarrow>
     (case find (\<lambda>e. hv = ent_h e \<and> eq k (ent_k e)) c of
        None \<Rightarrow> r = None \<and> c' = c
      | Some e \<Rightarrow> r = Some (ent_v e) \<and> mset c = add_mset e (mset c'))"
proof (induction c arbitrary: c')
  case Nil
  then show ?case by simp
next
  case (Cons e es)
  obtain es' r' where "chain_remove eq hv k es = (es', r')" by fastforce
  with Cons show ?case by (auto split: if_splits option.splits)
qed

lemma hashtable_remove_props:
  assumes "ht_invar h" "key_fns (hashfn h) (eqfn h)" "hashtable_remove h k = (h', r)"
  shows "ht_invar h' \<and> hashfn h' = hashfn h \<and> eqfn h' = eqfn h \<and> r = hashtable_search h k \<and>
    (case r of None \<Rightarrow> h' = h
     | Some v \<Rightarrow> (\<exists>e. eqfn h k (ent_k e) \<and> ent_v e = v \<and>
          mset (ht_entries h) = add_mset e (mset (ht_entries h'))))"
proof -
  let ?i = "unat (indexFor (tablelength h) (hash h k))"
  obtain c q where c: "chain_remove (eqfn h) (hash h k) k (table h ! ?i) = (c, q)" by fastforce
  have i: "?i < length (table h)" using assms(1) by (rule ht_invar_index)
  have s: "hashtable_search h k =
      map_option ent_v (find (\<lambda>e. hash h k = ent_h e \<and> eqfn h k (ent_k e)) (table h ! ?i))"
    by (simp add: hashtable_search_def Let_def chain_search_find)
  show ?thesis
  proof (cases "find (\<lambda>e. hash h k = ent_h e \<and> eqfn h k (ent_k e)) (table h ! ?i)")
    case None
    with chain_remove_props[OF c] assms(1,3) c s show ?thesis
      by (auto simp: hashtable_remove_def Let_def)
  next
    case (Some e)
    with chain_remove_props[OF c] have q: "q = Some (ent_v e)"
      and m: "mset (table h ! ?i) = add_mset e (mset c)" by auto
    from Some have e: "eqfn h k (ent_k e)" by (auto simp: find_Some_iff)
    from q assms(3) c have h': "h' = h\<lparr>table := (table h)[?i := c], entrycount := entrycount h - 1\<rparr>"
      and r: "r = Some (ent_v e)"
      by (auto simp: hashtable_remove_def Let_def)
    have ms: "mset (ht_entries h) = add_mset e (mset (concat ((table h)[?i := c])))"
      using concat_upd[OF i, of c] m by (simp add: ht_entries_def)
    then have len: "length (ht_entries h) = Suc (length (concat ((table h)[?i := c])))"
      by (metis size_add_mset size_mset)
    have "set c \<subseteq> set (table h ! ?i)" using m
      by (metis set_mset_add_mset_insert set_mset_mset subset_insertI)
    then have "chains_ok (hashfn h) (tablelength h) ((table h)[?i := c])"
      using assms(1) by (intro chains_ok_shrink) (auto simp: ht_invar_def)
    then have "ht_invar h'"
      using assms(1) len by (auto simp: h' ht_invar_def ht_entries_def)
    moreover have "mset (ht_entries h) = add_mset e (mset (ht_entries h'))"
      using ms by (simp add: h' ht_entries_def)
    ultimately show ?thesis using e r s Some by (auto simp: h')
  qed
qed

lemma hashtable_insert_alloc_ok: "\<exists>h'. hashtable_insert alloc_ok h k v = Inr (h', True)"
  by (auto simp: hashtable_insert_def hashtable_expand_def alloc_ok_def Let_def)

text \<open>The table after an insertion whose allocations succeed.\<close>

definition ht_put :: "('k, 'v) hashtable \<Rightarrow> 'k \<Rightarrow> 'v \<Rightarrow> ('k, 'v) hashtable" where
  "ht_put h k v = (case hashtable_insert alloc_ok h k v of Inr (h', _) \<Rightarrow> h' | Inl _ \<Rightarrow> h)"

lemma hashtable_insert_ht_put: "hashtable_insert alloc_ok h k v = Inr (ht_put h k v, True)"
  using hashtable_insert_alloc_ok[of h k v] by (auto simp: ht_put_def)

section \<open>The interface of the tables\<close>

text \<open>
  What the caches and request tables rely on: a finite map from keys (up to \<open>same\<close>) to values,
  with a count. \<open>store s k v\<close> is used for a key that is not in the table.
\<close>

locale keyed_table =
  fixes invar :: "'s \<Rightarrow> bool"
    and look :: "'s \<Rightarrow> 'k \<Rightarrow> 'v option"
    and store :: "'s \<Rightarrow> 'k \<Rightarrow> 'v \<Rightarrow> 's"
    and drop_key :: "'s \<Rightarrow> 'k \<Rightarrow> 's \<times> 'v option"
    and count :: "'s \<Rightarrow> u32"
    and same :: "'k \<Rightarrow> 'k \<Rightarrow> bool"
  assumes same_refl: "same k k"
    and same_sym: "same k k' \<Longrightarrow> same k' k"
    and same_trans: "same k k' \<Longrightarrow> same k' k'' \<Longrightarrow> same k k''"
    and look_same: "invar s \<Longrightarrow> same k k' \<Longrightarrow> look s k = look s k'"
    and invar_store: "invar s \<Longrightarrow> look s k = None \<Longrightarrow> invar (store s k v)"
    and look_store: "invar s \<Longrightarrow> look s k = None \<Longrightarrow>
        look (store s k v) k' = (if same k' k then Some v else look s k')"
    and count_store: "invar s \<Longrightarrow> count (store s k v) = count s + 1"
    and invar_drop: "invar s \<Longrightarrow> invar (fst (drop_key s k))"
    and result_drop: "invar s \<Longrightarrow> snd (drop_key s k) = look s k"
    and look_drop: "invar s \<Longrightarrow>
        look (fst (drop_key s k)) k' = (if same k' k then None else look s k')"
    and count_drop: "invar s \<Longrightarrow>
        count (fst (drop_key s k)) = (if look s k = None then count s else count s - 1)"
begin

lemmas table_laws = invar_store look_store count_store invar_drop result_drop look_drop count_drop

lemma drop_store_same:
  assumes "invar s" "look s k = None"
  shows "look (fst (drop_key (store s k v) k)) k' = look s k'"
    and "snd (drop_key (store s k v) k) = Some v"
    and "count (fst (drop_key (store s k v) k)) = count s"
  using assms look_same[of s k' k] same_refl by (auto simp: table_laws)

lemma store_commute:
  assumes "invar s" "look s k = None" "look s k' = None" "\<not> same k k'"
  shows "look (store (store s k v) k' v') j = look (store (store s k' v') k v) j"
proof -
  have "\<not> same k' k" using assms(4) same_sym by blast
  then have "look (store s k v) k' = None" "look (store s k' v') k = None"
    using assms by (simp_all add: table_laws)
  moreover have "\<not> (same j k \<and> same j k')"
    using assms(4) same_sym same_trans by blast
  ultimately show ?thesis using assms by (auto simp: table_laws)
qed

text \<open>A sequence of insertions of fresh, pairwise different keys.\<close>

definition store_all :: "'s \<Rightarrow> ('k \<times> 'v) list \<Rightarrow> 's" where
  "store_all s kvs = fold (\<lambda>(k, v) t. store t k v) kvs s"

lemma store_all_props:
  assumes "invar s" "\<And>k v. (k, v) \<in> set kvs \<Longrightarrow> look s k = None"
    and "sorted_wrt (\<lambda>a b. \<not> same (fst b) (fst a)) kvs"
  shows "invar (store_all s kvs) \<and> count (store_all s kvs) = count s + of_nat (length kvs) \<and>
    (\<forall>k v. (k, v) \<in> set kvs \<longrightarrow> look (store_all s kvs) k = Some v) \<and>
    (\<forall>k. (\<forall>(k', v) \<in> set kvs. \<not> same k k') \<longrightarrow> look (store_all s kvs) k = look s k)"
  using assms
proof (induction kvs arbitrary: s)
  case Nil
  then show ?case by (simp add: store_all_def)
next
  case (Cons kv kvs)
  obtain k v where kv: "kv = (k, v)" by fastforce
  let ?s = "store s k v"
  have k: "look s k = None" using Cons.prems(2) kv by auto
  have inv: "invar ?s" using Cons.prems(1) k by (rule invar_store)
  have fresh: "\<And>k' v'. (k', v') \<in> set kvs \<Longrightarrow> look ?s k' = None"
    using Cons.prems kv k by (auto simp: look_store)
  have sorted: "sorted_wrt (\<lambda>a b. \<not> same (fst b) (fst a)) kvs" using Cons.prems(3) by simp
  have old: "\<forall>(k', v') \<in> set kvs. \<not> same k k'"
    using Cons.prems(3) kv same_sym by fastforce
  have eq: "store_all s ((k, v) # kvs) = store_all ?s kvs" by (simp add: store_all_def)
  note IH = Cons.IH[OF inv fresh sorted]
  have lk: "look (store_all ?s kvs) k = Some v"
    using IH old Cons.prems(1) k by (simp add: look_store same_refl)
  show ?case
    using IH lk Cons.prems(1) k unfolding kv eq by (auto simp: table_laws)
qed

end

text \<open>
  The tables of the program instantiate it: the invariant is the representation invariant, no
  duplicate keys, and the key functions the table was created with.
\<close>

definition ht_good :: "('k \<Rightarrow> u32) \<Rightarrow> ('k \<Rightarrow> 'k \<Rightarrow> bool) \<Rightarrow> ('k, 'v) hashtable \<Rightarrow> bool" where
  "ht_good hf eq h \<longleftrightarrow> ht_invar h \<and> hashfn h = hf \<and> eqfn h = eq \<and> nodup eq (ht_entries h)"

lemma ht_good_find:
  assumes "ht_good hf eq h" "key_fns hf eq"
  shows "hashtable_search h k = map_option ent_v (find (\<lambda>e. eq k (ent_k e)) (ht_entries h))"
  using assms hashtable_search_find by (fastforce simp: ht_good_def)

lemma find_eq_cong:
  assumes "key_fns hf eq" "eq k k'"
  shows "find (\<lambda>e. eq k (ent_k e)) es = find (\<lambda>e. eq k' (ent_k e)) es"
  using assms by (intro find_cong') (meson key_fnsD(2,3))

lemma nodup_add:
  assumes "key_fns hf eq" "nodup eq es" "\<And>e. e \<in> set es \<Longrightarrow> \<not> eq (ent_k x) (ent_k e)"
  shows "nodup eq (x # es)"
proof -
  have "\<not> eq (ent_k e) (ent_k x)" if "e \<in> set es" for e
    using assms(3)[OF that] key_fnsD(2)[OF assms(1)] by blast
  moreover have "filter (\<lambda>e'. eq (ent_k x) (ent_k e')) es = []"
    using assms(3) by (simp add: filter_empty_conv)
  ultimately show ?thesis
    using assms(2) key_fnsD(1)[OF assms(1)] by (simp add: nodup_def)
qed

lemma nodup_del:
  assumes "key_fns hf eq" "nodup eq (x # es)"
  shows "nodup eq es" "\<And>e. e \<in> set es \<Longrightarrow> \<not> eq (ent_k x) (ent_k e)"
proof -
  show *: "\<not> eq (ent_k x) (ent_k e)" if "e \<in> set es" for e
    using assms that key_fnsD(1)[OF assms(1)] unfolding nodup_def
    by (auto simp: filter_empty_conv)
  have "\<not> eq (ent_k e) (ent_k x)" if "e \<in> set es" for e
    using *[OF that] key_fnsD(2)[OF assms(1)] by blast
  then show "nodup eq es" using assms(2) by (simp add: nodup_def)
qed

lemma ht_good_put:
  assumes "ht_good hf eq h" "key_fns hf eq" "hashtable_search h k = None"
  shows "ht_good hf eq (ht_put h k v)"
    and "hashtable_search (ht_put h k v) k' = (if eq k' k then Some v else hashtable_search h k')"
proof -
  let ?e = "\<lparr>ent_k = k, ent_v = v, ent_h = hash h k\<rparr>"
  have p: "ht_invar (ht_put h k v)" "hashfn (ht_put h k v) = hf" "eqfn (ht_put h k v) = eq"
    and ms: "mset (ht_entries (ht_put h k v)) = mset (?e # ht_entries h)"
    using hashtable_insert_props[OF _ hashtable_insert_ht_put[of h k v]] assms(1)
    by (auto simp: ht_good_def)
  have "\<not> eq k (ent_k e)" if "e \<in> set (ht_entries h)" for e
    using assms(3) that ht_good_find[OF assms(1,2)] by (auto simp: find_None_iff)
  then have nd: "nodup eq (?e # ht_entries h)"
    using assms(1,2) by (intro nodup_add) (auto simp: ht_good_def)
  then show g: "ht_good hf eq (ht_put h k v)"
    using p nodup_mset[OF ms[symmetric]] by (simp add: ht_good_def)
  have "find (\<lambda>e. eq k' (ent_k e)) (ht_entries (ht_put h k v)) =
        find (\<lambda>e. eq k' (ent_k e)) (?e # ht_entries h)"
    using nodup_unique[OF _ assms(2)] g ms
    by (intro find_mset_unique) (auto simp: ht_good_def)
  then show "hashtable_search (ht_put h k v) k' = (if eq k' k then Some v else hashtable_search h k')"
    by (simp add: ht_good_find[OF g assms(2)] ht_good_find[OF assms(1,2)])
qed

lemma ht_good_count_put:
  assumes "ht_good hf eq h"
  shows "hashtable_count (ht_put h k v) = hashtable_count h + 1"
proof -
  have p: "ht_invar (ht_put h k v)"
    and ms: "mset (ht_entries (ht_put h k v)) =
       add_mset \<lparr>ent_k = k, ent_v = v, ent_h = hash h k\<rparr> (mset (ht_entries h))"
    using hashtable_insert_props[OF _ hashtable_insert_ht_put[of h k v]] assms
    by (auto simp: ht_good_def)
  from ms have "length (ht_entries (ht_put h k v)) = Suc (length (ht_entries h))"
    by (metis size_add_mset size_mset)
  with p assms show ?thesis by (simp add: hashtable_count_def ht_good_def ht_invar_def)
qed

lemma ht_good_remove:
  assumes "ht_good hf eq h" "key_fns hf eq"
  shows "ht_good hf eq (fst (hashtable_remove h k))"
    and "snd (hashtable_remove h k) = hashtable_search h k"
    and "hashtable_search (fst (hashtable_remove h k)) k' =
           (if eq k' k then None else hashtable_search h k')"
    and "hashtable_count (fst (hashtable_remove h k)) =
           (if hashtable_search h k = None then hashtable_count h else hashtable_count h - 1)"
proof -
  obtain h' r where hr: "hashtable_remove h k = (h', r)" by fastforce
  have i: "ht_invar h" "key_fns (hashfn h) (eqfn h)" and nd: "nodup eq (ht_entries h)"
    and eqs: "hashfn h = hf" "eqfn h = eq"
    using assms by (auto simp: ht_good_def)
  note p = hashtable_remove_props[OF i hr]
  have "ht_good hf eq h' \<and>
     hashtable_search h' k' = (if eq k' k then None else hashtable_search h k') \<and>
     hashtable_count h' = (if r = None then hashtable_count h else hashtable_count h - 1)"
  proof (cases r)
    case None
    with p assms(1) have h': "h' = h" "hashtable_search h k = None" by auto
    moreover have "hashtable_search h k' = None" if "eq k' k"
      using h'(2) find_eq_cong[OF assms(2) that, of "ht_entries h"] ht_good_find[OF assms] by auto
    ultimately show ?thesis using assms(1) None by auto
  next
    case (Some v)
    with p eqs obtain e where e: "eq k (ent_k e)" "ent_v e = v"
      and ms: "mset (ht_entries h) = mset (e # ht_entries h')" by auto
    have nd': "nodup eq (e # ht_entries h')" using ms nd by (rule nodup_mset)
    have g: "ht_good hf eq h'" using p eqs nodup_del(1)[OF assms(2) nd'] by (simp add: ht_good_def)
    have "find (\<lambda>e. eq k' (ent_k e)) (ht_entries h) = find (\<lambda>e. eq k' (ent_k e)) (e # ht_entries h')"
      using ms nodup_unique[OF nd assms(2)] by (intro find_mset_unique) blast+
    moreover have "find (\<lambda>e. eq k' (ent_k e)) (ht_entries h') = None" if "eq k' k"
      using nodup_del(2)[OF assms(2) nd'] e(1) that key_fnsD(2,3)[OF assms(2)]
      unfolding find_None_iff by blast
    moreover have "eq k' (ent_k e) \<longleftrightarrow> eq k' k"
      using e(1) key_fnsD(2,3)[OF assms(2)] by blast
    ultimately have "hashtable_search h' k' = (if eq k' k then None else hashtable_search h k')"
      by (simp add: ht_good_find[OF g assms(2)] ht_good_find[OF assms])
    moreover have "length (ht_entries h) = Suc (length (ht_entries h'))"
      using ms by (metis length_Cons size_mset)
    then have "entrycount h' = entrycount h - 1"
      using i(1) p by (simp add: ht_invar_def)
    ultimately show ?thesis
      using g Some by (simp add: hashtable_count_def)
  qed
  with hr p show "ht_good hf eq (fst (hashtable_remove h k))"
    "snd (hashtable_remove h k) = hashtable_search h k"
    "hashtable_search (fst (hashtable_remove h k)) k' = (if eq k' k then None else hashtable_search h k')"
    "hashtable_count (fst (hashtable_remove h k)) =
           (if hashtable_search h k = None then hashtable_count h else hashtable_count h - 1)"
    by auto
qed

lemma keyed_table_hashtable:
  assumes "key_fns hf eq"
  shows "keyed_table (ht_good hf eq) hashtable_search ht_put hashtable_remove hashtable_count eq"
proof (unfold_locales)
  fix s :: "('a, 'b) hashtable" and k k' :: 'a
  assume "ht_good hf eq s" "eq k k'"
  then show "hashtable_search s k = hashtable_search s k'"
    using assms find_eq_cong[OF assms \<open>eq k k'\<close>, of "ht_entries s"] by (simp add: ht_good_find)
qed (use assms in \<open>auto simp: ht_good_put ht_good_count_put ht_good_remove intro: key_fnsD\<close>)

section \<open>Creation\<close>

lemma find_prime_props:
  assumes "find_prime ps i m = (j, p)" "\<exists>q \<in> set ps. q > m"
    and "\<And>k. k < length ps \<Longrightarrow> primes ! (i + k) = ps ! k"
  shows "m < p \<and> p = primes ! j \<and> i \<le> j \<and> j < i + length ps"
  using assms
proof (induction ps i m rule: find_prime.induct)
  case (1 i m)
  then show ?case by simp
next
  case (2 q ps i m)
  show ?case
  proof (cases "q > m")
    case True
    then show ?thesis using 2(2) 2(4)[of 0] by auto
  next
    case False
    have "\<And>k. k < length ps \<Longrightarrow> primes ! (Suc i + k) = ps ! k"
    proof -
      fix k assume "k < length ps"
      then show "primes ! (Suc i + k) = ps ! k" using 2(4)[of "Suc k"] by simp
    qed
    then show ?thesis using 2(1,2,3) False by fastforce
  qed
qed

lemma create_hashtable_good:
  assumes "create_hashtable ok_h ok_t minsize hf eq = Some (h :: ('k, 'v) hashtable)"
  shows "ht_good hf eq h \<and> hashtable_count h = 0 \<and> minsize < tablelength h \<and>
    (\<forall>k. hashtable_search h k = None)"
proof -
  from assms obtain j p where jp: "find_prime primes 0 minsize = (j, p)" and m: "minsize \<le> 2 ^ 30"
    and h: "h = \<lparr>tablelength = p, table = replicate (unat p) [], entrycount = 0,
       loadlimit = load_limit p, primeindex = j, hashfn = hf, eqfn = eq\<rparr>"
    by (auto simp: create_hashtable_def split: if_splits prod.splits)
  have "1610612741 \<in> set primes" by (simp add: primes_def)
  moreover have "minsize < 1610612741"
    using m by (rule order.strict_trans1) simp
  ultimately have "minsize < p \<and> p = primes ! j \<and> j < prime_table_length"
    using find_prime_props[OF jp] by auto
  moreover from this have "0 < p" using primes_props(1) by blast
  moreover have "hashtable_search h k = None" for k
    using indexFor_less[OF \<open>0 < p\<close>] by (simp add: h hashtable_search_def Let_def)
  ultimately show ?thesis
    by (auto simp: h ht_good_def ht_invar_def ht_entries_def nodup_def hashtable_count_def)
qed

lemma create_hashtable_total: "minsize \<le> 2 ^ 30 \<Longrightarrow>
    \<exists>h. create_hashtable True True minsize hf eq = Some h"
  by (auto simp: create_hashtable_def split: prod.splits)

text \<open>A table for examples: keys are words, hashed by themselves.\<close>

definition word_table :: "(u32, string) hashtable" where
  "word_table = the (create_hashtable True True 10 id (=))"

lemma word_table_good:
  "ht_good id (=) word_table" "hashtable_search word_table k = None" "key_fns id ((=) :: u32 \<Rightarrow> _)"
proof -
  obtain h :: "(u32, string) hashtable" where "create_hashtable True True 10 id (=) = Some h"
    using create_hashtable_total[of 10] by auto
  then show "ht_good id (=) word_table" "hashtable_search word_table k = None"
    using create_hashtable_good[of True True 10 id "(=)" h] by (auto simp: word_table_def)
  show "key_fns id ((=) :: u32 \<Rightarrow> _)" by (simp add: key_fns_def identity_equivp)
qed

section \<open>Properties\<close>

text \<open>
  Claim C26: with memory available, \<open>hashtable_insert\<close> of a key that is not in the table succeeds,
  growing the table when the load limit is passed, and the table it leaves maps the key (and every
  key equal to it) to the new value, every other key to what it was mapped to before, and counts
  one entry more.
\<close>

theorem hashtable_insert_refines:
  assumes "ht_good hf eq h" "key_fns hf eq" "hashtable_search h k = None"
  shows "\<exists>h'. hashtable_insert alloc_ok h k v = Inr (h', True) \<and> ht_good hf eq h' \<and>
    hashtable_count h' = hashtable_count h + 1 \<and>
    (\<forall>k'. hashtable_search h' k' = (if eq k' k then Some v else hashtable_search h k'))"
  using ht_good_put[OF assms] ht_good_count_put[OF assms(1)]
  by (intro exI[of _ "ht_put h k v"]) (simp add: hashtable_insert_ht_put)

theorem hashtable_insert_refines_witness:
  "\<exists>h'. hashtable_insert alloc_ok word_table 7 ''a'' = Inr (h', True) \<and>
     hashtable_search h' 7 = Some ''a'' \<and> hashtable_search h' 8 = None"
  using hashtable_insert_refines[OF word_table_good(1,3,2), of 7 "''a''"]
  by (auto simp: word_table_good(2))

text \<open>
  Claim C27: \<open>hashtable_remove\<close> returns the value the key was mapped to, or nothing, and the table
  it leaves maps the key to nothing and every other key to what it was mapped to before; the count
  drops by one when something was removed.
\<close>

theorem hashtable_remove_refines:
  assumes "ht_good hf eq h" "key_fns hf eq" "hashtable_remove h k = (h', r)"
  shows "ht_good hf eq h' \<and> r = hashtable_search h k \<and>
    (\<forall>k'. hashtable_search h' k' = (if eq k' k then None else hashtable_search h k')) \<and>
    hashtable_count h' = (if r = None then hashtable_count h else hashtable_count h - 1)"
  using ht_good_remove[OF assms(1,2), of k] by (auto simp: assms(3))

theorem hashtable_remove_refines_witness:
  "hashtable_search (fst (hashtable_remove (ht_put word_table 7 ''a'') 7)) 7 = None \<and>
   snd (hashtable_remove (ht_put word_table 7 ''a'') 7) = Some ''a''"
proof -
  note p = ht_good_put[OF word_table_good(1,3) word_table_good(2), of 7 "''a''"]
  obtain h' r where "hashtable_remove (ht_put word_table 7 ''a'') 7 = (h', r)" by fastforce
  from hashtable_remove_refines[OF p(1) word_table_good(3) this] this show ?thesis
    by (simp add: p(2))
qed

text \<open>
  Whatever allocations fail, an insertion that returns keeps the representation
  invariant (each entry in the chain of its hash, the count equal to the number of entries, the
  size a prime of the table) and either adds exactly the new entry or, when the entry itself cannot
  be allocated, leaves the entries as they were and reports failure.
\<close>

theorem hashtable_insert_any_allocation:
  assumes "ht_invar h" "hashtable_insert a h k v = Inr (h', r)"
  shows "ht_invar h' \<and> r = ok_entry a \<and>
    mset (ht_entries h') =
      (if r then add_mset \<lparr>ent_k = k, ent_v = v, ent_h = hash h k\<rparr> (mset (ht_entries h))
       else mset (ht_entries h))"
  using hashtable_insert_props[OF assms] by blast

theorem hashtable_insert_any_allocation_witness:
  "\<exists>h'. hashtable_insert \<lparr>ok_table = False, ok_realloc = False, ok_entry = False\<rparr> word_table 7 ''a''
      = Inr (h', False) \<and> ht_invar h' \<and> mset (ht_entries h') = mset (ht_entries word_table)"
proof -
  let ?a = "\<lparr>ok_table = False, ok_realloc = False, ok_entry = False\<rparr>"
  have "\<exists>h' r. hashtable_insert ?a word_table 7 ''a'' = Inr (h', r)"
    by (auto simp: hashtable_insert_def hashtable_expand_def Let_def)
  then obtain h' r where i: "hashtable_insert ?a word_table 7 ''a'' = Inr (h', r)" by blast
  have "ht_invar word_table" using word_table_good(1) by (simp add: ht_good_def)
  from hashtable_insert_any_allocation[OF this i] i show ?thesis by auto
qed

end
