(* ===== verification/Hashtable_Itr.thy ===== *)
theory Hashtable_Itr
  imports Hashtable
begin

text \<open>
  Writing through a value pointer that \<open>hashtable_search\<close> returned, and the iterator of the table
  (waprox/hashtable_itr.c).

  An iterator of the code points at an entry and at its predecessor in the chain; here both are
  positions in the chain \<open>it_index\<close>. The table is passed beside the iterator, because the code
  mutates it through \<open>itr->h\<close>.
\<close>

section \<open>Updating a value in place\<close>

fun chain_modify :: "('k \<Rightarrow> 'k \<Rightarrow> bool) \<Rightarrow> u32 \<Rightarrow> 'k \<Rightarrow> ('v \<Rightarrow> 'v) \<Rightarrow> ('k, 'v) entry list \<Rightarrow>
    ('k, 'v) entry list" where
  "chain_modify eq hv k f [] = []"
| "chain_modify eq hv k f (e # es) =
     (if hv = ent_h e \<and> eq k (ent_k e) then e\<lparr>ent_v := f (ent_v e)\<rparr> # es
      else e # chain_modify eq hv k f es)"

definition ht_modify :: "('k, 'v) hashtable \<Rightarrow> 'k \<Rightarrow> ('v \<Rightarrow> 'v) \<Rightarrow> ('k, 'v) hashtable" where
  "ht_modify h k f =
     (let hv = hash h k; index = unat (indexFor (tablelength h) hv)
      in h\<lparr>table := (table h)[index := chain_modify (eqfn h) hv k f (table h ! index)]\<rparr>)"

lemma chain_modify_props:
  "length (chain_modify eq hv k f es) = length es"
  "map ent_k (chain_modify eq hv k f es) = map ent_k es"
  "map ent_h (chain_modify eq hv k f es) = map ent_h es"
  by (induction es) auto

lemma concat_keys: "i < length tb \<Longrightarrow> map g c = map g (tb ! i) \<Longrightarrow>
    map g (concat (tb[i := c])) = map g (concat tb)"
proof (induction tb arbitrary: i)
  case (Cons x tb)
  then show ?case by (cases i) auto
qed simp

lemma chains_ok_keys:
  assumes "chains_ok hf tlen tb" "map ent_k c = map ent_k (tb ! i)" "map ent_h c = map ent_h (tb ! i)"
  shows "chains_ok hf tlen (tb[i := c])"
proof (rule chains_okI)
  fix j e assume j: "j < length (tb[i := c])" "e \<in> set (tb[i := c] ! j)"
  show "ent_h e = mix (hf (ent_k e)) \<and> unat (indexFor tlen (ent_h e)) = j"
  proof (cases "j = i")
    case True
    with j obtain n where n: "n < length c" "e = c ! n" by (auto simp: in_set_conv_nth)
    have len: "length c = length (tb ! i)" using assms(2) map_eq_imp_length_eq by blast
    have "ent_k e = ent_k (tb ! i ! n)" "ent_h e = ent_h (tb ! i ! n)"
      using assms(2,3) n len nth_map by metis+
    moreover have "tb ! i ! n \<in> set (tb ! i)" using n len by simp
    ultimately show ?thesis
      using chains_okD[OF assms(1), of i "tb ! i ! n"] True j(1) by auto
  qed (use j chains_okD[OF assms(1), of j e] in auto)
qed

lemma nodup_keys:
  assumes "map ent_k es = map ent_k es'" "nodup eq es"
  shows "nodup eq es'"
proof -
  have f: "length (filter (\<lambda>e'. eq k (ent_k e')) xs) = length (filter (eq k) (map ent_k xs))"
    for k and xs :: "('a, 'c) entry list" by (simp add: filter_map comp_def)
  have f': "length (filter (\<lambda>e'. eq k (ent_k e')) xs) = length (filter (eq k) (map ent_k xs))"
    for k and xs :: "('a, 'b) entry list" by (simp add: filter_map comp_def)
  have "\<forall>k \<in> set (map ent_k es). length (filter (eq k) (map ent_k es)) = 1"
    using assms(2) by (simp add: nodup_def f')
  then show ?thesis unfolding assms(1) by (simp add: nodup_def f)
qed

lemma chain_search_modify:
  assumes "key_fns hf eq" "eq k' k \<Longrightarrow> hv' = hv"
  shows "chain_search eq hv' k' (chain_modify eq hv k f es) =
    (if eq k' k then map_option f (chain_search eq hv k es) else chain_search eq hv' k' es)"
proof (induction es)
  case (Cons e es)
  show ?case
  proof (cases "eq k' k")
    case True
    then have "eq k' (ent_k e) = eq k (ent_k e)" using key_fnsD(2,3)[OF assms(1)] by blast
    with True assms(2) Cons show ?thesis by simp
  next
    case False
    then have "\<not> eq k' (ent_k e) \<or> \<not> eq k (ent_k e)" using key_fnsD(2,3)[OF assms(1)] by blast
    with False Cons show ?thesis by auto
  qed
qed simp

lemma ht_modify_props:
  assumes "ht_good hf eq h" "key_fns hf eq"
  shows "ht_good hf eq (ht_modify h k f)"
    and "hashtable_search (ht_modify h k f) k' =
      (if eq k' k then map_option f (hashtable_search h k) else hashtable_search h k')"
    and "hashtable_count (ht_modify h k f) = hashtable_count h"
proof -
  have inv: "ht_invar h" and e: "hashfn h = hf" "eqfn h = eq" using assms(1) by (auto simp: ht_good_def)
  define i where "i = unat (indexFor (tablelength h) (hash h k))"
  have i: "i < length (table h)" unfolding i_def by (rule ht_invar_index[OF inv])
  let ?c = "chain_modify eq (hash h k) k f (table h ! i)"
  have h': "ht_modify h k f = h\<lparr>table := (table h)[i := ?c]\<rparr>"
    by (simp add: ht_modify_def Let_def i_def e)
  note c = chain_modify_props[of eq "hash h k" k f "table h ! i"]
  have keys: "map ent_k (concat ((table h)[i := ?c])) = map ent_k (concat (table h))"
    by (rule concat_keys[OF i c(2)])
  have "length (concat ((table h)[i := ?c])) = length (concat (table h))"
    using keys map_eq_imp_length_eq by blast
  moreover have "chains_ok hf (tablelength h) ((table h)[i := ?c])"
    using inv c by (intro chains_ok_keys) (auto simp: ht_invar_def e)
  moreover have "nodup eq (concat ((table h)[i := ?c]))"
    using nodup_keys[OF keys[symmetric]] assms(1) by (simp add: ht_good_def ht_entries_def)
  ultimately show "ht_good hf eq (ht_modify h k f)"
    using inv e by (simp add: ht_good_def ht_invar_def ht_entries_def h')
  show "hashtable_count (ht_modify h k f) = hashtable_count h"
    by (simp add: h' hashtable_count_def)
  let ?h = "ht_modify h k f" and ?j = "unat (indexFor (tablelength h) (hash h k'))"
  have same: "hash h k' = hash h k" if "eq k' k"
    using that key_fnsD(4)[OF assms(2)] by (simp add: hash_def e)
  have s: "hashtable_search ?h k' = chain_search eq (hash h k') k' ((table h)[i := ?c] ! ?j)"
    by (simp add: hashtable_search_def Let_def h' e hash_def)
  show "hashtable_search ?h k' =
      (if eq k' k then map_option f (hashtable_search h k) else hashtable_search h k')"
  proof (cases "?j = i")
    case True
    then show ?thesis
      using s i chain_search_modify[of hf eq k' k "hash h k'" "hash h k" f "table h ! i", OF assms(2) same]
      by (simp add: hashtable_search_def Let_def e i_def)
  next
    case False
    then have "\<not> eq k' k" using same by (auto simp: i_def)
    then show ?thesis using s False by (simp add: hashtable_search_def Let_def e)
  qed
qed

text \<open>A table whose values may be updated in place.\<close>

locale mutable_table = keyed_table +
  fixes modify :: "'a \<Rightarrow> 'b \<Rightarrow> ('c \<Rightarrow> 'c) \<Rightarrow> 'a"
  assumes invar_modify: "invar s \<Longrightarrow> invar (modify s k f)"
    and look_modify: "invar s \<Longrightarrow>
      look (modify s k f) k' = (if same k' k then map_option f (look s k) else look s k')"
    and count_modify: "invar s \<Longrightarrow> count (modify s k f) = count s"

lemma mutable_table_hashtable:
  assumes "key_fns hf eq"
  shows "mutable_table (ht_good hf eq) hashtable_search ht_put hashtable_remove hashtable_count eq
    ht_modify"
  unfolding mutable_table_def mutable_table_axioms_def
  by (intro conjI allI impI keyed_table_hashtable assms ht_modify_props(1,2,3)[OF _ assms])

section \<open>The iterator\<close>

record itr =
  it_index :: nat
  it_e :: "nat option"
  it_parent :: "nat option"

text \<open>The index of the first chain from \<open>j\<close> on that is not empty.\<close>

fun first_chain :: "'e list list \<Rightarrow> nat \<Rightarrow> nat option" where
  "first_chain [] j = None"
| "first_chain (c # cs) j = (if c \<noteq> [] then Some j else first_chain cs (Suc j))"

definition hashtable_iterator :: "('k, 'v) hashtable \<Rightarrow> itr" where
  "hashtable_iterator h =
     (let i0 = \<lparr>it_index = unat (tablelength h), it_e = None, it_parent = None\<rparr> in
      if entrycount h = 0 then i0
      else case first_chain (table h) 0 of
             None \<Rightarrow> i0
           | Some i \<Rightarrow> i0\<lparr>it_e := Some 0, it_index := i\<rparr>)"

definition hashtable_iterator_entry :: "('k, 'v) hashtable \<Rightarrow> itr \<Rightarrow> ('k, 'v) entry res" where
  "hashtable_iterator_entry h it =
     (case it_e it of None \<Rightarrow> Inl UndefinedBehaviour | Some p \<Rightarrow> Inr (table h ! it_index it ! p))"

definition hashtable_iterator_key :: "('k, 'v) hashtable \<Rightarrow> itr \<Rightarrow> 'k res" where
  "hashtable_iterator_key h it = rbind (hashtable_iterator_entry h it) (\<lambda>e. Inr (ent_k e))"

definition hashtable_iterator_value :: "('k, 'v) hashtable \<Rightarrow> itr \<Rightarrow> 'v res" where
  "hashtable_iterator_value h it = rbind (hashtable_iterator_entry h it) (\<lambda>e. Inr (ent_v e))"

text \<open>Going to the first chain after the current one that is not empty.\<close>

definition advance_chain :: "('k, 'v) hashtable \<Rightarrow> itr \<Rightarrow> itr \<times> bool" where
  "advance_chain h it =
     (let j = it_index it + 1 in
      if unat (tablelength h) \<le> j then (it\<lparr>it_parent := None, it_index := j, it_e := None\<rparr>, False)
      else case first_chain (drop j (table h)) j of
        None \<Rightarrow> (it\<lparr>it_parent := None, it_index := unat (tablelength h), it_e := None\<rparr>, False)
      | Some i \<Rightarrow> (it\<lparr>it_parent := None, it_index := i, it_e := Some 0\<rparr>, True))"

definition hashtable_iterator_advance :: "('k, 'v) hashtable \<Rightarrow> itr \<Rightarrow> itr \<times> bool" where
  "hashtable_iterator_advance h it =
     (case it_e it of
        None \<Rightarrow> (it, False)
      | Some p \<Rightarrow>
          if Suc p < length (table h ! it_index it)
          then (it\<lparr>it_parent := Some p, it_e := Some (Suc p)\<rparr>, True)
          else advance_chain h it)"

text \<open>
  Removing unlinks the current entry and advances. When the entry has a successor in its chain, the
  code restores the parent, and the successor takes the position of the removed entry.
\<close>

definition hashtable_iterator_remove ::
  "('k, 'v) hashtable \<Rightarrow> itr \<Rightarrow> (('k, 'v) hashtable \<times> itr \<times> bool) res" where
  "hashtable_iterator_remove h it =
     (case it_e it of
        None \<Rightarrow> Inl UndefinedBehaviour
      | Some p \<Rightarrow>
          let c = table h ! it_index it;
              c' = (case it_parent it of
                      None \<Rightarrow> drop (Suc p) c
                    | Some q \<Rightarrow> take (Suc q) c @ drop (Suc p) c);
              h' = h\<lparr>table := (table h)[it_index it := c'], entrycount := entrycount h - 1\<rparr>
          in if Suc p < length c then Inr (h', it\<lparr>it_e := Some p\<rparr>, True)
             else let (it', again) = advance_chain h' it in Inr (h', it', again))"

text \<open>\<open>hashtable_iterator_search\<close> puts the iterator on the entry of a key.\<close>

fun chain_position :: "('k \<Rightarrow> 'k \<Rightarrow> bool) \<Rightarrow> u32 \<Rightarrow> 'k \<Rightarrow> ('k, 'v) entry list \<Rightarrow> nat \<Rightarrow> nat option" where
  "chain_position eq hv k [] p = None"
| "chain_position eq hv k (e # es) p =
     (if hv = ent_h e \<and> eq k (ent_k e) then Some p else chain_position eq hv k es (Suc p))"

definition hashtable_iterator_search :: "('k, 'v) hashtable \<Rightarrow> itr \<Rightarrow> 'k \<Rightarrow> itr \<times> bool" where
  "hashtable_iterator_search h it k =
     (let hv = hash h k; index = unat (indexFor (tablelength h) hv) in
      case chain_position (eqfn h) hv k (table h ! index) 0 of
        None \<Rightarrow> (it, False)
      | Some p \<Rightarrow> (it\<lparr>it_index := index, it_e := Some p,
                      it_parent := (if p = 0 then None else Some (p - 1))\<rparr>, True))"

text \<open>
  The loop \<open>do \<dots> while (hashtable_iterator_remove(itr))\<close>: the values met, in order, and the table
  left. The fuel bounds the iterations; \<open>None\<close> means that it was not enough.
\<close>

fun drain_itr :: "nat \<Rightarrow> ('k, 'v) hashtable \<Rightarrow> itr \<Rightarrow> (('k, 'v) hashtable \<times> 'v list) res option" where
  "drain_itr 0 h it = None"
| "drain_itr (Suc n) h it =
     (case hashtable_iterator_value h it of
        Inl e \<Rightarrow> Some (Inl e)
      | Inr v \<Rightarrow>
          (case hashtable_iterator_remove h it of
             Inl e \<Rightarrow> Some (Inl e)
           | Inr (h', it', again) \<Rightarrow>
               if again then map_option (\<lambda>r. rbind r (\<lambda>(h'', vs). Inr (h'', v # vs))) (drain_itr n h' it')
               else Some (Inr (h', [v]))))"

section \<open>Draining a table\<close>

lemma first_chain_props:
  "first_chain cs j = (if concat cs = [] then None
     else Some (j + length (takeWhile (\<lambda>c. c = []) cs)))"
  by (induction cs arbitrary: j) auto

lemma concat_empty_iff: "concat cs = [] \<longleftrightarrow> cs = replicate (length cs) []"
  by (induction cs) auto

text \<open>The iterator is at the head of a chain and every chain before it is empty.\<close>

definition at_front :: "('k, 'v) hashtable \<Rightarrow> itr \<Rightarrow> bool" where
  "at_front h it \<longleftrightarrow> it_e it = Some 0 \<and> it_parent it = None \<and> it_index it < length (table h) \<and>
     table h ! it_index it \<noteq> [] \<and> concat (take (it_index it) (table h)) = []"

lemma at_front_entries:
  assumes "at_front h it"
  shows "ht_entries h = table h ! it_index it @ concat (drop (Suc (it_index it)) (table h))"
  using assms id_take_nth_drop[of "it_index it" "table h"]
  by (metis at_front_def append_Nil concat.simps(2) concat_append ht_entries_def)

lemma takeWhile_empty: "concat (takeWhile (\<lambda>c. c = []) cs) = []"
  by (induction cs) auto

lemma first_chain_front:
  assumes "first_chain (drop j tb) j = Some i" "concat (take j tb) = []"
  shows "i < length tb" "tb ! i \<noteq> []" "concat (take i tb) = []"
proof -
  let ?n = "length (takeWhile (\<lambda>c. c = []) (drop j tb))"
  from assms(1) have i: "i = j + ?n" and ne: "concat (drop j tb) \<noteq> []"
    by (auto simp: first_chain_props split: if_splits)
  have n: "?n < length (drop j tb)"
  proof (rule ccontr)
    assume "\<not> ?n < length (drop j tb)"
    then have "takeWhile (\<lambda>c. c = []) (drop j tb) = drop j tb"
      by (metis length_takeWhile_le linorder_neqE_nat not_le takeWhile_eq_take take_all_iff)
    then show False using ne takeWhile_empty by metis
  qed
  then show "i < length tb" by (simp add: i)
  show "tb ! i \<noteq> []" using nth_length_takeWhile[OF n] n by (simp add: i)
  have "take i tb = take j tb @ takeWhile (\<lambda>c. c = []) (drop j tb)"
    by (simp add: i take_add flip: takeWhile_eq_take)
  then show "concat (take i tb) = []" using assms(2) takeWhile_empty by simp
qed

lemma advance_chain_front:
  assumes "unat (tablelength h) = length (table h)" "concat (take (Suc (it_index it)) (table h)) = []"
    and "it_index it < length (table h)" "advance_chain h it = (it', again)"
  shows "if again then at_front h it' else ht_entries h = []"
proof -
  let ?j = "Suc (it_index it)"
  have split: "ht_entries h = concat (drop ?j (table h))"
    using assms(2) by (metis append_Nil append_take_drop_id concat_append ht_entries_def)
  consider "length (table h) \<le> ?j" | "?j < length (table h)" "first_chain (drop ?j (table h)) ?j = None"
    | i where "?j < length (table h)" "first_chain (drop ?j (table h)) ?j = Some i"
    using not_le by (cases "first_chain (drop ?j (table h)) ?j") blast+
  then show ?thesis
  proof cases
    case 1
    then show ?thesis using assms(1,4) split by (auto simp: advance_chain_def)
  next
    case 2
    then show ?thesis using assms(1,4) split
      by (auto simp: advance_chain_def first_chain_props split: if_splits)
  next
    case 3
    then show ?thesis using assms(1,4) first_chain_front[OF 3(2) assms(2)]
      by (auto simp: advance_chain_def at_front_def)
  qed
qed

lemma remove_front:
  assumes "at_front h it" "unat (tablelength h) = length (table h)"
  shows "\<exists>e h' it' again. hashtable_iterator_value h it = Inr (ent_v e) \<and>
    hashtable_iterator_remove h it = Inr (h', it', again) \<and>
    ht_entries h = e # ht_entries h' \<and> (if again then at_front h' it' else ht_entries h' = []) \<and>
    h' = h\<lparr>table := table h', entrycount := entrycount h - 1\<rparr> \<and> length (table h') = length (table h)"
proof -
  let ?i = "it_index it"
  from assms(1) obtain e c where c: "table h ! ?i = e # c" and i: "?i < length (table h)"
    and it: "it_e it = Some 0" "it_parent it = None" and pre: "concat (take ?i (table h)) = []"
    by (cases "table h ! it_index it") (auto simp: at_front_def)
  define h' where "h' = h\<lparr>table := (table h)[?i := c], entrycount := entrycount h - 1\<rparr>"
  have ents: "ht_entries h = e # ht_entries h'"
    using at_front_entries[OF assms(1)] i pre c
    by (simp add: ht_entries_def h'_def upd_conv_take_nth_drop)
  have val: "hashtable_iterator_value h it = Inr (ent_v e)"
    by (simp add: hashtable_iterator_value_def hashtable_iterator_entry_def it c)
  show ?thesis
  proof (cases "c = []")
    case True
    obtain it' again where adv: "advance_chain h' it = (it', again)" by fastforce
    have "concat (take (Suc ?i) (table h')) = []"
      using i pre True by (simp add: h'_def take_Suc_conv_app_nth)
    then have "if again then at_front h' it' else ht_entries h' = []"
      using advance_chain_front[OF _ _ _ adv] assms(2) i by (simp add: h'_def)
    moreover have "hashtable_iterator_remove h it = Inr (h', it', again)"
      using True adv by (simp add: hashtable_iterator_remove_def it c h'_def)
    ultimately show ?thesis using val ents
      by (intro exI[of _ e] exI[of _ h'] exI[of _ it'] exI[of _ again]) (simp add: h'_def)
  next
    case False
    then have "hashtable_iterator_remove h it = Inr (h', it\<lparr>it_e := Some 0\<rparr>, True)"
      by (simp add: hashtable_iterator_remove_def it c h'_def)
    moreover have "at_front h' (it\<lparr>it_e := Some 0\<rparr>)"
      using i it pre False by (simp add: at_front_def h'_def)
    ultimately show ?thesis using val ents
      by (intro exI[of _ e] exI[of _ h'] exI[of _ "it\<lparr>it_e := Some 0\<rparr>"] exI[of _ True]) (simp add: h'_def)
  qed
qed

lemma drain_front:
  assumes "at_front h it" "unat (tablelength h) = length (table h)" "length (ht_entries h) \<le> n"
  shows "\<exists>h'. drain_itr n h it = Some (Inr (h', map ent_v (ht_entries h))) \<and> ht_entries h' = [] \<and>
    h' = h\<lparr>table := table h', entrycount := entrycount h - of_nat (length (ht_entries h))\<rparr> \<and>
    length (table h') = length (table h)"
  using assms
proof (induction n arbitrary: h it)
  case 0
  then show ?case using remove_front by fastforce
next
  case (Suc n)
  from remove_front[OF Suc.prems(1,2)] obtain e h' it' again where
    r: "hashtable_iterator_value h it = Inr (ent_v e)"
      "hashtable_iterator_remove h it = Inr (h', it', again)" "ht_entries h = e # ht_entries h'"
      "if again then at_front h' it' else ht_entries h' = []"
      "h' = h\<lparr>table := table h', entrycount := entrycount h - 1\<rparr>" "length (table h') = length (table h)"
    by blast
  have len: "unat (tablelength h') = length (table h')"
    using r(5,6) Suc.prems(2) by (metis hashtable.select_convs(1) hashtable.surjective
        hashtable.update_convs(2,3))
  show ?case
  proof (cases again)
    case True
    with Suc.IH[OF _ len, of it'] r(3,4) Suc.prems(3) obtain h'' where
      IH: "drain_itr n h' it' = Some (Inr (h'', map ent_v (ht_entries h')))" "ht_entries h'' = []"
        "h'' = h'\<lparr>table := table h'', entrycount := entrycount h' - of_nat (length (ht_entries h'))\<rparr>"
        "length (table h'') = length (table h')"
      by auto
    have "entrycount h' = entrycount h - 1" "h'\<lparr>table := t, entrycount := x\<rparr> = h\<lparr>table := t, entrycount := x\<rparr>" for t x
      by (subst r(5), simp)+
    then have "h'' = h\<lparr>table := table h'', entrycount := entrycount h - of_nat (length (ht_entries h))\<rparr>"
      using IH(3) r(3) by (simp add: diff_diff_eq)
    with IH(1,2,4) r(1,2,3,6) True show ?thesis by (intro exI[of _ h'']) simp
  next
    case False
    with r show ?thesis by (intro exI[of _ h']) auto
  qed
qed

lemma drain_table:
  assumes "ht_invar h" "ht_entries h \<noteq> []" "length (ht_entries h) \<le> n" "length (ht_entries h) < 2 ^ 32"
  shows "\<exists>h'. drain_itr n h (hashtable_iterator h) = Some (Inr (h', map ent_v (ht_entries h))) \<and>
    ht_entries h' = [] \<and> ht_invar h' \<and> hashfn h' = hashfn h \<and> eqfn h' = eqfn h"
proof -
  have len: "unat (tablelength h) = length (table h)" and cnt: "entrycount h = of_nat (length (ht_entries h))"
    using assms(1) by (auto simp: ht_invar_def)
  have "unat (of_nat (length (ht_entries h)) :: u32) \<noteq> 0"
    using assms(2,4) by (simp add: unsigned_of_nat take_bit_nat_eq_self_iff[THEN iffD2])
  then have "entrycount h \<noteq> 0" unfolding cnt by (metis unsigned_0)
  moreover obtain i where i: "first_chain (table h) 0 = Some i"
    using assms(2) by (auto simp: first_chain_props ht_entries_def)
  ultimately have "at_front h (hashtable_iterator h)"
    using first_chain_front[of 0 "table h" i] by (simp add: hashtable_iterator_def at_front_def)
  from drain_front[OF this len assms(3)] obtain h' where
    d: "drain_itr n h (hashtable_iterator h) = Some (Inr (h', map ent_v (ht_entries h)))" "ht_entries h' = []"
    and h': "h' = h\<lparr>table := table h', entrycount := entrycount h - of_nat (length (ht_entries h))\<rparr>"
    and l: "length (table h') = length (table h)" by blast
  have "table h' ! i = []" if "i < length (table h')" for i
    using d(2) nth_mem[OF that] by (simp only: ht_entries_def concat_eq_Nil_conv)
  then have "chains_ok (hashfn h) (tablelength h) (table h')"
    by (intro chains_okI) simp
  moreover have f: "tablelength h' = tablelength h" "primeindex h' = primeindex h"
    "loadlimit h' = loadlimit h" "hashfn h' = hashfn h" "eqfn h' = eqfn h" "entrycount h' = 0"
    using arg_cong[OF h', of tablelength] arg_cong[OF h', of primeindex] arg_cong[OF h', of loadlimit]
      arg_cong[OF h', of hashfn] arg_cong[OF h', of eqfn] arg_cong[OF h', of entrycount] cnt by simp_all
  ultimately have "ht_invar h'"
    using assms(1) l d(2) by (simp add: ht_invar_def f)
  then show ?thesis using d f by blast
qed

end
