(* ===== verification/Rabin.thy ===== *)
theory Rabin
  imports Prelude
begin

text \<open>
  Rabin fingerprints over a sliding window and the content-defined chunk boundaries they give
  (waprox/rabinfinger2.c).

  The arithmetic of the code is modelled on 64-bit words. Its specification is a small theory of
  polynomials over GF(2): \<open>GetFingerprint\<close> reduces modulo the polynomial, \<open>MultiplyPoly\<close> multiplies,
  the tables of \<open>InitializeRabin\<close> hold multiples of powers of \<open>x\<close>, and rolling the window by table
  look-up gives the fingerprint of its bytes. The boundaries found by \<open>GetRabinChunkSizeEx\<close> are those
  of a reference that recomputes every fingerprint.

  Offsets and lengths, \<open>int32\<close> and \<open>unsigned int\<close> in the code, are natural numbers: they are bounded
  by the length of a buffer. The window size is at most 256, the size of \<open>region_buf\<close> (the proxy
  uses 16). \<open>EXIT_TRACE\<close>, which ends the process, is the error \<open>NiceExit\<close>.
\<close>

section \<open>Polynomials over GF(2)\<close>

text \<open>
  A natural number stands for the polynomial whose coefficients are its bits: addition is
  \<open>XOR\<close>, multiplication by \<open>x ^ n\<close> is \<open>push_bit n\<close>, and \<open>clmul\<close> is the product.
\<close>

fun clmul :: "nat \<Rightarrow> nat \<Rightarrow> nat" where
  "clmul a b = (if a = 0 then 0
     else (if odd a then b else 0) XOR push_bit 1 (clmul (a div 2) b))"

declare clmul.simps [simp del]

lemma clmul_0 [simp]: "clmul 0 b = 0"
  by (simp add: clmul.simps)

lemma clmul_rec: "clmul a b = (if odd a then b else 0) XOR push_bit 1 (clmul (a div 2) b)"
  by (cases "a = 0") (simp_all add: clmul.simps[of a])

lemma xor_cancel: "a XOR (a XOR b) = (b :: nat)"
  by (rule bit_eqI) (auto simp: bit_simps)

lemma xor_eq_0: "(a XOR b = (0 :: nat)) = (a = b)"
  by (metis xor_cancel xor.right_neutral xor_self_eq)

lemmas xor_ac = xor.left_commute xor.commute xor.assoc xor_cancel xor_self_eq

lemma bit_nat_bound: "bit (x :: nat) i \<Longrightarrow> 2 ^ i \<le> x"
  by (metis bit_nat_def div_less even_zero linorder_not_less bit_iff_odd)

lemma bit_nat_less: "x < 2 ^ n \<Longrightarrow> bit (x :: nat) i \<Longrightarrow> i < n"
  by (metis bit_nat_bound le_less_trans power_strict_increasing_iff one_less_numeral_iff semiring_norm(76))

lemma push_bit_xor_nat: "push_bit n (a XOR b) = push_bit n a XOR push_bit n (b :: nat)"
  by (rule bit_eqI) (auto simp: bit_simps)

lemma odd_xor: "odd (a XOR b :: nat) \<longleftrightarrow> odd a \<noteq> odd b"
  by (simp add: even_xor_iff)

lemma xor_div2: "(a XOR b :: nat) div 2 = (a div 2) XOR (b div 2)"
  by (rule bit_eqI) (simp add: bit_xor_iff flip: bit_Suc)

lemma clmul_xor: "clmul (a XOR b) c = clmul a c XOR clmul b c"
proof (induction a arbitrary: b rule: less_induct)
  case (less a)
  show ?case
  proof (cases "a = 0")
    case False
    then have "clmul ((a div 2) XOR (b div 2)) c = clmul (a div 2) c XOR clmul (b div 2) c"
      using less.IH by simp
    then show ?thesis
      by (simp add: clmul_rec[of "a XOR b"] clmul_rec[of a] clmul_rec[of b] xor_div2 odd_xor
          push_bit_xor_nat xor_ac)
  qed simp
qed

lemma clmul_push: "clmul (push_bit n a) c = push_bit n (clmul a c)"
proof (induction n)
  case (Suc n)
  have "push_bit (Suc n) a = 2 * push_bit n a" by (simp add: push_bit_eq_mult)
  then have "clmul (push_bit (Suc n) a) c = push_bit 1 (clmul (push_bit n a) c)"
    by (simp add: clmul_rec[of "2 * push_bit n a"])
  with Suc show ?case by (simp add: push_bit_push_bit)
qed simp

lemma clmul_1 [simp]: "clmul 1 c = c" "clmul (Suc 0) c = c"
  by (simp_all add: clmul_rec[of 1] clmul_rec[of "Suc 0"])

text \<open>Degrees: the product of a nonzero polynomial with one of degree \<open>d\<close> has degree at least \<open>d\<close>.\<close>

lemma xor_top:
  fixes x y :: nat
  assumes "2 ^ n \<le> x" "x < 2 ^ Suc n" "y < 2 ^ n"
  shows "2 ^ n \<le> x XOR y" "x XOR y < 2 ^ Suc n"
proof -
  have "take_bit (Suc n) (x XOR y) = x XOR y"
    using assms by (simp add: take_bit_xor take_bit_nat_eq_self_iff[THEN iffD2])
  then show "x XOR y < 2 ^ Suc n" using take_bit_nat_eq_self_iff by metis
  have "drop_bit n (x XOR y) = drop_bit n x" using assms(3)
    by (intro bit_eqI) (auto simp: bit_simps dest: bit_nat_less)
  moreover have "drop_bit n x \<noteq> 0" using assms by (simp add: drop_bit_eq_div div_greater_zero_iff)
  ultimately show "2 ^ n \<le> x XOR y" by (metis drop_bit_eq_div div_less linorder_not_le)
qed

lemma clmul_degree:
  assumes "2 ^ e \<le> q" "q < 2 ^ Suc e" "2 ^ d \<le> p" "p < 2 ^ Suc d"
  shows "2 ^ (d + e) \<le> clmul q p \<and> clmul q p < 2 ^ Suc (d + e)"
  using assms
proof (induction e arbitrary: q)
  case 0
  then have "q = 1" by simp
  then show ?case using 0 by simp
next
  case (Suc e)
  have "2 ^ e \<le> q div 2" "q div 2 < 2 ^ Suc e" using Suc.prems by auto
  from Suc.IH[OF this assms(3,4)] have m: "2 ^ (d + e) \<le> clmul (q div 2) p"
    "clmul (q div 2) p < 2 ^ Suc (d + e)" by auto
  have "(if odd q then p else 0) < 2 ^ (d + Suc e)"
    using assms(4) by (auto intro: less_le_trans[of _ "2 ^ Suc d"] simp flip: power_Suc)
  moreover have "2 ^ (d + Suc e) \<le> push_bit 1 (clmul (q div 2) p)"
    "push_bit 1 (clmul (q div 2) p) < 2 ^ Suc (d + Suc e)"
    using m by (simp_all add: push_bit_eq_mult)
  ultimately show ?case
    using xor_top[of "d + Suc e" "push_bit 1 (clmul (q div 2) p)" "if odd q then p else 0"]
    by (simp add: clmul_rec[of q] xor.commute)
qed

lemma nat_degree: "0 < (q :: nat) \<Longrightarrow> \<exists>e. 2 ^ e \<le> q \<and> q < 2 ^ Suc e"
  using ex_power_ivl1[of 2 q] by auto

definition pcong :: "nat \<Rightarrow> nat \<Rightarrow> nat \<Rightarrow> bool" where
  "pcong p a b \<longleftrightarrow> (\<exists>q. a XOR b = clmul q p)"

lemma pcong_refl [simp]: "pcong p a a"
  unfolding pcong_def by (rule exI[of _ 0]) simp

lemma pcong_sym: "pcong p a b \<Longrightarrow> pcong p b a"
  by (simp add: pcong_def xor.commute)

lemma pcong_xor:
  assumes "pcong p a b" "pcong p c d"
  shows "pcong p (a XOR c) (b XOR d)"
proof -
  from assms obtain q r where "a XOR b = clmul q p" "c XOR d = clmul r p" by (auto simp: pcong_def)
  then have "clmul (q XOR r) p = (a XOR b) XOR (c XOR d)" by (simp add: clmul_xor)
  then have "(a XOR c) XOR (b XOR d) = clmul (q XOR r) p" by (simp add: xor_ac)
  then show ?thesis by (auto simp: pcong_def)
qed

lemma pcong_trans: "pcong p a b \<Longrightarrow> pcong p b c \<Longrightarrow> pcong p a c"
  using pcong_xor[of p a b b c] by (simp add: pcong_def xor_ac)

lemma pcong_push: "pcong p a b \<Longrightarrow> pcong p (push_bit n a) (push_bit n b)"
  unfolding pcong_def by (metis clmul_push push_bit_xor_nat)

lemma pcong_multiple: "pcong p (a XOR push_bit n p) a"
  unfolding pcong_def
  by (rule exI[of _ "push_bit n 1"]) (simp only: clmul_push clmul_1 xor_ac)

text \<open>A polynomial has one reduced representative.\<close>

lemma pcong_unique:
  assumes "pcong p a b" "a < 2 ^ d" "b < 2 ^ d" "2 ^ d \<le> p" "p < 2 ^ Suc d"
  shows "a = b"
proof (rule ccontr)
  assume "a \<noteq> b"
  from assms(1) obtain q where q: "a XOR b = clmul q p" by (auto simp: pcong_def)
  have "a XOR b \<noteq> 0" using \<open>a \<noteq> b\<close> by (simp only: xor_eq_0 not_False_eq_True)
  with q have "0 < q" by (cases "q = 0") auto
  then obtain e where "2 ^ e \<le> q" "q < 2 ^ Suc e" using nat_degree by blast
  from clmul_degree[OF this assms(4,5)] q have "2 ^ (d + e) \<le> a XOR b" by simp
  moreover have "take_bit d (a XOR b) = a XOR b"
    using assms by (simp add: take_bit_xor take_bit_nat_eq_self_iff[THEN iffD2])
  then have "a XOR b < 2 ^ d" using take_bit_nat_eq_self_iff by metis
  moreover have "(2 :: nat) ^ d \<le> 2 ^ (d + e)" by simp
  ultimately show False by linarith
qed

section \<open>Data\<close>

record RABINPOLY =
  moduloT :: "u64 list"
  regionT :: "u64 list"
  region_buf :: "byte list"
  region_size :: nat
  region_pos :: nat
  rp_shift :: nat
  ir_poly :: u64

record RabinCtx =
  rp :: RABINPOLY
  rc_mask :: u32
  finger :: u64
  bsize :: int
  min_size :: nat
  max_size :: nat

record RabinBoundary =
  bd_offset :: nat
  bd_finger :: u64

definition MSB64 :: u64 where "MSB64 = 0x8000000000000000"

definition IRREDUCIBLE_POLY :: u64 where "IRREDUCIBLE_POLY = 0x946d1d8dcfee41e5"

definition chunk_sizes :: "int list" where
  "chunk_sizes = [32, 64, 128, 256, 512, 1024, 2*1024, 4*1024,
     8*1024, 16*1024, 32*1024, 64*1024, 128*1024]"

definition masks :: "u32 list" where
  "masks = [32 - 1 , 64 - 1, 128 - 1, 256 - 1, 512 - 1, 1024 - 1,
     2*1024 - 1, 4*1024 - 1, 8*1024 - 1, 16*1024 - 1, 32*1024 - 1,
     64*1024 - 1, 128*1024 - 1]"

section \<open>Operations\<close>

text \<open>\<open>GetDegree\<close> counts down from 63 to the first nonzero bit, and stops at 0.\<close>

fun degree_from :: "u64 \<Rightarrow> nat \<Rightarrow> nat" where
  "degree_from poly 0 = 0"
| "degree_from poly (Suc k) = (if poly AND push_bit (Suc k) 1 = 0 then degree_from poly k else Suc k)"

definition GetDegree :: "u64 \<Rightarrow> nat" where
  "GetDegree poly = degree_from poly 63"

text \<open>The loop bodies of \<open>GetFingerprint\<close>, over the high and over the low half.\<close>

definition reduce_high :: "u64 \<Rightarrow> nat \<Rightarrow> u64 \<times> u64 \<Rightarrow> u64 \<times> u64" where
  "reduce_high poly i = (\<lambda>(h, l).
     if h AND push_bit i 1 \<noteq> 0
     then (h XOR drop_bit (63 - i) poly, l XOR push_bit (i + 1) poly)
     else (h, l))"

definition reduce_low :: "u64 \<Rightarrow> nat \<Rightarrow> u64 \<Rightarrow> u64" where
  "reduce_low poly i l = (if l AND push_bit i 1 \<noteq> 0 then l XOR drop_bit (63 - i) poly else l)"

definition GetFingerprint :: "u64 \<Rightarrow> u64 \<Rightarrow> u64 \<Rightarrow> u64" where
  "GetFingerprint h l poly0 =
     (let k = GetDegree poly0;
          poly = push_bit (63 - k) poly0;
          l' = (if h \<noteq> 0 then
                  let h' = (if h AND MSB64 \<noteq> 0 then h XOR poly else h)
                  in snd (fold (reduce_high poly) (rev [0..<63]) (h', l))
                else l)
      in fold (reduce_low poly) (rev [k..<64]) l')"

definition mult_step :: "u64 \<Rightarrow> u64 \<Rightarrow> nat \<Rightarrow> u64 \<times> u64 \<Rightarrow> u64 \<times> u64" where
  "mult_step x y i = (\<lambda>(ih, il).
     if x AND push_bit i 1 \<noteq> 0 then (ih XOR drop_bit (64 - i) y, il XOR push_bit i y)
     else (ih, il))"

text \<open>The high and the low half of the product.\<close>

definition MultiplyPoly :: "u64 \<Rightarrow> u64 \<Rightarrow> u64 \<times> u64" where
  "MultiplyPoly x y =
     fold (mult_step x y) (rev [1..<64]) (0, if x AND 1 \<noteq> 0 then y else 0)"

definition ConcatByte :: "RABINPOLY \<Rightarrow> u64 \<Rightarrow> byte \<Rightarrow> RABINPOLY \<times> u64" where
  "ConcatByte r f0 b =
     (let f = f0 XOR regionT r ! unat (region_buf r ! region_pos r);
          r' = r\<lparr>region_buf := (region_buf r)[region_pos r := b],
                 region_pos := (region_pos r + 1) mod region_size r\<rparr>
      in (r', (push_bit 8 f OR ucast b) XOR moduloT r ! unat (drop_bit (rp_shift r) f)))"

definition InitializeRabin :: "RABINPOLY \<Rightarrow> nat \<Rightarrow> RABINPOLY" where
  "InitializeRabin r rsize =
     (if ir_poly r \<noteq> 0 then r
      else let p = IRREDUCIBLE_POLY;
               k = GetDegree p;
               shift = k - 8;
               T = GetFingerprint 0 (push_bit 63 1) p;
               mt = map (\<lambda>i. let (h, l) = MultiplyPoly (of_nat i) T
                             in GetFingerprint h l p OR push_bit k (of_nat i)) [0..<256];
               sizeshift = ((\<lambda>s. push_bit 8 s XOR mt ! unat (drop_bit shift s)) ^^ (rsize - 1)) 1;
               rt = map (\<lambda>i. let (h, l) = MultiplyPoly (of_nat i) sizeshift
                             in GetFingerprint h l p) [0..<256]
           in r\<lparr>ir_poly := p, region_size := rsize, region_pos := 0, rp_shift := shift,
                moduloT := mt, regionT := rt\<rparr>)"

definition ZeroRegionBuf :: "RABINPOLY \<Rightarrow> RABINPOLY" where
  "ZeroRegionBuf r = r\<lparr>region_buf := replicate 256 0\<rparr>"

text \<open>
  The search loop of \<open>GetNormalizedSize\<close> and \<open>GetMRCIndex\<close>: the index of the interval between two
  consecutive chunk sizes that holds \<open>b_size\<close>.
\<close>

fun size_index :: "int list \<Rightarrow> nat \<Rightarrow> int \<Rightarrow> nat option" where
  "size_index (c # d # cs) i b_size =
     (if b_size \<ge> c \<and> b_size < d then Some i else size_index (d # cs) (Suc i) b_size)"
| "size_index _ i b_size = None"

definition GetNormalizedSize :: "int \<Rightarrow> int res" where
  "GetNormalizedSize b_size =
     (case size_index chunk_sizes 0 b_size of
        Some i \<Rightarrow> Inr (chunk_sizes ! i) | None \<Rightarrow> Inl NiceExit)"

definition GetMRCIndex :: "int \<Rightarrow> nat res" where
  "GetMRCIndex b_size =
     (case size_index chunk_sizes 0 b_size of Some i \<Rightarrow> Inr i | None \<Rightarrow> Inl NiceExit)"

definition GetMRCMask :: "int \<Rightarrow> u32 res" where
  "GetMRCMask b_size = rbind (GetMRCIndex b_size) (\<lambda>i. Inr (masks ! i))"

definition InitRabinCtx :: "RabinCtx \<Rightarrow> int \<Rightarrow> nat \<Rightarrow> nat \<Rightarrow> nat \<Rightarrow> RabinCtx res" where
  "InitRabinCtx rctx bsz window mn mx =
     rbind (GetNormalizedSize bsz) (\<lambda>n.
       let r = rctx\<lparr>bsize := n, rc_mask := of_int (n - 1), finger := 0, min_size := mn,
                    max_size := mx\<rparr>
       in Inr (r\<lparr>rp := InitializeRabin ((rp r)\<lparr>ir_poly := 0\<rparr>) window\<rparr>))"

text \<open>
  The scan loop: \<open>src\<close> holds the bytes from \<open>p\<close> to \<open>end\<close>, \<open>i\<close> is \<open>p - src\<close>, and the
  boundaries found so far are the filled part of \<open>outBoundaries\<close>.
\<close>

fun rabin_scan :: "nat \<Rightarrow> u32 \<Rightarrow> u32 \<Rightarrow> RabinCtx \<Rightarrow> nat \<Rightarrow> byte list \<Rightarrow> RabinBoundary list \<Rightarrow>
    (RabinCtx \<times> RabinBoundary list) res" where
  "rabin_scan srclen min_mask max_mask rctx i [] out = Inr (rctx, out)"
| "rabin_scan srclen min_mask max_mask rctx i (b # bs) out =
     (let (r', f) = ConcatByte (rp rctx) (finger rctx) b;
          rctx' = rctx\<lparr>rp := r', finger := f\<rparr>;
          out' = (if f AND ucast min_mask = ucast min_mask
                  then out @ [\<lparr>bd_offset = i + 1, bd_finger = f\<rparr>] else out)
      in if max_mask \<noteq> 0 \<and> f AND ucast max_mask = ucast max_mask
         then ensure (f AND ucast min_mask = ucast min_mask)
             (ensure (i + 1 \<le> srclen)
               (ensure (out' \<noteq> [] \<and> bd_offset (last out') = i + 1) (Inr (rctx', out'))))
         else rabin_scan srclen min_mask max_mask rctx' (i + 1) bs out')"

text \<open>The new context, the boundaries and the returned offset of the last one.\<close>

definition GetRabinChunkSizeEx ::
  "RabinCtx \<Rightarrow> byte list \<Rightarrow> nat \<Rightarrow> u32 \<Rightarrow> u32 \<Rightarrow> bool \<Rightarrow> (RabinCtx \<times> RabinBoundary list \<times> nat) res"
where
  "GetRabinChunkSizeEx rctx0 src srclen0 min_mask max_mask resetRegionBuffer =
     (let rctx = (if resetRegionBuffer
                  then rctx0\<lparr>finger := 0, rp := ZeroRegionBuf (rp rctx0)\<rparr> else rctx0);
          srclen = min srclen0 (max_size rctx)
      in rbind (rabin_scan srclen min_mask max_mask rctx (min_size rctx)
                  (drop (min_size rctx) (take srclen src)) [])
           (\<lambda>(rctx', out).
              let out' = (if out = [] then [\<lparr>bd_offset = srclen, bd_finger = finger rctx'\<rparr>] else out)
              in Inr (rctx', out', bd_offset (last out'))))"

section \<open>Reduction modulo a polynomial\<close>

lemma word_test: "(w AND push_bit i 1 \<noteq> 0) = bit (w :: u64) i"
proof -
  have "w AND push_bit i 1 = (if bit w i then push_bit i 1 else 0)"
    by (rule bit_word_eqI) (auto simp: bit_simps bit_1_iff)
  moreover have "push_bit i (1 :: u64) \<noteq> 0" if "bit w i"
    using bit_imp_le_length[OF that]
    by (metis bit_push_bit_iff bit_1_0 bit_0_eq bot_apply bot_bool_def diff_self_eq_0 le_refl
        possible_bit_word)
  ultimately show ?thesis by auto
qed

lemma bit_unat [simp]: "bit (unat (w :: 'a::len word)) i = bit w i"
  by (simp add: bit_unsigned_iff)

lemma degree_from_Suc:
  "degree_from poly (Suc k) = (if bit poly (Suc k) then Suc k else degree_from poly k)"
  unfolding degree_from.simps using word_test[of poly "Suc k"] by metis

lemma degree_from_props:
  assumes "poly \<noteq> 0" "\<And>i. n < i \<Longrightarrow> i < 64 \<Longrightarrow> \<not> bit poly i" "n < 64"
  shows "bit poly (degree_from poly n) \<and> (\<forall>i. degree_from poly n < i \<longrightarrow> \<not> bit poly i) \<and>
    degree_from poly n \<le> n"
  using assms
proof (induction n)
  case 0
  have "\<not> bit poly i" if "0 < i" for i
    using 0(2)[OF that] bit_imp_le_length by fastforce
  moreover have "bit poly 0"
    using calculation 0(1) by (metis bit_word_eqI bit_0_eq bot_apply bot_bool_def neq0_conv)
  ultimately show ?case by simp
next
  case (Suc n)
  show ?case
  proof (cases "bit poly (Suc n)")
    case True
    then have "degree_from poly (Suc n) = Suc n" by (simp only: degree_from_Suc if_True if_False)
    then show ?thesis using True Suc.prems(2) bit_imp_le_length by fastforce
  next
    case False
    then have "degree_from poly (Suc n) = degree_from poly n" by (simp only: degree_from_Suc if_True if_False)
    moreover have "\<not> bit poly i" if "n < i" "i < 64" for i
      using that False Suc.prems(2) by (cases "i = Suc n") auto
    ultimately show ?thesis using Suc.IH[OF Suc.prems(1)] Suc.prems(3) by auto
  qed
qed

lemma unat_less_bits: "(\<And>i. n \<le> i \<Longrightarrow> \<not> bit (w :: u64) i) \<Longrightarrow> unat w < 2 ^ n"
proof -
  assume "\<And>i. n \<le> i \<Longrightarrow> \<not> bit w i"
  then have "take_bit n (unat w) = unat w"
    by (intro bit_eqI) (auto simp: bit_take_bit_iff, meson not_le)
  then show ?thesis by (simp add: take_bit_nat_eq_self_iff)
qed

lemma GetDegree_props:
  assumes "poly \<noteq> 0"
  shows "GetDegree poly \<le> 63" "2 ^ GetDegree poly \<le> unat poly" "unat poly < 2 ^ Suc (GetDegree poly)"
    "bit poly (GetDegree poly)"
proof -
  have *: "bit poly (GetDegree poly) \<and> (\<forall>i. GetDegree poly < i \<longrightarrow> \<not> bit poly i) \<and> GetDegree poly \<le> 63"
    unfolding GetDegree_def by (rule degree_from_props) (use assms in auto)
  then show "GetDegree poly \<le> 63" "bit poly (GetDegree poly)" by auto
  from * show "unat poly < 2 ^ Suc (GetDegree poly)" by (intro unat_less_bits) auto
  from * have "bit (unat poly) (GetDegree poly)" by (simp add: bit_unat)
  then show "2 ^ GetDegree poly \<le> unat poly" by (rule bit_nat_bound)
qed

text \<open>The polynomial a pair of words stands for.\<close>

definition wide :: "u64 \<times> u64 \<Rightarrow> nat" where
  "wide hl = push_bit 64 (unat (fst hl)) XOR unat (snd hl)"

lemma bit_wide: "bit (wide (h, l)) i = (if i < 64 then bit l i else bit h (i - 64))"
  using bit_imp_le_length[of l i] by (auto simp: wide_def bit_simps bit_unat)

lemma wide_shift:
  assumes "i \<le> 64"
  shows "wide (h XOR drop_bit (64 - i) p, l XOR push_bit i p) = wide (h, l) XOR push_bit i (unat p)"
proof (rule bit_eqI)
  fix n
  show "bit (wide (h XOR drop_bit (64 - i) p, l XOR push_bit i p)) n =
        bit (wide (h, l) XOR push_bit i (unat p)) n"
    using assms bit_imp_le_length[of p "n - i"]
    by (auto simp: bit_wide bit_simps bit_unat not_less algebra_simps Suc_diff_le)
qed

lemma unat_push_exact:
  assumes "\<And>i. k < i \<Longrightarrow> \<not> bit (poly :: u64) i" "m + k \<le> 63"
  shows "unat (push_bit m poly) = push_bit m (unat poly)"
proof (rule bit_eqI)
  fix n
  have "n < 64" if "m \<le> n" "bit poly (n - m)"
    using assms(1)[of "n - m"] assms(2) that by (cases "k < n - m") auto
  then show "bit (unat (push_bit m poly)) n = bit (push_bit m (unat poly)) n"
    by (auto simp: bit_simps)
qed

lemma reduce_high_fold:
  assumes "bit p 63" "unat p = push_bit m q" "n \<le> 63" "\<And>i. n \<le> i \<Longrightarrow> \<not> bit h i"
  shows "\<exists>l'. fold (reduce_high p) (rev [0..<n]) (h, l) = (0, l') \<and> pcong q (unat l') (wide (h, l))"
  using assms(3,4)
proof (induction n arbitrary: h l)
  case 0
  then have "h = 0" by (intro bit_word_eqI) simp
  then show ?case by (simp add: wide_def)
next
  case (Suc n)
  let ?h = "if bit h n then h XOR drop_bit (63 - n) p else h"
  let ?l = "if bit h n then l XOR push_bit (n + 1) p else l"
  have step: "reduce_high p n (h, l) = (?h, ?l)"
    by (simp only: reduce_high_def word_test split if_distrib) simp
  have top: "\<not> bit ?h i" if "n \<le> i" for i
    using that Suc.prems assms(1) bit_imp_le_length[of p "63 - n + i"]
    by (cases "i = n") (auto simp: bit_simps)
  have "pcong q (wide (?h, ?l)) (wide (h, l))"
    using Suc.prems(1) wide_shift[of "Suc n" h p l] pcong_multiple[of q "wide (h, l)" "Suc n + m"]
    by (auto simp: assms(2) push_bit_push_bit)
  with Suc.IH[of ?h ?l] Suc.prems(1) top pcong_trans show ?case
    by (fastforce simp: step)
qed

lemma reduce_low_fold:
  assumes "bit poly k" "\<And>i. k < i \<Longrightarrow> \<not> bit poly i" "k \<le> 63" "k \<le> n" "n \<le> 64"
    and "\<And>i. n \<le> i \<Longrightarrow> \<not> bit l i"
  shows "pcong (unat poly) (unat (fold (reduce_low (push_bit (63 - k) poly)) (rev [k..<n]) l)) (unat l)
    \<and> unat (fold (reduce_low (push_bit (63 - k) poly)) (rev [k..<n]) l) < 2 ^ k"
  using assms(4-6)
proof (induction n arbitrary: l)
  case 0
  then show ?case using unat_less_bits[of 0 l] by auto
next
  case (Suc n)
  show ?case
  proof (cases "k = Suc n")
    case True
    then show ?thesis using Suc.prems(3) unat_less_bits[of k l] by auto
  next
    case False
    then have kn: "k \<le> n" "n \<le> 63" using Suc.prems by auto
    let ?p = "push_bit (63 - k) poly"
    have d: "drop_bit (63 - n) ?p = push_bit (n - k) poly"
    proof (rule bit_word_eqI)
      fix i assume "i < LENGTH(64)"
      moreover have "i \<le> n" if "bit poly (i + k - n)"
        using assms(2)[of "i + k - n"] that kn by (cases "k < i + k - n") auto
      ultimately show "bit (drop_bit (63 - n) ?p) i = bit (push_bit (n - k) poly) i"
        using kn by (auto simp: bit_simps)
    qed
    have u: "unat (push_bit (n - k) poly) = push_bit (n - k) (unat poly)"
      using kn assms(2) by (intro unat_push_exact[of k]) auto
    let ?l = "if bit l n then l XOR push_bit (n - k) poly else l"
    have step: "reduce_low ?p n l = ?l"
      by (simp only: reduce_low_def word_test d)
    have top: "\<not> bit ?l i" if "n \<le> i" for i
      using that kn Suc.prems(3) assms(1,2) by (cases "i = n") (auto simp: bit_simps)
    have cong: "pcong (unat poly) (unat ?l) (unat l)"
      using pcong_multiple[of "unat poly" "unat l" "n - k"] by (simp add: unsigned_xor_eq u)
    have eq: "fold (reduce_low ?p) (rev [k..<Suc n]) l = fold (reduce_low ?p) (rev [k..<n]) ?l"
      using kn(1) by (simp only: upt_Suc_append rev_append rev.simps append_Nil append_Cons
          fold_simps step)
    have IH: "pcong (unat poly) (unat (fold (reduce_low ?p) (rev [k..<n]) ?l)) (unat ?l)
       \<and> unat (fold (reduce_low ?p) (rev [k..<n]) ?l) < 2 ^ k"
      by (rule Suc.IH[OF kn(1) _ top]) (use kn in simp)
    show ?thesis unfolding eq using IH pcong_trans[OF conjunct1[OF IH] cong] by blast
  qed
qed

lemma GetFingerprint_props:
  assumes "poly \<noteq> 0"
  shows "pcong (unat poly) (unat (GetFingerprint h l poly)) (wide (h, l))"
    "unat (GetFingerprint h l poly) < 2 ^ GetDegree poly"
proof -
  let ?k = "GetDegree poly"
  let ?p = "push_bit (63 - ?k) poly"
  note k = GetDegree_props[OF assms]
  have above: "\<not> bit poly i" if "?k < i" for i
    using k(3) that bit_nat_less[of "unat poly" "Suc ?k" i] by auto
  have p63: "bit ?p 63" using k by (simp add: bit_simps)
  have up: "unat ?p = push_bit (63 - ?k) (unat poly)"
    using k(1) above by (intro unat_push_exact[of ?k]) auto
  define l' where "l' = (if h \<noteq> 0 then
      snd (fold (reduce_high ?p) (rev [0..<63]) (if h AND MSB64 \<noteq> 0 then h XOR ?p else h, l)) else l)"
  have "pcong (unat poly) (unat l') (wide (h, l))"
  proof (cases "h = 0")
    case False
    let ?h = "if bit h 63 then h XOR ?p else h"
    have "MSB64 = push_bit 63 1" by (simp add: MSB64_def)
    then have "(h AND MSB64 \<noteq> 0) = bit h 63" using word_test[of h 63] by (simp only:)
    then have h: "(if h AND MSB64 \<noteq> 0 then h XOR ?p else h) = ?h" by (simp only: split: if_split)
    have "\<not> bit ?h i" if "63 \<le> i" for i
      using that p63 bit_imp_le_length[of h i] bit_imp_le_length[of ?p i]
      by (cases "i = 63") (auto simp: bit_simps)
    with reduce_high_fold[OF p63 up order.refl, of ?h l] obtain l2 where
      "fold (reduce_high ?p) (rev [0..<63]) (?h, l) = (0, l2)" "pcong (unat poly) (unat l2) (wide (?h, l))"
      by blast
    then have "pcong (unat poly) (unat l') (wide (?h, l))"
      using False unfolding l'_def h by (simp only: snd_conv if_True not_False_eq_True)
    moreover have "wide (h XOR ?p, l) = wide (h, l) XOR push_bit (64 + (63 - ?k)) (unat poly)"
      using wide_shift[of 64 h ?p l] by (simp add: up push_bit_push_bit)
    then have "pcong (unat poly) (wide (?h, l)) (wide (h, l))"
      by (auto simp: pcong_multiple)
    ultimately show ?thesis by (rule pcong_trans)
  qed (simp add: l'_def wide_def)
  moreover have "GetFingerprint h l poly = fold (reduce_low ?p) (rev [?k..<64]) l'"
    by (simp add: GetFingerprint_def Let_def l'_def)
  moreover have low: "\<not> bit l' i" if "64 \<le> i" for i
    using that bit_imp_le_length[of l' i] by auto
  moreover note reduce_low_fold[OF k(4) above k(1) _ order.refl low]
  ultimately show "pcong (unat poly) (unat (GetFingerprint h l poly)) (wide (h, l))"
    "unat (GetFingerprint h l poly) < 2 ^ ?k"
    using k(1) pcong_trans[of _ _ "unat l'"] by auto
qed

text \<open>\<open>MultiplyPoly\<close> is the carry-less product.\<close>

lemma mult_step_fold:
  assumes "0 < m" "m + n \<le> 64"
  shows "wide (fold (mult_step x y) (rev [m..<m + n]) hl) =
    wide hl XOR clmul (push_bit m (take_bit n (drop_bit m (unat x)))) (unat y)"
  using assms(2)
proof (induction n arbitrary: hl)
  case (Suc n)
  obtain h l where hl: "hl = (h, l)" by fastforce
  let ?b = "bit x (m + n)"
  have "wide (mult_step x y (m + n) hl) =
      wide hl XOR (if ?b then push_bit (m + n) (unat y) else 0)"
    using wide_shift[of "m + n" h y l] Suc.prems word_test[of x "m + n"]
    by (simp add: mult_step_def hl)
  moreover have "push_bit m (take_bit (Suc n) (drop_bit m (unat x))) =
      (if ?b then push_bit (m + n) 1 else 0) XOR push_bit m (take_bit n (drop_bit m (unat x)))"
    by (intro bit_eqI) (auto simp: bit_simps bit_1_iff less_Suc_eq)
  then have "clmul (push_bit m (take_bit (Suc n) (drop_bit m (unat x)))) (unat y) =
      (if ?b then push_bit (m + n) (unat y) else 0)
      XOR clmul (push_bit m (take_bit n (drop_bit m (unat x)))) (unat y)"
    by (cases ?b) (simp_all only: if_True if_False clmul_xor clmul_push clmul_1 clmul_0)
  ultimately show ?case using Suc by (simp add: xor.assoc)
qed simp

lemma MultiplyPoly_clmul: "wide (MultiplyPoly x y) = clmul (unat x) (unat y)"
proof -
  have split: "push_bit m (take_bit (64 - m) (drop_bit m (unat x))) XOR take_bit m (unat x) = unat x" for m
    by (intro bit_eqI) (auto simp: bit_simps not_less dest: bit_imp_le_length intro: diff_less_mono)
  have "take_bit 1 n = (if bit n 0 then 1 else 0)" for n :: nat
    by (simp add: bit_0 odd_iff_mod_2_eq_one)
  from this[of "unat x"] have one: "take_bit 1 (unat x) = (if bit x 0 then 1 else 0)"
    by (simp only: bit_unat)
  have "(64 :: nat) - 1 = 63" by simp
  with split[of 1] one have "push_bit 1 (take_bit 63 (drop_bit 1 (unat x))) XOR (if bit x 0 then 1 else 0) = unat x"
    by (simp only:)
  then have "clmul (unat x) (unat y) = clmul (push_bit 1 (take_bit 63 (drop_bit 1 (unat x)))
     XOR (if bit x 0 then 1 else 0)) (unat y)" by (simp only:)
  also have "\<dots> = clmul (push_bit 1 (take_bit 63 (drop_bit 1 (unat x)))) (unat y)
     XOR (if bit x 0 then unat y else 0)"
    by (cases "bit x 0") (simp_all only: clmul_xor if_True if_False clmul_1 clmul_0)
  finally have "clmul (unat x) (unat y) = clmul (push_bit 1 (take_bit 63 (drop_bit 1 (unat x)))) (unat y)
     XOR (if bit x 0 then unat y else 0)" .
  moreover have "(x AND 1 \<noteq> 0) = bit x 0" using word_test[of x 0] by simp
  ultimately show ?thesis
    using mult_step_fold[of 1 63 x y "(0, if x AND 1 \<noteq> 0 then y else 0)"]
    by (simp add: MultiplyPoly_def wide_def xor.commute)
qed

section \<open>The tables\<close>

abbreviation P63 :: nat where "P63 \<equiv> unat IRREDUCIBLE_POLY"

lemma IRREDUCIBLE_POLY_degree: "IRREDUCIBLE_POLY \<noteq> 0" "GetDegree IRREDUCIBLE_POLY = 63"
proof -
  have "bit IRREDUCIBLE_POLY 63" by (simp add: IRREDUCIBLE_POLY_def)
  then show "GetDegree IRREDUCIBLE_POLY = 63"
    using degree_from_Suc[of IRREDUCIBLE_POLY 62] by (simp add: GetDegree_def)
qed (simp add: IRREDUCIBLE_POLY_def)

lemmas fingerprint_P63 =
  GetFingerprint_props[OF IRREDUCIBLE_POLY_degree(1), unfolded IRREDUCIBLE_POLY_degree(2)]

lemma P63_unique:
  assumes "pcong P63 (unat a) c" "pcong P63 (unat b) c" "unat a < 2 ^ 63" "unat b < 2 ^ 63"
  shows "a = b"
proof -
  note d = GetDegree_props[OF IRREDUCIBLE_POLY_degree(1), unfolded IRREDUCIBLE_POLY_degree(2)]
  have "pcong P63 (unat a) (unat b)" using assms(1,2) pcong_sym pcong_trans by blast
  then show ?thesis using pcong_unique[OF _ assms(3,4) d(2,3)] by (simp add: word_unat_eq_iff)
qed

lemma pcong_clmul: "pcong p a b \<Longrightarrow> pcong p (clmul c a) (clmul c b)"
proof (induction c rule: less_induct)
  case (less c)
  show ?case
  proof (cases "c = 0")
    case False
    with less have "pcong p (push_bit 1 (clmul (c div 2) a)) (push_bit 1 (clmul (c div 2) b))"
      by (intro pcong_push) auto
    with less.prems show ?thesis
      by (subst (1 2) clmul_rec) (intro pcong_xor; simp)
  qed simp
qed

lemma nat_bits: "(if odd c then 1 else 0) XOR push_bit 1 (c div 2) = (c :: nat)"
proof (rule bit_eqI)
  fix n
  show "bit ((if odd c then 1 else 0) XOR push_bit 1 (c div 2)) n = bit c n"
    by (cases n) (auto simp: bit_0 bit_Suc even_xor_iff xor_div2)
qed

lemma clmul_monomial: "clmul c (push_bit n 1) = push_bit n c"
proof (induction c rule: less_induct)
  case (less c)
  show ?case
  proof (cases "c = 0")
    case False
    then have "clmul c (push_bit n 1) = (if odd c then push_bit n 1 else 0) XOR push_bit n (push_bit 1 (c div 2))"
      using less by (subst clmul_rec) (simp add: push_bit_push_bit)
    also have "\<dots> = push_bit n ((if odd c then 1 else 0) XOR push_bit 1 (c div 2))"
      by (simp add: push_bit_xor_nat)
    also have "(if odd c then 1 else 0) XOR push_bit 1 (c div 2) = c"
      by (rule nat_bits)
    finally show ?thesis .
  qed simp
qed

text \<open>What \<open>InitializeRabin\<close> puts in the two tables, for a window of \<open>w\<close> bytes.\<close>

definition modulo_entry :: "u64 \<Rightarrow> nat \<Rightarrow> bool" where
  "modulo_entry e i \<longleftrightarrow> (\<exists>m. e = m OR push_bit 63 (of_nat i) \<and> unat m < 2 ^ 63 \<and>
     pcong P63 (unat m) (push_bit 63 i))"

definition tables_ok :: "nat \<Rightarrow> RABINPOLY \<Rightarrow> bool" where
  "tables_ok w r \<longleftrightarrow> rp_shift r = 55 \<and> region_size r = w \<and> 0 < w \<and> w \<le> 256 \<and> region_pos r < w \<and>
     (\<forall>i < 256. modulo_entry (moduloT r ! i) i) \<and>
     (\<forall>i < 256. unat (regionT r ! i) < 2 ^ 63 \<and>
        pcong P63 (unat (regionT r ! i)) (push_bit (8 * (w - 1)) i))"

lemma times_fingerprint:
  assumes "i < 256" "MultiplyPoly (of_nat i) t = (h, l)" "pcong P63 (unat t) (push_bit n 1)"
  shows "pcong P63 (unat (GetFingerprint h l IRREDUCIBLE_POLY)) (push_bit n i)"
proof -
  have "unat (of_nat i :: u64) = i" using assms(1) by (simp add: unsigned_of_nat take_bit_nat_eq_self_iff)
  then have "wide (h, l) = clmul i (unat t)" using MultiplyPoly_clmul[of "of_nat i" t] assms(2) by simp
  then have "pcong P63 (wide (h, l)) (push_bit n i)"
    using pcong_clmul[OF assms(3), of i] by (simp only: clmul_monomial)
  then show ?thesis using fingerprint_P63(1) pcong_trans by blast
qed

lemma append_byte_unat:
  fixes f m :: u64 and b :: byte
  assumes "unat f < 2 ^ 63" "unat m < 2 ^ 63"
  shows "unat ((push_bit 8 f OR ucast b) XOR (m OR push_bit 63 (of_nat (unat (drop_bit 55 f))))) =
    push_bit 8 (take_bit 55 (unat f)) XOR (unat b XOR unat m)"
proof (rule bit_eqI)
  fix n :: nat
  have top: "\<not> bit f i" "\<not> bit m i" if "63 \<le> i" for i
    using assms that bit_nat_less[of "unat f" 63 i] bit_nat_less[of "unat m" 63 i] by auto
  have b: "\<not> bit b i" if "8 \<le> i" for i using that bit_imp_le_length[of b i] by auto
  have f: "(of_nat (unat (drop_bit 55 f)) :: u64) = drop_bit 55 f" by simp
  consider "n < 8" | "8 \<le> n" "n < 63" | "n = 63" | "63 < n" by linarith
  then show "bit (unat ((push_bit 8 f OR ucast b) XOR (m OR push_bit 63 (of_nat (unat (drop_bit 55 f)))))) n =
    bit (push_bit 8 (take_bit 55 (unat f)) XOR (unat b XOR unat m)) n"
    unfolding f by cases (use top b bit_imp_le_length[of f n] in \<open>auto simp: bit_simps\<close>)
qed

lemma shift_append:
  fixes f :: u64 and b :: byte
  assumes "unat f < 2 ^ 63" "\<forall>i < 256. modulo_entry (mt ! i) i"
  defines "g \<equiv> (push_bit 8 f OR ucast b) XOR mt ! unat (drop_bit 55 f)"
  shows "unat g < 2 ^ 63" "pcong P63 (unat g) (push_bit 8 (unat f) XOR unat b)"
proof -
  let ?t = "unat (drop_bit 55 f)"
  have t: "?t = drop_bit 55 (unat f)" by (rule bit_eqI) (simp add: bit_simps)
  then have "?t < 256" using assms(1) by (simp add: drop_bit_eq_div)
  with assms(2) obtain m where m: "mt ! ?t = m OR push_bit 63 (of_nat ?t)" "unat m < 2 ^ 63"
    "pcong P63 (unat m) (push_bit 63 ?t)" by (auto simp: modulo_entry_def)
  have g: "unat g = push_bit 8 (take_bit 55 (unat f)) XOR (unat b XOR unat m)"
    unfolding g_def m(1) by (rule append_byte_unat[OF assms(1) m(2)])
  have "push_bit 8 (unat f) = push_bit 63 ?t XOR push_bit 8 (take_bit 55 (unat f))"
    unfolding t by (rule bit_eqI) (auto simp: bit_simps)
  then have "push_bit 8 (unat f) XOR unat b =
      push_bit 8 (take_bit 55 (unat f)) XOR (unat b XOR push_bit 63 ?t)"
    by (simp only: xor_ac)
  then show "pcong P63 (unat g) (push_bit 8 (unat f) XOR unat b)"
    unfolding g using m(3) by (auto intro!: pcong_xor)
  have top: "\<not> bit m i" "\<not> bit b i" if "63 \<le> i" for i
    using m(2) that bit_nat_less[of "unat m" 63 i] bit_imp_le_length[of b i] by auto
  have "take_bit 63 (unat g) = unat g"
    unfolding g by (intro bit_eqI) (use top in \<open>auto simp: bit_simps not_less\<close>)
  then show "unat g < 2 ^ 63" by (simp add: take_bit_nat_eq_self_iff)
qed

lemma sizeshift_props:
  assumes "\<forall>i < 256. modulo_entry (mt ! i) i"
  defines "step \<equiv> \<lambda>s :: u64. push_bit 8 s XOR mt ! unat (drop_bit 55 s)"
  shows "unat ((step ^^ n) 1) < 2 ^ 63 \<and> pcong P63 (unat ((step ^^ n) 1)) (push_bit (8 * n) 1)"
proof (induction n)
  case (Suc n)
  let ?s = "(step ^^ n) 1"
  have "step ?s = (push_bit 8 ?s OR ucast (0 :: byte)) XOR mt ! unat (drop_bit 55 ?s)"
    by (simp add: step_def)
  moreover have "pcong P63 (push_bit 8 (unat ?s)) (push_bit (8 * Suc n) 1)"
    using pcong_push[OF conjunct2[OF Suc.IH], of 8] by (simp only: push_bit_push_bit mult_Suc_right)
  ultimately show ?case
    using shift_append[OF conjunct1[OF Suc.IH] assms(1), of 0] pcong_trans by auto
qed simp

lemma InitializeRabin_ok:
  assumes "ir_poly r = 0" "0 < w" "w \<le> 256"
  shows "tables_ok w (InitializeRabin r w)" "region_buf (InitializeRabin r w) = region_buf r"
proof -
  let ?p = IRREDUCIBLE_POLY
  define T where "T = GetFingerprint 0 (push_bit 63 1) ?p"
  define mt where "mt = map (\<lambda>i. let (h, l) = MultiplyPoly (of_nat i) T
     in GetFingerprint h l ?p OR push_bit 63 (of_nat i)) [0..<256]"
  define ss where "ss = ((\<lambda>s. push_bit 8 s XOR mt ! unat (drop_bit 55 s)) ^^ (w - 1)) 1"
  have "pcong P63 (unat T) (push_bit 63 1)"
    using fingerprint_P63(1)[of 0 "push_bit 63 1"] by (simp add: T_def wide_def)
  then have "modulo_entry (mt ! i) i" if "i < 256" for i
    using that times_fingerprint[OF that] fingerprint_P63(2) unfolding modulo_entry_def mt_def
    by (auto split: prod.split)
  then have mt: "\<forall>i < 256. modulo_entry (mt ! i) i" by blast
  have ss: "pcong P63 (unat ss) (push_bit (8 * (w - 1)) 1)"
    using sizeshift_props[OF mt] unfolding ss_def by blast
  have "InitializeRabin r w = r\<lparr>ir_poly := ?p, region_size := w, region_pos := 0, rp_shift := 55,
      moduloT := mt, regionT := map (\<lambda>i. let (h, l) = MultiplyPoly (of_nat i) ss
        in GetFingerprint h l ?p) [0..<256]\<rparr>"
    using assms(1) by (simp add: InitializeRabin_def IRREDUCIBLE_POLY_degree(2) Let_def T_def mt_def ss_def)
  then show "tables_ok w (InitializeRabin r w)" "region_buf (InitializeRabin r w) = region_buf r"
    using assms(2,3) mt times_fingerprint[OF _ _ ss] fingerprint_P63(2)
    by (auto simp: tables_ok_def split: prod.split)
qed

section \<open>The sliding window\<close>

text \<open>The window is the ring buffer read from its oldest byte.\<close>

definition window :: "RABINPOLY \<Rightarrow> byte list" where
  "window r = drop (region_pos r) (take (region_size r) (region_buf r)) @ take (region_pos r) (region_buf r)"

definition bytes_poly :: "byte list \<Rightarrow> nat" where
  "bytes_poly bs = foldl (\<lambda>a b. push_bit 8 a XOR unat b) 0 bs"

lemma bytes_poly_snoc [simp]: "bytes_poly (bs @ [b]) = push_bit 8 (bytes_poly bs) XOR unat b"
  by (simp add: bytes_poly_def)

lemma bytes_poly_Nil [simp]: "bytes_poly [] = 0"
  by (simp add: bytes_poly_def)

lemma bytes_poly_Cons: "bytes_poly (b # bs) = push_bit (8 * length bs) (unat b) XOR bytes_poly bs"
proof (induction bs rule: rev_induct)
  case (snoc c bs)
  have "bytes_poly (b # bs @ [c]) = push_bit 8 (bytes_poly (b # bs)) XOR unat c"
    using bytes_poly_snoc[of "b # bs" c] by simp
  with snoc show ?case
    by (simp add: push_bit_xor_nat push_bit_push_bit xor.assoc)
qed (simp add: bytes_poly_def)

text \<open>The fingerprint of a byte string computed afresh, one reduction per byte and no tables.\<close>

definition poly_fp :: "byte list \<Rightarrow> u64" where
  "poly_fp bs = foldl (\<lambda>f b. GetFingerprint (drop_bit 56 f) (push_bit 8 f OR ucast b) IRREDUCIBLE_POLY) 0 bs"

lemma wide_append:
  "wide (drop_bit 56 f, push_bit 8 f OR ucast (b :: byte)) = push_bit 8 (unat f) XOR unat b"
proof (rule bit_eqI)
  fix n :: nat
  have b: "\<not> bit b i" if "8 \<le> i" for i using that bit_imp_le_length[of b i] by auto
  consider "n < 8" | "8 \<le> n" "n < 64" | "64 \<le> n" by linarith
  then show "bit (wide (drop_bit 56 f, push_bit 8 f OR ucast b)) n = bit (push_bit 8 (unat f) XOR unat b) n"
    by cases (use b in \<open>auto simp: bit_wide bit_simps\<close>)
qed

lemma poly_fp_props: "unat (poly_fp bs) < 2 ^ 63" "pcong P63 (unat (poly_fp bs)) (bytes_poly bs)"
proof (induction bs rule: rev_induct)
  case (snoc b bs)
  let ?f = "poly_fp bs"
  have "wide (drop_bit 56 ?f, push_bit 8 ?f OR ucast b) = push_bit 8 (unat ?f) XOR unat b"
    by (rule wide_append)
  moreover have "poly_fp (bs @ [b]) = GetFingerprint (drop_bit 56 ?f) (push_bit 8 ?f OR ucast b) IRREDUCIBLE_POLY"
    by (simp add: poly_fp_def)
  moreover have "pcong P63 (push_bit 8 (unat ?f) XOR unat b) (bytes_poly (bs @ [b]))"
    using pcong_push[OF snoc.IH(2)] by (auto intro: pcong_xor)
  ultimately show "unat (poly_fp (bs @ [b])) < 2 ^ 63"
    "pcong P63 (unat (poly_fp (bs @ [b]))) (bytes_poly (bs @ [b]))"
    using fingerprint_P63(2) pcong_trans[OF fingerprint_P63(1)] by (simp_all only:)
qed (simp_all add: poly_fp_def)

definition rolled :: "nat \<Rightarrow> RABINPOLY \<Rightarrow> u64 \<Rightarrow> bool" where
  "rolled w r f \<longleftrightarrow> tables_ok w r \<and> length (region_buf r) = 256 \<and> f = poly_fp (window r)"

lemma length_window: "tables_ok w r \<Longrightarrow> length (region_buf r) = 256 \<Longrightarrow> length (window r) = w"
  by (auto simp: window_def tables_ok_def)

lemma ConcatByte_window:
  assumes "tables_ok w r" "length (region_buf r) = 256" "ConcatByte r f b = (r', f')"
  shows "tables_ok w r'" "length (region_buf r') = 256" "window r' = tl (window r) @ [b]"
    "hd (window r) = region_buf r ! region_pos r"
proof -
  let ?p = "region_pos r" and ?buf = "region_buf r"
  have p: "?p < w" "w \<le> 256" "region_size r = w" using assms(1) by (auto simp: tables_ok_def)
  have r': "r' = r\<lparr>region_buf := ?buf[?p := b], region_pos := (?p + 1) mod w\<rparr>"
    using assms(3) p by (simp add: ConcatByte_def Let_def)
  show "tables_ok w r'" "length (region_buf r') = 256"
    using assms(1,2) by (auto simp: r' tables_ok_def)
  have d: "drop ?p (take w ?buf) = ?buf ! ?p # drop (Suc ?p) (take w ?buf)"
    using p assms(2) by (subst Cons_nth_drop_Suc[symmetric]) auto
  show "hd (window r) = ?buf ! ?p" by (simp add: window_def p d)
  have t: "take (Suc ?p) (?buf[?p := b]) = take ?p ?buf @ [b]"
    using p assms(2) by (simp add: take_Suc_conv_app_nth)
  show "window r' = tl (window r) @ [b]"
  proof (cases "Suc ?p = w")
    case True
    then show ?thesis using p t d assms(2) by (simp add: window_def r')
  next
    case False
    then have "(?p + 1) mod w = Suc ?p" using p by simp
    then show ?thesis using t d p by (simp add: window_def r' drop_take)
  qed
qed

lemma ConcatByte_rolled:
  assumes "rolled w r f" "ConcatByte r f b = (r', f')"
  shows "rolled w r' f'"
proof -
  have ok: "tables_ok w r" "length (region_buf r) = 256" and f: "f = poly_fp (window r)"
    using assms(1) by (auto simp: rolled_def)
  note win = ConcatByte_window[OF ok assms(2)]
  let ?o = "hd (window r)"
  let ?g = "f XOR regionT r ! unat ?o"
  have w: "window r = ?o # tl (window r)" "length (tl (window r)) = w - 1"
    using length_window[OF ok] ok(1) by (cases "window r"; auto simp: tables_ok_def)+
  have "unat ?o < 2 ^ LENGTH(8)" by (rule unsigned_less)
  then have o: "unat ?o < 256" by simp
  have reg: "unat (regionT r ! unat ?o) < 2 ^ 63"
    "pcong P63 (unat (regionT r ! unat ?o)) (push_bit (8 * (w - 1)) (unat ?o))"
    using ok(1) o by (auto simp: tables_ok_def)
  have "pcong P63 (unat ?g) (bytes_poly (window r) XOR push_bit (8 * (w - 1)) (unat ?o))"
    unfolding f unsigned_xor_eq using poly_fp_props(2) reg(2) by (rule pcong_xor)
  moreover have "bytes_poly (window r) = push_bit (8 * (w - 1)) (unat ?o) XOR bytes_poly (tl (window r))"
    using bytes_poly_Cons[of ?o "tl (window r)"] w by (simp only:)
  ultimately have g: "pcong P63 (unat ?g) (bytes_poly (tl (window r)))"
    by (simp only: xor_ac xor.left_neutral)
  have "take_bit 63 (unat ?g) = unat ?g"
    using reg(1) poly_fp_props(1)[of "window r"] unfolding f unsigned_xor_eq take_bit_xor
    by (simp add: take_bit_nat_eq_self_iff[THEN iffD2])
  then have g63: "unat ?g < 2 ^ 63" by (simp add: take_bit_nat_eq_self_iff)
  have mt: "\<forall>i < 256. modulo_entry (moduloT r ! i) i" and s: "rp_shift r = 55"
    using ok(1) by (auto simp: tables_ok_def)
  have "f' = (push_bit 8 ?g OR ucast b) XOR moduloT r ! unat (drop_bit 55 ?g)"
    using assms(2) win(4) by (simp add: ConcatByte_def Let_def s)
  then have f': "unat f' < 2 ^ 63" "pcong P63 (unat f') (push_bit 8 (unat ?g) XOR unat b)"
    using shift_append[OF g63 mt, of b] by auto
  have "pcong P63 (push_bit 8 (unat ?g) XOR unat b) (bytes_poly (window r'))"
    unfolding win(3) bytes_poly_snoc using pcong_push[OF g] by (rule pcong_xor) simp
  then have "f' = poly_fp (window r')"
    using f' poly_fp_props pcong_trans by (intro P63_unique[of f' "bytes_poly (window r')"]) blast+
  then show ?thesis using win by (simp add: rolled_def)
qed

lemma poly_fp_zeros: "poly_fp (replicate n 0) = 0"
proof -
  have "bytes_poly (replicate n 0) = 0"
    by (induction n) (auto simp: bytes_poly_Cons)
  then show ?thesis
    using poly_fp_props[of "replicate n 0"] by (intro P63_unique[of _ 0]) auto
qed

lemma rolled_zero:
  assumes "tables_ok w r"
  shows "rolled w (ZeroRegionBuf r) 0" "window (ZeroRegionBuf r) = replicate w 0"
proof -
  show win: "window (ZeroRegionBuf r) = replicate w 0"
    using assms by (auto simp: window_def ZeroRegionBuf_def tables_ok_def min_def simp flip: replicate_add)
  show "rolled w (ZeroRegionBuf r) 0"
    unfolding rolled_def win using assms by (auto simp: poly_fp_zeros ZeroRegionBuf_def tables_ok_def)
qed

section \<open>Chunk boundaries\<close>

text \<open>
  The reference: the fingerprint at a position is that of the last \<open>w\<close> bytes scanned (with zeros
  before the first one), a position is a boundary when its fingerprint has all bits of the minimum
  mask, and the scan ends after the first position with all bits of the maximum mask.
\<close>

definition hits :: "u32 \<Rightarrow> u64 \<Rightarrow> bool" where
  "hits m f \<longleftrightarrow> f AND ucast m = ucast m"

definition ref_finger :: "nat \<Rightarrow> byte list \<Rightarrow> u64" where
  "ref_finger w bs = poly_fp (drop (length bs) (replicate w 0 @ bs))"

definition scan_end :: "nat \<Rightarrow> u32 \<Rightarrow> byte list \<Rightarrow> nat \<Rightarrow> nat" where
  "scan_end w max_mask body k =
     (case find (\<lambda>i. max_mask \<noteq> 0 \<and> hits max_mask (ref_finger w (take (Suc i) body))) [k..<length body]
      of Some i \<Rightarrow> Suc i | None \<Rightarrow> length body)"

definition ref_cuts :: "nat \<Rightarrow> nat \<Rightarrow> u32 \<Rightarrow> u32 \<Rightarrow> byte list \<Rightarrow> nat \<Rightarrow> RabinBoundary list" where
  "ref_cuts w mn min_mask max_mask body k =
     map (\<lambda>i. \<lparr>bd_offset = mn + i + 1, bd_finger = ref_finger w (take (Suc i) body)\<rparr>)
       (filter (\<lambda>i. hits min_mask (ref_finger w (take (Suc i) body)))
          [k..<scan_end w max_mask body k])"

lemma hits_mono:
  assumes "hits max_mask f" "min_mask AND max_mask = min_mask"
  shows "hits min_mask f"
proof -
  have m: "(ucast min_mask :: u64) = ucast min_mask AND ucast max_mask"
    unfolding unsigned_and_eq[symmetric] assms(2) by (rule refl)
  have "f AND ucast min_mask = ucast min_mask AND (f AND ucast max_mask)"
    by (subst m) (simp only: and.assoc and.commute and.left_commute)
  then show ?thesis using assms(1) m unfolding hits_def by (simp only:)
qed

lemma scan_end_bounds: "k \<le> length body \<Longrightarrow> k \<le> scan_end w m body k \<and> scan_end w m body k \<le> length body"
  by (auto simp: scan_end_def find_Some_iff split: option.splits)

lemma scan_end_step:
  assumes "k < length body"
  shows "scan_end w m body k = (if m \<noteq> 0 \<and> hits m (ref_finger w (take (Suc k) body)) then Suc k
     else scan_end w m body (Suc k))"
  using assms by (simp add: scan_end_def upt_conv_Cons)

lemma ref_cuts_step:
  assumes "k < length body"
  shows "ref_cuts w mn m M body k =
    (if hits m (ref_finger w (take (Suc k) body))
     then [\<lparr>bd_offset = mn + k + 1, bd_finger = ref_finger w (take (Suc k) body)\<rparr>] else [])
    @ (if M \<noteq> 0 \<and> hits M (ref_finger w (take (Suc k) body)) then [] else ref_cuts w mn m M body (Suc k))"
proof -
  have "k < scan_end w M body k"
    using assms scan_end_bounds[of "Suc k" body w M] by (auto simp: scan_end_step)
  then have "[k..<scan_end w M body k] = k # [Suc k..<scan_end w M body k]"
    by (rule upt_conv_Cons)
  then show ?thesis using scan_end_step[OF assms, of w M] by (simp add: ref_cuts_def)
qed

lemma slide:
  assumes "0 < w"
  shows "tl (drop (length pre) (replicate w z @ pre)) @ [b] =
    drop (length pre + (0 + Suc 0)) (replicate w z @ pre @ [b])"
proof -
  have "drop n (xs @ ys) = drop n xs @ ys" if "n \<le> length xs" for n and xs ys :: "'a list"
    using that by simp
  from this[of "Suc (length pre)" "replicate w z @ pre" "[b]"] assms show ?thesis
    by (simp only: append.assoc tl_drop drop_Suc) (simp add: tl_drop drop_Suc)
qed

lemma rabin_scan_ref:
  assumes "rolled w (rp c) (finger c)" "window (rp c) = drop (length pre) (replicate w 0 @ pre)"
    and "min_mask AND max_mask = min_mask \<or> max_mask = 0" "mn + length (pre @ bs) \<le> srclen"
  shows "\<exists>r f. rabin_scan srclen min_mask max_mask c (mn + length pre) bs out =
      Inr (c\<lparr>rp := r, finger := f\<rparr>, out @ ref_cuts w mn min_mask max_mask (pre @ bs) (length pre)) \<and>
    rolled w r f"
  using assms
proof (induction bs arbitrary: c pre out)
  case Nil
  then show ?case by (intro exI[of _ "rp c"] exI[of _ "finger c"]) (simp add: ref_cuts_def scan_end_def)
next
  case (Cons b bs)
  obtain r' f where cb: "ConcatByte (rp c) (finger c) b = (r', f)" by fastforce
  have roll: "rolled w r' f" by (rule ConcatByte_rolled[OF Cons.prems(1) cb])
  have ok: "tables_ok w (rp c)" "length (region_buf (rp c)) = 256" and w: "0 < w"
    using Cons.prems(1) by (auto simp: rolled_def tables_ok_def)
  have win: "window r' = drop (length (pre @ [b])) (replicate w 0 @ (pre @ [b]))"
    using ConcatByte_window(3)[OF ok cb] Cons.prems(2) w
    by (simp only: slide length_append list.size)
  then have f: "f = ref_finger w (pre @ [b])" using roll by (simp add: rolled_def ref_finger_def)
  let ?c = "c\<lparr>rp := r', finger := f\<rparr>"
  let ?out = "if hits min_mask f then out @ [\<lparr>bd_offset = mn + length pre + 1, bd_finger = f\<rparr>] else out"
  have IH: "\<exists>r g. rabin_scan srclen min_mask max_mask ?c (mn + length (pre @ [b])) bs ?out =
      Inr (c\<lparr>rp := r, finger := g\<rparr>, ?out @ ref_cuts w mn min_mask max_mask ((pre @ [b]) @ bs) (length (pre @ [b])))
      \<and> rolled w r g"
    using Cons.IH[of ?c "pre @ [b]" ?out] roll win Cons.prems(3,4) by simp
  note cuts = ref_cuts_step[of "length pre" "pre @ b # bs" w mn min_mask max_mask]
  show ?case
  proof (cases "max_mask \<noteq> 0 \<and> hits max_mask f")
    case True
    then have "hits min_mask f" using hits_mono Cons.prems(3) by blast
    then have "rabin_scan srclen min_mask max_mask c (mn + length pre) (b # bs) out = Inr (?c, ?out)"
      using True Cons.prems(4) by (simp add: cb hits_def Let_def)
    with True \<open>hits min_mask f\<close> roll cuts show ?thesis by (auto simp: f)
  next
    case False
    then have scan: "rabin_scan srclen min_mask max_mask c (mn + length pre) (b # bs) out =
        rabin_scan srclen min_mask max_mask ?c (mn + length (pre @ [b])) bs ?out"
      by (auto simp: cb hits_def Let_def)
    have "out @ ref_cuts w mn min_mask max_mask (pre @ b # bs) (length pre) =
        ?out @ ref_cuts w mn min_mask max_mask ((pre @ [b]) @ bs) (length (pre @ [b]))"
      using False by (auto simp: f cuts)
    with IH scan show ?thesis by (simp only:)
  qed
qed

lemma GetRabinChunkSizeEx_ref:
  assumes "tables_ok w (rp c)" "min_mask AND max_mask = min_mask \<or> max_mask = 0" "n \<le> length src"
  defines "len \<equiv> min n (max_size c)"
  defines "cuts \<equiv> ref_cuts w (min_size c) min_mask max_mask (drop (min_size c) (take len src)) 0"
  shows "\<exists>r f. rolled w r f \<and>
    GetRabinChunkSizeEx c src n min_mask max_mask True =
      (let out = (if cuts = [] then [\<lparr>bd_offset = len, bd_finger = f\<rparr>] else cuts)
       in Inr (c\<lparr>rp := r, finger := f\<rparr>, out, bd_offset (last out)))"
proof -
  let ?c = "c\<lparr>finger := 0, rp := ZeroRegionBuf (rp c)\<rparr>"
  let ?body = "drop (min_size c) (take len src)"
  show ?thesis
  proof (cases "min_size c \<le> len")
    case True
    then have "min_size c + length ([] @ ?body) \<le> len" using assms(3) by (simp add: len_def)
    from rabin_scan_ref[of w ?c "[]" min_mask max_mask "min_size c" ?body len "[]", OF _ _ assms(2) this]
    obtain r f where "rabin_scan len min_mask max_mask ?c (min_size c) ?body [] =
        Inr (?c\<lparr>rp := r, finger := f\<rparr>, cuts)" "rolled w r f"
      using rolled_zero[OF assms(1)] by (auto simp: cuts_def)
    then show ?thesis
      by (intro exI[of _ r] exI[of _ f]) (auto simp: GetRabinChunkSizeEx_def len_def Let_def)
  next
    case False
    then have "?body = []" "cuts = []" by (auto simp: cuts_def ref_cuts_def scan_end_def)
    then show ?thesis
      using rolled_zero(1)[OF assms(1)]
      by (intro exI[of _ "ZeroRegionBuf (rp c)"] exI[of _ 0])
        (simp add: GetRabinChunkSizeEx_def len_def[symmetric] Let_def)
  qed
qed

lemma sorted_wrt_ref_cuts: "sorted_wrt (\<lambda>a b. bd_offset a < bd_offset b) (ref_cuts w mn m M body k)"
  unfolding ref_cuts_def sorted_wrt_map
  by (rule sorted_wrt_mono_rel[of _ "(<)"]) (auto intro: sorted_wrt_filter)

lemma set_ref_cuts: "b \<in> set (ref_cuts w mn m M body 0) \<Longrightarrow>
    mn < bd_offset b \<and> bd_offset b \<le> mn + length body"
  using scan_end_bounds[of 0 body w M] by (auto simp: ref_cuts_def)

text \<open>The masks of the chunk sizes: each is contained in the masks of the larger sizes.\<close>

lemma size_index_props:
  "size_index cs k s = Some i \<Longrightarrow> k \<le> i \<and> Suc (i - k) < length cs \<and> cs ! (i - k) \<le> s \<and> s < cs ! Suc (i - k)"
proof (induction cs k s rule: size_index.induct)
  case (1 c d cs k s)
  show ?case
  proof (cases "c \<le> s \<and> s < d")
    case False
    with 1 have "Suc k \<le> i \<and> Suc (i - Suc k) < length (d # cs) \<and> (d # cs) ! (i - Suc k) \<le> s \<and>
      s < (d # cs) ! Suc (i - Suc k)" by auto
    moreover from this have "Suc k \<le> i" by blast
    then have "i - k = Suc (i - Suc k)" by simp
    ultimately show ?thesis by auto
  qed (use 1 in auto)
qed auto

lemma chunk_sizes_mono: "i < j \<Longrightarrow> j < 13 \<Longrightarrow> chunk_sizes ! i < chunk_sizes ! j"
proof -
  have "sorted_wrt (<) chunk_sizes" by (simp add: chunk_sizes_def)
  then show "i < j \<Longrightarrow> j < 13 \<Longrightarrow> chunk_sizes ! i < chunk_sizes ! j"
    by (rule sorted_wrt_nth_less) (simp_all add: chunk_sizes_def)
qed

lemma masks_nested: "i \<le> j \<Longrightarrow> j < 12 \<Longrightarrow> masks ! i AND masks ! j = masks ! i"
proof -
  have "list_all (\<lambda>j. list_all (\<lambda>i. i \<le> j \<longrightarrow> masks ! i AND masks ! j = masks ! i) [0..<12]) [0..<12]"
    by code_simp
  then show "i \<le> j \<Longrightarrow> j < 12 \<Longrightarrow> masks ! i AND masks ! j = masks ! i"
    by (auto simp: list_all_iff)
qed

lemma GetMRCMask_index:
  assumes "GetMRCMask s = Inr m"
  shows "\<exists>i < 12. m = masks ! i \<and> chunk_sizes ! i \<le> s \<and> s < chunk_sizes ! Suc i"
proof -
  from assms obtain i where "size_index chunk_sizes 0 s = Some i" "m = masks ! i"
    by (auto simp: GetMRCMask_def GetMRCIndex_def rbind_eq_Inr split: option.splits)
  moreover have "length chunk_sizes = 13" by (simp add: chunk_sizes_def)
  ultimately show ?thesis using size_index_props[of chunk_sizes 0 s i] by (intro exI[of _ i]) auto
qed

lemma GetMRCMask_nested:
  assumes "GetMRCMask s = Inr m" "GetMRCMask t = Inr M" "s \<le> t"
  shows "m AND M = m"
proof -
  from GetMRCMask_index[OF assms(1)] GetMRCMask_index[OF assms(2)] obtain i j where
    ij: "i < 12" "m = masks ! i" "chunk_sizes ! i \<le> s" "j < 12" "M = masks ! j" "t < chunk_sizes ! Suc j"
    by blast
  have "i \<le> j"
  proof (rule ccontr)
    assume "\<not> i \<le> j"
    then have "chunk_sizes ! Suc j \<le> chunk_sizes ! i"
      using chunk_sizes_mono[of "Suc j" i] ij(1) by (cases "Suc j = i") auto
    with ij assms(3) show False by linarith
  qed
  with masks_nested ij show ?thesis by simp
qed

lemma GetRabin_context:
  assumes "InitRabinCtx c bs w mn mx = Inr c'" "0 < w" "w \<le> 256"
  shows "tables_ok w (rp c')" "min_size c' = mn" "max_size c' = mx"
  using assms InitializeRabin_ok(1)[of "(rp c)\<lparr>ir_poly := 0\<rparr>" w]
  by (auto simp: InitRabinCtx_def rbind_eq_Inr)

section \<open>Properties\<close>

text \<open>
  Claim C31: for a nonzero polynomial, \<open>GetFingerprint\<close> reduces the 128-bit polynomial made of its
  two words: the result is congruent to it, has a degree below that of the modulus, and is the only
  such polynomial.
\<close>

theorem GetFingerprint_reduces:
  assumes "poly \<noteq> 0"
  shows "pcong (unat poly) (unat (GetFingerprint h l poly)) (wide (h, l)) \<and>
    unat (GetFingerprint h l poly) < 2 ^ GetDegree poly \<and>
    (\<forall>x. pcong (unat poly) x (wide (h, l)) \<and> x < 2 ^ GetDegree poly
       \<longrightarrow> x = unat (GetFingerprint h l poly))"
  using GetFingerprint_props[OF assms, of h l] GetDegree_props(2,3)[OF assms]
    pcong_unique pcong_trans pcong_sym by meson

theorem GetFingerprint_reduces_witness:
  "unat (GetFingerprint 1 0 0x13) < 2 ^ GetDegree 0x13"
  using GetFingerprint_reduces[of "0x13" 1 0] by simp

text \<open>
  \<open>MultiplyPoly\<close> stores in its two words the 128-bit product of the polynomials.
\<close>

theorem MultiplyPoly_product:
  "MultiplyPoly x y = (h, l) \<longleftrightarrow>
     push_bit 64 (unat h) XOR unat l = clmul (unat x) (unat y)"
proof -
  have "h = h' \<and> l = l'" if "wide (h, l) = wide (h', l')" for h l h' l' :: u64
  proof -
    have "bit (wide (h, l)) i = bit (wide (h', l')) i" for i using that by simp
    from this[unfolded bit_wide] have "bit l i = bit l' i" if "i < 64" for i
      using that by presburger
    moreover have "bit h i = bit h' i" for i
      using \<open>\<And>i. (if i < 64 then bit l i else bit h (i - 64)) = _ i\<close>[of "i + 64"] by simp
    ultimately show ?thesis by (auto intro: bit_word_eqI)
  qed
  from this[of h l "fst (MultiplyPoly x y)" "snd (MultiplyPoly x y)"] show ?thesis
    using MultiplyPoly_clmul[of x y] by (auto simp: wide_def)
qed

text \<open>
  Claim C30: rolling the window by table look-up keeps the fingerprint equal to the one computed
  afresh, without tables, from the bytes now in the window.
\<close>

theorem ConcatByte_rolling:
  assumes "tables_ok w r" "length (region_buf r) = 256" "ConcatByte r (poly_fp (window r)) b = (r', f')"
  shows "window r' = tl (window r) @ [b] \<and> f' = poly_fp (tl (window r) @ [b]) \<and>
    tables_ok w r' \<and> length (region_buf r') = 256"
  using ConcatByte_rolled[of w r "poly_fp (window r)" b r' f'] ConcatByte_window[OF assms] assms
  by (simp add: rolled_def)

definition blank_rabin :: RABINPOLY where
  "blank_rabin = \<lparr>moduloT = [], regionT = [], region_buf = replicate 256 0, region_size = 0,
     region_pos = 0, rp_shift = 0, ir_poly = 0\<rparr>"

lemma blank_rabin_ok: "tables_ok 16 (InitializeRabin blank_rabin 16)"
  "region_buf (InitializeRabin blank_rabin 16) = replicate 256 0"
  using InitializeRabin_ok[of blank_rabin 16] by (auto simp: blank_rabin_def)

theorem ConcatByte_rolling_witness:
  "let r = InitializeRabin blank_rabin 16 in
   tables_ok 16 r \<and> snd (ConcatByte r (poly_fp (window r)) 65) = poly_fp (replicate 15 0 @ [65])"
proof -
  let ?r = "InitializeRabin blank_rabin 16"
  obtain r' f' where c: "ConcatByte ?r (poly_fp (window ?r)) 65 = (r', f')" by fastforce
  have "region_size ?r = 16" "region_pos ?r < 16"
    using blank_rabin_ok(1) by (auto simp: tables_ok_def)
  then have "window ?r = replicate 16 0"
    by (simp add: window_def blank_rabin_ok(2) min_def flip: replicate_add)
  with ConcatByte_rolling[OF blank_rabin_ok(1) _ c] blank_rabin_ok c show ?thesis
    by (simp add: Let_def tl_replicate)
qed

text \<open>
  Claim C7: a scan that starts with an empty window finds exactly the boundaries of the reference:
  the positions whose fingerprint of the last \<open>w\<close> bytes has all bits of the minimum mask, up to and
  including the first one that has all bits of the maximum mask; with none, the single boundary is
  the scanned length. No assertion fails, and the offset returned is that of the last boundary.
\<close>

theorem GetRabinChunkSizeEx_boundaries:
  assumes "tables_ok w (rp c)" "min_mask AND max_mask = min_mask \<or> max_mask = 0" "n \<le> length src"
  shows "\<exists>c' f. GetRabinChunkSizeEx c src n min_mask max_mask True =
      (let len = min n (max_size c);
           cuts = ref_cuts w (min_size c) min_mask max_mask (drop (min_size c) (take len src)) 0;
           out = (if cuts = [] then [\<lparr>bd_offset = len, bd_finger = f\<rparr>] else cuts)
       in Inr (c', out, bd_offset (last out)))"
  using GetRabinChunkSizeEx_ref[OF assms] unfolding Let_def by blast

theorem GetRabinChunkSizeEx_boundaries_witness:
  "\<exists>c c' f. tables_ok 16 (rp c) \<and> max_size c = 3 \<and>
     GetRabinChunkSizeEx c [1, 2, 3] 3 31 1023 True =
      (let cuts = ref_cuts 16 0 31 1023 [1, 2, 3] 0;
           out = (if cuts = [] then [\<lparr>bd_offset = 3, bd_finger = f\<rparr>] else cuts)
       in Inr (c', out, bd_offset (last out)))"
proof -
  let ?c = "\<lparr>rp = InitializeRabin blank_rabin 16, rc_mask = 31, finger = 0, bsize = 32,
     min_size = 0, max_size = 3\<rparr>"
  have t: "take 3 [1, 2, 3] = [1, 2, 3 :: byte]" by simp
  from GetRabinChunkSizeEx_boundaries[of 16 ?c 31 1023 3 "[1, 2, 3]"] blank_rabin_ok(1)
  obtain c' f where "GetRabinChunkSizeEx ?c [1, 2, 3] 3 31 1023 True =
      (let cuts = ref_cuts 16 0 31 1023 [1, 2, 3] 0;
           out = (if cuts = [] then [\<lparr>bd_offset = 3, bd_finger = f\<rparr>] else cuts)
       in Inr (c', out, bd_offset (last out)))"
    by (auto simp: Let_def t cong: if_cong)
  with blank_rabin_ok(1) show ?thesis by (intro exI[of _ ?c] exI[of _ c'] exI[of _ f]) simp
qed

text \<open>
  Claim C32: the boundaries of any scan with an empty window tile the scanned bytes: there is at
  least one, their offsets increase strictly, none is beyond the bytes given or the maximum chunk
  size, and the returned chunk size is the last of them.
\<close>

theorem GetRabinChunkSizeEx_offsets:
  assumes "tables_ok w (rp c)" "min_mask AND max_mask = min_mask \<or> max_mask = 0" "n \<le> length src"
    and "GetRabinChunkSizeEx c src n min_mask max_mask True = Inr (c', out, csize)"
  shows "out \<noteq> [] \<and> sorted_wrt (\<lambda>a b. bd_offset a < bd_offset b) out \<and>
    (\<forall>b \<in> set out. bd_offset b \<le> n \<and> bd_offset b \<le> max_size c \<and> bd_offset b \<le> csize) \<and>
    csize = bd_offset (last out)"
proof -
  let ?len = "min n (max_size c)"
  let ?cuts = "ref_cuts w (min_size c) min_mask max_mask (drop (min_size c) (take ?len src)) 0"
  from GetRabinChunkSizeEx_ref[OF assms(1-3)] assms(4) obtain f where
    out: "out = (if ?cuts = [] then [\<lparr>bd_offset = ?len, bd_finger = f\<rparr>] else ?cuts)"
      "csize = bd_offset (last out)"
    by (auto simp: Let_def)
  then have srt: "sorted_wrt (\<lambda>a b. bd_offset a < bd_offset b) out" "out \<noteq> []"
    by (auto simp: sorted_wrt_ref_cuts)
  have "bd_offset b \<le> bd_offset (last out)" if "b \<in> set out" for b
  proof -
    from that obtain i where i: "i < length out" "b = out ! i" by (metis in_set_conv_nth)
    then show ?thesis
      using sorted_wrt_nth_less[OF srt(1), of i "length out - 1"] srt(2)
      by (cases "i < length out - 1") (auto simp: last_conv_nth not_less intro: less_imp_le
          dest!: le_antisym[rotated])
  qed
  moreover have "bd_offset b \<le> ?len" if "b \<in> set out" for b
    using that set_ref_cuts[of b w "min_size c"] out(1) assms(3) by (fastforce split: if_splits)
  ultimately show ?thesis using srt out(2) by auto
qed

theorem GetRabinChunkSizeEx_offsets_witness:
  "\<exists>c c' out csize. tables_ok 16 (rp c) \<and>
     GetRabinChunkSizeEx c [1, 2, 3] 3 31 1023 True = Inr (c', out, csize) \<and> out \<noteq> [] \<and> csize \<le> 3"
proof -
  let ?c = "\<lparr>rp = InitializeRabin blank_rabin 16, rc_mask = 31, finger = 0, bsize = 32,
     min_size = 0, max_size = 128 * 1024\<rparr>"
  have ok: "tables_ok 16 (rp ?c)" "(31 :: u32) AND 1023 = 31 \<or> (1023 :: u32) = 0" "3 \<le> length [1, 2, 3 :: byte]"
    using blank_rabin_ok(1) by auto
  obtain c' out s where e: "GetRabinChunkSizeEx ?c [1, 2, 3] 3 31 1023 True = Inr (c', out, s)"
    using GetRabinChunkSizeEx_ref[OF ok] by (auto simp: Let_def)
  from GetRabinChunkSizeEx_offsets[OF ok e] have "out \<noteq> []" "s \<le> 3" by auto
  with e ok(1) show ?thesis by blast
qed

end
