(* ===== verification/Chunk_Cache.thy ===== *)
theory Chunk_Cache
  imports Hashtable_Itr
begin

text \<open>
  The chunk caches of the proxy (waprox/chunkcache.c): the memory cache of recent chunks with FIFO
  eviction, the reference-counted temporary cache of chunks in transit, the temporary cache of
  chunks being written to disk, and the two bounded tables of name hints.

  The global tables, queues and counters of the file are the record \<open>cache\<close>. A pointer with a
  length is the list of the bytes it covers. \<open>VerifySHA1\<close> returns \<open>TRUE\<close> in this build
  (\<open>_WAPROX_INTEGRITY_CHECK\<close> is not defined). An allocation that fails ends the process in this
  file, so the table insertions run with memory available. Bytes sent to the disk helper process
  are appended to \<open>dh_out\<close>.
\<close>

section \<open>Data\<close>

type_synonym sha1 = "byte list"

definition SHA1_LEN :: nat where "SHA1_LEN = 20"
definition MAX_CHUNK_SIZE :: nat where "MAX_CHUNK_SIZE = 64 * 1024 * 5"
definition MAX_NAMES :: u32 where "MAX_NAMES = 1024 * 1024"

text \<open>The sizes of the two structures on a 64-bit machine.\<close>

definition sizeof_CacheKey :: int where "sizeof_CacheKey = 56"
definition sizeof_CacheValue :: int where "sizeof_CacheValue = 16"

record CacheKey =
  sha1name :: sha1
  key_length :: nat

record CacheValue =
  pBlock :: "byte list"
  block_length :: nat
  ref_count :: int

record cache =
  send_hint_ht :: "(CacheKey, int) hashtable"
  disk_hint_ht :: "(CacheKey, int) hashtable"
  put_tmp_ht :: "(CacheKey, CacheValue) hashtable"
  tmp_ht :: "(CacheKey, CacheValue) hashtable"
  mem_ht :: "(CacheKey, CacheValue) hashtable"
  g_CacheFifo :: "CacheKey list"
  g_NameFifo :: "CacheKey list"
  g_DiskFifo :: "CacheKey list"
  g_NumKeys :: int
  g_CacheSize :: int
  maxCacheSize :: int
  g_GenerateNameHint :: bool
  dh_out :: "byte list"

section \<open>Operations\<close>

subsection \<open>Keys\<close>

definition chunk_hash_from_key_fn_raw :: "sha1 \<Rightarrow> u32" where
  "chunk_hash_from_key_fn_raw k = of_nat (sum_list (map unat (take SHA1_LEN k)))"

definition chunk_hash_from_key_fn :: "CacheKey \<Rightarrow> u32" where
  "chunk_hash_from_key_fn k = chunk_hash_from_key_fn_raw (sha1name k)"

definition chunk_keys_equal_fn_raw :: "sha1 \<Rightarrow> sha1 \<Rightarrow> bool" where
  "chunk_keys_equal_fn_raw key1 key2 \<longleftrightarrow> take SHA1_LEN key1 = take SHA1_LEN key2"

definition chunk_keys_equal_fn :: "CacheKey \<Rightarrow> CacheKey \<Rightarrow> bool" where
  "chunk_keys_equal_fn key1 key2 \<longleftrightarrow> chunk_keys_equal_fn_raw (sha1name key1) (sha1name key2)"

text \<open>
  The code looks chunks up with a pointer to the name in place of a pointer to a \<open>CacheKey\<close>, whose
  first field is the name; the key functions read nothing else.
\<close>

definition raw_key :: "sha1 \<Rightarrow> CacheKey" where
  "raw_key name = \<lparr>sha1name = name, key_length = 0\<rparr>"

definition NewKey :: "sha1 \<Rightarrow> nat \<Rightarrow> CacheKey" where
  "NewKey name len = \<lparr>sha1name = take SHA1_LEN name, key_length = len\<rparr>"

subsection \<open>Tables of chunks\<close>

definition table_insert :: "('k, 'v) hashtable \<Rightarrow> 'k \<Rightarrow> 'v \<Rightarrow> ('k, 'v) hashtable res" where
  "table_insert ht key val =
     rbind (hashtable_insert alloc_ok ht key val)
       (\<lambda>(ht', ok). if ok then Inr ht' else Inl NiceExit)"

definition PutHT :: "(CacheKey, CacheValue) hashtable \<Rightarrow> sha1 \<Rightarrow> byte list \<Rightarrow>
    ((CacheKey, CacheValue) hashtable \<times> CacheKey) res" where
  "PutHT ht name block_buffer =
     (let key = NewKey name (length block_buffer);
          val = \<lparr>pBlock = block_buffer, block_length = length block_buffer, ref_count = 1\<rparr>
      in ensure (hashtable_search ht key = None)
           (rbind (table_insert ht key val) (\<lambda>ht'. Inr (ht', key))))"

definition RemoveHT :: "(CacheKey, CacheValue) hashtable \<Rightarrow> sha1 \<Rightarrow>
    (CacheKey, CacheValue) hashtable res" where
  "RemoveHT ht name =
     (case hashtable_remove ht (raw_key name) of
        (ht', None) \<Rightarrow> Inl AssertFail
      | (ht', Some v) \<Rightarrow> Inr ht')"

subsection \<open>The memory cache\<close>

definition GetMemory :: "cache \<Rightarrow> sha1 \<Rightarrow> CacheValue option" where
  "GetMemory s name = hashtable_search (mem_ht s) (raw_key name)"

text \<open>
  The two loops of \<open>CheckCache\<close>: the victims are the oldest chunks, until their sizes add up to
  twice the needed size, collected newest first; then each is unlinked and removed.
\<close>

fun pick_victims :: "cache \<Rightarrow> int \<Rightarrow> CacheKey list \<Rightarrow> CacheKey list \<Rightarrow> CacheKey list res" where
  "pick_victims s targetSize [] freeList = Inr freeList"
| "pick_victims s targetSize (walk # rest) freeList =
     (if targetSize \<le> 0 then Inr freeList
      else case GetMemory s (sha1name walk) of
        None \<Rightarrow> Inl UndefinedBehaviour
      | Some v \<Rightarrow> pick_victims s (targetSize - int (block_length v)) rest (walk # freeList))"

fun evict :: "CacheKey list \<Rightarrow> cache \<Rightarrow> cache res" where
  "evict [] s = Inr s"
| "evict (walk # freeList) s =
     (let s1 = s\<lparr>g_CacheFifo := remove1 walk (g_CacheFifo s), g_NumKeys := g_NumKeys s - 1\<rparr> in
      ensure (g_NumKeys s1 \<ge> 0)
        (let s2 = s1\<lparr>g_CacheSize := g_CacheSize s1 - (sizeof_CacheKey + int (key_length walk))\<rparr> in
         ensure (g_CacheSize s2 \<ge> 0)
           (rbind (RemoveHT (mem_ht s2) (sha1name walk))
              (\<lambda>ht. evict freeList (s2\<lparr>mem_ht := ht\<rparr>)))))"

definition CheckCache :: "cache \<Rightarrow> int \<Rightarrow> cache res" where
  "CheckCache s neededSize =
     (if g_CacheSize s + neededSize \<le> maxCacheSize s then Inr s
      else let targetSize = neededSize * 2 in
        ensure (targetSize \<ge> 0)
          (rbind (pick_victims s targetSize (g_CacheFifo s) [])
             (\<lambda>freeList. evict freeList s)))"

definition PutMemory :: "cache \<Rightarrow> sha1 \<Rightarrow> byte list \<Rightarrow> cache res" where
  "PutMemory s name block_buffer =
     (if GetMemory s name \<noteq> None then Inr s
      else let new_size = sizeof_CacheKey + sizeof_CacheValue + int (length block_buffer) in
        rbind (CheckCache s new_size) (\<lambda>s1.
          rbind (PutHT (mem_ht s1) name block_buffer) (\<lambda>(ht, key).
            Inr (s1\<lparr>mem_ht := ht, g_CacheFifo := g_CacheFifo s1 @ [key],
                    g_NumKeys := g_NumKeys s1 + 1, g_CacheSize := g_CacheSize s1 + new_size\<rparr>))))"

subsection \<open>Name hints\<close>

text \<open>
  \<open>PutSendHintNoDisk\<close> and \<open>PutDiskHint\<close> have the same body, each on its own table and queue: the
  oldest name goes when the table is full, and the new one is added at the end.
\<close>

definition put_hint :: "(CacheKey, int) hashtable \<Rightarrow> CacheKey list \<Rightarrow> sha1 \<Rightarrow> nat \<Rightarrow>
    ((CacheKey, int) hashtable \<times> CacheKey list) res" where
  "put_hint ht fifo name len =
     rbind (if hashtable_count ht \<ge> MAX_NAMES then
              case fifo of
                [] \<Rightarrow> Inl UndefinedBehaviour
              | victim # rest \<Rightarrow>
                  (case hashtable_remove ht (raw_key (sha1name victim)) of
                     (ht', None) \<Rightarrow> Inl AssertFail
                   | (ht', Some v) \<Rightarrow> Inr (ht', rest))
            else Inr (ht, fifo))
       (\<lambda>(ht1, fifo1).
          let key = NewKey name len in
          ensure (hashtable_search ht1 key = None)
            (rbind (table_insert ht1 key 0) (\<lambda>ht2. Inr (ht2, fifo1 @ [key]))))"

definition PutSendHintNoDisk :: "cache \<Rightarrow> sha1 \<Rightarrow> nat \<Rightarrow> cache res" where
  "PutSendHintNoDisk s name len =
     rbind (put_hint (send_hint_ht s) (g_NameFifo s) name len)
       (\<lambda>(ht, fifo). Inr (s\<lparr>send_hint_ht := ht, g_NameFifo := fifo\<rparr>))"

definition PutSendHint :: "cache \<Rightarrow> sha1 \<Rightarrow> nat \<Rightarrow> cache res" where
  "PutSendHint s name len =
     rbind (PutSendHintNoDisk s name len) (\<lambda>s1.
       let info = take SHA1_LEN name @ host32 (of_nat len) in
       Inr (if g_GenerateNameHint s1 then s1\<lparr>dh_out := dh_out s1 @ info\<rparr> else s1))"

definition PutDiskHint :: "cache \<Rightarrow> sha1 \<Rightarrow> nat \<Rightarrow> cache res" where
  "PutDiskHint s name len =
     rbind (put_hint (disk_hint_ht s) (g_DiskFifo s) name len)
       (\<lambda>(ht, fifo). Inr (s\<lparr>disk_hint_ht := ht, g_DiskFifo := fifo\<rparr>))"

definition GetSendHint :: "cache \<Rightarrow> sha1 \<Rightarrow> bool" where
  "GetSendHint s name \<longleftrightarrow> hashtable_search (send_hint_ht s) (raw_key name) \<noteq> None"

definition GetDiskHint :: "cache \<Rightarrow> sha1 \<Rightarrow> bool" where
  "GetDiskHint s name \<longleftrightarrow> hashtable_search (disk_hint_ht s) (raw_key name) \<noteq> None"

text \<open>
  The loop of \<open>PreloadHints\<close> (diskhelper.c) over the names and lengths read from the hint file.
\<close>

fun PreloadHints :: "cache \<Rightarrow> (sha1 \<times> int) list \<Rightarrow> cache res" where
  "PreloadHints s [] = Inr s"
| "PreloadHints s ((digest, len) # hints) =
     ensure (len > 0 \<and> len \<le> int MAX_CHUNK_SIZE)
       (if GetSendHint s digest then PreloadHints s hints
        else rbind (PutSendHintNoDisk s digest (nat len))
          (\<lambda>s1. ensure (GetSendHint s1 digest) (PreloadHints s1 hints)))"

text \<open>\<open>CreateCache\<close>; the hint file is what \<open>PreloadHints\<close> reads, or nothing if it cannot be opened.\<close>

definition CreateCache :: "int \<Rightarrow> bool \<Rightarrow> (sha1 \<times> int) list \<Rightarrow> cache res" where
  "CreateCache maxSize genHint hintfile =
     (case (create_hashtable True True 65536 chunk_hash_from_key_fn chunk_keys_equal_fn,
            create_hashtable True True 65536 chunk_hash_from_key_fn chunk_keys_equal_fn) of
        (Some hh, Some vh) \<Rightarrow>
          (let s = \<lparr>send_hint_ht = hh, disk_hint_ht = hh, put_tmp_ht = vh, tmp_ht = vh, mem_ht = vh,
                    g_CacheFifo = [], g_NameFifo = [], g_DiskFifo = [], g_NumKeys = 0,
                    g_CacheSize = 0, maxCacheSize = maxSize, g_GenerateNameHint = genHint,
                    dh_out = []\<rparr>
           in if genHint then PreloadHints s hintfile else Inr s)
      | _ \<Rightarrow> Inl NiceExit)"

subsection \<open>The temporary caches\<close>

definition SearchCache :: "cache \<Rightarrow> sha1 \<Rightarrow> CacheValue option" where
  "SearchCache s name = hashtable_search (tmp_ht s) (raw_key name)"

definition RefFlushChunk :: "cache \<Rightarrow> sha1 \<Rightarrow> cache res" where
  "RefFlushChunk s name =
     (case SearchCache s name of
        None \<Rightarrow> Inl AssertFail
      | Some pValue \<Rightarrow>
          ensure (block_length pValue > 0)
            (let n = ref_count pValue - 1;
                 s1 = s\<lparr>tmp_ht := ht_modify (tmp_ht s) (raw_key name) (\<lambda>v. v\<lparr>ref_count := n\<rparr>)\<rparr>
             in ensure (n \<ge> 0)
                  (if n = 0 then rbind (RemoveHT (tmp_ht s1) name) (\<lambda>ht. Inr (s1\<lparr>tmp_ht := ht\<rparr>))
                   else Inr s1)))"

definition RefPutChunkCallback :: "cache \<Rightarrow> sha1 \<Rightarrow> byte list \<Rightarrow> cache res" where
  "RefPutChunkCallback s name buffer =
     (if buffer = [] then Inr s
      else case SearchCache s name of
        None \<Rightarrow>
          ensure (length buffer \<le> MAX_CHUNK_SIZE)
            (rbind (PutHT (tmp_ht s) name buffer) (\<lambda>(ht, _). Inr (s\<lparr>tmp_ht := ht\<rparr>)))
      | Some v \<Rightarrow>
          ensure (ref_count v \<ge> 1)
            (Inr (s\<lparr>tmp_ht := ht_modify (tmp_ht s) (raw_key name)
                      (\<lambda>v. v\<lparr>ref_count := ref_count v + 1\<rparr>)\<rparr>)))"

definition MemoryCacheCallBack :: "cache \<Rightarrow> sha1 \<Rightarrow> (cache \<times> bool) res" where
  "MemoryCacheCallBack s name =
     (case GetMemory s name of
        Some v \<Rightarrow> rbind (RefPutChunkCallback s name (pBlock v)) (\<lambda>s1. Inr (s1, True))
      | None \<Rightarrow> Inr (s, False))"

definition GetTempDiskCache :: "cache \<Rightarrow> sha1 \<Rightarrow> CacheValue option" where
  "GetTempDiskCache s name = hashtable_search (put_tmp_ht s) (raw_key name)"

definition PutTempDiskCache :: "cache \<Rightarrow> sha1 \<Rightarrow> byte list \<Rightarrow> cache res" where
  "PutTempDiskCache s name buffer =
     (if buffer = [] then Inr s
      else case GetTempDiskCache s name of
        None \<Rightarrow>
          ensure (length buffer \<le> MAX_CHUNK_SIZE)
            (rbind (PutHT (put_tmp_ht s) name buffer) (\<lambda>(ht, _). Inr (s\<lparr>put_tmp_ht := ht\<rparr>)))
      | Some v \<Rightarrow> Inl NiceExit)"

definition DeleteTempDiskCache :: "cache \<Rightarrow> sha1 \<Rightarrow> cache res" where
  "DeleteTempDiskCache s name =
     (case GetTempDiskCache s name of
        None \<Rightarrow> Inl AssertFail
      | Some pValue \<Rightarrow>
          ensure (block_length pValue > 0)
            (rbind (RemoveHT (put_tmp_ht s) name) (\<lambda>ht. Inr (s\<lparr>put_tmp_ht := ht\<rparr>))))"

text \<open>The table left and the values freed; the fuel is one more than the number of entries.\<close>

definition EmptyTempMemCache :: "cache \<Rightarrow> (cache \<times> CacheValue list) res option" where
  "EmptyTempMemCache s =
     (if hashtable_count (tmp_ht s) = 0 then Some (Inr (s, []))
      else map_option (\<lambda>r. rbind r (\<lambda>(ht, vs). Inr (s\<lparr>tmp_ht := ht\<rparr>, vs)))
             (drain_itr (Suc (length (ht_entries (tmp_ht s)))) (tmp_ht s) (hashtable_iterator (tmp_ht s))))"

text \<open>\<open>DestroyCache\<close>: the keys and values the five \<open>hashtable_destroy\<close> calls free.\<close>

definition DestroyCache :: "cache \<Rightarrow> (CacheKey \<times> int option) list \<times> (CacheKey \<times> CacheValue option) list" where
  "DestroyCache s =
     (hashtable_destroy (send_hint_ht s) True @ hashtable_destroy (disk_hint_ht s) True,
      hashtable_destroy (put_tmp_ht s) True @ hashtable_destroy (tmp_ht s) True
        @ hashtable_destroy (mem_ht s) True)"

section \<open>The tables as keyed tables\<close>

abbreviation name_of :: "CacheKey \<Rightarrow> sha1" where
  "name_of k \<equiv> take SHA1_LEN (sha1name k)"

lemma chunk_eq_name: "chunk_keys_equal_fn a b \<longleftrightarrow> name_of a = name_of b"
  by (simp add: chunk_keys_equal_fn_def chunk_keys_equal_fn_raw_def)

lemma chunk_key_fns: "key_fns chunk_hash_from_key_fn chunk_keys_equal_fn"
  unfolding key_fns_def
  by (intro conjI equivpI reflpI sympI transpI)
    (simp_all add: chunk_eq_name chunk_hash_from_key_fn_def chunk_hash_from_key_fn_raw_def)

interpretation chunks: mutable_table "ht_good chunk_hash_from_key_fn chunk_keys_equal_fn"
  hashtable_search ht_put hashtable_remove hashtable_count chunk_keys_equal_fn ht_modify
  by (rule mutable_table_hashtable[OF chunk_key_fns])

abbreviation good :: "(CacheKey, 'v) hashtable \<Rightarrow> bool" where
  "good \<equiv> ht_good chunk_hash_from_key_fn chunk_keys_equal_fn"

lemma table_insert_put [simp, table_simps]: "table_insert ht k v = Inr (ht_put ht k v)"
  by (simp add: table_insert_def hashtable_insert_ht_put)

lemma names [simp]: "sha1name (raw_key n) = n" "name_of (NewKey n l) = take SHA1_LEN n"
  "key_length (NewKey n l) = l"
  by (simp_all add: raw_key_def NewKey_def)

lemma search_name:
  assumes "good ht" "name_of a = name_of b"
  shows "hashtable_search ht a = hashtable_search ht b"
  by (rule chunks.look_same[OF assms(1)]) (simp only: chunk_eq_name assms(2))

lemma search_raw: "good ht \<Longrightarrow> hashtable_search ht (raw_key (sha1name k)) = hashtable_search ht k"
  by (rule search_name) simp_all

lemma search_new: "good ht \<Longrightarrow> hashtable_search ht (NewKey n l) = hashtable_search ht (raw_key n)"
  by (rule search_name) (simp_all add: NewKey_def)

lemma RemoveHT_props:
  assumes "good ht" "hashtable_search ht (raw_key n) = Some v"
  shows "\<exists>ht'. RemoveHT ht n = Inr ht' \<and> good ht' \<and>
    (\<forall>k. hashtable_search ht' k = (if name_of k = take SHA1_LEN n then None else hashtable_search ht k))"
  using chunks.invar_drop[OF assms(1), of "raw_key n"] chunks.result_drop[OF assms(1), of "raw_key n"]
    chunks.look_drop[OF assms(1), of "raw_key n"] assms(2)
  by (auto simp: RemoveHT_def chunk_eq_name split: prod.splits option.splits)

lemma PutHT_props:
  assumes "good ht" "hashtable_search ht (raw_key n) = None"
  shows "\<exists>ht'. PutHT ht n buf = Inr (ht', NewKey n (length buf)) \<and> good ht' \<and>
    (\<forall>k. hashtable_search ht' k = (if name_of k = take SHA1_LEN n
       then Some \<lparr>pBlock = buf, block_length = length buf, ref_count = 1\<rparr> else hashtable_search ht k))"
proof -
  have "hashtable_search ht (NewKey n (length buf)) = None" using assms search_new by metis
  then show ?thesis
    using chunks.invar_store[OF assms(1)] chunks.look_store[OF assms(1)]
    by (auto simp: PutHT_def Let_def chunk_eq_name)
qed

section \<open>The memory cache\<close>

definition mem_inv :: "cache \<Rightarrow> bool" where
  "mem_inv s \<longleftrightarrow> good (mem_ht s) \<and> distinct (map name_of (g_CacheFifo s)) \<and>
     (\<forall>k. hashtable_search (mem_ht s) k \<noteq> None \<longleftrightarrow> name_of k \<in> name_of ` set (g_CacheFifo s)) \<and>
     (\<forall>w \<in> set (g_CacheFifo s). \<forall>v. hashtable_search (mem_ht s) w = Some v \<longrightarrow>
        block_length v = key_length w \<and> length (pBlock v) = key_length w) \<and>
     g_NumKeys s = int (length (g_CacheFifo s)) \<and>
     (\<Sum>w\<leftarrow>g_CacheFifo s. sizeof_CacheKey + sizeof_CacheValue + int (key_length w)) \<le> g_CacheSize s"

lemma mem_invD:
  assumes "mem_inv s"
  shows "good (mem_ht s)" "distinct (map name_of (g_CacheFifo s))"
    "hashtable_search (mem_ht s) k \<noteq> None \<longleftrightarrow> name_of k \<in> name_of ` set (g_CacheFifo s)"
    "w \<in> set (g_CacheFifo s) \<Longrightarrow> hashtable_search (mem_ht s) w = Some v \<Longrightarrow>
      block_length v = key_length w \<and> length (pBlock v) = key_length w"
    "g_NumKeys s = int (length (g_CacheFifo s))"
    "(\<Sum>w\<leftarrow>g_CacheFifo s. sizeof_CacheKey + sizeof_CacheValue + int (key_length w)) \<le> g_CacheSize s"
  using assms unfolding mem_inv_def by blast+

text \<open>How many of the oldest chunks are picked: as few as give the target size.\<close>

fun victims :: "int \<Rightarrow> CacheKey list \<Rightarrow> nat" where
  "victims t [] = 0"
| "victims t (w # ws) = (if t \<le> 0 then 0 else Suc (victims (t - int (key_length w)) ws))"

lemma victims_le: "victims t ws \<le> length ws"
  by (induction t ws rule: victims.induct) auto

lemma victims_sum:
  "victims t ws = length ws \<or> t \<le> (\<Sum>w\<leftarrow>take (victims t ws) ws. int (key_length w))"
  by (induction t ws rule: victims.induct) auto

lemma pick_victims_eq:
  assumes "mem_inv s" "set ws \<subseteq> set (g_CacheFifo s)"
  shows "pick_victims s t ws acc = Inr (rev (take (victims t ws) ws) @ acc)"
  using assms(2)
proof (induction t ws arbitrary: acc rule: victims.induct)
  case (2 t w ws)
  then have w: "w \<in> set (g_CacheFifo s)" by simp
  then obtain v where v: "hashtable_search (mem_ht s) w = Some v"
    using mem_invD(3)[OF assms(1), of w] by auto
  then have "GetMemory s (sha1name w) = Some v" "block_length v = key_length w"
    using mem_invD(4)[OF assms(1) w v] by (auto simp: GetMemory_def search_raw[OF mem_invD(1)[OF assms(1)]])
  with 2 show ?case by simp
qed simp

text \<open>Evicting the chunks at the front of the queue, the last of them first.\<close>

lemma evict_one:
  assumes "mem_inv s" "g_CacheFifo s = pre @ w # post"
  shows "\<exists>ht. evict (w # ws) s = evict ws (s\<lparr>g_CacheFifo := pre @ post, g_NumKeys := g_NumKeys s - 1,
      g_CacheSize := g_CacheSize s - (sizeof_CacheKey + int (key_length w)), mem_ht := ht\<rparr>) \<and> good ht \<and>
    (\<forall>k. hashtable_search ht k = (if name_of k = name_of w then None else hashtable_search (mem_ht s) k)) \<and>
    g_CacheSize s \<ge> sizeof_CacheKey + int (key_length w)"
proof -
  note inv = mem_invD[OF assms(1)]
  have w: "w \<in> set (g_CacheFifo s)" using assms(2) by simp
  then obtain v where "hashtable_search (mem_ht s) (raw_key (sha1name w)) = Some v"
    using inv(3)[of w] search_raw[OF inv(1)] by auto
  from RemoveHT_props[OF inv(1) this] obtain ht where ht: "RemoveHT (mem_ht s) (sha1name w) = Inr ht" "good ht"
    "\<forall>k. hashtable_search ht k = (if name_of k = name_of w then None else hashtable_search (mem_ht s) k)"
    by blast
  have "w \<notin> set pre" using inv(2) assms(2) by auto
  then have "remove1 w (g_CacheFifo s) = pre @ post" by (simp add: assms(2) remove1_append)
  moreover have "g_NumKeys s - 1 \<ge> 0" using inv(5) assms(2) by simp
  moreover have "(\<Sum>x\<leftarrow>pre @ post. sizeof_CacheKey + sizeof_CacheValue + int (key_length x)) \<ge> 0"
    by (rule sum_list_nonneg_int) (auto simp: sizeof_CacheKey_def sizeof_CacheValue_def)
  then have "g_CacheSize s \<ge> sizeof_CacheKey + int (key_length w)"
    using inv(6) assms(2) by (simp add: sizeof_CacheKey_def sizeof_CacheValue_def)
  ultimately show ?thesis using ht by (intro exI[of _ ht]) (simp add: Let_def)
qed

definition shed :: "cache \<Rightarrow> nat \<Rightarrow> (CacheKey, CacheValue) hashtable \<Rightarrow> cache" where
  "shed s n ht = s\<lparr>g_CacheFifo := drop n (g_CacheFifo s), g_NumKeys := g_NumKeys s - int n,
     g_CacheSize := g_CacheSize s - (\<Sum>w\<leftarrow>take n (g_CacheFifo s). sizeof_CacheKey + int (key_length w)),
     mem_ht := ht\<rparr>"

lemma mem_inv_remove:
  assumes "mem_inv s" "g_CacheFifo s = pre @ w # post" "good ht"
    and "\<forall>k. hashtable_search ht k = (if name_of k = name_of w then None else hashtable_search (mem_ht s) k)"
  shows "mem_inv (s\<lparr>g_CacheFifo := pre @ post, g_NumKeys := g_NumKeys s - 1,
      g_CacheSize := g_CacheSize s - (sizeof_CacheKey + int (key_length w)), mem_ht := ht\<rparr>)"
proof -
  note inv = mem_invD[OF assms(1)]
  have d: "name_of w \<notin> name_of ` set (pre @ post)" using inv(2) assms(2) by auto
  have "hashtable_search ht k \<noteq> None \<longleftrightarrow> name_of k \<in> name_of ` set (pre @ post)" for k
    using inv(3)[of k] assms(2,4) d by auto
  moreover have "block_length v = key_length x \<and> length (pBlock v) = key_length x"
    if "x \<in> set (pre @ post)" "hashtable_search ht x = Some v" for x v
  proof -
    have "name_of x \<noteq> name_of w" using that(1) d by (metis imageI)
    then show ?thesis using inv(4)[of x v] that assms(2,4) by auto
  qed
  ultimately show ?thesis
    using inv(2,5,6) assms(2,3) unfolding mem_inv_def
    by (auto simp: sizeof_CacheKey_def sizeof_CacheValue_def)
qed

lemma evict_props:
  assumes "mem_inv s" "n \<le> length (g_CacheFifo s)"
  shows "\<exists>ht. evict (rev (take n (g_CacheFifo s))) s = Inr (shed s n ht) \<and> mem_inv (shed s n ht) \<and>
    (\<forall>k. hashtable_search ht k = (if name_of k \<in> name_of ` set (take n (g_CacheFifo s)) then None
       else hashtable_search (mem_ht s) k))"
  using assms
proof (induction n arbitrary: s)
  case 0
  then show ?case by (intro exI[of _ "mem_ht s"]) (simp add: shed_def)
next
  case (Suc n)
  let ?f = "g_CacheFifo s"
  define w where "w = ?f ! n"
  have f: "?f = take n ?f @ w # drop (Suc n) ?f"
    using Suc.prems(2) by (simp add: w_def id_take_nth_drop)
  have r: "rev (take (Suc n) ?f) = w # rev (take n ?f)"
    using Suc.prems(2) by (simp add: w_def take_Suc_conv_app_nth)
  from evict_one[OF Suc.prems(1) f, of "rev (take n ?f)"] obtain ht where ht:
    "evict (w # rev (take n ?f)) s = evict (rev (take n ?f))
       (s\<lparr>g_CacheFifo := take n ?f @ drop (Suc n) ?f, g_NumKeys := g_NumKeys s - 1,
          g_CacheSize := g_CacheSize s - (sizeof_CacheKey + int (key_length w)), mem_ht := ht\<rparr>)"
    "good ht"
    "\<forall>k. hashtable_search ht k = (if name_of k = name_of w then None else hashtable_search (mem_ht s) k)"
    by blast
  let ?s = "s\<lparr>g_CacheFifo := take n ?f @ drop (Suc n) ?f, g_NumKeys := g_NumKeys s - 1,
      g_CacheSize := g_CacheSize s - (sizeof_CacheKey + int (key_length w)), mem_ht := ht\<rparr>"
  have inv: "mem_inv ?s" by (rule mem_inv_remove[OF Suc.prems(1) f ht(2,3)])
  have t: "take n (g_CacheFifo ?s) = take n ?f" "drop n (g_CacheFifo ?s) = drop (Suc n) ?f"
    "mem_ht ?s = ht"
    using Suc.prems(2) by simp_all
  have le: "n \<le> length (g_CacheFifo ?s)" using Suc.prems(2) by (simp add: min_def)
  from Suc.IH[OF inv le] obtain ht' where ht':
    "evict (rev (take n ?f)) ?s = Inr (shed ?s n ht')" "mem_inv (shed ?s n ht')"
    "\<forall>k. hashtable_search ht' k = (if name_of k \<in> name_of ` set (take n ?f) then None
       else hashtable_search ht k)"
    unfolding t by blast
  have "shed ?s n ht' = shed s (Suc n) ht'"
    unfolding shed_def t using Suc.prems(2) by (simp add: take_Suc_conv_app_nth w_def)
  moreover have "set (take (Suc n) ?f) = insert w (set (take n ?f))"
    using Suc.prems(2) by (simp add: take_Suc_conv_app_nth w_def)
  ultimately show ?case using ht ht' unfolding r by (intro exI[of _ ht']) auto
qed

lemma CheckCache_props:
  assumes "mem_inv s" "0 \<le> need"
  defines "n \<equiv> (if g_CacheSize s + need \<le> maxCacheSize s then 0 else victims (need * 2) (g_CacheFifo s))"
  shows "\<exists>ht. CheckCache s need = Inr (shed s n ht) \<and> mem_inv (shed s n ht) \<and>
    (\<forall>k. hashtable_search ht k = (if name_of k \<in> name_of ` set (take n (g_CacheFifo s)) then None
       else hashtable_search (mem_ht s) k))"
proof (cases "g_CacheSize s + need \<le> maxCacheSize s")
  case True
  then show ?thesis using assms(1) by (intro exI[of _ "mem_ht s"]) (simp add: CheckCache_def n_def shed_def)
next
  case False
  then show ?thesis
    using evict_props[OF assms(1) victims_le[of "need * 2"]] pick_victims_eq[OF assms(1) order.refl, of "need * 2" "[]"] assms(2)
    by (simp add: CheckCache_def n_def Let_def)
qed

text \<open>How many chunks \<open>PutMemory\<close> evicts for a block of a given length.\<close>

definition evicted :: "cache \<Rightarrow> nat \<Rightarrow> nat" where
  "evicted s len = (let need = sizeof_CacheKey + sizeof_CacheValue + int len in
     if g_CacheSize s + need \<le> maxCacheSize s then 0 else victims (need * 2) (g_CacheFifo s))"

lemma PutMemory_props:
  fixes buf :: "byte list"
  assumes "mem_inv s" "GetMemory s name = None"
  defines "n \<equiv> evicted s (length buf)"
  shows "\<exists>s'. PutMemory s name buf = Inr s' \<and> mem_inv s' \<and>
    g_CacheFifo s' = drop n (g_CacheFifo s) @ [NewKey name (length buf)] \<and>
    (\<forall>k. GetMemory s' k =
       (if take SHA1_LEN k = take SHA1_LEN name
        then Some \<lparr>pBlock = buf, block_length = length buf, ref_count = 1\<rparr>
        else if take SHA1_LEN k \<in> name_of ` set (take n (g_CacheFifo s)) then None
        else GetMemory s k)) \<and>
    g_CacheSize s' = g_CacheSize s + sizeof_CacheKey + sizeof_CacheValue + int (length buf)
      - (\<Sum>w\<leftarrow>take n (g_CacheFifo s). sizeof_CacheKey + int (key_length w)) \<and>
    maxCacheSize s' = maxCacheSize s"
proof -
  let ?need = "sizeof_CacheKey + sizeof_CacheValue + int (length buf)"
  have need: "0 \<le> ?need" by (simp add: sizeof_CacheKey_def sizeof_CacheValue_def)
  have n: "n = (if g_CacheSize s + ?need \<le> maxCacheSize s then 0 else victims (?need * 2) (g_CacheFifo s))"
    by (simp add: n_def evicted_def Let_def)
  from CheckCache_props[OF assms(1) need, folded n] obtain ht where
    c: "CheckCache s ?need = Inr (shed s n ht)" "mem_inv (shed s n ht)"
    and look: "\<forall>k. hashtable_search ht k = (if name_of k \<in> name_of ` set (take n (g_CacheFifo s)) then None
       else hashtable_search (mem_ht s) k)" by blast
  have g: "good ht" using mem_invD(1)[OF c(2)] by (simp add: shed_def)
  have "hashtable_search ht (raw_key name) = None"
    using look assms(2) by (simp add: GetMemory_def)
  from PutHT_props[OF g this, of buf] obtain ht' where p: "PutHT ht name buf = Inr (ht', NewKey name (length buf))"
    "good ht'" and look': "\<forall>k. hashtable_search ht' k = (if name_of k = take SHA1_LEN name
       then Some \<lparr>pBlock = buf, block_length = length buf, ref_count = 1\<rparr> else hashtable_search ht k)"
    by blast
  let ?s = "shed s n ht"
  let ?s' = "?s\<lparr>mem_ht := ht', g_CacheFifo := g_CacheFifo ?s @ [NewKey name (length buf)],
      g_NumKeys := g_NumKeys ?s + 1, g_CacheSize := g_CacheSize ?s + ?need\<rparr>"
  have put: "PutMemory s name buf = Inr ?s'"
    using assms(2) c p by (simp add: PutMemory_def Let_def shed_def)
  have sh: "mem_ht ?s = ht" "g_CacheFifo ?s = drop n (g_CacheFifo s)" by (simp_all add: shed_def)
  note inv = mem_invD[OF c(2), unfolded sh]
  have new: "take SHA1_LEN name \<notin> name_of ` set (drop n (g_CacheFifo s))"
    using inv(3)[of "raw_key name"] \<open>hashtable_search ht (raw_key name) = None\<close> by simp
  have "mem_inv ?s'"
    unfolding mem_inv_def
  proof (intro conjI allI ballI impI)
    show "good (mem_ht ?s')" using p(2) by simp
    show "distinct (map name_of (g_CacheFifo ?s'))" using inv(2) new by (simp add: sh)
    show "(hashtable_search (mem_ht ?s') k \<noteq> None) = (name_of k \<in> name_of ` set (g_CacheFifo ?s'))" for k
      using look' inv(3)[of k] by (auto simp: sh)
    show "g_NumKeys ?s' = int (length (g_CacheFifo ?s'))" using inv(5) by (simp add: sh)
    show "(\<Sum>w\<leftarrow>g_CacheFifo ?s'. sizeof_CacheKey + sizeof_CacheValue + int (key_length w)) \<le> g_CacheSize ?s'"
      using inv(6) by (simp add: sh)
    fix w v assume w: "w \<in> set (g_CacheFifo ?s')" "hashtable_search (mem_ht ?s') w = Some v"
    show "block_length v = key_length w" "length (pBlock v) = key_length w"
    proof -
      have "name_of w \<noteq> take SHA1_LEN name" if "w \<in> set (drop n (g_CacheFifo s))"
        using new that by (metis image_eqI)
      then consider "w = NewKey name (length buf)" | "w \<in> set (drop n (g_CacheFifo s))" "name_of w \<noteq> take SHA1_LEN name"
        using w(1) by (auto simp: sh)
      then have "block_length v = key_length w \<and> length (pBlock v) = key_length w"
        using w(2) look' inv(4)[of w v] by cases auto
      then show "block_length v = key_length w" "length (pBlock v) = key_length w" by auto
    qed
  qed
  moreover have "GetMemory ?s' k = (if take SHA1_LEN k = take SHA1_LEN name
        then Some \<lparr>pBlock = buf, block_length = length buf, ref_count = 1\<rparr>
        else if take SHA1_LEN k \<in> name_of ` set (take n (g_CacheFifo s)) then None
        else GetMemory s k)" for k
    using look look' by (simp add: GetMemory_def)
  ultimately show ?thesis
    using put by (intro exI[of _ ?s']) (simp add: shed_def)
qed

section \<open>Name hints\<close>

text \<open>
  The interface of a hint table: a queue of names, bounded by \<open>MAX_NAMES\<close>; adding a name that is
  not there drops the oldest one when the queue is full.
\<close>

definition bound_queue :: "CacheKey list \<Rightarrow> CacheKey list" where
  "bound_queue q = drop (length q - unat MAX_NAMES) q"

lemma bound_queue_short: "length q \<le> unat MAX_NAMES \<Longrightarrow> bound_queue q = q"
  by (simp add: bound_queue_def)

lemma bound_queue_full: "Suc (length q) = unat MAX_NAMES \<Longrightarrow> bound_queue (w # q @ [x]) = q @ [x]"
  by (simp add: bound_queue_def)

locale hint_table =
  fixes inv :: "'s \<Rightarrow> bool"
    and queue :: "'s \<Rightarrow> CacheKey list"
    and has :: "'s \<Rightarrow> sha1 \<Rightarrow> bool"
    and put :: "'s \<Rightarrow> sha1 \<Rightarrow> nat \<Rightarrow> 's res"
  assumes has_queue: "inv s \<Longrightarrow> has s n \<longleftrightarrow> take SHA1_LEN n \<in> name_of ` set (queue s)"
    and queue_bound: "inv s \<Longrightarrow> length (queue s) \<le> unat MAX_NAMES"
    and put_fresh: "inv s \<Longrightarrow> \<not> has s n \<Longrightarrow>
      \<exists>s'. put s n l = Inr s' \<and> inv s' \<and> queue s' = bound_queue (queue s @ [NewKey n l])"
begin

lemma put_has:
  assumes "inv s" "\<not> has s n" "put s n l = Inr s'"
  shows "has s' n"
proof -
  from put_fresh[OF assms(1,2), of l] assms(3) have i: "inv s'" and
    q: "queue s' = bound_queue (queue s @ [NewKey n l])" by auto
  have "0 < unat MAX_NAMES" by (simp add: MAX_NAMES_def)
  then have "NewKey n l \<in> set (queue s')" using queue_bound[OF assms(1)] by (simp add: q bound_queue_def)
  then show ?thesis unfolding has_queue[OF i] by (rule image_eqI[rotated]) simp
qed

text \<open>A name is noted when it is not there yet; the code does this for each chunk it sends.\<close>

definition note_name :: "sha1 \<times> nat \<Rightarrow> 's \<Rightarrow> 's res" where
  "note_name nl s = (if has s (fst nl) then Inr s else put s (fst nl) (snd nl))"

lemma note_all_ok:
  assumes "inv s"
  shows "\<exists>s'. rfold note_name nls s = Inr s' \<and> inv s'"
  using assms
proof (rule rfold_invariant)
  fix nl s assume "inv s"
  then show "\<exists>s'. note_name nl s = Inr s' \<and> inv s'"
    using put_fresh[of s "fst nl" "snd nl"] by (cases "has s (fst nl)") (auto simp: note_name_def)
qed

end

definition hint_inv :: "(CacheKey, int) hashtable \<Rightarrow> CacheKey list \<Rightarrow> bool" where
  "hint_inv ht fifo \<longleftrightarrow> good ht \<and> distinct (map name_of fifo) \<and>
     (\<forall>k. hashtable_search ht k \<noteq> None \<longleftrightarrow> name_of k \<in> name_of ` set fifo) \<and>
     hashtable_count ht = of_nat (length fifo) \<and> length fifo \<le> unat MAX_NAMES"

lemma hint_full:
  assumes "hint_inv ht fifo"
  shows "MAX_NAMES \<le> hashtable_count ht \<longleftrightarrow> length fifo = unat MAX_NAMES"
proof -
  have l: "length fifo \<le> 1048576" "hashtable_count ht = of_nat (length fifo)"
    using assms by (auto simp: hint_inv_def MAX_NAMES_def)
  then have "unat (of_nat (length fifo) :: u32) = length fifo"
    by (simp add: unsigned_of_nat take_bit_nat_eq_self_iff)
  with l show ?thesis by (auto simp: word_le_nat_alt MAX_NAMES_def)
qed

lemma hint_inv_add:
  assumes "good ht" "distinct (map name_of fifo)" "hashtable_count ht = of_nat (length fifo)"
    and "\<forall>k. hashtable_search ht k \<noteq> None \<longleftrightarrow> name_of k \<in> name_of ` set fifo"
    and "length fifo < unat MAX_NAMES" "take SHA1_LEN n \<notin> name_of ` set fifo"
  shows "hint_inv (ht_put ht (NewKey n l) v) (fifo @ [NewKey n l])"
    and "hashtable_search ht (NewKey n l) = None"
proof -
  show s: "hashtable_search ht (NewKey n l) = None" using assms(4)[rule_format, of "NewKey n l"] assms(6) by auto
  show "hint_inv (ht_put ht (NewKey n l) v) (fifo @ [NewKey n l])"
    using chunks.invar_store[OF assms(1) s] chunks.look_store[OF assms(1) s] chunks.count_store[OF assms(1)]
      assms(2-6) by (auto simp: hint_inv_def chunk_eq_name)
qed

lemma put_hint_props:
  assumes "hint_inv ht fifo" "hashtable_search ht (raw_key n) = None"
  shows "\<exists>ht'. put_hint ht fifo n l = Inr (ht', bound_queue (fifo @ [NewKey n l])) \<and>
    hint_inv ht' (bound_queue (fifo @ [NewKey n l]))"
proof -
  have inv: "good ht" "distinct (map name_of fifo)" "hashtable_count ht = of_nat (length fifo)"
    "\<forall>k. hashtable_search ht k \<noteq> None \<longleftrightarrow> name_of k \<in> name_of ` set fifo" "length fifo \<le> unat MAX_NAMES"
    using assms(1) unfolding hint_inv_def by blast+
  have new: "take SHA1_LEN n \<notin> name_of ` set fifo"
    using inv(4)[rule_format, of "raw_key n"] assms(2) by auto
  show ?thesis
  proof (cases "length fifo = unat MAX_NAMES")
    case False
    then have l: "length fifo < unat MAX_NAMES" using inv(5) by simp
    then have "bound_queue (fifo @ [NewKey n l]) = fifo @ [NewKey n l]" by (simp add: bound_queue_short)
    with hint_inv_add[OF inv(1-4) l new, of l] False show ?thesis
      by (simp add: put_hint_def hint_full[OF assms(1)] Let_def bound_queue_short)
  next
    case True
    moreover have "0 < unat MAX_NAMES" by (simp add: MAX_NAMES_def)
    ultimately obtain w ws where f: "fifo = w # ws" by (cases fifo) auto
    then have "hashtable_search ht (raw_key (sha1name w)) \<noteq> None"
      using inv(4) by (simp add: search_raw[OF inv(1)])
    then obtain v ht1 where r: "hashtable_remove ht (raw_key (sha1name w)) = (ht1, Some v)"
      using chunks.result_drop[OF inv(1), of "raw_key (sha1name w)"]
      by (cases "hashtable_remove ht (raw_key (sha1name w))") auto
    note d = chunks.invar_drop[OF inv(1), of "raw_key (sha1name w)"]
      chunks.look_drop[OF inv(1), of "raw_key (sha1name w)"] chunks.count_drop[OF inv(1), of "raw_key (sha1name w)"]
    have 1: "good ht1" "hashtable_count ht1 = of_nat (length ws)"
      "\<forall>k. hashtable_search ht1 k \<noteq> None \<longleftrightarrow> name_of k \<in> name_of ` set ws"
      using d r inv(2,3,4) f \<open>hashtable_search ht (raw_key (sha1name w)) \<noteq> None\<close>
      by (auto simp: chunk_eq_name)
    have l: "length ws < unat MAX_NAMES" using True f by simp
    have q: "bound_queue (fifo @ [NewKey n l]) = ws @ [NewKey n l]"
      using True f by (simp add: bound_queue_full)
    from hint_inv_add[OF 1(1) _ 1(2,3) l, of n l] inv(2) new f True r show ?thesis
      unfolding q by (simp add: put_hint_def hint_full[OF assms(1)] Let_def)
  qed
qed

lemma send_put_fresh:
  assumes "hint_inv (send_hint_ht s) (g_NameFifo s)" "\<not> GetSendHint s n"
  shows "\<exists>ht. PutSendHintNoDisk s n l = Inr (s\<lparr>send_hint_ht := ht,
      g_NameFifo := bound_queue (g_NameFifo s @ [NewKey n l])\<rparr>) \<and>
    hint_inv ht (bound_queue (g_NameFifo s @ [NewKey n l]))"
  using put_hint_props[OF assms(1), of n l] assms(2)
  by (auto simp: PutSendHintNoDisk_def GetSendHint_def)

lemma has_hint:
  "hint_inv ht fifo \<Longrightarrow> hashtable_search ht (raw_key n) \<noteq> None \<longleftrightarrow> take SHA1_LEN n \<in> name_of ` set fifo"
  by (simp add: hint_inv_def)

interpretation send_hints: hint_table "\<lambda>s. hint_inv (send_hint_ht s) (g_NameFifo s)" g_NameFifo
  GetSendHint PutSendHint
proof
  fix s :: cache and n l
  assume i: "hint_inv (send_hint_ht s) (g_NameFifo s)"
  then show "GetSendHint s n \<longleftrightarrow> take SHA1_LEN n \<in> name_of ` set (g_NameFifo s)"
    by (simp only: GetSendHint_def has_hint)
  from i show "length (g_NameFifo s) \<le> unat MAX_NAMES" by (simp add: hint_inv_def)
  assume "\<not> GetSendHint s n"
  from send_put_fresh[OF i this, of l] show "\<exists>s'. PutSendHint s n l = Inr s' \<and>
      hint_inv (send_hint_ht s') (g_NameFifo s') \<and> g_NameFifo s' = bound_queue (g_NameFifo s @ [NewKey n l])"
    by (auto simp: PutSendHint_def Let_def)
qed

interpretation preload_hints: hint_table "\<lambda>s. hint_inv (send_hint_ht s) (g_NameFifo s)" g_NameFifo
  GetSendHint PutSendHintNoDisk
proof
  fix s :: cache and n l
  assume i: "hint_inv (send_hint_ht s) (g_NameFifo s)"
  then show "GetSendHint s n \<longleftrightarrow> take SHA1_LEN n \<in> name_of ` set (g_NameFifo s)"
    by (rule send_hints.has_queue)
  from i show "length (g_NameFifo s) \<le> unat MAX_NAMES" by (rule send_hints.queue_bound)
  assume "\<not> GetSendHint s n"
  from send_put_fresh[OF i this, of l] show "\<exists>s'. PutSendHintNoDisk s n l = Inr s' \<and>
      hint_inv (send_hint_ht s') (g_NameFifo s') \<and> g_NameFifo s' = bound_queue (g_NameFifo s @ [NewKey n l])"
    by auto
qed

interpretation disk_hints: hint_table "\<lambda>s. hint_inv (disk_hint_ht s) (g_DiskFifo s)" g_DiskFifo
  GetDiskHint PutDiskHint
proof
  fix s :: cache and n l
  assume i: "hint_inv (disk_hint_ht s) (g_DiskFifo s)"
  then show "GetDiskHint s n \<longleftrightarrow> take SHA1_LEN n \<in> name_of ` set (g_DiskFifo s)"
    by (simp only: GetDiskHint_def has_hint)
  from i show "length (g_DiskFifo s) \<le> unat MAX_NAMES" by (simp add: hint_inv_def)
  assume "\<not> GetDiskHint s n"
  with put_hint_props[OF i, of n l] show "\<exists>s'. PutDiskHint s n l = Inr s' \<and>
      hint_inv (disk_hint_ht s') (g_DiskFifo s') \<and> g_DiskFifo s' = bound_queue (g_DiskFifo s @ [NewKey n l])"
    by (auto simp: PutDiskHint_def GetDiskHint_def)
qed

lemma PreloadHints_ok:
  assumes "hint_inv (send_hint_ht s) (g_NameFifo s)" "\<forall>(n, l) \<in> set hs. 0 < l \<and> l \<le> int MAX_CHUNK_SIZE"
  shows "\<exists>s'. PreloadHints s hs = Inr s' \<and> hint_inv (send_hint_ht s') (g_NameFifo s') \<and>
    (\<exists>ht q. s' = s\<lparr>send_hint_ht := ht, g_NameFifo := q\<rparr>)"
  using assms
proof (induction s hs rule: PreloadHints.induct)
  case (1 s)
  then show ?case by (intro exI[of _ s]) (auto intro!: exI[of _ "send_hint_ht s"] exI[of _ "g_NameFifo s"])
next
  case (2 s n l hs)
  show ?case
  proof (cases "GetSendHint s n")
    case True
    with 2 show ?thesis by auto
  next
    case False
    from send_put_fresh[OF 2(3) False, of "nat l"] obtain s1 ht q where
      p: "PutSendHintNoDisk s n (nat l) = Inr s1" and s1: "s1 = s\<lparr>send_hint_ht := ht, g_NameFifo := q\<rparr>"
        and i: "hint_inv (send_hint_ht s1) (g_NameFifo s1)" by auto
    have h: "GetSendHint s1 n" by (rule preload_hints.put_has[OF 2(3) False p])
    moreover from 2(2)[OF _ False p h i] 2(4) obtain s' where "PreloadHints s1 hs = Inr s'"
      "hint_inv (send_hint_ht s') (g_NameFifo s')" "\<exists>ht q. s' = s1\<lparr>send_hint_ht := ht, g_NameFifo := q\<rparr>"
      by auto
    ultimately show ?thesis using 2(4) False p s1 by (intro exI[of _ s']) auto
  qed
qed

section \<open>Reference counts\<close>

text \<open>
  The interface of the temporary cache: chunks by name with a reference count. A chunk is kept, with
  the content it was first put with, as long as its count is positive.
\<close>

locale ref_store =
  fixes inv :: "'s \<Rightarrow> bool"
    and refs :: "'s \<Rightarrow> sha1 \<Rightarrow> nat"
    and content :: "'s \<Rightarrow> sha1 \<Rightarrow> byte list option"
    and put :: "'s \<Rightarrow> sha1 \<Rightarrow> byte list \<Rightarrow> 's res"
    and flush :: "'s \<Rightarrow> sha1 \<Rightarrow> 's res"
  assumes content_refs: "inv s \<Longrightarrow> content s n \<noteq> None \<longleftrightarrow> 0 < refs s n"
    and put_ok: "inv s \<Longrightarrow> b \<noteq> [] \<Longrightarrow> length b \<le> MAX_CHUNK_SIZE \<Longrightarrow>
      \<exists>s'. put s n b = Inr s' \<and> inv s' \<and>
        (\<forall>m. refs s' m = refs s m + (if take SHA1_LEN m = take SHA1_LEN n then 1 else 0)) \<and>
        (\<forall>m. content s' m = (if take SHA1_LEN m = take SHA1_LEN n \<and> refs s n = 0 then Some b else content s m))"
    and flush_ok: "inv s \<Longrightarrow> 0 < refs s n \<Longrightarrow>
      \<exists>s'. flush s n = Inr s' \<and> inv s' \<and>
        (\<forall>m. refs s' m = refs s m - (if take SHA1_LEN m = take SHA1_LEN n then 1 else 0)) \<and>
        (\<forall>m. content s' m = (if take SHA1_LEN m = take SHA1_LEN n \<and> refs s n = 1 then None else content s m))"
    and refs_name: "inv s \<Longrightarrow> take SHA1_LEN m = take SHA1_LEN n \<Longrightarrow> refs s m = refs s n"
begin

abbreviation occurs :: "sha1 \<Rightarrow> sha1 list \<Rightarrow> nat" where
  "occurs m ns \<equiv> count (mset (map (take SHA1_LEN) ns)) (take SHA1_LEN m)"

lemma put_all:
  assumes "inv s" "\<forall>(n, b) \<in> set nbs. b \<noteq> [] \<and> length b \<le> MAX_CHUNK_SIZE"
  shows "\<exists>s'. rfold (\<lambda>(n, b) s. put s n b) nbs s = Inr s' \<and> inv s' \<and>
    (\<forall>m. refs s' m = refs s m + occurs m (map fst nbs)) \<and> (\<forall>m. 0 < refs s m \<longrightarrow> content s' m = content s m)"
  using assms
proof (induction nbs arbitrary: s)
  case (Cons nb nbs)
  obtain n b where nb: "nb = (n, b)" by fastforce
  with Cons.prems have b: "b \<noteq> []" "length b \<le> MAX_CHUNK_SIZE"
    and rest: "\<forall>(n, b) \<in> set nbs. b \<noteq> [] \<and> length b \<le> MAX_CHUNK_SIZE" by auto
  from put_ok[OF Cons.prems(1) b, of n] obtain s1 where s1: "put s n b = Inr s1" "inv s1"
    "\<forall>m. refs s1 m = refs s m + (if take SHA1_LEN m = take SHA1_LEN n then 1 else 0)"
    "\<forall>m. content s1 m = (if take SHA1_LEN m = take SHA1_LEN n \<and> refs s n = 0 then Some b else content s m)"
    by blast
  from Cons.IH[OF s1(2) rest] obtain s2 where s2: "rfold (\<lambda>(n, b) s. put s n b) nbs s1 = Inr s2" "inv s2"
    "\<forall>m. refs s2 m = refs s1 m + occurs m (map fst nbs)" "\<forall>m. 0 < refs s1 m \<longrightarrow> content s2 m = content s1 m"
    by blast
  have "content s2 m = content s m" if "0 < refs s m" for m
    using that s1(3,4) s2(4) refs_name[OF Cons.prems(1), of m n] by auto
  with s1 s2 nb show ?case by (intro exI[of _ s2]) auto
qed simp

lemma flush_all:
  assumes "inv s" "\<And>m. occurs m ns \<le> refs s m"
  shows "\<exists>s'. rfold (\<lambda>n s. flush s n) ns s = Inr s' \<and> inv s' \<and>
    (\<forall>m. refs s' m = refs s m - occurs m ns) \<and> (\<forall>m. occurs m ns < refs s m \<longrightarrow> content s' m = content s m)"
  using assms
proof (induction ns arbitrary: s)
  case (Cons n ns)
  have "0 < refs s n" using Cons.prems(2)[of n] by simp
  from flush_ok[OF Cons.prems(1) this] obtain s1 where s1: "flush s n = Inr s1" "inv s1"
    "\<forall>m. refs s1 m = refs s m - (if take SHA1_LEN m = take SHA1_LEN n then 1 else 0)"
    "\<forall>m. content s1 m = (if take SHA1_LEN m = take SHA1_LEN n \<and> refs s n = 1 then None else content s m)"
    by blast
  have le: "occurs m ns \<le> refs s1 m" for m
    using Cons.prems(2)[of m] s1(3) by (auto split: if_splits)
  from Cons.IH[OF s1(2) le] obtain s2 where s2: "rfold (\<lambda>n s. flush s n) ns s1 = Inr s2" "inv s2"
    "\<forall>m. refs s2 m = refs s1 m - occurs m ns" "\<forall>m. occurs m ns < refs s1 m \<longrightarrow> content s2 m = content s1 m"
    by blast
  have "content s2 m = content s m" if "occurs m (n # ns) < refs s m" for m
  proof -
    have "occurs m ns < refs s1 m" using that s1(3) by (auto split: if_splits)
    moreover have "refs s n \<noteq> 1" if "take SHA1_LEN m = take SHA1_LEN n"
      using \<open>occurs m (n # ns) < refs s m\<close> refs_name[OF Cons.prems(1) that] that by auto
    ultimately show ?thesis using s1(4) s2(4) by auto
  qed
  with s1 s2 show ?case by (intro exI[of _ s2]) auto
qed simp

text \<open>Chunks put and then flushed once each, in any order, leave the counts as they were.\<close>

lemma put_flush_balanced:
  assumes "inv s" "\<forall>(n, b) \<in> set nbs. b \<noteq> [] \<and> length b \<le> MAX_CHUNK_SIZE"
    and "mset ns = mset (map fst nbs)"
  shows "\<exists>s1 s2. rfold (\<lambda>(n, b) s. put s n b) nbs s = Inr s1 \<and> rfold (\<lambda>n s. flush s n) ns s1 = Inr s2 \<and>
    inv s2 \<and> (\<forall>m. refs s2 m = refs s m) \<and> (\<forall>m. content s2 m = content s m)"
proof -
  from put_all[OF assms(1,2)] obtain s1 where s1: "rfold (\<lambda>(n, b) s. put s n b) nbs s = Inr s1" "inv s1"
    "\<forall>m. refs s1 m = refs s m + occurs m (map fst nbs)" "\<forall>m. 0 < refs s m \<longrightarrow> content s1 m = content s m"
    by blast
  have eq: "occurs m ns = occurs m (map fst nbs)" for m
    using arg_cong[OF assms(3), of "image_mset (take SHA1_LEN)"] by (simp only: mset_map)
  then have "occurs m ns \<le> refs s1 m" for m using s1(3) by simp
  from flush_all[OF s1(2) this] obtain s2 where s2: "rfold (\<lambda>n s. flush s n) ns s1 = Inr s2" "inv s2"
    "\<forall>m. refs s2 m = refs s1 m - occurs m ns" "\<forall>m. occurs m ns < refs s1 m \<longrightarrow> content s2 m = content s1 m"
    by blast
  have r: "refs s2 m = refs s m" for m using s1(3) s2(3) eq by simp
  have "content s2 m = content s m" for m
  proof (cases "0 < refs s m")
    case True
    then show ?thesis using s1(3,4) s2(4) eq by simp
  next
    case False
    then show ?thesis using content_refs[OF assms(1), of m] content_refs[OF s2(2), of m] r by auto
  qed
  with r s1(1) s2 show ?thesis by blast
qed

end

definition tmp_inv :: "cache \<Rightarrow> bool" where
  "tmp_inv s \<longleftrightarrow> good (tmp_ht s) \<and>
     (\<forall>k v. hashtable_search (tmp_ht s) k = Some v \<longrightarrow>
        1 \<le> ref_count v \<and> 0 < block_length v \<and> length (pBlock v) = block_length v)"

definition tmp_refs :: "cache \<Rightarrow> sha1 \<Rightarrow> nat" where
  "tmp_refs s n = (case SearchCache s n of None \<Rightarrow> 0 | Some v \<Rightarrow> nat (ref_count v))"

definition tmp_content :: "cache \<Rightarrow> sha1 \<Rightarrow> byte list option" where
  "tmp_content s n = map_option pBlock (SearchCache s n)"

lemma tmp_search_raw: "tmp_inv s \<Longrightarrow> take SHA1_LEN m = take SHA1_LEN n \<Longrightarrow> SearchCache s m = SearchCache s n"
  unfolding SearchCache_def tmp_inv_def by (intro search_name) auto

lemma RefPut_new:
  assumes "tmp_inv s" "SearchCache s n = None" "b \<noteq> []" "length b \<le> MAX_CHUNK_SIZE"
  shows "\<exists>ht. RefPutChunkCallback s n b = Inr (s\<lparr>tmp_ht := ht\<rparr>) \<and> tmp_inv (s\<lparr>tmp_ht := ht\<rparr>) \<and>
    (\<forall>m. SearchCache (s\<lparr>tmp_ht := ht\<rparr>) m = (if take SHA1_LEN m = take SHA1_LEN n
       then Some \<lparr>pBlock = b, block_length = length b, ref_count = 1\<rparr> else SearchCache s m))"
proof -
  have g: "good (tmp_ht s)" using assms(1) by (simp add: tmp_inv_def)
  from PutHT_props[OF g, of n b] assms(2) obtain ht where ht: "PutHT (tmp_ht s) n b = Inr (ht, NewKey n (length b))"
    "good ht" and look: "\<forall>k. hashtable_search ht k = (if name_of k = take SHA1_LEN n
       then Some \<lparr>pBlock = b, block_length = length b, ref_count = 1\<rparr> else hashtable_search (tmp_ht s) k)"
    by (auto simp: SearchCache_def)
  have "tmp_inv (s\<lparr>tmp_ht := ht\<rparr>)"
    using assms(1,3) ht(2) look by (auto simp: tmp_inv_def split: if_splits)
  with ht assms look show ?thesis
    by (intro exI[of _ ht]) (auto simp: RefPutChunkCallback_def SearchCache_def)
qed

lemma tmp_modify:
  assumes "tmp_inv s" "SearchCache s n = Some v"
    and "block_length (f v) = block_length v" "pBlock (f v) = pBlock v" "1 \<le> ref_count (f v)"
  defines "ht \<equiv> ht_modify (tmp_ht s) (raw_key n) f"
  shows "tmp_inv (s\<lparr>tmp_ht := ht\<rparr>)"
    "SearchCache (s\<lparr>tmp_ht := ht\<rparr>) m = (if take SHA1_LEN m = take SHA1_LEN n then Some (f v) else SearchCache s m)"
proof -
  have g: "good (tmp_ht s)" using assms(1) by (simp add: tmp_inv_def)
  have look: "hashtable_search ht k = (if name_of k = take SHA1_LEN n then Some (f v)
      else hashtable_search (tmp_ht s) k)" for k
    using chunks.look_modify[OF g, of "raw_key n" f k] assms(2)
    by (simp add: ht_def chunk_eq_name SearchCache_def)
  then show "SearchCache (s\<lparr>tmp_ht := ht\<rparr>) m =
      (if take SHA1_LEN m = take SHA1_LEN n then Some (f v) else SearchCache s m)"
    by (simp add: SearchCache_def)
  show "tmp_inv (s\<lparr>tmp_ht := ht\<rparr>)"
    using assms(1-5) look chunks.invar_modify[OF g, of "raw_key n" f]
    by (auto simp: tmp_inv_def ht_def[symmetric] SearchCache_def split: if_splits)
qed

lemma RefPut_again:
  assumes "tmp_inv s" "SearchCache s n = Some v" "b \<noteq> []"
  shows "\<exists>ht. RefPutChunkCallback s n b = Inr (s\<lparr>tmp_ht := ht\<rparr>) \<and> tmp_inv (s\<lparr>tmp_ht := ht\<rparr>) \<and>
    (\<forall>m. SearchCache (s\<lparr>tmp_ht := ht\<rparr>) m = (if take SHA1_LEN m = take SHA1_LEN n
       then Some (v\<lparr>ref_count := ref_count v + 1\<rparr>) else SearchCache s m))"
proof -
  have r: "1 \<le> ref_count v" using assms(1,2) by (auto simp: tmp_inv_def SearchCache_def)
  note m = tmp_modify[OF assms(1,2), of "\<lambda>v. v\<lparr>ref_count := ref_count v + 1\<rparr>"]
  show ?thesis
    using r m assms(2,3)
    by (intro exI[of _ "ht_modify (tmp_ht s) (raw_key n) (\<lambda>v. v\<lparr>ref_count := ref_count v + 1\<rparr>)"])
      (simp add: RefPutChunkCallback_def)
qed

lemma RefFlush_props:
  assumes "tmp_inv s" "SearchCache s n = Some v"
  shows "\<exists>ht. RefFlushChunk s n = Inr (s\<lparr>tmp_ht := ht\<rparr>) \<and> tmp_inv (s\<lparr>tmp_ht := ht\<rparr>) \<and>
    (\<forall>m. SearchCache (s\<lparr>tmp_ht := ht\<rparr>) m = (if take SHA1_LEN m = take SHA1_LEN n
       then (if ref_count v = 1 then None else Some (v\<lparr>ref_count := ref_count v - 1\<rparr>))
       else SearchCache s m))"
proof -
  have v: "1 \<le> ref_count v" "0 < block_length v"
    using assms by (auto simp: tmp_inv_def SearchCache_def)
  have g: "good (tmp_ht s)" using assms(1) by (simp add: tmp_inv_def)
  let ?ht = "ht_modify (tmp_ht s) (raw_key n) (\<lambda>v'. v'\<lparr>ref_count := ref_count v - 1\<rparr>)"
  show ?thesis
  proof (cases "ref_count v = 1")
    case False
    with v tmp_modify[OF assms, of "\<lambda>v'. v'\<lparr>ref_count := ref_count v - 1\<rparr>"] assms(2) show ?thesis
      by (intro exI[of _ ?ht]) (simp add: RefFlushChunk_def Let_def)
  next
    case True
    have look: "hashtable_search ?ht k = (if name_of k = take SHA1_LEN n
        then Some (v\<lparr>ref_count := 0\<rparr>) else hashtable_search (tmp_ht s) k)" for k
      using chunks.look_modify[OF g, of "raw_key n" _ k] assms(2) True
      by (simp add: chunk_eq_name SearchCache_def)
    have "good ?ht" by (rule chunks.invar_modify[OF g])
    from RemoveHT_props[OF this, of n] look obtain ht where ht: "RemoveHT ?ht n = Inr ht" "good ht"
      "\<forall>k. hashtable_search ht k = (if name_of k = take SHA1_LEN n then None else hashtable_search ?ht k)"
      by fastforce
    have "RefFlushChunk s n = Inr (s\<lparr>tmp_ht := ht\<rparr>)"
      using assms(2) v True ht(1) by (simp add: RefFlushChunk_def Let_def)
    moreover have "tmp_inv (s\<lparr>tmp_ht := ht\<rparr>)"
      using assms(1) ht(2,3) look by (auto simp: tmp_inv_def split: if_splits)
    ultimately show ?thesis
      using ht(3) look True by (intro exI[of _ ht]) (simp add: SearchCache_def)
  qed
qed

interpretation tmp_cache: ref_store tmp_inv tmp_refs tmp_content RefPutChunkCallback RefFlushChunk
proof
  fix s n
  assume i: "tmp_inv s"
  show "tmp_content s n \<noteq> None \<longleftrightarrow> 0 < tmp_refs s n"
    using i by (fastforce simp: tmp_content_def tmp_refs_def tmp_inv_def SearchCache_def split: option.splits)
  show "tmp_refs s m = tmp_refs s n" if "take SHA1_LEN m = take SHA1_LEN n" for m
    using tmp_search_raw[OF i that] by (simp add: tmp_refs_def)
  have pos: "1 \<le> ref_count v" if "SearchCache s n = Some v" for v
    using that i by (auto simp: tmp_inv_def SearchCache_def)
  note same = tmp_search_raw[OF i, of _ n]
  { fix b :: "byte list" assume b: "b \<noteq> []" "length b \<le> MAX_CHUNK_SIZE"
    show "\<exists>s'. RefPutChunkCallback s n b = Inr s' \<and> tmp_inv s' \<and>
        (\<forall>m. tmp_refs s' m = tmp_refs s m + (if take SHA1_LEN m = take SHA1_LEN n then 1 else 0)) \<and>
        (\<forall>m. tmp_content s' m = (if take SHA1_LEN m = take SHA1_LEN n \<and> tmp_refs s n = 0
           then Some b else tmp_content s m))"
    proof (cases "SearchCache s n")
      case None
      from RefPut_new[OF i None b] same None show ?thesis
        by (fastforce simp: tmp_refs_def tmp_content_def)
    next
      case (Some v)
      from RefPut_again[OF i Some b(1)] same Some pos[OF Some] show ?thesis
        by (fastforce simp: tmp_refs_def tmp_content_def nat_add_distrib)
    qed }
  assume "0 < tmp_refs s n"
  then obtain v where v: "SearchCache s n = Some v" by (auto simp: tmp_refs_def split: option.splits)
  from RefFlush_props[OF i v] same v pos[OF v] show "\<exists>s'. RefFlushChunk s n = Inr s' \<and> tmp_inv s' \<and>
        (\<forall>m. tmp_refs s' m = tmp_refs s m - (if take SHA1_LEN m = take SHA1_LEN n then 1 else 0)) \<and>
        (\<forall>m. tmp_content s' m = (if take SHA1_LEN m = take SHA1_LEN n \<and> tmp_refs s n = 1
           then None else tmp_content s m))"
    by (fastforce simp: tmp_refs_def tmp_content_def nat_diff_distrib)
qed

section \<open>Creation and emptying\<close>

lemma create_hashtable_entries: "create_hashtable a b m hf eq = Some h \<Longrightarrow> ht_entries h = []"
  by (auto simp: create_hashtable_def ht_entries_def split: if_splits prod.splits)

lemma CreateCache_empty:
  "\<exists>s. CreateCache m False hs = Inr s \<and> mem_inv s \<and> tmp_inv s \<and>
     hint_inv (send_hint_ht s) (g_NameFifo s) \<and> hint_inv (disk_hint_ht s) (g_DiskFifo s) \<and>
     good (put_tmp_ht s) \<and> maxCacheSize s = m \<and> g_CacheSize s = 0 \<and> g_CacheFifo s = [] \<and>
     ht_entries (tmp_ht s) = [] \<and>
     (\<forall>n. GetMemory s n = None \<and> SearchCache s n = None \<and> GetTempDiskCache s n = None \<and>
        \<not> GetSendHint s n \<and> \<not> GetDiskHint s n)"
proof -
  obtain hh :: "(CacheKey, int) hashtable" where
    hh: "create_hashtable True True 65536 chunk_hash_from_key_fn chunk_keys_equal_fn = Some hh"
    using create_hashtable_total[of 65536] by auto
  obtain vh :: "(CacheKey, CacheValue) hashtable" where
    vh: "create_hashtable True True 65536 chunk_hash_from_key_fn chunk_keys_equal_fn = Some vh"
    using create_hashtable_total[of 65536] by auto
  show ?thesis
    using create_hashtable_good[OF hh] create_hashtable_good[OF vh] create_hashtable_entries[OF vh]
    by (simp add: CreateCache_def hh vh Let_def mem_inv_def tmp_inv_def hint_inv_def GetMemory_def
        SearchCache_def GetTempDiskCache_def GetSendHint_def GetDiskHint_def)
qed

definition empty_cache :: "int \<Rightarrow> cache" where
  "empty_cache m = projr (CreateCache m False [])"

lemma empty_cache:
  "mem_inv (empty_cache m)" "tmp_inv (empty_cache m)"
  "hint_inv (send_hint_ht (empty_cache m)) (g_NameFifo (empty_cache m))"
  "hint_inv (disk_hint_ht (empty_cache m)) (g_DiskFifo (empty_cache m))"
  "maxCacheSize (empty_cache m) = m" "g_CacheSize (empty_cache m) = 0" "g_CacheFifo (empty_cache m) = []"
  "GetMemory (empty_cache m) n = None" "SearchCache (empty_cache m) n = None"
  "\<not> GetSendHint (empty_cache m) n" "\<not> GetDiskHint (empty_cache m) n"
  "ht_entries (tmp_ht (empty_cache m)) = []"
  using CreateCache_empty[of m "[]"] by (auto simp: empty_cache_def)

section \<open>Properties\<close>

text \<open>
  Claim C21: \<open>PutMemory\<close> of a chunk that is not cached never fails an assertion or reads through a
  null pointer; it keeps the invariant of the memory cache, evicts exactly the oldest \<open>evicted\<close>
  chunks, and afterwards the new chunk is found with its content, the evicted ones are not found,
  and every other name is mapped as before.
\<close>

theorem PutMemory_fifo:
  assumes "mem_inv s" "GetMemory s name = None"
  shows "\<exists>s'. PutMemory s name buf = Inr s' \<and> mem_inv s' \<and>
    g_CacheFifo s' = drop (evicted s (length buf)) (g_CacheFifo s) @ [NewKey name (length buf)] \<and>
    (\<forall>k. map_option pBlock (GetMemory s' k) =
       (if take SHA1_LEN k = take SHA1_LEN name then Some buf
        else if take SHA1_LEN k \<in> name_of ` set (take (evicted s (length buf)) (g_CacheFifo s)) then None
        else map_option pBlock (GetMemory s k)))"
  using PutMemory_props[OF assms, of buf] by fastforce

theorem PutMemory_fifo_witness:
  "\<exists>s'. PutMemory (empty_cache 1000) (replicate 20 7) [1, 2, 3] = Inr s' \<and>
     map_option pBlock (GetMemory s' (replicate 20 7)) = Some [1, 2, 3]"
proof -
  from PutMemory_fifo[OF empty_cache(1,8), of 1000 "replicate 20 7" "[1, 2, 3]"] obtain s' where
    p: "PutMemory (empty_cache 1000) (replicate 20 7) [1, 2, 3] = Inr s'" and
    look: "\<forall>k. map_option pBlock (GetMemory s' k) =
       (if take SHA1_LEN k = take SHA1_LEN (replicate 20 7) then Some [1, 2, 3]
        else if take SHA1_LEN k \<in> name_of ` set (take (evicted (empty_cache 1000) (length [1, 2, 3 :: byte]))
          (g_CacheFifo (empty_cache 1000))) then None
        else map_option pBlock (GetMemory (empty_cache 1000) k))" by blast
  from p look[rule_format, of "replicate 20 7"] show ?thesis by simp
qed

text \<open>
  Claim C37: a cache whose accounted size is within its limit stays within it after \<open>PutMemory\<close>,
  unless the eviction had to empty the cache first.
\<close>

theorem PutMemory_capacity:
  assumes "mem_inv s" "GetMemory s name = None" "g_CacheSize s \<le> maxCacheSize s"
    and "PutMemory s name buf = Inr s'" "evicted s (length buf) < length (g_CacheFifo s)"
  shows "g_CacheSize s' \<le> maxCacheSize s'"
proof -
  let ?n = "evicted s (length buf)" and ?need = "sizeof_CacheKey + sizeof_CacheValue + int (length buf)"
  have size: "g_CacheSize s' = g_CacheSize s + ?need
      - (\<Sum>w\<leftarrow>take ?n (g_CacheFifo s). sizeof_CacheKey + int (key_length w))" "maxCacheSize s' = maxCacheSize s"
    using PutMemory_props[OF assms(1,2), of buf] assms(4) by auto
  show ?thesis
  proof (cases "g_CacheSize s + ?need \<le> maxCacheSize s")
    case True
    then show ?thesis using size by (simp add: evicted_def Let_def)
  next
    case False
    then have "?n = victims (?need * 2) (g_CacheFifo s)" by (simp add: evicted_def Let_def)
    then have "?need * 2 \<le> (\<Sum>w\<leftarrow>take ?n (g_CacheFifo s). int (key_length w))"
      using victims_sum[of "?need * 2" "g_CacheFifo s"] assms(5) by auto
    also have "\<dots> \<le> (\<Sum>w\<leftarrow>take ?n (g_CacheFifo s). sizeof_CacheKey + int (key_length w))"
      by (intro sum_list_mono) (simp add: sizeof_CacheKey_def)
    finally show ?thesis
      using size assms(3) by (simp add: sizeof_CacheKey_def sizeof_CacheValue_def)
  qed
qed

theorem PutMemory_capacity_witness:
  "\<exists>s s'. g_CacheFifo s \<noteq> [] \<and> PutMemory s (replicate 20 8) [9] = Inr s' \<and> g_CacheSize s' \<le> 1000"
proof -
  have 0: "evicted (empty_cache 1000) (length [1, 2, 3 :: byte]) = 0"
    by (simp add: evicted_def Let_def empty_cache)
  from PutMemory_props[OF empty_cache(1,8), of 1000 "replicate 20 7" "[1, 2, 3]", unfolded 0] obtain s where
    s: "mem_inv s" "g_CacheFifo s = [NewKey (replicate 20 7) (Suc (Suc (Suc 0)))]" "g_CacheSize s = 75" "maxCacheSize s = 1000"
    and look: "\<forall>k. GetMemory s k = (if take SHA1_LEN k = take SHA1_LEN (replicate 20 7)
        then Some \<lparr>pBlock = [1, 2, 3], block_length = length [1, 2, 3 :: byte], ref_count = 1\<rparr>
        else if take SHA1_LEN k \<in> name_of ` set (take 0 (g_CacheFifo (empty_cache 1000))) then None
        else GetMemory (empty_cache 1000) k)"
    by (auto simp: empty_cache sizeof_CacheKey_def sizeof_CacheValue_def)
  have n: "GetMemory s (replicate 20 8) = None"
    using look[rule_format, of "replicate 20 8"] by (simp add: empty_cache SHA1_LEN_def)
  have e: "evicted s (length [9 :: byte]) < length (g_CacheFifo s)"
    using s by (simp add: evicted_def sizeof_CacheKey_def sizeof_CacheValue_def)
  from PutMemory_props[OF s(1) n, of "[9]"] obtain s' where
    p: "PutMemory s (replicate 20 8) [9] = Inr s'" "maxCacheSize s' = maxCacheSize s" by blast
  from PutMemory_capacity[OF s(1) n _ p(1) e] s p show ?thesis
    by (intro exI[of _ s] exI[of _ s']) simp
qed

text \<open>
  Claim C39: the size accounted for the memory cache drifts from the size of its contents: every
  evicted chunk leaves \<open>sizeof(CacheValue)\<close> bytes in \<open>g_CacheSize\<close>, because an insertion adds the
  sizes of key, value and block, and an eviction subtracts only those of key and block.
\<close>

theorem PutMemory_size_drift:
  assumes "mem_inv s" "GetMemory s name = None" "PutMemory s name buf = Inr s'"
  shows "g_CacheSize s' - (\<Sum>w\<leftarrow>g_CacheFifo s'. sizeof_CacheKey + sizeof_CacheValue + int (key_length w)) =
    g_CacheSize s - (\<Sum>w\<leftarrow>g_CacheFifo s. sizeof_CacheKey + sizeof_CacheValue + int (key_length w))
    + sizeof_CacheValue * int (min (evicted s (length buf)) (length (g_CacheFifo s)))"
proof -
  let ?n = "evicted s (length buf)" and ?f = "g_CacheFifo s"
  let ?sum = "\<lambda>ws. \<Sum>w\<leftarrow>ws. sizeof_CacheKey + sizeof_CacheValue + int (key_length w)"
  have "?sum ws = (\<Sum>w\<leftarrow>ws. sizeof_CacheKey + int (key_length w)) + sizeof_CacheValue * int (length ws)" for ws
    by (induction ws) (auto simp: algebra_simps)
  from this[of "take ?n ?f"] have "?sum (take ?n ?f) =
      (\<Sum>w\<leftarrow>take ?n ?f. sizeof_CacheKey + int (key_length w)) + sizeof_CacheValue * int (min ?n (length ?f))"
    by (simp add: min.commute)
  moreover have "?sum ?f = ?sum (take ?n ?f) + ?sum (drop ?n ?f)"
    by (metis append_take_drop_id map_append sum_list_append)
  ultimately show ?thesis
    using PutMemory_props[OF assms(1,2), of buf] assms(3) by auto
qed

theorem PutMemory_size_drift_witness:
  "\<exists>s'. PutMemory (empty_cache 1000) (replicate 20 7) [1, 2, 3] = Inr s' \<and>
     g_CacheSize s' = (\<Sum>w\<leftarrow>g_CacheFifo s'. sizeof_CacheKey + sizeof_CacheValue + int (key_length w))"
proof -
  from PutMemory_props[OF empty_cache(1,8), of 1000 "replicate 20 7" "[1, 2, 3]"] obtain s' where
    "PutMemory (empty_cache 1000) (replicate 20 7) [1, 2, 3] = Inr s'" by blast
  with PutMemory_size_drift[OF empty_cache(1,8) this] show ?thesis by (auto simp: empty_cache)
qed

text \<open>
  Claim C23: \<open>PutSendHint\<close> of a name that has no hint never fails; it appends the name to the queue
  of names, dropping the oldest one when there are \<open>MAX_NAMES\<close>, and afterwards \<open>GetSendHint\<close> is
  true exactly for the names in the queue, the new one among them.
\<close>

theorem PutSendHint_bounded_fifo:
  assumes "hint_inv (send_hint_ht s) (g_NameFifo s)" "\<not> GetSendHint s name"
  shows "\<exists>s'. PutSendHint s name len = Inr s' \<and> hint_inv (send_hint_ht s') (g_NameFifo s') \<and>
    g_NameFifo s' = bound_queue (g_NameFifo s @ [NewKey name len]) \<and>
    length (g_NameFifo s') \<le> unat MAX_NAMES \<and> GetSendHint s' name \<and>
    (\<forall>n. GetSendHint s' n \<longleftrightarrow> take SHA1_LEN n \<in> name_of ` set (g_NameFifo s'))"
proof -
  from send_hints.put_fresh[OF assms, of len] obtain s' where
    "PutSendHint s name len = Inr s'" "hint_inv (send_hint_ht s') (g_NameFifo s')"
    "g_NameFifo s' = bound_queue (g_NameFifo s @ [NewKey name len])" by blast
  with send_hints.put_has[OF assms] send_hints.has_queue[OF this(2)] send_hints.queue_bound[OF this(2)]
  show ?thesis by blast
qed

theorem PutSendHint_bounded_fifo_witness:
  "\<exists>s'. PutSendHint (empty_cache 0) (replicate 20 7) 3 = Inr s' \<and> GetSendHint s' (replicate 20 7)"
  using PutSendHint_bounded_fifo[OF empty_cache(3,10), of 0 "replicate 20 7" 3] by blast

text \<open>
  Preloading a hint file whose lengths are all between 1 and \<open>MAX_CHUNK_SIZE\<close> passes
  every assertion, duplicates included, and leaves the hint table consistent.
\<close>

theorem PreloadHints_total:
  assumes "hint_inv (send_hint_ht s) (g_NameFifo s)"
    and "\<forall>(n, l) \<in> set hints. 0 < l \<and> l \<le> int MAX_CHUNK_SIZE"
  shows "\<exists>s'. PreloadHints s hints = Inr s' \<and> hint_inv (send_hint_ht s') (g_NameFifo s')"
  using PreloadHints_ok[OF assms] by blast

theorem PreloadHints_total_witness:
  "\<exists>s'. PreloadHints (empty_cache 0) [(replicate 20 7, 3), (replicate 20 7, 3)] = Inr s'"
  using PreloadHints_total[OF empty_cache(3), of "[(replicate 20 7, 3), (replicate 20 7, 3)]" 0]
  by (auto simp: MAX_CHUNK_SIZE_def)

text \<open>
  Claim C22: in the temporary cache, putting chunks with \<open>RefPutChunkCallback\<close> and flushing each of
  them once with \<open>RefFlushChunk\<close>, in any order and with repetitions, passes every assertion and
  leaves every reference count and every content as it was: no chunk is leaked and none is freed
  early.
\<close>

theorem RefPut_RefFlush_balanced:
  assumes "tmp_inv s" "\<forall>(n, b) \<in> set nbs. b \<noteq> [] \<and> length b \<le> MAX_CHUNK_SIZE"
    and "mset ns = mset (map fst nbs)"
  shows "\<exists>s1 s2. rfold (\<lambda>(n, b) s. RefPutChunkCallback s n b) nbs s = Inr s1 \<and>
    rfold (\<lambda>n s. RefFlushChunk s n) ns s1 = Inr s2 \<and> tmp_inv s2 \<and>
    (\<forall>m. tmp_refs s2 m = tmp_refs s m) \<and> (\<forall>m. tmp_content s2 m = tmp_content s m)"
  using tmp_cache.put_flush_balanced[OF assms] .

theorem RefPut_RefFlush_balanced_witness:
  "\<exists>s1 s2. rfold (\<lambda>(n, b) s. RefPutChunkCallback s n b) [([1], [5]), ([2], [6]), ([1], [5])] (empty_cache 0) = Inr s1 \<and>
    rfold (\<lambda>n s. RefFlushChunk s n) [[1], [1], [2]] s1 = Inr s2 \<and>
    (\<forall>m. tmp_refs s2 m = 0)"
  using RefPut_RefFlush_balanced[OF empty_cache(2), of "[([1], [5]), ([2], [6]), ([1], [5])]" "[[1], [1], [2]]" 0]
  by (auto simp: MAX_CHUNK_SIZE_def tmp_refs_def empty_cache(9))

text \<open>
  Claim C38: \<open>EmptyTempMemCache\<close> ends, frees every value of the temporary cache exactly once, and
  leaves an empty table that satisfies the invariant.
\<close>

theorem EmptyTempMemCache_empties:
  assumes "tmp_inv s" "length (ht_entries (tmp_ht s)) < 2 ^ 32"
  shows "\<exists>s'. EmptyTempMemCache s = Some (Inr (s', map ent_v (ht_entries (tmp_ht s)))) \<and> tmp_inv s' \<and>
    hashtable_count (tmp_ht s') = 0 \<and> (\<forall>n. SearchCache s' n = None)"
proof -
  have g: "good (tmp_ht s)" using assms(1) by (simp add: tmp_inv_def)
  then have i: "ht_invar (tmp_ht s)" by (simp add: ht_good_def)
  have none: "hashtable_search ht k = None" if "good ht" "ht_entries ht = []" for ht :: "(CacheKey, CacheValue) hashtable" and k
    using ht_good_find[OF that(1) chunk_key_fns] that(2) by simp
  show ?thesis
  proof (cases "ht_entries (tmp_ht s) = []")
    case True
    then have "hashtable_count (tmp_ht s) = 0" using i by (simp add: ht_invar_def hashtable_count_def)
    with True none[OF g] assms(1) show ?thesis
      by (intro exI[of _ s]) (simp add: EmptyTempMemCache_def SearchCache_def)
  next
    case False
    from drain_table[OF i False, of "Suc (length (ht_entries (tmp_ht s)))"] assms(2) obtain ht where
      d: "drain_itr (Suc (length (ht_entries (tmp_ht s)))) (tmp_ht s) (hashtable_iterator (tmp_ht s)) =
          Some (Inr (ht, map ent_v (ht_entries (tmp_ht s))))"
      and e: "ht_entries ht = []" and inv: "ht_invar ht" "hashfn ht = hashfn (tmp_ht s)" "eqfn ht = eqfn (tmp_ht s)"
      by auto
    have gh: "good ht" using inv g e by (simp add: ht_good_def nodup_def)
    have "hashtable_count (tmp_ht s) \<noteq> 0"
    proof
      assume "hashtable_count (tmp_ht s) = 0"
      then have "unat (of_nat (length (ht_entries (tmp_ht s))) :: u32) = 0"
        using i by (simp add: ht_invar_def hashtable_count_def)
      with False assms(2) show False by (simp add: unsigned_of_nat take_bit_nat_eq_self_iff[THEN iffD2])
    qed
    moreover have "hashtable_count ht = 0" using inv(1) e by (simp add: ht_invar_def hashtable_count_def)
    ultimately show ?thesis
      using d gh none[OF gh e] assms(1)
      by (intro exI[of _ "s\<lparr>tmp_ht := ht\<rparr>"]) (simp add: EmptyTempMemCache_def tmp_inv_def SearchCache_def)
  qed
qed

theorem EmptyTempMemCache_empties_witness:
  "\<exists>s s'. RefPutChunkCallback (empty_cache 0) [1] [5] = Inr s \<and>
     EmptyTempMemCache s = Some (Inr (s', map ent_v (ht_entries (tmp_ht s)))) \<and>
     SearchCache s' [1] = None"
proof -
  let ?e = "empty_cache 0"
  from tmp_cache.put_ok[OF empty_cache(2), of "[5]" 0 "[1]"] obtain s where
    s: "RefPutChunkCallback ?e [1] [5] = Inr s" "tmp_inv s"
    by (auto simp: MAX_CHUNK_SIZE_def)
  have g: "good (tmp_ht ?e)" using empty_cache(2) by (simp add: tmp_inv_def)
  have "hashtable_search (tmp_ht ?e) (NewKey [1] 1) = None"
    using empty_cache(9)[of 0 "[1]"] by (simp add: search_new[OF g] SearchCache_def)
  with s(1) obtain k v where "tmp_ht s = ht_put (tmp_ht ?e) k v"
    by (simp add: RefPutChunkCallback_def empty_cache PutHT_def Let_def MAX_CHUNK_SIZE_def)
      (metis cache.ext_inject cache.surjective cache.update_convs(4))
  moreover have "ht_invar (tmp_ht ?e)" using g by (simp add: ht_good_def)
  ultimately have "mset (ht_entries (tmp_ht s)) = {#\<lparr>ent_k = k, ent_v = v, ent_h = hash (tmp_ht ?e) k\<rparr>#}"
    using hashtable_insert_props[OF _ hashtable_insert_ht_put[of "tmp_ht ?e" k v]] by (simp add: empty_cache)
  then have "length (ht_entries (tmp_ht s)) = 1" by (metis size_mset size_single)
  then have "length (ht_entries (tmp_ht s)) < 2 ^ 32" by simp
  from EmptyTempMemCache_empties[OF s(2) this] s(1) show ?thesis by blast
qed

end
