(* ===== verification/Chunk_Types.thy ===== *)
theory Chunk_Types
  imports Chunk_Cache
begin

text \<open>
  The data of a multi-resolution chunk tree and of the list of chunks chosen from it, shared by the
  message format and by the tree algorithms (waprox/mrc_tree.h).

  Lengths, offsets and array indices are natural numbers; \<open>rindex\<close> and \<open>parentIdx\<close>, which use -1
  for "none", are integers. A \<open>pChunk\<close> pointer is the bytes of the chunk (\<open>None\<close> for null). The
  pointer of a candidate to its names is the copy of the name the structure keeps.
\<close>

definition WAPROX_MIN_CHUNK_SIZE :: nat where "WAPROX_MIN_CHUNK_SIZE = 30"
definition WAPROX_RABIN_WINDOW :: nat where "WAPROX_RABIN_WINDOW = 16"
definition WAPROX_MRC_MIN :: nat where "WAPROX_MRC_MIN = 0"
definition WAPROX_MRC_MAX :: nat where "WAPROX_MRC_MAX = 128 * 1024"

datatype chunkType = chunk_name | chunk_both | chunk_index | chunk_raw

record OneChunkName =
  cn_type :: chunkType
  cn_length :: nat
  cn_sha1 :: sha1
  cn_pChunk :: "byte list option"
  cn_freeChunk :: bool
  cn_rindex :: int
  cn_index :: nat
  cn_parentIdx :: int
  cn_level :: nat
  cn_isHit :: bool
  cn_isSha1Ready :: bool
  cn_isCandidate :: bool
  cn_offset :: nat
  cn_fromPeer :: bool

record MRCPerLevelInfo =
  pl_numNames :: nat
  pl_firstIndex :: nat

record OneCandidate =
  ca_index :: nat
  ca_offset :: nat
  ca_length :: nat
  ca_isHit :: bool
  ca_sha1 :: sha1

text \<open>A list of candidates covers its block without gaps, from an offset on.\<close>

fun tiled :: "nat \<Rightarrow> OneCandidate list \<Rightarrow> bool" where
  "tiled off [] \<longleftrightarrow> True"
| "tiled off (c # cs) \<longleftrightarrow> ca_offset c = off \<and> tiled (off + ca_length c) cs"

definition span :: "OneCandidate list \<Rightarrow> nat" where
  "span cs = sum_list (map ca_length cs)"

lemma span_simps [simp]: "span [] = 0" "span (c # cs) = ca_length c + span cs"
  by (simp_all add: span_def)

end
