(* ===== verification/Mrc_Build.thy ===== *)
theory Mrc_Build
  imports Chunk_Types Rabin
begin

text \<open>
  Building the multi-resolution chunk tree of a block (waprox/mrc_tree.c): the boundaries of a Rabin
  scan are grouped into levels of chunks, from the whole block down to the smallest chunks, and each
  chunk is linked to the chunk of the level above that contains it.

  The static arrays of the code are lists; an index beyond the end of an allocated array is the
  error \<open>UndefinedBehaviour\<close>. The names of all levels are one array, level after level.
\<close>

section \<open>Parameters\<close>

record mrc_config =
  g_ChunkSize :: nat
  g_MinChunkSize :: nat
  g_NumMRCWays :: nat
  g_maxLevel :: nat
  g_maxNames :: nat

text \<open>
  The loop of \<open>InitMRCParams\<close>; \<open>None\<close> stands for a run that does not end. The count of names it
  accumulates is overwritten after the loop.
\<close>

partial_function (option) count_levels :: "nat \<Rightarrow> nat \<Rightarrow> nat \<Rightarrow> nat \<Rightarrow> nat option" where
  "count_levels ways minSize chunkSize maxLevel =
     (let chunkSize' = chunkSize div ways in
      if chunkSize' < minSize then Some maxLevel
      else count_levels ways minSize chunkSize' (maxLevel + 1))"

definition InitMRCParams :: "nat \<Rightarrow> nat \<Rightarrow> nat \<Rightarrow> mrc_config option" where
  "InitMRCParams chunkSize minSize ways =
     map_option (\<lambda>lvl. \<lparr>g_ChunkSize = chunkSize, g_MinChunkSize = minSize, g_NumMRCWays = ways,
                       g_maxLevel = lvl, g_maxNames = chunkSize * lvl\<rparr>)
       (if ways > 1 then count_levels ways minSize chunkSize 1 else Some 1)"

section \<open>Levels\<close>

text \<open>
  A fresh name. The code leaves the bytes of the digest as they were in memory and clears the flag that
  says that they are valid; zeros stand for them, since the digest is set before it is read.
\<close>

definition InitOneChunk :: OneChunkName where
  "InitOneChunk = \<lparr>cn_type = chunk_name, cn_length = 0, cn_sha1 = replicate SHA1_LEN 0, cn_pChunk = None,
     cn_freeChunk = False, cn_rindex = -1, cn_index = 0, cn_parentIdx = -1, cn_level = 0,
     cn_isHit = False, cn_isSha1Ready = False, cn_isCandidate = False, cn_offset = 0,
     cn_fromPeer = False\<rparr>"

text \<open>
  One pass over the boundaries: \<open>i\<close> counts them, \<open>nb\<close> is their number, \<open>real\<close> is
  \<open>pRealBoundary\<close>. The names of the level are returned in order.
\<close>

definition level_mask :: "nat \<Rightarrow> u64 \<Rightarrow> bool" where
  "level_mask chunkSize f \<longleftrightarrow> f AND of_nat (chunkSize - 1) = of_nat (chunkSize - 1)"

fun fill_level :: "mrc_config \<Rightarrow> nat \<Rightarrow> nat \<Rightarrow> nat \<Rightarrow> byte list \<Rightarrow> nat \<Rightarrow> RabinBoundary list \<Rightarrow> nat \<Rightarrow>
    nat \<Rightarrow> nat \<Rightarrow> bool list \<Rightarrow> (OneChunkName list \<times> bool list) res" where
  "fill_level cfg chunkSize level rb_size psrc nb [] i lastOffset index real = Inr ([], real)"
| "fill_level cfg chunkSize level rb_size psrc nb (b # bs) i lastOffset index real =
     (if level_mask chunkSize (bd_finger b) \<or> i + 1 = nb then
        let len = bd_offset b - lastOffset in
        if len \<le> WAPROX_MIN_CHUNK_SIZE \<and> \<not> real ! i
        then fill_level cfg chunkSize level rb_size psrc nb bs (i + 1) lastOffset index real
        else ensure (level = 0 \<longrightarrow> len = rb_size)
          (if index \<ge> g_maxNames cfg then Inl UndefinedBehaviour
           else ensure (len > 0)
             (let name = InitOneChunk\<lparr>cn_length := len, cn_index := index, cn_level := level,
                    cn_pChunk := Some (take len (drop lastOffset psrc)), cn_offset := lastOffset\<rparr>
              in rbind (fill_level cfg chunkSize level rb_size psrc nb bs (i + 1) (bd_offset b)
                          (index + 1) (real[i := True]))
                   (\<lambda>(names, real'). Inr (name # names, real'))))
      else fill_level cfg chunkSize level rb_size psrc nb bs (i + 1) lastOffset index real)"

text \<open>The loop over the chunk sizes, largest first: the names of all levels and the level table.\<close>

function fill_levels :: "mrc_config \<Rightarrow> nat \<Rightarrow> byte list \<Rightarrow> RabinBoundary list \<Rightarrow> nat \<Rightarrow> nat \<Rightarrow> nat \<Rightarrow>
    bool list \<Rightarrow> (OneChunkName list \<times> MRCPerLevelInfo list) res" where
  "fill_levels cfg rb_size psrc bds chunkSize level index real =
     (if chunkSize \<ge> g_MinChunkSize cfg then
        if level \<ge> g_maxLevel cfg then Inl UndefinedBehaviour
        else rbind (fill_level cfg chunkSize level rb_size psrc (length bds) bds 0 0 index real)
          (\<lambda>(names, real').
             let pl = \<lparr>pl_numNames = length names, pl_firstIndex = index\<rparr> in
             if g_NumMRCWays cfg = 1 then Inr (names, [pl])
             else if g_NumMRCWays cfg = 0 then Inl UndefinedBehaviour
             else rbind (fill_levels cfg rb_size psrc bds (chunkSize div g_NumMRCWays cfg) (level + 1)
                           (index + length names) real')
               (\<lambda>(names', pli). Inr (names @ names', pl # pli)))
      else Inr ([], []))"
  by pat_completeness auto

termination
  by (relation "measure (\<lambda>(cfg, rb, p, bds, cs, level, i, r). g_maxLevel cfg - level)") auto

declare fill_levels.simps [simp del]

text \<open>
  \<open>DoPreMRC\<close>: the new scanner state, the names, the size of the block, and the level table, whose
  length is the number of levels. The boundary array has \<open>g_ChunkSize\<close> entries.
\<close>

definition DoPreMRC :: "mrc_config \<Rightarrow> RabinCtx \<Rightarrow> byte list \<Rightarrow>
    (RabinCtx \<times> OneChunkName list \<times> nat \<times> MRCPerLevelInfo list) res" where
  "DoPreMRC cfg rctx psrc =
     (if WAPROX_MIN_CHUNK_SIZE \<le> WAPROX_RABIN_WINDOW then Inl NiceExit
      else let rabin_buffer_len = min (length psrc) MAX_CHUNK_SIZE in
        rbind (GetMRCMask (int (g_MinChunkSize cfg))) (\<lambda>min_mask.
        rbind (GetMRCMask (int (g_ChunkSize cfg))) (\<lambda>max_mask.
        rbind (GetRabinChunkSizeEx rctx psrc rabin_buffer_len min_mask max_mask True)
          (\<lambda>(rctx', bds, rb_size).
             if length bds > g_ChunkSize cfg then Inl UndefinedBehaviour
             else ensure (rb_size > 0 \<and> rb_size \<le> rabin_buffer_len \<and> bds \<noteq> [] \<and>
                          bd_offset (last bds) = rb_size)
               (let real = (replicate (length bds) False)[length bds - 1 := True] in
                rbind (fill_levels cfg rb_size psrc bds (g_ChunkSize cfg) 0 0 real)
                  (\<lambda>(names, pli). ensure (length names > 0) (Inr (rctx', names, rb_size, pli))))))))"

section \<open>Parents\<close>

definition GetTreeLevel2 :: "OneChunkName list \<Rightarrow> nat \<Rightarrow> nat" where
  "GetTreeLevel2 pNames index = cn_level (pNames ! index)"

definition GetParent2 :: "OneChunkName list \<Rightarrow> nat \<Rightarrow> int" where
  "GetParent2 pNames index = (if index = 0 then 0 else cn_parentIdx (pNames ! index))"

text \<open>The inner loop of \<open>MakeTree\<close>: the children of one parent.\<close>

function link_children :: "nat \<Rightarrow> nat \<Rightarrow> nat \<Rightarrow> nat \<Rightarrow> nat \<Rightarrow> OneChunkName list \<Rightarrow>
    (OneChunkName list \<times> nat \<times> nat) res" where
  "link_children numNames parentIndex parentLength childIndex childLength pNames =
     (if childIndex < numNames then
        let childLength' = childLength + cn_length (pNames ! childIndex);
            pNames' = pNames[childIndex := (pNames ! childIndex)\<lparr>cn_parentIdx := int parentIndex\<rparr>]
        in if childLength' = parentLength then Inr (pNames', childIndex + 1, childLength')
           else link_children numNames parentIndex parentLength (childIndex + 1) childLength' pNames'
      else Inl AssertFail)"
  by pat_completeness auto

termination
  by (relation "measure (\<lambda>(n, pi, pl, ci, cl, ns). n - ci)") auto

declare link_children.simps [simp del]

fun link_parents :: "nat \<Rightarrow> nat \<Rightarrow> nat \<Rightarrow> nat \<Rightarrow> nat \<Rightarrow> nat \<Rightarrow> OneChunkName list \<Rightarrow> OneChunkName list res" where
  "link_parents numNames 0 parentIndex parentLength childIndex childLength pNames = Inr pNames"
| "link_parents numNames (Suc j) parentIndex parentLength childIndex childLength pNames =
     ensure (parentIndex < numNames)
       (let parentLength' = parentLength + cn_length (pNames ! parentIndex) in
        rbind (link_children numNames parentIndex parentLength' childIndex childLength pNames)
          (\<lambda>(pNames', childIndex', childLength').
             link_parents numNames j (parentIndex + 1) parentLength' childIndex' childLength' pNames'))"

definition link_level :: "nat \<Rightarrow> MRCPerLevelInfo list \<Rightarrow> nat \<Rightarrow> OneChunkName list \<Rightarrow> OneChunkName list res" where
  "link_level numNames levInfo i pNames =
     link_parents numNames (pl_numNames (levInfo ! i)) (pl_firstIndex (levInfo ! i)) 0
       (pl_firstIndex (levInfo ! (i + 1))) 0 pNames"

definition MakeTree :: "MRCPerLevelInfo list \<Rightarrow> OneChunkName list \<Rightarrow> OneChunkName list res" where
  "MakeTree levInfo pNames =
     rfold (link_level (length pNames) levInfo) [0..<length levInfo - 1] pNames"


section \<open>Geometry of a level\<close>

text \<open>
  The part of a name that says which bytes of the block it stands for; hashing, hint lookups and the
  choice of candidates do not change it. The chunks of a level tile the block: they follow one
  another without gaps, and each is at least one byte long.
\<close>

definition cn_end :: "OneChunkName \<Rightarrow> nat" where
  "cn_end c = cn_offset c + cn_length c"

fun chunks_ok :: "byte list \<Rightarrow> nat \<Rightarrow> nat \<Rightarrow> nat \<Rightarrow> nat \<Rightarrow> OneChunkName list \<Rightarrow> bool" where
  "chunks_ok p l e i off [] \<longleftrightarrow> off = e"
| "chunks_ok p l e i off (c # cs) \<longleftrightarrow> cn_level c = l \<and> cn_index c = i \<and> cn_offset c = off \<and>
     0 < cn_length c \<and> cn_pChunk c = Some (take (cn_length c) (drop off p)) \<and>
     chunks_ok p l e (Suc i) (cn_end c) cs"

definition marked :: "RabinBoundary list \<Rightarrow> bool list \<Rightarrow> nat list" where
  "marked bs rs = map (bd_offset \<circ> fst) (filter snd (zip bs rs))"

lemma marked_Nil [simp]: "marked [] rs = []"
  by (simp add: marked_def)

lemma marked_Cons [simp]:
  "marked (b # bs) (r # rs) = (if r then bd_offset b # marked bs rs else marked bs rs)"
  by (simp add: marked_def)

definition all_marks_fit :: "nat \<Rightarrow> RabinBoundary list \<Rightarrow> bool list \<Rightarrow> bool" where
  "all_marks_fit cs bs rs \<longleftrightarrow>
     (\<forall>j < length bs. rs ! j \<longrightarrow> level_mask cs (bd_finger (bs ! j)) \<or> Suc j = length bs)"

lemma all_marks_fit_Cons: "length rs = length bs \<Longrightarrow> all_marks_fit cs (b # bs) (r # rs) \<longleftrightarrow>
    (r \<longrightarrow> level_mask cs (bd_finger b) \<or> bs = []) \<and> all_marks_fit cs bs rs"
  by (auto simp: all_marks_fit_def less_Suc_eq_0_disj)

lemma fill_level_ok:
  assumes "length pre = i" "length rs = length bs" "nb = i + length bs"
    and "sorted_wrt (\<lambda>a b. bd_offset a < bd_offset b) bs" "\<forall>b \<in> set bs. lastOffset < bd_offset b"
    and "all_marks_fit chunkSize bs rs" "bs \<noteq> [] \<longrightarrow> last rs \<and> bd_offset (last bs) = rb"
    and "index + length bs \<le> g_maxNames cfg" "bs = [] \<longrightarrow> lastOffset = rb"
    and "level = 0 \<longrightarrow> lastOffset = 0 \<or> bs = []" "level = 0 \<longrightarrow> (\<forall>b \<in> set (butlast bs). \<not> level_mask chunkSize (bd_finger b))"
  shows "\<exists>names rs'. fill_level cfg chunkSize level rb psrc nb bs i lastOffset index (pre @ rs) =
      Inr (names, pre @ rs') \<and> length rs' = length bs \<and> list_all2 (\<longrightarrow>) rs rs' \<and>
    all_marks_fit chunkSize bs rs' \<and> (bs \<noteq> [] \<longrightarrow> last rs') \<and>
    chunks_ok psrc level rb index lastOffset names \<and> map cn_end names = marked bs rs' \<and>
    length names \<le> length bs \<and> (level = 0 \<longrightarrow> length names \<le> 1)"
  using assms
proof (induction bs arbitrary: pre i rs lastOffset index)
  case Nil
  then show ?case by simp
next
  case (Cons b bs)
  from Cons.prems(2) obtain r rs0 where rs: "rs = r # rs0" "length rs0 = length bs"
    by (cases rs) auto
  have nb: "Suc i = nb \<longleftrightarrow> bs = []" using Cons.prems(3) by auto
  have len: "0 < bd_offset b - lastOffset" using Cons.prems(5) by simp
  note prems = Cons.prems[unfolded rs(1)]
  let ?step = "\<lambda>last' index' r'. fill_level cfg chunkSize level rb psrc nb bs (Suc i) last' index' ((pre @ [r']) @ rs0)"
  have fit0: "all_marks_fit chunkSize bs rs0" "r \<longrightarrow> level_mask chunkSize (bd_finger b) \<or> bs = []"
    using prems(6) all_marks_fit_Cons[OF rs(2)] by auto
  have IH: "\<exists>names rs'. ?step last' index' r' = Inr (names, (pre @ [r']) @ rs') \<and> length rs' = length bs \<and>
      list_all2 (\<longrightarrow>) rs0 rs' \<and> all_marks_fit chunkSize bs rs' \<and> (bs \<noteq> [] \<longrightarrow> last rs') \<and>
      chunks_ok psrc level rb index' last' names \<and> map cn_end names = marked bs rs' \<and>
      length names \<le> length bs \<and> (level = 0 \<longrightarrow> length names \<le> 1)"
    if "last' \<le> bd_offset b" "index' + length bs \<le> g_maxNames cfg" "bs = [] \<longrightarrow> last' = rb"
      "level = 0 \<longrightarrow> last' = 0 \<or> bs = []" for last' index' r'
  proof -
    have "\<forall>x \<in> set bs. last' < bd_offset x" using that(1) prems(4) by (auto intro: le_less_trans)
    moreover have "bs \<noteq> [] \<longrightarrow> last rs0 \<and> bd_offset (last bs) = rb" using prems(7) rs(2) by (cases rs0) auto
    moreover have "level = 0 \<longrightarrow> (\<forall>b \<in> set (butlast bs). \<not> level_mask chunkSize (bd_finger b))"
      using prems(11) by (auto split: if_splits)
    ultimately show ?thesis
      using prems(1,3,4) rs(2) fit0(1) that by (intro Cons.IH) auto
  qed
  show ?case
  proof (cases "(level_mask chunkSize (bd_finger b) \<or> bs = []) \<and> (WAPROX_MIN_CHUNK_SIZE < bd_offset b - lastOffset \<or> r)")
    case True
    then have "level = 0 \<longrightarrow> bs = []" using prems(11) by (cases bs) auto
    moreover from this have l0: "level = 0 \<longrightarrow> bd_offset b - lastOffset = rb"
      using prems(7,10) by auto
    ultimately obtain names rs' where N: "?step (bd_offset b) (Suc index) True = Inr (names, (pre @ [True]) @ rs')"
      "length rs' = length bs" "list_all2 (\<longrightarrow>) rs0 rs'" "all_marks_fit chunkSize bs rs'"
      "bs \<noteq> [] \<longrightarrow> last rs'" "chunks_ok psrc level rb (Suc index) (bd_offset b) names"
      "map cn_end names = marked bs rs'" "length names \<le> length bs"
      using IH[of "bd_offset b" "Suc index" True] prems(7,8) by auto
    let ?name = "InitOneChunk\<lparr>cn_length := bd_offset b - lastOffset, cn_index := index, cn_level := level,
      cn_pChunk := Some (take (bd_offset b - lastOffset) (drop lastOffset psrc)), cn_offset := lastOffset\<rparr>"
    have upd: "(pre @ r # rs0)[i := True] = pre @ True # rs0" using prems(1) by (simp add: list_update_append)
    have "fill_level cfg chunkSize level rb psrc nb (b # bs) i lastOffset index (pre @ rs) =
        Inr (?name # names, pre @ True # rs')"
      using True prems(1,8) l0 len N(1) nb upd by (auto simp: rs nth_append Let_def ensure_def)
    moreover have "cn_end ?name = bd_offset b" using len by (simp add: cn_end_def)
    moreover have "length names = 0" if "level = 0"
      using that N(8) \<open>level = 0 \<longrightarrow> bs = []\<close> by simp
    ultimately show ?thesis using N len True
      by (intro exI[of _ "?name # names"] exI[of _ "True # rs'"])
        (auto simp: rs all_marks_fit_Cons)
  next
    case False
    have "r \<longrightarrow> False" using fit0(2) False by blast
    moreover have "bs \<noteq> []" using False prems(7) rs(2) by (cases rs0) auto
    ultimately have r: "\<not> r" "bs \<noteq> []" by auto
    from IH[of lastOffset index r] prems(5,8,10) r obtain names rs' where
      N: "?step lastOffset index r = Inr (names, (pre @ [r]) @ rs')"
      "length rs' = length bs" "list_all2 (\<longrightarrow>) rs0 rs'" "all_marks_fit chunkSize bs rs'"
      "last rs'" "chunks_ok psrc level rb index lastOffset names"
      "map cn_end names = marked bs rs'" "length names \<le> length bs" "level = 0 \<longrightarrow> length names \<le> 1"
      by auto
    have "fill_level cfg chunkSize level rb psrc nb (b # bs) i lastOffset index (pre @ rs) =
        Inr (names, pre @ r # rs')"
      using False prems(1) N(1) nb r by (auto simp: rs nth_append Let_def)
    with N r show ?thesis
      by (intro exI[of _ names] exI[of _ "r # rs'"]) (auto simp: rs all_marks_fit_Cons)
  qed
qed


section \<open>The masks of the levels\<close>

lemma and_mask_bits:
  assumes "a < 64"
  shows "(f :: u64) AND mask a = mask a \<longleftrightarrow> (\<forall>n < a. bit f n)"
proof -
  have "(f AND mask a = mask a) \<longleftrightarrow> (\<forall>n < 64. (bit f n \<and> n < a) = (n < a))"
    by (simp add: bit_eq_iff bit_simps)
  then show ?thesis using assms less_trans by blast
qed

lemma level_mask_bits:
  assumes "a < 64"
  shows "level_mask (2 ^ a) f \<longleftrightarrow> (\<forall>n < a. bit f n)"
proof -
  have m: "(of_nat (2 ^ a - 1) :: u64) = mask a"
    by (simp add: mask_eq_exp_minus_1 of_nat_diff)
  show ?thesis unfolding level_mask_def m by (rule and_mask_bits[OF assms])
qed

lemma level_mask_mono: "level_mask (2 ^ a) f \<Longrightarrow> b \<le> a \<Longrightarrow> a < 64 \<Longrightarrow> level_mask (2 ^ b) f"
  by (simp add: level_mask_bits)

lemma masks_power: "i < 12 \<Longrightarrow> chunk_sizes ! i = 2 ^ (i + 5) \<and> masks ! i = mask (i + 5)"
proof -
  have "list_all (\<lambda>i. chunk_sizes ! i = 2 ^ (i + 5) \<and> masks ! i = mask (i + 5)) [0..<12]"
    by code_simp
  then show "i < 12 \<Longrightarrow> ?thesis" by (auto simp: list_all_iff)
qed

text \<open>For a power of two the mask of the scan is the mask of the first level.\<close>

lemma GetMRCMask_power:
  assumes "GetMRCMask (int (2 ^ a)) = Inr M"
  shows "5 \<le> a \<and> a < 17 \<and> M \<noteq> 0 \<and> (hits M f \<longleftrightarrow> level_mask (2 ^ a) f)"
proof -
  from GetMRCMask_index[OF assms] obtain i where i: "i < 12" "M = masks ! i"
    "chunk_sizes ! i \<le> int (2 ^ a)" "int (2 ^ a) < chunk_sizes ! Suc i" by blast
  have "(2 ^ a :: int) < 2 ^ (i + 6)"
  proof (cases "Suc i < 12")
    case True
    then show ?thesis using i(4) masks_power[of "Suc i"] by (simp add: eval_nat_numeral)
  next
    case False
    then have "i = 11" using i(1) by simp
    then show ?thesis using i(4) by (simp add: chunk_sizes_def)
  qed
  then have "a < i + 6" by simp
  moreover have "(2 ^ (i + 5) :: int) \<le> 2 ^ a" using i(1,3) masks_power by simp
  then have "i + 5 \<le> a" by simp
  ultimately have a: "a = i + 5" by simp
  have M: "M = mask a" using masks_power i(1,2) a by simp
  have "bit M 0" using a unfolding M by (simp add: bit_simps)
  then have "M \<noteq> 0" by auto
  moreover have "(ucast M :: u64) = mask a"
    unfolding M using i(1) a by (intro bit_word_eqI) (auto simp: bit_simps)
  moreover have "a < 64" using i(1) a by simp
  ultimately show ?thesis using i(1) a level_mask_bits[of a f] and_mask_bits[of a f]
    by (simp add: hits_def)
qed

section \<open>The levels of a block\<close>

text \<open>
  A sound set of parameters: the sizes and the number of ways are powers of two, and the level bound
  is the one \<open>InitMRCParams\<close> computes.
\<close>

definition mrc_config_ok :: "mrc_config \<Rightarrow> bool" where
  "mrc_config_ok cfg \<longleftrightarrow>
     InitMRCParams (g_ChunkSize cfg) (g_MinChunkSize cfg) (g_NumMRCWays cfg) = Some cfg \<and>
     (\<exists>a. g_ChunkSize cfg = 2 ^ a) \<and> (\<exists>b. g_NumMRCWays cfg = 2 ^ b) \<and>
     32 \<le> g_MinChunkSize cfg \<and> g_MinChunkSize cfg \<le> g_ChunkSize cfg \<and> g_ChunkSize cfg < 128 * 1024"

definition levels_left :: "mrc_config \<Rightarrow> nat \<Rightarrow> nat \<Rightarrow> bool" where
  "levels_left cfg chunkSize level \<longleftrightarrow> 
     (if g_NumMRCWays cfg > 1
      then count_levels (g_NumMRCWays cfg) (g_MinChunkSize cfg) chunkSize (Suc level) = Some (g_maxLevel cfg)
      else g_maxLevel cfg = Suc level)"

lemma count_levels_step:
  "count_levels w mn cs m = (if cs div w < mn then Some m else count_levels w mn (cs div w) (Suc m))"
  by (simp add: count_levels.simps[of w mn cs] Let_def)

lemma count_levels_ge:
  assumes "count_levels w mn cs m = Some k" "1 < w" "0 < mn"
  shows "m \<le> k"
  using assms(1)
proof (induction cs arbitrary: m rule: less_induct)
  case (less cs)
  show ?case
  proof (cases "cs div w < mn")
    case False
    then have "cs div w < cs" using assms by (metis bot_nat_0.not_eq_extremum div_0 div_less_dividend)
    with less.IH[OF this, of "Suc m"] less.prems False show ?thesis by (simp add: count_levels_step[of w mn cs])
  qed (use less.prems in \<open>simp add: count_levels_step[of w mn cs]\<close>)
qed

lemma levels_left_next:
  assumes "levels_left cfg cs level" "0 < g_MinChunkSize cfg"
  shows "level < g_maxLevel cfg \<and>
    (1 < g_NumMRCWays cfg \<longrightarrow> g_MinChunkSize cfg \<le> cs div g_NumMRCWays cfg \<longrightarrow>
       levels_left cfg (cs div g_NumMRCWays cfg) (Suc level))"
  using assms count_levels_ge[of "g_NumMRCWays cfg" "g_MinChunkSize cfg" cs "Suc level" "g_maxLevel cfg"]
  by (auto simp: levels_left_def count_levels_step[of _ _ cs] split: if_splits)

lemma InitMRCParams_returns:
  assumes "1 < ways" "0 < mn"
  shows "\<exists>cfg. InitMRCParams cs mn ways = Some cfg"
proof -
  have "\<exists>k. count_levels ways mn cs m = Some k" for m
  proof (induction cs arbitrary: m rule: less_induct)
    case (less cs)
    show ?case
    proof (cases "cs div ways < mn")
      case False
      then have "cs div ways < cs" using assms by (metis bot_nat_0.not_eq_extremum div_0 div_less_dividend)
      with less.IH show ?thesis by (simp add: count_levels_step[of ways mn cs])
    qed (simp add: count_levels_step[of ways mn cs])
  qed
  then show ?thesis by (auto simp: InitMRCParams_def)
qed

text \<open>
  The names of a block, level after level: every level tiles the \<open>e\<close> bytes of the block, and every
  boundary of a level is a boundary of the level below.
\<close>

definition ends :: "OneChunkName list \<Rightarrow> nat set" where
  "ends ns = cn_end ` set ns"

fun levels_ok :: "byte list \<Rightarrow> nat \<Rightarrow> nat \<Rightarrow> nat \<Rightarrow> MRCPerLevelInfo list \<Rightarrow> OneChunkName list \<Rightarrow> bool" where
  "levels_ok p e l i [] ns \<longleftrightarrow> ns = []"
| "levels_ok p e l i (q # qs) ns \<longleftrightarrow> pl_firstIndex q = i \<and> pl_numNames q \<le> length ns \<and>
     chunks_ok p l e i 0 (take (pl_numNames q) ns) \<and>
     (qs \<noteq> [] \<longrightarrow> ends (take (pl_numNames q) ns) \<subseteq> ends (take (pl_numNames (hd qs)) (drop (pl_numNames q) ns))) \<and>
     levels_ok p e (Suc l) (i + pl_numNames q) qs (drop (pl_numNames q) ns)"

lemma marked_mono: "list_all2 (\<longrightarrow>) rs rs' \<Longrightarrow> set (marked bs rs) \<subseteq> set (marked bs rs')"
proof (induction bs arbitrary: rs rs')
  case (Cons b bs)
  show ?case
  proof (cases rs)
    case Nil
    then show ?thesis by (simp add: marked_def)
  next
    case (Cons r rs0)
    with Cons.prems obtain r' rs1 where "rs' = r' # rs1" "r \<longrightarrow> r'" "list_all2 (\<longrightarrow>) rs0 rs1"
      by (auto simp: list_all2_Cons1)
    with Cons.IH[of rs0 rs1] Cons show ?thesis by auto
  qed
qed simp

lemma power2_div: "(2 :: nat) ^ b \<le> 2 ^ a \<Longrightarrow> 2 ^ a div 2 ^ b = (2 :: nat) ^ (a - b)"
  by (simp add: power_diff)

lemma all_marks_fit_mono: "all_marks_fit (2 ^ a) bs rs \<Longrightarrow> c \<le> a \<Longrightarrow> a < 64 \<Longrightarrow> all_marks_fit (2 ^ c) bs rs"
  using level_mask_mono by (fastforce simp: all_marks_fit_def)


lemma fill_levels_ok:
  assumes "levels_left cfg cs level" "cs = 2 ^ a" "a < 64" "g_NumMRCWays cfg = 2 ^ b"
    and "0 < g_MinChunkSize cfg" "g_MinChunkSize cfg \<le> cs"
    and "index + (g_maxLevel cfg - level) * length bds \<le> g_maxNames cfg"
    and "bds \<noteq> []" "sorted_wrt (\<lambda>a b. bd_offset a < bd_offset b) bds" "\<forall>b \<in> set bds. 0 < bd_offset b"
    and "bd_offset (last bds) = rb" "length rs = length bds" "last rs" "all_marks_fit cs bds rs"
    and "level = 0 \<longrightarrow> (\<forall>b \<in> set (butlast bds). \<not> level_mask cs (bd_finger b))"
  shows "\<exists>names pli. fill_levels cfg rb psrc bds cs level index rs = Inr (names, pli) \<and>
    levels_ok psrc rb level index pli names \<and> pli \<noteq> [] \<and> level + length pli \<le> g_maxLevel cfg \<and>
    set (marked bds rs) \<subseteq> ends (take (pl_numNames (hd pli)) names) \<and>
    length names \<le> pl_numNames (hd pli) + (g_maxLevel cfg - Suc level) * length bds \<and>
    pl_numNames (hd pli) \<le> length bds \<and> (level = 0 \<longrightarrow> pl_numNames (hd pli) \<le> 1)"
  using assms
proof (induction "g_maxLevel cfg - level" arbitrary: level cs a index rs rule: less_induct)
  case less
  note prems = less.prems
  have lv: "level < g_maxLevel cfg" using levels_left_next[OF prems(1,5)] by simp
  then have more: "(g_maxLevel cfg - level) * length bds = length bds + (g_maxLevel cfg - Suc level) * length bds"
    by (metis Suc_diff_Suc mult_Suc)
  obtain names rs' where N:
    "fill_level cfg cs level rb psrc (length bds) bds 0 0 index rs = Inr (names, rs')"
    "length rs' = length bds" "list_all2 (\<longrightarrow>) rs rs'" "all_marks_fit cs bds rs'" "last rs'"
    "chunks_ok psrc level rb index 0 names" "map cn_end names = marked bds rs'"
    "length names \<le> length bds" "level = 0 \<longrightarrow> length names \<le> 1"
    using fill_level_ok[of "[]" 0 rs bds "length bds" 0 cs rb index cfg level psrc] prems more
    by auto
  let ?pl = "\<lparr>pl_numNames = length names, pl_firstIndex = index\<rparr>"
  have e: "ends names = set (marked bds rs')" using N(7) by (simp add: ends_def flip: set_map)
  then have sub: "set (marked bds rs) \<subseteq> ends names" using marked_mono[OF N(3), of bds] by simp
  have single: ?case if "fill_levels cfg rb psrc bds cs level index rs = Inr (names, [?pl])"
    using that N sub lv by (intro exI[of _ names] exI[of _ "[?pl]"]) auto
  have run: "fill_levels cfg rb psrc bds cs level index rs =
      (if g_NumMRCWays cfg = 1 then Inr (names, [?pl])
       else rbind (fill_levels cfg rb psrc bds (cs div g_NumMRCWays cfg) (level + 1) (index + length names) rs')
              (\<lambda>(names', pli). Inr (names @ names', ?pl # pli)))"
    using prems(4,6) lv N(1) by (subst fill_levels.simps) (simp add: Let_def not_less)
  show ?case
  proof (cases "1 < g_NumMRCWays cfg \<and> g_MinChunkSize cfg \<le> cs div g_NumMRCWays cfg")
    case False
    moreover have "fill_levels cfg rb psrc bds (cs div g_NumMRCWays cfg) (level + 1) (index + length names) rs' =
        Inr ([], [])" if "cs div g_NumMRCWays cfg < g_MinChunkSize cfg"
      using that by (subst fill_levels.simps) simp
    ultimately show ?thesis using run prems(4) by (intro single) (auto simp: not_less le_Suc_eq)
  next
    case True
    then have "g_NumMRCWays cfg \<le> cs" using prems(5) by (metis div_less not_le not_less_zero le_zero_eq)
    then have cs: "cs div g_NumMRCWays cfg = 2 ^ (a - b)" using prems(2,4) by (simp add: power2_div)
    have "\<exists>names' pli. fill_levels cfg rb psrc bds (cs div g_NumMRCWays cfg) (Suc level) (index + length names) rs' =
        Inr (names', pli) \<and> levels_ok psrc rb (Suc level) (index + length names) pli names' \<and> pli \<noteq> [] \<and>
      Suc level + length pli \<le> g_maxLevel cfg \<and> set (marked bds rs') \<subseteq> ends (take (pl_numNames (hd pli)) names') \<and>
      length names' \<le> pl_numNames (hd pli) + (g_maxLevel cfg - Suc (Suc level)) * length bds \<and>
      pl_numNames (hd pli) \<le> length bds \<and> (Suc level = 0 \<longrightarrow> pl_numNames (hd pli) \<le> 1)"
      using True levels_left_next[OF prems(1,5)] prems(3-11) N lv more cs
        all_marks_fit_mono[of a bds rs' "a - b"] prems(2)
      by (intro less.hyps[where a = "a - b"]) auto
    then obtain names' pli where M:
      "fill_levels cfg rb psrc bds (cs div g_NumMRCWays cfg) (level + 1) (index + length names) rs' = Inr (names', pli)"
      "levels_ok psrc rb (Suc level) (index + length names) pli names'" "pli \<noteq> []"
      "Suc level + length pli \<le> g_maxLevel cfg" "ends names \<subseteq> ends (take (pl_numNames (hd pli)) names')"
      "length names' \<le> pl_numNames (hd pli) + (g_maxLevel cfg - Suc (Suc level)) * length bds"
      "pl_numNames (hd pli) \<le> length bds"
      using e by auto
    have "Suc level < g_maxLevel cfg" using M(3,4) by (cases pli) auto
    then have "(g_maxLevel cfg - Suc level) * length bds =
        length bds + (g_maxLevel cfg - Suc (Suc level)) * length bds"
      by (metis Suc_diff_Suc mult_Suc)
    with M N sub run True show ?thesis
      by (intro exI[of _ "names @ names'"] exI[of _ "?pl # pli"]) auto
  qed
qed


text \<open>Only the last boundary of a scan can have all bits of the maximum mask.\<close>

lemma scan_end_first:
  assumes "Suc i < scan_end w M body 0"
  shows "\<not> (M \<noteq> 0 \<and> hits M (ref_finger w (take (Suc i) body)))"
  using assms by (auto simp: scan_end_def find_None_iff find_Some_iff split: option.splits)

lemma last_after_butlast:
  assumes "sorted_wrt R xs" "x \<in> set (butlast xs)"
  shows "R x (last xs)"
proof -
  have "xs \<noteq> []" using assms(2) by auto
  then have "sorted_wrt R (butlast xs @ [last xs])" using assms(1) by simp
  then show ?thesis using assms(2) by (simp add: sorted_wrt_append)
qed

lemma ref_cuts_butlast:
  assumes "b \<in> set (butlast (ref_cuts w mn m M body 0))" "M \<noteq> 0"
  shows "\<not> hits M (bd_finger b)"
proof -
  let ?cuts = "ref_cuts w mn m M body 0"
  have "bd_offset b < bd_offset (last ?cuts)"
    using last_after_butlast[OF sorted_wrt_ref_cuts assms(1)] .
  moreover have ne: "last ?cuts \<in> set ?cuts" "b \<in> set ?cuts"
    using assms(1) in_set_butlastD[OF assms(1)] by (auto intro!: last_in_set)
  moreover have "bd_offset (last ?cuts) \<le> mn + scan_end w M body 0"
    using ne(1) by (auto simp: ref_cuts_def)
  moreover obtain i where "b = \<lparr>bd_offset = mn + i + 1, bd_finger = ref_finger w (take (Suc i) body)\<rparr>"
    using ne(2) by (auto simp: ref_cuts_def)
  ultimately show ?thesis using scan_end_first[of i w M body] assms(2) by simp
qed

lemma GetMRCMask_total: "32 \<le> s \<Longrightarrow> s < 131072 \<Longrightarrow> \<exists>m. GetMRCMask s = Inr m"
  by (auto simp: GetMRCMask_def GetMRCIndex_def chunk_sizes_def)

lemma sorted_offsets_length:
  assumes "sorted_wrt (\<lambda>a b. bd_offset a < bd_offset b) bs" "\<forall>b \<in> set bs. 0 < bd_offset b \<and> bd_offset b \<le> n"
  shows "length bs \<le> n"
proof -
  have "distinct (map bd_offset bs)"
    using assms(1) by (auto simp: distinct_conv_nth sorted_wrt_iff_nth_less) (metis less_irrefl nat_neq_iff)
  then have "length bs = card (bd_offset ` set bs)"
    using distinct_card by (metis length_map set_map)
  also have "\<dots> \<le> card {1..n}" using assms(2) by (intro card_mono) auto
  finally show ?thesis by simp
qed

text \<open>The scan of a block: its boundaries, and what the level loop needs of them.\<close>

lemma block_scan:
  assumes "mrc_config_ok cfg" "tables_ok w (rp c)" "min_size c = 0" "psrc \<noteq> []" "0 < max_size c"
  obtains m M c' bds where
    "GetMRCMask (int (g_MinChunkSize cfg)) = Inr m" "GetMRCMask (int (g_ChunkSize cfg)) = Inr M"
    "GetRabinChunkSizeEx c psrc (min (length psrc) MAX_CHUNK_SIZE) m M True = Inr (c', bds, bd_offset (last bds))"
    "tables_ok w (rp c')" "min_size c' = 0" "max_size c' = max_size c"
    "bds \<noteq> []" "sorted_wrt (\<lambda>a b. bd_offset a < bd_offset b) bds"
    "\<forall>b \<in> set bds. 0 < bd_offset b \<and> bd_offset b \<le> min (length psrc) MAX_CHUNK_SIZE \<and> bd_offset b \<le> max_size c"
    "\<forall>b \<in> set (butlast bds). \<not> level_mask (g_ChunkSize cfg) (bd_finger b)"
proof -
  from assms(1) obtain a where a: "g_ChunkSize cfg = 2 ^ a" and
    sz: "32 \<le> g_MinChunkSize cfg" "g_MinChunkSize cfg \<le> g_ChunkSize cfg" "g_ChunkSize cfg < 131072"
    by (auto simp: mrc_config_ok_def)
  obtain m M where mM: "GetMRCMask (int (g_MinChunkSize cfg)) = Inr m" "GetMRCMask (int (g_ChunkSize cfg)) = Inr M"
    using GetMRCMask_total[of "int (g_MinChunkSize cfg)"] GetMRCMask_total[of "int (g_ChunkSize cfg)"] sz by auto
  let ?n = "min (length psrc) MAX_CHUNK_SIZE"
  let ?len = "min ?n (max_size c)"
  let ?cuts = "ref_cuts w (min_size c) m M (drop (min_size c) (take ?len psrc)) 0"
  have nest: "m AND M = m \<or> M = 0" using GetMRCMask_nested[OF mM] sz(2) by simp
  from GetRabinChunkSizeEx_ref[OF assms(2) nest, of ?n psrc] obtain r f where
    rf: "rolled w r f" "GetRabinChunkSizeEx c psrc ?n m M True =
      (let out = (if ?cuts = [] then [\<lparr>bd_offset = ?len, bd_finger = f\<rparr>] else ?cuts)
       in Inr (c\<lparr>rp := r, finger := f\<rparr>, out, bd_offset (last out)))" by auto
  define bds where "bds = (if ?cuts = [] then [\<lparr>bd_offset = ?len, bd_finger = f\<rparr>] else ?cuts)"
  have len: "0 < ?len" using assms(4,5) by (simp add: MAX_CHUNK_SIZE_def)
  have lo: "0 < bd_offset b \<and> bd_offset b \<le> ?len" if "b \<in> set bds" for b
    using that set_ref_cuts[of b w "min_size c" m M] len assms(3) by (fastforce simp: bds_def split: if_splits)
  have "\<forall>b \<in> set (butlast bds). \<not> level_mask (g_ChunkSize cfg) (bd_finger b)"
    using ref_cuts_butlast[of _ w "min_size c" m M] GetMRCMask_power[of a M] mM(2)
    unfolding a by (auto simp: bds_def)
  moreover have "sorted_wrt (\<lambda>a b. bd_offset a < bd_offset b) bds"
    by (simp add: bds_def sorted_wrt_ref_cuts)
  ultimately show ?thesis
    using that[of m M "c\<lparr>rp := r, finger := f\<rparr>" bds] mM rf lo assms(3)
    by (auto simp: bds_def Let_def rolled_def)
qed


lemma DoPreMRC_levels:
  assumes "mrc_config_ok cfg" "tables_ok w (rp c)" "min_size c = 0" "psrc \<noteq> []" "0 < max_size c"
  shows "DoPreMRC cfg c psrc = Inl UndefinedBehaviour \<and> g_ChunkSize cfg < min (length psrc) (max_size c) \<or>
    (\<exists>c' names rb pli. DoPreMRC cfg c psrc = Inr (c', names, rb, pli) \<and> levels_ok psrc rb 0 0 pli names \<and>
      pli \<noteq> [] \<and> pl_numNames (hd pli) \<le> 1 \<and> length pli \<le> g_maxLevel cfg \<and> names \<noteq> [] \<and> length names < g_maxNames cfg \<and>
      0 < rb \<and> rb \<le> length psrc \<and> rb \<le> max_size c \<and>
      tables_ok w (rp c') \<and> min_size c' = 0 \<and> max_size c' = max_size c)"
proof -
  from block_scan[OF assms] obtain m M c' bds where S:
    "GetMRCMask (int (g_MinChunkSize cfg)) = Inr m" "GetMRCMask (int (g_ChunkSize cfg)) = Inr M"
    "GetRabinChunkSizeEx c psrc (min (length psrc) MAX_CHUNK_SIZE) m M True = Inr (c', bds, bd_offset (last bds))"
    "tables_ok w (rp c')" "min_size c' = 0" "max_size c' = max_size c"
    "bds \<noteq> []" "sorted_wrt (\<lambda>a b. bd_offset a < bd_offset b) bds"
    "\<forall>b \<in> set bds. 0 < bd_offset b \<and> bd_offset b \<le> min (length psrc) MAX_CHUNK_SIZE \<and> bd_offset b \<le> max_size c"
    "\<forall>b \<in> set (butlast bds). \<not> level_mask (g_ChunkSize cfg) (bd_finger b)" .
  let ?rb = "bd_offset (last bds)" and ?n = "min (length psrc) MAX_CHUNK_SIZE"
  let ?rs = "(replicate (length bds) False)[length bds - 1 := True]"
  from assms(1) obtain a b where cfg: "g_ChunkSize cfg = 2 ^ a" "g_NumMRCWays cfg = 2 ^ b"
    "32 \<le> g_MinChunkSize cfg" "g_MinChunkSize cfg \<le> g_ChunkSize cfg" "g_ChunkSize cfg < 131072"
    and ini: "InitMRCParams (g_ChunkSize cfg) (g_MinChunkSize cfg) (g_NumMRCWays cfg) = Some cfg"
    by (auto simp: mrc_config_ok_def)
  have "(2 :: nat) ^ a < 2 ^ 17" using cfg(1,5) by simp
  then have a: "a < 17" by (simp only: power_strict_increasing_iff)
  have left: "levels_left cfg (g_ChunkSize cfg) 0" "g_maxNames cfg = g_ChunkSize cfg * g_maxLevel cfg"
    using ini by (cases cfg; auto simp: InitMRCParams_def levels_left_def split: if_splits)+
  have lv: "0 < g_maxLevel cfg" using levels_left_next[OF left(1)] cfg(3) by simp
  have rb: "0 < ?rb" "?rb \<le> ?n" "?rb \<le> max_size c" using S(7,9) last_in_set[OF S(7)] by auto
  have run: "DoPreMRC cfg c psrc = (if length bds > g_ChunkSize cfg then Inl UndefinedBehaviour
      else rbind (fill_levels cfg ?rb psrc bds (g_ChunkSize cfg) 0 0 ?rs)
                  (\<lambda>(names, pli). ensure (length names > 0) (Inr (c', names, ?rb, pli))))"
    using S(1-3,7) rb by (simp add: DoPreMRC_def WAPROX_MIN_CHUNK_SIZE_def WAPROX_RABIN_WINDOW_def Let_def)
  show ?thesis
  proof (cases "length bds > g_ChunkSize cfg")
    case True
    have "length bds \<le> min (length psrc) (max_size c)"
      using sorted_offsets_length[OF S(8), of "min (length psrc) (max_size c)"] S(9) by auto
    then show ?thesis using True run by simp
  next
    case False
    have lr: "?rs \<noteq> []" using S(7) by simp
    have "\<exists>names pli. fill_levels cfg ?rb psrc bds (g_ChunkSize cfg) 0 0 ?rs = Inr (names, pli) \<and>
      levels_ok psrc ?rb 0 0 pli names \<and> pli \<noteq> [] \<and> 0 + length pli \<le> g_maxLevel cfg \<and>
      set (marked bds ?rs) \<subseteq> ends (take (pl_numNames (hd pli)) names) \<and>
      length names \<le> pl_numNames (hd pli) + (g_maxLevel cfg - Suc 0) * length bds \<and>
      pl_numNames (hd pli) \<le> length bds \<and> ((0::nat) = 0 \<longrightarrow> pl_numNames (hd pli) \<le> 1)"
    proof (rule fill_levels_ok[OF left(1) cfg(1) _ cfg(2) _ cfg(4)])
      show "0 + (g_maxLevel cfg - 0) * length bds \<le> g_maxNames cfg"
        using False left(2) by (simp add: mult.commute)
      show "all_marks_fit (g_ChunkSize cfg) bds ?rs"
        by (auto simp: all_marks_fit_def nth_list_update split: if_splits)
      show "last ?rs" using lr S(7) by (simp add: last_conv_nth)
    qed (use S cfg(3) a in auto)
    then obtain names pli where F: "fill_levels cfg ?rb psrc bds (g_ChunkSize cfg) 0 0 ?rs = Inr (names, pli)"
      "levels_ok psrc ?rb 0 0 pli names" "pli \<noteq> []" "length pli \<le> g_maxLevel cfg"
      "length names \<le> pl_numNames (hd pli) + (g_maxLevel cfg - Suc 0) * length bds"
      "pl_numNames (hd pli) \<le> 1" by auto
    have ne: "names \<noteq> []" using F(2,3) rb(1) by (cases pli) auto
    have "(g_maxLevel cfg - 1) * length bds \<le> (g_maxLevel cfg - 1) * g_ChunkSize cfg"
      using False by (intro mult_le_mono2) simp
    from order_trans[OF F(5)[folded One_nat_def] add_mono[OF F(6) this]]
    have "length names \<le> 1 + (g_maxLevel cfg - 1) * g_ChunkSize cfg" .
    also have "\<dots> < g_ChunkSize cfg + (g_maxLevel cfg - 1) * g_ChunkSize cfg" using cfg(3,4) by simp
    also have "\<dots> = g_maxNames cfg" using lv left(2) by (cases "g_maxLevel cfg") auto
    finally show ?thesis using F run False S ne rb by auto
  qed
qed


section \<open>The tree as an array\<close>

text \<open>Indexed access to the levels, as the tree algorithms use it.\<close>

definition lv_first :: "MRCPerLevelInfo list \<Rightarrow> nat \<Rightarrow> nat" where
  "lv_first pli k = pl_firstIndex (pli ! k)"

definition lv_past :: "MRCPerLevelInfo list \<Rightarrow> nat \<Rightarrow> nat" where
  "lv_past pli k = pl_firstIndex (pli ! k) + pl_numNames (pli ! k)"

definition level_tiles :: "byte list \<Rightarrow> nat \<Rightarrow> nat \<Rightarrow> nat \<Rightarrow> nat \<Rightarrow> OneChunkName list \<Rightarrow> bool" where
  "level_tiles p e l first past ns \<longleftrightarrow> first < past \<and> past \<le> length ns \<and>
     (\<forall>m. first \<le> m \<and> m < past \<longrightarrow> cn_level (ns ! m) = l \<and> cn_index (ns ! m) = m \<and> 0 < cn_length (ns ! m) \<and>
        cn_pChunk (ns ! m) = Some (take (cn_length (ns ! m)) (drop (cn_offset (ns ! m)) p)) \<and>
        cn_offset (ns ! m) = (if m = first then 0 else cn_end (ns ! (m - 1)))) \<and>
     cn_end (ns ! (past - 1)) = e"

definition tree_ok :: "byte list \<Rightarrow> nat \<Rightarrow> MRCPerLevelInfo list \<Rightarrow> OneChunkName list \<Rightarrow> bool" where
  "tree_ok p e pli ns \<longleftrightarrow> pli \<noteq> [] \<and> lv_first pli 0 = 0 \<and> lv_past pli 0 = 1 \<and> lv_past pli (length pli - 1) = length ns \<and>
     (\<forall>k < length pli. level_tiles p e k (lv_first pli k) (lv_past pli k) ns) \<and>
     (\<forall>k. Suc k < length pli \<longrightarrow> lv_first pli (Suc k) = lv_past pli k \<and>
        cn_end ` (!) ns ` {lv_first pli k..<lv_past pli k} \<subseteq>
        cn_end ` (!) ns ` {lv_first pli (Suc k)..<lv_past pli (Suc k)})"

lemma chunks_ok_nth:
  assumes "chunks_ok p l e i off cs" "m < length cs"
  shows "cn_level (cs ! m) = l \<and> cn_index (cs ! m) = i + m \<and> 0 < cn_length (cs ! m) \<and>
    cn_pChunk (cs ! m) = Some (take (cn_length (cs ! m)) (drop (cn_offset (cs ! m)) p)) \<and>
    cn_offset (cs ! m) = (if m = 0 then off else cn_end (cs ! (m - 1)))"
  using assms
proof (induction cs arbitrary: i off m)
  case (Cons c cs)
  then show ?case by (cases m) (auto simp: nth_Cons split: nat.splits)
qed simp

lemma chunks_ok_last: "chunks_ok p l e i off cs \<Longrightarrow> cs \<noteq> [] \<Longrightarrow> cn_end (last cs) = e"
  by (induction cs arbitrary: i off) (auto split: if_splits)

lemma chunks_ok_tiles:
  assumes "chunks_ok p l e first 0 (take num (drop first ns))" "first + num \<le> length ns" "0 < e"
  shows "level_tiles p e l first (first + num) ns"
proof -
  let ?cs = "take num (drop first ns)"
  have len: "length ?cs = num" using assms(2) by simp
  have ne: "?cs \<noteq> []"
  proof
    assume "?cs = []"
    with assms(1,3) show False by (simp only: chunks_ok.simps)
  qed
  have num: "0 < num" using ne by (rule contrapos_np) simp
  have at: "?cs ! j = ns ! (first + j)" if "j < num" for j using that assms(2) by simp
  have "cn_end (ns ! (first + num - 1)) = e"
    using chunks_ok_last[OF assms(1) ne] last_conv_nth[OF ne] at[of "num - 1"] num len by simp
  moreover have "cn_level (ns ! m) = l \<and> cn_index (ns ! m) = m \<and> 0 < cn_length (ns ! m) \<and>
        cn_pChunk (ns ! m) = Some (take (cn_length (ns ! m)) (drop (cn_offset (ns ! m)) p)) \<and>
        cn_offset (ns ! m) = (if m = first then 0 else cn_end (ns ! (m - 1)))"
    if "first \<le> m" "m < first + num" for m
  proof -
    have "m - first < num" using that by linarith
    then show ?thesis
      using chunks_ok_nth[OF assms(1), of "m - first", unfolded len] at[of "m - first"] at[of "m - first - 1"] that
      by auto
  qed
  ultimately show ?thesis using assms(2) num by (simp add: level_tiles_def)
qed

lemma levels_ok_nth:
  assumes "levels_ok p e l i pli (drop i ns)" "k < length pli" "0 < e"
  shows "level_tiles p e (l + k) (lv_first pli k) (lv_past pli k) ns \<and>
    (Suc k < length pli \<longrightarrow> lv_first pli (Suc k) = lv_past pli k \<and>
       ends (take (pl_numNames (pli ! k)) (drop (lv_first pli k) ns)) \<subseteq>
       ends (take (pl_numNames (pli ! Suc k)) (drop (lv_first pli (Suc k)) ns)))"
  using assms
proof (induction pli arbitrary: l i k)
  case (Cons q qs)
  let ?n = "pl_numNames q"
  have D: "drop (pl_numNames q) (drop i ns) = drop (i + ?n) ns" by (simp add: add.commute)
  have q: "pl_firstIndex q = i" "?n \<le> length ns - i" "chunks_ok p l e i 0 (take ?n (drop i ns))"
    and rest: "levels_ok p e (Suc l) (i + ?n) qs (drop (i + ?n) ns)"
    using Cons.prems(1) D by auto
  have "0 < ?n" using q(3) Cons.prems(3) by (cases ?n) auto
  then have len: "i + ?n \<le> length ns" using q(2) by simp
  show ?case
  proof (cases k)
    case 0
    have "qs \<noteq> [] \<longrightarrow> pl_firstIndex (hd qs) = i + ?n" using rest by (cases qs) auto
    then show ?thesis
      using 0 Cons.prems(1) q(1) chunks_ok_tiles[OF q(3) len Cons.prems(3)] D
      by (auto simp: lv_first_def lv_past_def hd_conv_nth)
  next
    case (Suc k')
    then show ?thesis using Cons.IH[OF rest, of k'] Cons.prems(2,3)
      by (cases "Suc k' < length qs") (auto simp: lv_first_def lv_past_def)
  qed
qed simp

lemma levels_ok_total: "levels_ok p e l i pli ns \<Longrightarrow> pli \<noteq> [] \<Longrightarrow> lv_past pli (length pli - 1) = i + length ns"
proof (induction pli arbitrary: l i ns)
  case (Cons q qs)
  let ?n = "pl_numNames q"
  from Cons.prems(1) have q: "pl_firstIndex q = i" "?n \<le> length ns"
    and rest: "levels_ok p e (Suc l) (i + ?n) qs (drop ?n ns)" by auto
  show ?case
  proof (cases "qs = []")
    case True
    then show ?thesis using q rest by (simp add: lv_past_def)
  next
    case False
    then show ?thesis using Cons.IH[OF rest False] q by (cases qs) (auto simp: lv_past_def)
  qed
qed simp

lemma ends_slice:
  assumes "a \<le> b" "b \<le> length ns"
  shows "ends (take (b - a) (drop a ns)) = cn_end ` (!) ns ` {a..<b}"
proof -
  have "set (take (b - a) (drop a ns)) = (!) (drop a ns) ` {0..<b - a}"
    using assms by (intro nth_image[symmetric]) simp
  also have "\<dots> = (\<lambda>x. ns ! (a + x)) ` {0..<b - a}" using assms by (intro image_cong) auto
  also have "\<dots> = (!) ns ` (+) a ` {0..<b - a}" by (rule image_image[symmetric])
  also have "(+) a ` {0..<b - a} = {a..<b}" using assms by (simp add: image_add_atLeastLessThan)
  finally have "set (take (b - a) (drop a ns)) = (!) ns ` {a..<b}" .
  then show ?thesis by (simp add: ends_def)
qed

lemma levels_ok_tree:
  assumes "levels_ok p e 0 0 pli ns" "pli \<noteq> []" "0 < e" "pl_numNames (hd pli) \<le> 1"
  shows "tree_ok p e pli ns"
proof -
  note nth = levels_ok_nth[of p e 0 0 pli ns, simplified, OF assms(1) _ assms(3)]
  have sl: "ends (take (pl_numNames (pli ! k)) (drop (lv_first pli k) ns)) =
      cn_end ` (!) ns ` {lv_first pli k..<lv_past pli k}" if "k < length pli" for k
    using nth[OF that] ends_slice[of "lv_first pli k" "lv_past pli k" ns]
    by (auto simp: level_tiles_def lv_first_def lv_past_def)
  have f: "lv_first pli 0 = 0" using assms(1,2) by (cases pli) (auto simp: lv_first_def)
  moreover have "lv_past pli 0 = 1"
    using nth[of 0] assms(2,4) f by (auto simp: level_tiles_def lv_first_def lv_past_def hd_conv_nth)
  moreover have "lv_past pli (length pli - 1) = length ns" using levels_ok_total[OF assms(1,2)] by simp
  ultimately show ?thesis using assms(2) nth sl unfolding tree_ok_def
    by (metis Suc_lessD)
qed


text \<open>The bytes a name stands for, which linking, hashing and choosing leave alone.\<close>

definition geom :: "OneChunkName \<Rightarrow> nat \<times> nat \<times> nat \<times> nat \<times> byte list option" where
  "geom c = (cn_level c, cn_index c, cn_offset c, cn_length c, cn_pChunk c)"

definition same_geom :: "OneChunkName list \<Rightarrow> OneChunkName list \<Rightarrow> bool" where
  "same_geom ns ns' \<longleftrightarrow> map geom ns = map geom ns'"

lemma same_geom_refl [simp]: "same_geom ns ns"
  by (simp add: same_geom_def)

lemma same_geom_trans: "same_geom a b \<Longrightarrow> same_geom b c \<Longrightarrow> same_geom a c"
  by (simp add: same_geom_def)

lemma same_geom_length: "same_geom ns ns' \<Longrightarrow> length ns' = length ns"
  by (metis same_geom_def length_map)

lemma same_geom_nth:
  assumes "same_geom ns ns'" "m < length ns"
  shows "cn_level (ns' ! m) = cn_level (ns ! m)" "cn_index (ns' ! m) = cn_index (ns ! m)"
    "cn_offset (ns' ! m) = cn_offset (ns ! m)" "cn_length (ns' ! m) = cn_length (ns ! m)"
    "cn_pChunk (ns' ! m) = cn_pChunk (ns ! m)" "cn_end (ns' ! m) = cn_end (ns ! m)"
proof -
  have "geom (ns' ! m) = geom (ns ! m)"
    using assms same_geom_length[OF assms(1)] by (metis same_geom_def nth_map)
  then show "cn_level (ns' ! m) = cn_level (ns ! m)" "cn_index (ns' ! m) = cn_index (ns ! m)"
    "cn_offset (ns' ! m) = cn_offset (ns ! m)" "cn_length (ns' ! m) = cn_length (ns ! m)"
    "cn_pChunk (ns' ! m) = cn_pChunk (ns ! m)" "cn_end (ns' ! m) = cn_end (ns ! m)"
    by (auto simp: geom_def cn_end_def)
qed

lemma same_geom_update: "m < length ns \<Longrightarrow> geom c = geom (ns ! m) \<Longrightarrow> same_geom ns (ns[m := c])"
  unfolding same_geom_def by (rule nth_equalityI) (auto simp: nth_list_update)

lemma level_tiles_geom:
  assumes "level_tiles p e l a b ns" "same_geom ns ns'"
  shows "level_tiles p e l a b ns'"
proof -
  have ab: "a < b" "b \<le> length ns" "cn_end (ns ! (b - 1)) = e" using assms(1) by (auto simp: level_tiles_def)
  have "cn_level (ns' ! m) = l \<and> cn_index (ns' ! m) = m \<and> 0 < cn_length (ns' ! m) \<and>
        cn_pChunk (ns' ! m) = Some (take (cn_length (ns' ! m)) (drop (cn_offset (ns' ! m)) p)) \<and>
        cn_offset (ns' ! m) = (if m = a then 0 else cn_end (ns' ! (m - 1)))" if "a \<le> m" "m < b" for m
    using that assms(1) same_geom_nth[OF assms(2), of m] same_geom_nth(6)[OF assms(2), of "m - 1"] ab(2)
    by (auto simp: level_tiles_def)
  then show ?thesis
    using ab same_geom_nth(6)[OF assms(2), of "b - 1"] same_geom_length[OF assms(2)]
    by (simp add: level_tiles_def)
qed

lemma tree_ok_geom:
  assumes "tree_ok p e pli ns" "same_geom ns ns'"
  shows "tree_ok p e pli ns'"
proof -
  have lv: "level_tiles p e k (lv_first pli k) (lv_past pli k) ns" if "k < length pli" for k
    using assms(1) that by (simp add: tree_ok_def)
  have en: "cn_end ` (!) ns' ` {lv_first pli k..<lv_past pli k} = cn_end ` (!) ns ` {lv_first pli k..<lv_past pli k}"
    if "k < length pli" for k
  proof -
    have "lv_past pli k \<le> length ns" using lv[OF that] by (simp add: level_tiles_def)
    then show ?thesis using same_geom_nth(6)[OF assms(2)] unfolding image_image by (intro image_cong) auto
  qed
  have "\<forall>k < length pli. level_tiles p e k (lv_first pli k) (lv_past pli k) ns'"
    using lv level_tiles_geom[OF _ assms(2)] by blast
  moreover have "lv_first pli (Suc k) = lv_past pli k \<and>
      cn_end ` (!) ns' ` {lv_first pli k..<lv_past pli k} \<subseteq>
      cn_end ` (!) ns' ` {lv_first pli (Suc k)..<lv_past pli (Suc k)}" if "Suc k < length pli" for k
    using assms(1) that unfolding en[OF that] en[OF Suc_lessD[OF that]] tree_ok_def by blast
  moreover have "pli \<noteq> []" "lv_first pli 0 = 0" "lv_past pli 0 = 1" "lv_past pli (length pli - 1) = length ns'"
    using assms(1) same_geom_length[OF assms(2)] by (auto simp: tree_ok_def)
  ultimately show ?thesis unfolding tree_ok_def by blast
qed

lemma level_tiles_at:
  assumes "level_tiles p e l a b ns" "a \<le> m" "m < b"
  shows "cn_level (ns ! m) = l" "cn_index (ns ! m) = m" "0 < cn_length (ns ! m)"
    "cn_pChunk (ns ! m) = Some (take (cn_length (ns ! m)) (drop (cn_offset (ns ! m)) p))"
    "cn_offset (ns ! m) = (if m = a then 0 else cn_end (ns ! (m - 1)))" "m < length ns"
  using assms by (auto simp: level_tiles_def)

lemma level_tiles_end_mono:
  assumes "level_tiles p e l a b ns" "a \<le> m" "m < m'" "m' < b"
  shows "cn_end (ns ! m) \<le> cn_offset (ns ! m')" "cn_end (ns ! m) < cn_end (ns ! m')"
proof -
  have "cn_end (ns ! m) \<le> cn_offset (ns ! m')" using assms(3,4)
  proof (induction m')
    case (Suc m')
    have st: "cn_offset (ns ! Suc m') = cn_end (ns ! m')"
      using level_tiles_at(5)[OF assms(1), of "Suc m'"] assms(2) Suc.prems by auto
    show ?case
    proof (cases "m = m'")
      case False
      then have "cn_end (ns ! m) \<le> cn_offset (ns ! m')" using Suc by simp
      then show ?thesis using st by (simp add: cn_end_def)
    qed (use st in simp)
  qed simp
  moreover have "0 < cn_length (ns ! m')" using level_tiles_at(3)[OF assms(1), of m'] assms by simp
  ultimately show "cn_end (ns ! m) \<le> cn_offset (ns ! m')" "cn_end (ns ! m) < cn_end (ns ! m')"
    by (auto simp: cn_end_def)
qed

lemma level_tiles_end_le: "level_tiles p e l a b ns \<Longrightarrow> a \<le> m \<Longrightarrow> m < b \<Longrightarrow> cn_end (ns ! m) \<le> e \<and> (cn_end (ns ! m) = e \<longleftrightarrow> Suc m = b)"
  using level_tiles_end_mono(2)[of p e l a b ns m "b - 1"]
  by (cases "Suc m = b") (fastforce simp: level_tiles_def)+

text \<open>In a level, every position of the block lies in exactly one chunk.\<close>

lemma level_tiles_disjoint:
  assumes "level_tiles p e l a b ns" "a \<le> m" "m < b" "a \<le> m'" "m' < b"
    and "cn_offset (ns ! m) \<le> x" "x < cn_end (ns ! m)" "cn_offset (ns ! m') \<le> x" "x < cn_end (ns ! m')"
  shows "m = m'"
  using level_tiles_end_mono(1)[OF assms(1), of m m'] level_tiles_end_mono(1)[OF assms(1), of m' m] assms
  by (metis leD le_less_trans nat_neq_iff order.trans)

section \<open>Linking the levels\<close>

definition reparent :: "nat \<Rightarrow> nat \<Rightarrow> nat \<Rightarrow> OneChunkName list \<Rightarrow> OneChunkName list" where
  "reparent a b q ns =
     map (\<lambda>m. if a \<le> m \<and> m < b then (ns ! m)\<lparr>cn_parentIdx := int q\<rparr> else ns ! m) [0..<length ns]"

lemma reparent_simps [simp]:
  "length (reparent a b q ns) = length ns"
  "m < length ns \<Longrightarrow> reparent a b q ns ! m =
     (if a \<le> m \<and> m < b then (ns ! m)\<lparr>cn_parentIdx := int q\<rparr> else ns ! m)"
  by (simp_all add: reparent_def)

lemma reparent_geom: "same_geom ns (reparent a b q ns)"
  unfolding same_geom_def by (rule nth_equalityI) (auto simp: geom_def)

lemma reparent_step:
  "a < b \<Longrightarrow> a < length ns \<Longrightarrow>
     reparent (Suc a) b q (ns[a := (ns ! a)\<lparr>cn_parentIdx := int q\<rparr>]) = reparent a b q ns"
  by (rule nth_equalityI) (auto simp: nth_list_update Suc_le_eq)

lemma reparent_empty: "reparent a a q ns = ns"
  by (rule nth_equalityI) auto

text \<open>Arrays that differ only in their links.\<close>

definition unlink :: "OneChunkName \<Rightarrow> OneChunkName" where
  "unlink c = c\<lparr>cn_parentIdx := 0\<rparr>"

lemma reparent_unlink: "map unlink (reparent a b q ns) = map unlink ns"
  by (rule nth_equalityI) (auto simp: unlink_def)

lemma link_children_ok:
  assumes "level_tiles p e l a b ns" "a \<le> ci" "ci \<le> j" "j < b" "b \<le> numNames"
    and "cl = cn_offset (ns ! ci)" "pl = cn_end (ns ! j)"
  shows "link_children numNames q pl ci cl ns = Inr (reparent ci (Suc j) q ns, Suc j, pl)"
  using assms
proof (induction "j - ci" arbitrary: ci cl ns)
  case 0
  then have "ci = j" by simp
  with 0 level_tiles_at(6)[OF 0(2), of j] show ?case
    by (subst link_children.simps) (simp add: cn_end_def reparent_step[of j "Suc j" ns q, symmetric]
        reparent_empty Let_def)
next
  case (Suc n)
  let ?ns = "ns[ci := (ns ! ci)\<lparr>cn_parentIdx := int q\<rparr>]"
  have ci: "ci < length ns" "ci < j" using Suc level_tiles_at(6)[OF Suc(3), of ci] by auto
  have g: "same_geom ns ?ns" using ci(1) by (intro same_geom_update) (auto simp: geom_def)
  have "cl + cn_length (ns ! ci) = cn_end (ns ! ci)" using Suc.prems(6) by (simp add: cn_end_def)
  moreover have "cn_end (ns ! ci) < pl" using level_tiles_end_mono(2)[OF Suc(3), of ci j] Suc.prems ci by simp
  moreover have "cn_end (ns ! ci) = cn_offset (?ns ! Suc ci)"
    using level_tiles_at(5)[OF Suc(3), of "Suc ci"] Suc.prems ci by simp
  ultimately have "link_children numNames q pl ci cl ns =
      link_children numNames q pl (Suc ci) (cn_offset (?ns ! Suc ci)) ?ns"
    using Suc.prems ci by (subst link_children.simps) (simp add: Let_def)
  also have "\<dots> = Inr (reparent (Suc ci) (Suc j) q ?ns, Suc j, pl)"
    using Suc.hyps(2) Suc.prems level_tiles_geom[OF Suc(3) g] ci same_geom_nth(6)[OF g, of j]
      level_tiles_at(6)[OF Suc(3), of j] by (intro Suc.hyps(1)) auto
  finally show ?case using reparent_step[of ci "Suc j" ns q] ci by simp
qed


text \<open>Each child in \<open>c..<d\<close> is linked to the parent, in \<open>a..<b\<close>, whose bytes include its own.\<close>

definition linked :: "nat \<Rightarrow> nat \<Rightarrow> nat \<Rightarrow> nat \<Rightarrow> OneChunkName list \<Rightarrow> bool" where
  "linked a b c d ns \<longleftrightarrow> (\<forall>m. c \<le> m \<and> m < d \<longrightarrow> (\<exists>q. cn_parentIdx (ns ! m) = int q \<and> a \<le> q \<and> q < b \<and>
     cn_offset (ns ! q) \<le> cn_offset (ns ! m) \<and> cn_end (ns ! m) \<le> cn_end (ns ! q)))"

lemma next_child:
  assumes "level_tiles p e l a b ns" "level_tiles p e l' c d ns" "a \<le> q" "q < b" "c \<le> k" "k < d"
    and "cn_end (ns ! k) = cn_end (ns ! q)"
  shows "Suc q = b \<longleftrightarrow> Suc k = d" "Suc q < b \<Longrightarrow> cn_offset (ns ! Suc k) = cn_offset (ns ! Suc q)"
    "Suc q < b \<Longrightarrow> cn_offset (ns ! Suc q) = cn_end (ns ! q)"
proof -
  show last: "Suc q = b \<longleftrightarrow> Suc k = d"
    using level_tiles_end_le[OF assms(1,3,4)] level_tiles_end_le[OF assms(2,5,6)] assms(7) by metis
  assume q: "Suc q < b"
  then show st: "cn_offset (ns ! Suc q) = cn_end (ns ! q)"
    using level_tiles_at(5)[OF assms(1), of "Suc q"] assms(3) by simp
  have "Suc k < d" using last q assms(6) by linarith
  then show "cn_offset (ns ! Suc k) = cn_offset (ns ! Suc q)"
    using level_tiles_at(5)[OF assms(2), of "Suc k"] assms(5,7) st by simp
qed

lemma linked_extend:
  assumes "level_tiles p e l' c d ns" "same_geom ns ns'" "linked (Suc q) b (Suc k) d ns'" "q < b" "b \<le> length ns"
    and "c \<le> ci" "k < d" "cn_offset (ns ! ci) = cn_offset (ns ! q)" "cn_end (ns ! k) = cn_end (ns ! q)"
    and "\<And>m. ci \<le> m \<Longrightarrow> m \<le> k \<Longrightarrow> cn_parentIdx (ns' ! m) = int q"
  shows "linked q b ci d ns'"
  unfolding linked_def
proof (intro allI impI)
  fix m assume m: "ci \<le> m \<and> m < d"
  show "\<exists>q'. cn_parentIdx (ns' ! m) = int q' \<and> q \<le> q' \<and> q' < b \<and>
    cn_offset (ns' ! q') \<le> cn_offset (ns' ! m) \<and> cn_end (ns' ! m) \<le> cn_end (ns' ! q')"
  proof (cases "m \<le> k")
    case True
    have ml: "m < length ns" using m assms(1) by (auto simp: level_tiles_def)
    have "cn_offset (ns ! q) \<le> cn_offset (ns ! m)"
      using level_tiles_end_mono(1)[OF assms(1,6), of m] m assms(8) by (cases "m = ci") (auto simp: cn_end_def)
    moreover have "cn_end (ns ! m) \<le> cn_end (ns ! q)"
      using level_tiles_end_mono(2)[OF assms(1), of m k] m True assms(6,7,9) by (cases "m = k") auto
    ultimately show ?thesis
      using same_geom_nth(3,6)[OF assms(2)] ml assms(4,5,10) m True by (intro exI[of _ q]) auto
  next
    case False
    then obtain q' where "cn_parentIdx (ns' ! m) = int q'" "Suc q \<le> q'" "q' < b"
      "cn_offset (ns' ! q') \<le> cn_offset (ns' ! m)" "cn_end (ns' ! m) \<le> cn_end (ns' ! q')"
      using assms(3) m unfolding linked_def by (metis not_less_eq_eq)
    then show ?thesis by (meson Suc_leD)
  qed
qed

lemma nested_geom:
  assumes "cn_end ` (!) ns ` A \<subseteq> cn_end ` (!) ns ` B" "same_geom ns ns'" "A \<union> B \<subseteq> {..<length ns}"
  shows "cn_end ` (!) ns' ` A \<subseteq> cn_end ` (!) ns' ` B"
proof -
  have "cn_end ` (!) ns' ` X = cn_end ` (!) ns ` X" if "X \<subseteq> {..<length ns}" for X
    unfolding image_image using that same_geom_nth(6)[OF assms(2)] by (intro image_cong) auto
  then show ?thesis using assms(1,3) by simp
qed

lemma link_parents_ok:
  assumes "level_tiles p e l a b ns" "level_tiles p e l' c d ns" "b \<le> c" "d \<le> numNames"
    and "cn_end ` (!) ns ` {a..<b} \<subseteq> cn_end ` (!) ns ` {c..<d}"
    and "a \<le> q" "q + j = b" "c \<le> ci" "if j = 0 then ci = d else ci < d \<and> cn_offset (ns ! ci) = cn_offset (ns ! q)"
    and "0 < j \<longrightarrow> plen = cn_offset (ns ! q) \<and> clen = plen"
  shows "\<exists>ns'. link_parents numNames j q plen ci clen ns = Inr ns' \<and> same_geom ns ns' \<and>
    (\<forall>m < length ns. m < ci \<or> d \<le> m \<longrightarrow> ns' ! m = ns ! m) \<and> linked q b ci d ns' \<and>
    map unlink ns' = map unlink ns"
  using assms
proof (induction j arbitrary: q plen ci clen ns)
  case 0
  then show ?case by (simp add: linked_def)
next
  case (Suc j)
  note T = Suc.prems(1,2)
  have len: "b \<le> length ns" "d \<le> length ns" and q: "q < b" using Suc.prems(7) T by (auto simp: level_tiles_def)
  have ci: "ci < d" "cn_offset (ns ! ci) = cn_offset (ns ! q)" "plen = cn_offset (ns ! q)" "clen = plen"
    using Suc.prems(9,10) by auto
  have "cn_end (ns ! q) \<in> cn_end ` (!) ns ` {c..<d}" using Suc.prems(5,6) q by auto
  then obtain k where k: "c \<le> k" "k < d" "cn_end (ns ! k) = cn_end (ns ! q)" by auto
  have "cn_offset (ns ! q) < cn_end (ns ! q)"
    using level_tiles_at(3)[OF T(1) Suc.prems(6) q] by (simp add: cn_end_def)
  then have cik: "ci \<le> k"
    using level_tiles_end_mono(1)[OF T(2) k(1), of ci] ci k by (metis leD leI)
  let ?ns = "reparent ci (Suc k) q ns"
  have g: "same_geom ns ?ns" by (rule reparent_geom)
  have run: "link_parents numNames (Suc j) q plen ci clen ns =
      link_parents numNames j (Suc q) (cn_end (ns ! q)) (Suc k) (cn_end (ns ! q)) ?ns"
    using link_children_ok[OF T(2) Suc.prems(8) cik k(2) Suc.prems(4), of clen "cn_end (ns ! q)" q]
      ci k(3) q Suc.prems(3,4) k(1,2) by (simp add: Let_def cn_end_def)
  note nc = next_child[OF T Suc.prems(6) q k]
  have nxt: "if j = 0 then Suc k = d else Suc k < d \<and> cn_offset (?ns ! Suc k) = cn_offset (?ns ! Suc q)"
    "0 < j \<longrightarrow> cn_end (ns ! q) = cn_offset (?ns ! Suc q) \<and> cn_end (ns ! q) = cn_end (ns ! q)"
    using nc Suc.prems(7) k(2) len same_geom_nth(3)[OF g, of "Suc q"] same_geom_nth(3)[OF g, of "Suc k"]
    by (cases "j = 0"; simp)+
  have sub: "cn_end ` (!) ?ns ` {a..<b} \<subseteq> cn_end ` (!) ?ns ` {c..<d}"
    using len by (intro nested_geom[OF Suc.prems(5) g]) auto
  have "a \<le> Suc q" "Suc q + j = b" "c \<le> Suc k" using Suc.prems(6,7) k(1) by auto
  from Suc.IH[OF level_tiles_geom[OF T(1) g] level_tiles_geom[OF T(2) g] Suc.prems(3,4) sub this nxt]
  obtain ns' where
    N: "link_parents numNames (Suc j) q plen ci clen ns = Inr ns'" "same_geom ?ns ns'"
      "\<forall>m < length ns. m < Suc k \<or> d \<le> m \<longrightarrow> ns' ! m = ?ns ! m" "linked (Suc q) b (Suc k) d ns'"
      "map unlink ns' = map unlink ns"
    using run reparent_unlink[of ci "Suc k" q ns] by auto
  have g': "same_geom ns ns'" using same_geom_trans[OF g N(2)] .
  have "cn_parentIdx (ns' ! m) = int q" if "ci \<le> m" "m \<le> k" for m using N(3) that k(2) len(2) by simp
  from linked_extend[OF T(2) g' N(4) q len(1) Suc.prems(8) k(2) ci(2) k(3) this]
  show ?case using N(1,3,5) g' cik k(2) by auto
qed

text \<open>The tree with its links: every chunk below the root lies within its parent on the level above.\<close>

definition tree_linked :: "MRCPerLevelInfo list \<Rightarrow> OneChunkName list \<Rightarrow> bool" where
  "tree_linked pli ns \<longleftrightarrow> (\<forall>k. Suc k < length pli \<longrightarrow>
     linked (lv_first pli k) (lv_past pli k) (lv_first pli (Suc k)) (lv_past pli (Suc k)) ns)"

lemma tree_ok_level: "tree_ok p e pli ns \<Longrightarrow> k < length pli \<Longrightarrow> level_tiles p e k (lv_first pli k) (lv_past pli k) ns"
  by (simp add: tree_ok_def)

lemma tree_ok_next:
  assumes "tree_ok p e pli ns" "Suc k < length pli"
  shows "lv_past pli k = lv_first pli (Suc k)"
    "cn_end ` (!) ns ` {lv_first pli k..<lv_past pli k} \<subseteq>
     cn_end ` (!) ns ` {lv_first pli (Suc k)..<lv_past pli (Suc k)}"
  using assms unfolding tree_ok_def by metis+

lemma tree_ok_bounds:
  assumes "tree_ok p e pli ns" "k < length pli"
  shows "lv_first pli k < lv_past pli k" "lv_past pli k \<le> length ns"
  using tree_ok_level[OF assms] by (auto simp: level_tiles_def)

lemma lv_past_mono:
  assumes "tree_ok p e pli ns" "j < k" "k < length pli"
  shows "lv_past pli j \<le> lv_first pli k"
  using assms(2,3)
proof (induction k)
  case (Suc k)
  have "lv_past pli k = lv_first pli (Suc k)" using tree_ok_next(1)[OF assms(1) Suc.prems(2)] .
  moreover have "j < k \<Longrightarrow> lv_past pli j \<le> lv_past pli k"
    using Suc tree_ok_bounds(1)[OF assms(1), of k] by fastforce
  ultimately show ?case using Suc.prems(1) by (cases "j = k") auto
qed simp

lemma linked_cong:
  assumes "linked a b c d ns" "same_geom ns ns'" "b \<le> length ns" "d \<le> length ns"
    and "\<And>m. c \<le> m \<Longrightarrow> m < d \<Longrightarrow> cn_parentIdx (ns' ! m) = cn_parentIdx (ns ! m)"
  shows "linked a b c d ns'"
  unfolding linked_def
proof (intro allI impI)
  fix m assume m: "c \<le> m \<and> m < d"
  then obtain q where "cn_parentIdx (ns ! m) = int q" "a \<le> q" "q < b"
    "cn_offset (ns ! q) \<le> cn_offset (ns ! m)" "cn_end (ns ! m) \<le> cn_end (ns ! q)"
    using assms(1) by (auto simp: linked_def)
  then show "\<exists>q. cn_parentIdx (ns' ! m) = int q \<and> a \<le> q \<and> q < b \<and>
     cn_offset (ns' ! q) \<le> cn_offset (ns' ! m) \<and> cn_end (ns' ! m) \<le> cn_end (ns' ! q)"
    using assms(3-5) m same_geom_nth(3,6)[OF assms(2)] by (intro exI[of _ q]) auto
qed

lemma link_level_ok:
  assumes "tree_ok p e pli ns" "Suc k < length pli"
  shows "\<exists>ns'. link_level (length ns) pli k ns = Inr ns' \<and> same_geom ns ns' \<and>
    (\<forall>m < length ns. m < lv_first pli (Suc k) \<or> lv_past pli (Suc k) \<le> m \<longrightarrow> ns' ! m = ns ! m) \<and>
    linked (lv_first pli k) (lv_past pli k) (lv_first pli (Suc k)) (lv_past pli (Suc k)) ns' \<and>
    map unlink ns' = map unlink ns"
proof -
  note T = tree_ok_level[OF assms(1) Suc_lessD[OF assms(2)]] tree_ok_level[OF assms]
  have F: "lv_first pli k < lv_past pli k" "lv_first pli (Suc k) < lv_past pli (Suc k)"
    "cn_offset (ns ! lv_first pli k) = 0" "cn_offset (ns ! lv_first pli (Suc k)) = 0"
    "lv_past pli (Suc k) \<le> length ns"
    using T by (auto simp: level_tiles_def)
  let ?n = "lv_past pli k - lv_first pli k"
  have run: "link_level (length ns) pli k ns =
      link_parents (length ns) ?n (lv_first pli k) 0 (lv_first pli (Suc k)) 0 ns"
    by (simp add: link_level_def lv_first_def lv_past_def)
  have p1: "lv_past pli k \<le> lv_first pli (Suc k)" "lv_first pli k + ?n = lv_past pli k"
    using tree_ok_next(1)[OF assms] F(1) by auto
  have p2: "if ?n = 0 then lv_first pli (Suc k) = lv_past pli (Suc k)
      else lv_first pli (Suc k) < lv_past pli (Suc k) \<and>
        cn_offset (ns ! lv_first pli (Suc k)) = cn_offset (ns ! lv_first pli k)"
    "0 < ?n \<longrightarrow> 0 = cn_offset (ns ! lv_first pli k) \<and> (0 :: nat) = 0"
    using F by simp_all
  show ?thesis
    unfolding run by (rule link_parents_ok[OF T p1(1) F(5) tree_ok_next(2)[OF assms] order_refl p1(2) order_refl p2])
qed

lemma MakeTree_linked:
  assumes "tree_ok p e pli ns"
  shows "\<exists>ns'. MakeTree pli ns = Inr ns' \<and> same_geom ns ns' \<and> tree_linked pli ns' \<and> map unlink ns' = map unlink ns"
proof -
  let ?L = "\<lambda>k. linked (lv_first pli k) (lv_past pli k) (lv_first pli (Suc k)) (lv_past pli (Suc k))"
  have "\<exists>ns'. rfold (link_level (length ns) pli) [0..<n] ns = Inr ns' \<and> same_geom ns ns' \<and>
    (\<forall>k < n. ?L k ns') \<and> map unlink ns' = map unlink ns"
    if "n < length pli" for n using that
  proof (induction n)
    case 0
    then show ?case by simp
  next
    case (Suc n)
    then obtain ns1 where R: "rfold (link_level (length ns) pli) [0..<n] ns = Inr ns1" "same_geom ns ns1"
      "\<forall>k < n. ?L k ns1" "map unlink ns1 = map unlink ns" by auto
    have ok: "tree_ok p e pli ns1" by (rule tree_ok_geom[OF assms R(2)])
    have len: "length ns1 = length ns" by (rule same_geom_length[OF R(2)])
    from link_level_ok[OF ok Suc.prems] len
    obtain ns' where L: "link_level (length ns) pli n ns1 = Inr ns'" "same_geom ns1 ns'"
      "\<forall>m < length ns. m < lv_first pli (Suc n) \<or> lv_past pli (Suc n) \<le> m \<longrightarrow> ns' ! m = ns1 ! m"
      "?L n ns'" "map unlink ns' = map unlink ns1" by auto
    have "?L k ns'" if "k < n" for k
    proof (rule linked_cong[OF _ L(2)])
      have b: "lv_past pli (Suc k) \<le> lv_first pli (Suc n)" "lv_past pli (Suc k) \<le> length ns" "lv_past pli k \<le> length ns"
        using lv_past_mono[OF assms, of "Suc k" "Suc n"] tree_ok_bounds(2)[OF assms] that Suc.prems by auto
      then show "lv_past pli k \<le> length ns1" "lv_past pli (Suc k) \<le> length ns1" using len by auto
      show "cn_parentIdx (ns' ! m) = cn_parentIdx (ns1 ! m)" if "m < lv_past pli (Suc k)" for m
        using L(3) b that by simp
    qed (use R(3) that in simp)
    then show ?case using L R same_geom_trans[OF R(2) L(2)] by (auto simp: less_Suc_eq)
  qed
  from this[of "length pli - 1"] show ?thesis
    using assms by (auto simp: MakeTree_def tree_linked_def tree_ok_def less_diff_conv)
qed


section \<open>A block with too many boundaries\<close>

text \<open>
  Sixteen equal bytes 111 have a fingerprint with all bits of the mask of 64 bytes and not all bits of
  the mask of 1024 bytes, so that every position of a long run of this byte is a boundary.
\<close>

lemma clmul_numeral:
  "clmul (numeral (Num.Bit0 n)) b = push_bit 1 (clmul (numeral n) b)"
  "clmul (numeral (Num.Bit1 n)) b = b XOR push_bit 1 (clmul (numeral n) b)"
  by (simp_all add: clmul_rec[of "numeral (Num.Bit0 n)"] clmul_rec[of "numeral (Num.Bit1 n)"])

lemma pcong_clmul_self: "pcong p (x XOR clmul q p) x"
  by (auto simp: pcong_def xor_ac)

lemma poly_fp_snoc:
  assumes "unat (poly_fp bs) = f" "push_bit 8 f XOR unat b = x XOR clmul q P63" "x < 2 ^ 63"
  shows "unat (poly_fp (bs @ [b])) = x"
proof -
  have "bytes_poly (bs @ [b]) = push_bit 8 (bytes_poly bs) XOR unat b" by simp
  moreover have "pcong P63 (push_bit 8 f XOR unat b) (push_bit 8 (bytes_poly bs) XOR unat b)"
    using poly_fp_props(2)[of bs] assms(1) by (auto intro!: pcong_xor pcong_push)
  ultimately have "pcong P63 x (bytes_poly (bs @ [b]))"
    using pcong_clmul_self[of P63 x q] assms(2) pcong_trans pcong_sym by metis
  moreover have x: "unat (of_nat x :: u64) = x" using assms(3) by (simp add: unsigned_of_nat take_bit_nat_eq_self)
  ultimately have "poly_fp (bs @ [b]) = of_nat x"
    using P63_unique[of "poly_fp (bs @ [b])" "bytes_poly (bs @ [b])" "of_nat x"] poly_fp_props[of "bs @ [b]"] assms(3)
    by simp
  with x show ?thesis by simp
qed

fun division_steps :: "byte \<Rightarrow> nat \<Rightarrow> (nat \<times> nat) list \<Rightarrow> bool" where
  "division_steps b f [] \<longleftrightarrow> True"
| "division_steps b f ((q, x) # qs) \<longleftrightarrow>
     push_bit 8 f XOR unat b = x XOR clmul q P63 \<and> x < 2 ^ 63 \<and> division_steps b x qs"

lemma division_steps_fp:
  assumes "division_steps b (unat (poly_fp bs)) qs" "k < length qs"
  shows "unat (poly_fp (bs @ replicate (Suc k) b)) = snd (qs ! k)"
  using assms
proof (induction qs arbitrary: bs k)
  case (Cons qx qs)
  obtain q x where qx: "qx = (q, x)" by fastforce
  have x: "unat (poly_fp (bs @ [b])) = x" using poly_fp_snoc[OF refl] Cons.prems(1) qx by simp
  show ?case
  proof (cases k)
    case (Suc k')
    then show ?thesis using Cons.IH[of "bs @ [b]" k'] Cons.prems qx x by simp
  qed (use x qx in simp)
qed simp

definition quotients_111 :: "(nat \<times> nat) list" where
  "quotients_111 =
    [(0, 111),
     (0, 28527),
     (0, 7303023),
     (0, 1869573999),
     (0, 478610943855),
     (0, 122524401626991),
     (0, 31366246816509807),
     (0, 8029759185026510703),
     (192, 4802749233698432175),
     (147, 7647890409008562576),
     (203, 1213053701870180008),
     (36, 699797093478798171),
     (17, 7246708389023646938),
     (213, 4592532957969189262),
     (114, 4835552729263330837),
     (144, 7713127237869042111)]"

lemma quotients_111_steps: "division_steps 111 0 quotients_111"
  by (simp add: quotients_111_def clmul_numeral IRREDUCIBLE_POLY_def push_bit_eq_mult)

lemma fingers_111:
  assumes "0 < j" "j \<le> 16"
  shows "unat (poly_fp (replicate j 111)) = snd (quotients_111 ! (j - 1))"
  using division_steps_fp[of 111 "[]" quotients_111 "j - 1"] quotients_111_steps assms
  by (simp add: poly_fp_def quotients_111_def)

lemma hits_unat: "hits m f \<longleftrightarrow> unat f AND unat m = unat m"
proof -
  have "unat m < 2 ^ 64" using unsigned_less[of m, where ?'a = nat] by simp
  then have "unat (ucast m :: u64) = unat m" by (simp add: unsigned_ucast_eq take_bit_nat_eq_self)
  then show ?thesis unfolding hits_def by (simp add: word_unat_eq_iff unsigned_and_eq)
qed

lemma hits_111:
  "hits 63 (poly_fp (replicate 16 111))"
  "0 < j \<Longrightarrow> j \<le> 16 \<Longrightarrow> \<not> hits 1023 (poly_fp (replicate j 111))"
proof -
  show "hits 63 (poly_fp (replicate 16 111))"
    using fingers_111[of 16] by (simp add: hits_unat quotients_111_def)
  have "list_all (\<lambda>j. snd (quotients_111 ! j) AND 1023 \<noteq> 1023) [0..<16]"
    by (simp add: quotients_111_def upt_rec)
  then show "0 < j \<Longrightarrow> j \<le> 16 \<Longrightarrow> \<not> hits 1023 (poly_fp (replicate j 111))"
    using fingers_111[of j] by (auto simp: hits_unat list_all_iff)
qed

lemma ref_finger_run:
  assumes "i < n"
  shows "ref_finger 16 (take (Suc i) (replicate n b)) = poly_fp (replicate (min 16 (Suc i)) b)"
proof -
  have "poly_fp (replicate k 0 @ bs) = poly_fp bs" for k bs
    using poly_fp_zeros[of k] by (simp add: poly_fp_def)
  then show ?thesis using assms by (simp add: ref_finger_def min_def del: replicate_Suc)
qed

lemma many_cuts:
  assumes "16 \<le> n"
  shows "n - 15 \<le> length (ref_cuts 16 0 63 1023 (replicate n 111) 0)"
proof -
  let ?f = "\<lambda>i. ref_finger 16 (take (Suc i) (replicate n 111))"
  have f: "?f i = poly_fp (replicate (min 16 (Suc i)) 111)" if "i < n" for i
    using ref_finger_run[OF that] .
  have "\<not> hits 1023 (?f i)" if "i < n" for i unfolding f[OF that] by (rule hits_111(2)) auto
  then have "find (\<lambda>i. (1023 :: u32) \<noteq> 0 \<and> hits 1023 (?f i)) [0..<n] = None"
    by (auto simp: find_None_iff simp del: take_replicate)
  then have e: "scan_end 16 1023 (replicate n 111) 0 = n" by (simp add: scan_end_def del: take_replicate)
  have "hits 63 (?f i)" if "i < n" "15 \<le> i" for i
    using hits_111(1) that unfolding f[OF that(1)] by (simp add: min_def del: replicate_Suc)
  then have "length (filter (\<lambda>i. hits 63 (?f i)) [15..<n]) = n - 15"
    by (subst filter_True) (auto simp del: take_replicate)
  moreover have "[0..<n] = [0..<15] @ [15..<n]" using upt_add_eq_append[of 0 15 "n - 15"] assms by simp
  ultimately show ?thesis by (simp add: ref_cuts_def e del: take_replicate)
qed

section \<open>Names start unresolved\<close>

definition fresh_name :: "OneChunkName \<Rightarrow> bool" where
  "fresh_name c \<longleftrightarrow> \<not> cn_isHit c \<and> \<not> cn_isCandidate c \<and> \<not> cn_isSha1Ready c \<and> cn_type c = chunk_name"

lemma fill_level_fresh:
  "fill_level cfg cs l rb p nb bs i off index real = Inr (names, real') \<Longrightarrow> c \<in> set names \<Longrightarrow> fresh_name c"
proof (induction bs arbitrary: i off index real names real')
  case (Cons b bs)
  then show ?case
    by (auto simp: Let_def rbind_eq_Inr ensure_eq_Inr fresh_name_def InitOneChunk_def split: if_splits) blast+
qed simp

lemma fill_levels_fresh:
  "fill_levels cfg rb p bds cs l index real = Inr (names, pli) \<Longrightarrow> c \<in> set names \<Longrightarrow> fresh_name c"
proof (induction cfg rb p bds cs l index real arbitrary: names pli rule: fill_levels.induct)
  case (1 cfg rb p bds cs l index real)
  show ?case
  proof (cases "cs \<ge> g_MinChunkSize cfg \<and> l < g_maxLevel cfg")
    case True
    from 1(2) True obtain n1 r1 where f: "fill_level cfg cs l rb p (length bds) bds 0 0 index real = Inr (n1, r1)"
      by (subst (asm) fill_levels.simps) (auto simp: rbind_eq_Inr)
    from 1(2)[unfolded fill_levels.simps[of cfg rb p bds cs]] True f consider "names = n1" |
      n2 pl2 where "g_NumMRCWays cfg \<noteq> 1" "g_NumMRCWays cfg \<noteq> 0" "names = n1 @ n2"
        "fill_levels cfg rb p bds (cs div g_NumMRCWays cfg) (l + 1) (index + length n1) r1 = Inr (n2, pl2)"
      by (auto simp: rbind_eq_Inr Let_def split: if_splits)
    then show ?thesis
    proof cases
      case 1
      then show ?thesis using fill_level_fresh[OF f] "1.prems"(2) by simp
    next
      case 2
      then show ?thesis using fill_level_fresh[OF f] "1.prems"(2) "1.IH"[of "(n1, r1)" n1 r1] True f by auto
    qed
  next
    case False
    then show ?thesis using 1(2,3) by (subst (asm) fill_levels.simps) (auto split: if_splits)
  qed
qed

lemma DoPreMRC_fresh:
  "DoPreMRC cfg c p = Inr (c', names, rb, pli) \<Longrightarrow> list_all fresh_name names"
  by (auto simp: DoPreMRC_def Let_def rbind_eq_Inr ensure_eq_Inr list_all_iff split: if_splits
      intro: fill_levels_fresh)

lemma unlink_fresh:
  assumes "map unlink ns' = map unlink ns" "list_all fresh_name ns"
  shows "list_all fresh_name ns'"
proof -
  have "fresh_name c \<longleftrightarrow> fresh_name (unlink c)" for c by (simp add: fresh_name_def unlink_def)
  then have "list_all fresh_name xs \<longleftrightarrow> list_all fresh_name (map unlink xs)" for xs by (simp add: list_all_iff)
  then show ?thesis using assms by metis
qed

section \<open>Properties\<close>

text \<open>
  The scanner of a connection, as \<open>InitRabinCtx\<close> leaves it and every scan keeps it: correct tables,
  no minimum distance, and a limit on the size of a block.
\<close>

definition scanner_ok :: "RabinCtx \<Rightarrow> bool" where
  "scanner_ok c \<longleftrightarrow> tables_ok WAPROX_RABIN_WINDOW (rp c) \<and> min_size c = WAPROX_MRC_MIN \<and> max_size c = WAPROX_MRC_MAX"

lemma scanner_ok_init:
  "InitRabinCtx c bs WAPROX_RABIN_WINDOW WAPROX_MRC_MIN WAPROX_MRC_MAX = Inr c' \<Longrightarrow> scanner_ok c'"
  using GetRabin_context[of c bs WAPROX_RABIN_WINDOW WAPROX_MRC_MIN WAPROX_MRC_MAX c']
  by (simp add: scanner_ok_def WAPROX_RABIN_WINDOW_def)

lemma mrc_tree_ok:
  assumes "mrc_config_ok cfg" "scanner_ok c" "psrc \<noteq> []"
    and "length psrc \<le> g_ChunkSize cfg \<or> DoPreMRC cfg c psrc \<noteq> Inl UndefinedBehaviour"
  shows "\<exists>c' names rb pli tree. DoPreMRC cfg c psrc = Inr (c', names, rb, pli) \<and> scanner_ok c' \<and>
    0 < rb \<and> rb \<le> length psrc \<and> rb \<le> WAPROX_MRC_MAX \<and> length pli \<le> g_maxLevel cfg \<and> length names < g_maxNames cfg \<and>
    MakeTree pli names = Inr tree \<and> length tree = length names \<and>
    tree_ok psrc rb pli tree \<and> tree_linked pli tree \<and> list_all fresh_name tree"
proof -
  have "0 < max_size c" using assms(2) by (simp add: scanner_ok_def WAPROX_MRC_MAX_def)
  with DoPreMRC_levels[OF assms(1), of WAPROX_RABIN_WINDOW c psrc] assms obtain c' names rb pli where
    D: "DoPreMRC cfg c psrc = Inr (c', names, rb, pli)" "levels_ok psrc rb 0 0 pli names" "pli \<noteq> []"
      "length pli \<le> g_maxLevel cfg" "length names < g_maxNames cfg" "0 < rb" "rb \<le> length psrc"
      "rb \<le> max_size c" "scanner_ok c'" "pl_numNames (hd pli) \<le> 1"
    by (auto simp: scanner_ok_def WAPROX_MRC_MIN_def)
  have t: "tree_ok psrc rb pli names" by (rule levels_ok_tree[OF D(2,3,6,10)])
  from MakeTree_linked[OF t] obtain tree where T: "MakeTree pli names = Inr tree" "same_geom names tree"
    "tree_linked pli tree" "map unlink tree = map unlink names" by blast
  show ?thesis
    using D T tree_ok_geom[OF t T(2)] same_geom_length[OF T(2)] unlink_fresh[OF T(4) DoPreMRC_fresh[OF D(1)]] assms(2)
    by (auto simp: scanner_ok_def)
qed


text \<open>
  For more than one way and a positive minimum size the loop of \<open>InitMRCParams\<close> ends, and the
  number of levels it finds is the number of times the chunk size can be divided before it falls
  below the minimum; the name table has room for one name per byte on every level.
\<close>

theorem InitMRCParams_levels:
  assumes "1 < ways" "0 < mn"
  shows "\<exists>cfg. InitMRCParams cs mn ways = Some cfg \<and> 0 < g_maxLevel cfg \<and> g_maxNames cfg = cs * g_maxLevel cfg \<and>
    cs div ways ^ g_maxLevel cfg < mn \<and> (\<forall>k. 0 < k \<and> k < g_maxLevel cfg \<longrightarrow> mn \<le> cs div ways ^ k)"
proof -
  have count: "\<exists>j. count_levels ways mn cs (Suc m) = Some (Suc m + j) \<and> cs div ways ^ Suc j < mn \<and>
      (\<forall>k. 0 < k \<and> k \<le> j \<longrightarrow> mn \<le> cs div ways ^ k)" for m
  proof (induction cs arbitrary: m rule: less_induct)
    case (less cs)
    show ?case
    proof (cases "cs div ways < mn")
      case False
      then have "cs div ways < cs" using assms by (metis bot_nat_0.not_eq_extremum div_0 div_less_dividend)
      with less.IH[of "cs div ways" "Suc m"] obtain j where
        j: "count_levels ways mn (cs div ways) (Suc (Suc m)) = Some (Suc (Suc m) + j)"
          "cs div ways div ways ^ Suc j < mn" "\<forall>k. 0 < k \<and> k \<le> j \<longrightarrow> mn \<le> cs div ways div ways ^ k" by blast
      have "mn \<le> cs div ways ^ k" if "0 < k" "k \<le> Suc j" for k
        using j(3) that False by (cases k; cases "k = 1") (auto simp: div_mult2_eq)
      with j False show ?thesis
        by (intro exI[of _ "Suc j"]) (simp add: count_levels_step[of ways mn cs] div_mult2_eq)
    qed (auto simp: count_levels_step[of ways mn cs])
  qed
  from count[of 0] obtain j where "count_levels ways mn cs 1 = Some (Suc j)" "cs div ways ^ Suc j < mn"
    "\<forall>k. 0 < k \<and> k \<le> j \<longrightarrow> mn \<le> cs div ways ^ k" by auto
  then show ?thesis using assms by (auto simp: InitMRCParams_def)
qed

theorem InitMRCParams_levels_witness:
  "\<exists>cfg. InitMRCParams 65536 128 8 = Some cfg \<and> 65536 div 8 ^ g_maxLevel cfg < (128 :: nat)"
  using InitMRCParams_levels[of 8 128 65536] by auto

text \<open>
  Claim C6: for parameters that are powers of two, a block of a connection's stream becomes a chunk
  tree. \<open>DoPreMRC\<close> fails no assertion, takes at least one byte and no more than it was given, and
  fills no more names and levels than were allocated; every level tiles the block it takes and refines
  the level above, and \<open>MakeTree\<close> links every chunk to the chunk of the level above that contains it.
  The only other outcome is a scan with more boundaries than the boundary array holds, which needs more
  bytes than the chunk size.
\<close>

theorem mrc_tree_built:
  assumes "mrc_config_ok cfg" "scanner_ok c" "psrc \<noteq> []"
  shows "DoPreMRC cfg c psrc = Inl UndefinedBehaviour \<and> g_ChunkSize cfg < length psrc \<or>
    (\<exists>c' names rb pli tree. DoPreMRC cfg c psrc = Inr (c', names, rb, pli) \<and> scanner_ok c' \<and>
      0 < rb \<and> rb \<le> length psrc \<and> length pli \<le> g_maxLevel cfg \<and> length names < g_maxNames cfg \<and>
      MakeTree pli names = Inr tree \<and> tree_ok psrc rb pli tree \<and> tree_linked pli tree)"
proof (cases "DoPreMRC cfg c psrc = Inl UndefinedBehaviour")
  case True
  then show ?thesis using mrc_tree_ok[OF assms] by (auto simp: not_less[symmetric])
next
  case False
  then show ?thesis using mrc_tree_ok[OF assms] by blast
qed

text \<open>The parameters of the built-in configuration, and a scanner for them.\<close>

definition default_config :: mrc_config where
  "default_config = \<lparr>g_ChunkSize = 1024, g_MinChunkSize = 64, g_NumMRCWays = 4, g_maxLevel = 3, g_maxNames = 3072\<rparr>"

lemma default_config_ok: "mrc_config_ok default_config"
proof -
  have "count_levels 4 64 1024 1 = Some 3" by (simp add: count_levels_step)
  moreover have "\<exists>a. (1024 :: nat) = 2 ^ a" "\<exists>b. (4 :: nat) = 2 ^ b"
    by (rule exI[of _ 10], simp) (rule exI[of _ 2], simp)
  ultimately show ?thesis by (simp add: mrc_config_ok_def default_config_def InitMRCParams_def)
qed

definition blank_scanner :: RabinCtx where
  "blank_scanner = \<lparr>rp = InitializeRabin blank_rabin 16, rc_mask = 63, finger = 0, bsize = 64,
     min_size = 0, max_size = 131072\<rparr>"

lemma blank_scanner_ok: "scanner_ok blank_scanner"
  using blank_rabin_ok(1)
  by (simp add: scanner_ok_def blank_scanner_def WAPROX_RABIN_WINDOW_def WAPROX_MRC_MIN_def WAPROX_MRC_MAX_def)

theorem mrc_tree_built_witness:
  "\<exists>c names rb pli tree. DoPreMRC default_config blank_scanner [1, 2, 3] = Inr (c, names, rb, pli) \<and>
     MakeTree pli names = Inr tree \<and> tree_ok [1, 2, 3] rb pli tree \<and> tree_linked pli tree"
  using mrc_tree_built[OF default_config_ok blank_scanner_ok, of "[1, 2, 3]"]
  by (auto simp: default_config_def)

text \<open>
  Claim C40: under the built-in parameters, a run of the byte 111 that is 1040 bytes or longer makes
  \<open>DoPreMRC\<close> write beyond the end of its boundary array, which has one entry per byte of the chunk
  size (1024), while a scan may cover 128 KB.
\<close>

theorem DoPreMRC_overflow:
  assumes "scanner_ok c" "1040 \<le> n" "n \<le> 131072"
  shows "DoPreMRC default_config c (replicate n 111) = Inl UndefinedBehaviour"
proof -
  have w: "tables_ok 16 (rp c)" "min_size c = 0" "max_size c = 131072"
    using assms(1) by (auto simp: scanner_ok_def WAPROX_RABIN_WINDOW_def WAPROX_MRC_MIN_def WAPROX_MRC_MAX_def)
  have m: "GetMRCMask 64 = Inr 63" "GetMRCMask 1024 = Inr 1023"
    by (simp_all add: GetMRCMask_def GetMRCIndex_def chunk_sizes_def masks_def)
  let ?cuts = "ref_cuts 16 0 63 1023 (replicate n 111) 0"
  have "n - 15 \<le> length ?cuts" using many_cuts assms(2) by simp
  then have long: "1024 < length ?cuts" using assms(2) by linarith
  then have ne: "?cuts \<noteq> []" by auto
  have body: "drop 0 (take (min n (max_size c)) (replicate n 111)) = replicate n (111 :: byte)"
    using w(3) assms(3) by simp
  have nest: "(63 :: u32) AND 1023 = 63 \<or> (1023 :: u32) = 0" by simp
  obtain r f where
    "GetRabinChunkSizeEx c (replicate n 111) n 63 1023 True =
      Inr (c\<lparr>rp := r, finger := f\<rparr>, ?cuts, bd_offset (last ?cuts))"
    using GetRabinChunkSizeEx_ref[OF w(1) nest, of n "replicate n 111", unfolded w(2) body Let_def]
    by (auto simp only: if_not_P[OF ne] length_replicate)
  moreover have "min n MAX_CHUNK_SIZE = n" using assms(3) by (simp add: MAX_CHUNK_SIZE_def)
  ultimately show ?thesis
    using m long by (simp add: DoPreMRC_def default_config_def WAPROX_MIN_CHUNK_SIZE_def WAPROX_RABIN_WINDOW_def)
qed

theorem DoPreMRC_overflow_witness:
  "DoPreMRC default_config blank_scanner (replicate 1100 111) = Inl UndefinedBehaviour"
  using DoPreMRC_overflow[OF blank_scanner_ok, of 1100] by simp

end
