(* ===== verification/Mrc_Resolve.thy ===== *)
theory Mrc_Resolve
  imports Mrc_Build
begin

text \<open>
  Choosing the chunks of a block that are sent (waprox/mrc_tree.c): the tree is resolved against the
  hint table from the root down, and the candidates are chosen from the lowest level up, merging the
  children of a chunk when all of them are known or none is.

  The SHA-1 function of the linked library is the argument \<open>sha\<close>. \<open>qsort\<close> is \<open>sort_key\<close>: the
  offsets of the candidates are pairwise different, so every sort gives the same list.

  \<open>VerifySHA1\<close> is the version of a build with \<open>_WAPROX_INTEGRITY_CHECK\<close>. The other version returns
  TRUE without looking; since the theorems show that the assertions on the checking version hold,
  they hold for both.
\<close>

section \<open>Resolving a tree against the hints\<close>

definition VerifySHA1 :: "(byte list \<Rightarrow> sha1) \<Rightarrow> byte list \<Rightarrow> sha1 \<Rightarrow> bool" where
  "VerifySHA1 sha buffer digest \<longleftrightarrow> sha buffer = digest"

definition CheckNameHint :: "(byte list \<Rightarrow> sha1) \<Rightarrow> cache \<Rightarrow> bool \<Rightarrow> OneChunkName \<Rightarrow> OneChunkName res" where
  "CheckNameHint sha s isSender cur =
     (case cn_pChunk cur of
        None \<Rightarrow> Inl UndefinedBehaviour
      | Some buf \<Rightarrow>
          let name = sha (take (cn_length cur) buf)
          in Inr (cur\<lparr>cn_sha1 := name, cn_isSha1Ready := True,
                 cn_isHit := (if isSender then GetSendHint s name else GetDiskHint s name)\<rparr>))"

text \<open>The body of the inner loop of \<open>ResolveWithHint\<close>: the new value of the chunk \<open>newIdx\<close>.\<close>

definition resolve_one :: "(byte list \<Rightarrow> sha1) \<Rightarrow> cache \<Rightarrow> bool \<Rightarrow> byte list \<Rightarrow> nat \<Rightarrow> nat \<Rightarrow>
    OneChunkName list \<Rightarrow> OneChunkName res" where
  "resolve_one sha s isSender buffer newIdx offset pNames =
     (let parent = GetParent2 pNames newIdx;
          cur = pNames ! newIdx;
          block = take (cn_length cur) (drop offset buffer)
      in if cn_length cur \<le> WAPROX_MIN_CHUNK_SIZE then
           rbind (CheckNameHint sha s isSender cur) (\<lambda>c. Inr (c\<lparr>cn_isHit := True\<rparr>))
         else if newIdx = 0 then
           rbind (CheckNameHint sha s isSender cur) (\<lambda>c. ensure (VerifySHA1 sha block (cn_sha1 c)) (Inr c))
         else if parent < 0 \<or> parent \<ge> int (length pNames) then Inl UndefinedBehaviour
         else let par = pNames ! nat parent in
           if cn_isHit par then Inr (cur\<lparr>cn_isHit := True\<rparr>)
           else rbind
             (if cn_length par = cn_length cur
              then ensure (cn_isSha1Ready par)
                (Inr (cur\<lparr>cn_isHit := cn_isHit par, cn_sha1 := cn_sha1 par, cn_isSha1Ready := True\<rparr>))
              else CheckNameHint sha s isSender cur)
             (\<lambda>c. ensure (VerifySHA1 sha block (cn_sha1 c)) (Inr c)))"

fun resolve_level :: "(byte list \<Rightarrow> sha1) \<Rightarrow> cache \<Rightarrow> bool \<Rightarrow> byte list \<Rightarrow> nat \<Rightarrow> nat \<Rightarrow> nat \<Rightarrow> nat \<Rightarrow> nat \<Rightarrow>
    OneChunkName list \<Rightarrow> (OneChunkName list \<times> nat) res" where
  "resolve_level sha s isSender buffer buf_len 0 newIdx offset numHits pNames = Inr (pNames, numHits)"
| "resolve_level sha s isSender buffer buf_len (Suc j) newIdx offset numHits pNames =
     ensure (newIdx < length pNames)
       (ensure (offset + cn_length (pNames ! newIdx) \<le> buf_len)
         (ensure (offset = cn_offset (pNames ! newIdx))
           (rbind (resolve_one sha s isSender buffer newIdx offset pNames)
             (\<lambda>c. resolve_level sha s isSender buffer buf_len j (newIdx + 1) (offset + cn_length c)
                     (if cn_isHit c then numHits + 1 else numHits) (pNames[newIdx := c])))))"

text \<open>The loop over the levels stops after a level whose chunks are all hits.\<close>

fun resolve_levels :: "(byte list \<Rightarrow> sha1) \<Rightarrow> cache \<Rightarrow> bool \<Rightarrow> byte list \<Rightarrow> nat \<Rightarrow> nat \<Rightarrow> nat \<Rightarrow>
    MRCPerLevelInfo list \<Rightarrow> OneChunkName list \<Rightarrow> (OneChunkName list \<times> nat) res" where
  "resolve_levels sha s isSender buffer buf_len i lowLevel [] pNames = Inr (pNames, lowLevel)"
| "resolve_levels sha s isSender buffer buf_len i lowLevel (pl # pli) pNames =
     rbind (resolve_level sha s isSender buffer buf_len (pl_numNames pl) (pl_firstIndex pl) 0 0 pNames)
       (\<lambda>(pNames', numHits).
          if numHits = pl_numNames pl then Inr (pNames', i)
          else resolve_levels sha s isSender buffer buf_len (i + 1) i pli pNames')"

definition ResolveWithHint :: "(byte list \<Rightarrow> sha1) \<Rightarrow> cache \<Rightarrow> OneChunkName list \<Rightarrow> byte list \<Rightarrow> nat \<Rightarrow>
    MRCPerLevelInfo list \<Rightarrow> bool \<Rightarrow> (OneChunkName list \<times> nat) res" where
  "ResolveWithHint sha s pNames buffer buf_len pli isSender =
     resolve_levels sha s isSender buffer buf_len 0 0 pli pNames"

section \<open>Choosing the candidates\<close>

definition set_candidate :: "bool \<Rightarrow> nat \<Rightarrow> OneChunkName list \<Rightarrow> OneChunkName list" where
  "set_candidate b i pNames = pNames[i := (pNames ! i)\<lparr>cn_isCandidate := b\<rparr>]"

definition FlushChildren :: "OneChunkName list \<Rightarrow> nat list \<Rightarrow> OneChunkName list res" where
  "FlushChildren pNames stack =
     ensure (stack \<noteq> [])
       (let parent = GetParent2 pNames (hd stack);
            sp = length stack;
            hit_count = length (filter (\<lambda>i. cn_isHit (pNames ! i)) stack);
            candidate_count = length (filter (\<lambda>i. cn_isCandidate (pNames ! i)) stack)
        in ensure (list_all (\<lambda>i. parent = GetParent2 pNames i) stack)
          (if candidate_count < sp then Inr pNames
           else if parent < 0 \<or> parent \<ge> int (length pNames) then Inl UndefinedBehaviour
           else if hit_count = 0 \<or> hit_count = sp
           then Inr (set_candidate True (nat parent) (fold (set_candidate False) stack pNames))
           else Inr (set_candidate False (nat parent) (fold (set_candidate True) stack pNames))))"

text \<open>The loop over one level; \<open>children\<close> are the indices still to come.\<close>

fun flush_level :: "mrc_config \<Rightarrow> nat list \<Rightarrow> nat list \<Rightarrow> OneChunkName list \<Rightarrow> OneChunkName list res" where
  "flush_level cfg stack [] pNames = Inr pNames"
| "flush_level cfg stack (child # children) pNames =
     (let parent = GetParent2 pNames child; stack' = stack @ [child]
      in ensure (child < length pNames \<and> parent < int (length pNames) \<and> parent \<le> int child \<and>
                 length stack' < g_maxNames cfg)
        (if children = [] \<or> GetParent2 pNames (child + 1) \<noteq> parent
         then rbind (FlushChildren pNames stack') (flush_level cfg [] children)
         else flush_level cfg stack' children pNames))"

definition to_candidate :: "OneChunkName \<Rightarrow> OneCandidate" where
  "to_candidate c = \<lparr>ca_index = cn_index c, ca_offset = cn_offset c, ca_length = cn_length c,
     ca_isHit = cn_isHit c, ca_sha1 = cn_sha1 c\<rparr>"

definition GetCandidateList2 :: "mrc_config \<Rightarrow> OneChunkName list \<Rightarrow> MRCPerLevelInfo list \<Rightarrow> nat \<Rightarrow>
    (OneChunkName list \<times> OneCandidate list) res" where
  "GetCandidateList2 cfg pNames pli lowLevel =
     (let base = pl_firstIndex (pli ! lowLevel); numChunks = pl_numNames (pli ! lowLevel)
      in ensure (numChunks \<le> length pNames)
        (if base + numChunks > length pNames \<or> pNames = [] then Inl UndefinedBehaviour
         else let leaves = fold (set_candidate True) [base..<base + numChunks] pNames in
           rbind (if g_NumMRCWays cfg = 1 then ensure (lowLevel = 0) (Inr leaves)
                  else rfold (\<lambda>i. flush_level cfg [] [pl_firstIndex (pli ! i)..<pl_firstIndex (pli ! i) + pl_numNames (pli ! i)])
                         (rev [0..<Suc lowLevel]) leaves)
             (\<lambda>names.
                ensure (list_all (\<lambda>c. cn_isCandidate c \<longrightarrow> cn_isSha1Ready c) names)
                  (let candidateList = map to_candidate (sort_key cn_offset (filter cn_isCandidate names))
                   in ensure (span candidateList = cn_length (names ! 0)) (Inr (names, candidateList))))))"

section \<open>The chunks of a linked tree\<close>

definition covers :: "OneChunkName list \<Rightarrow> nat \<Rightarrow> nat set" where
  "covers ns i = {cn_offset (ns ! i)..<cn_end (ns ! i)}"

lemma level_tiles_cover:
  assumes "level_tiles p e l a b ns" "x < e"
  shows "\<exists>m. a \<le> m \<and> m < b \<and> x \<in> covers ns m"
proof -
  let ?P = "\<lambda>m. a \<le> m \<and> m < b \<and> x < cn_end (ns ! m)"
  have "?P (b - 1)" using assms by (auto simp: level_tiles_def)
  then have P: "?P (LEAST m. ?P m)" by (rule LeastI)
  define m where "m = (LEAST m. ?P m)"
  have "cn_offset (ns ! m) \<le> x"
  proof (cases "m = a")
    case True
    then show ?thesis using level_tiles_at(5)[OF assms(1), of m] P m_def by simp
  next
    case False
    then have "\<not> ?P (m - 1)" using P not_less_Least[of "m - 1" ?P] m_def by force
    then have "cn_end (ns ! (m - 1)) \<le> x" using False P m_def by auto
    then show ?thesis using level_tiles_at(5)[OF assms(1), of m] P m_def False by simp
  qed
  then show ?thesis using P m_def by (intro exI[of _ m]) (auto simp: covers_def)
qed

definition in_level :: "MRCPerLevelInfo list \<Rightarrow> nat \<Rightarrow> nat \<Rightarrow> bool" where
  "in_level pli k i \<longleftrightarrow> lv_first pli k \<le> i \<and> i < lv_past pli k"

definition par :: "OneChunkName list \<Rightarrow> nat \<Rightarrow> nat" where
  "par ns i = nat (GetParent2 ns i)"

text \<open>The facts about a linked tree that the algorithms rely on.\<close>

definition linked_tree :: "byte list \<Rightarrow> nat \<Rightarrow> MRCPerLevelInfo list \<Rightarrow> OneChunkName list \<Rightarrow> bool" where
  "linked_tree p e pli ns \<longleftrightarrow> tree_ok p e pli ns \<and> tree_linked pli ns"

lemma root_index:
  assumes "linked_tree p e pli ns"
  shows "lv_first pli 0 = 0" "0 < length pli" "0 < length ns"
proof -
  have t: "tree_ok p e pli ns" using assms by (simp add: linked_tree_def)
  then show "lv_first pli 0 = 0" and pli: "0 < length pli" by (simp_all add: tree_ok_def)
  show "0 < length ns" using tree_ok_bounds[OF t pli] by linarith
qed

lemma parent_level:
  assumes "linked_tree p e pli ns" "Suc k < length pli" "in_level pli (Suc k) i"
  shows "GetParent2 ns i = int (par ns i)" "in_level pli k (par ns i)" "covers ns i \<subseteq> covers ns (par ns i)"
    "par ns i < i"
proof -
  have t: "tree_ok p e pli ns" using assms(1) by (simp add: linked_tree_def)
  have i: "lv_first pli (Suc k) \<le> i" "i < lv_past pli (Suc k)" using assms(3) by (auto simp: in_level_def)
  have b: "lv_past pli k = lv_first pli (Suc k)" "lv_first pli k < lv_past pli k"
    using tree_ok_next(1)[OF t assms(2)] tree_ok_bounds(1)[OF t, of k] assms(2) by auto
  then have "i \<noteq> 0" using i by auto
  obtain q where "cn_parentIdx (ns ! i) = int q" "lv_first pli k \<le> q" "q < lv_past pli k"
    "cn_offset (ns ! q) \<le> cn_offset (ns ! i)" "cn_end (ns ! i) \<le> cn_end (ns ! q)"
    using assms(1,2) i unfolding linked_tree_def tree_linked_def linked_def by blast
  then show "GetParent2 ns i = int (par ns i)" "in_level pli k (par ns i)" "covers ns i \<subseteq> covers ns (par ns i)"
    "par ns i < i"
    using \<open>i \<noteq> 0\<close> b i by (auto simp: par_def GetParent2_def in_level_def covers_def)
qed

lemma children_cover:
  assumes "linked_tree p e pli ns" "Suc k < length pli" "in_level pli k q"
  shows "covers ns q = (\<Union>i \<in> {i. in_level pli (Suc k) i \<and> par ns i = q}. covers ns i)"
proof (intro set_eqI iffI)
  have t: "tree_ok p e pli ns" using assms(1) by (simp add: linked_tree_def)
  note L = tree_ok_level[OF t]
  fix x assume x: "x \<in> covers ns q"
  then have "x < e" using level_tiles_end_le[OF L, of k q] assms(2,3) by (auto simp: covers_def in_level_def)
  with level_tiles_cover[OF L[OF assms(2)]] obtain i where i: "in_level pli (Suc k) i" "x \<in> covers ns i"
    by (auto simp: in_level_def)
  have "x \<in> covers ns (par ns i)" using parent_level(3)[OF assms(1,2) i(1)] i(2) by blast
  then have "par ns i = q"
    using level_tiles_disjoint[OF L, of k "par ns i" q x] parent_level(2)[OF assms(1,2) i(1)] assms(2,3) x
    by (auto simp: in_level_def covers_def)
  then show "x \<in> (\<Union>i \<in> {i. in_level pli (Suc k) i \<and> par ns i = q}. covers ns i)" using i by blast
qed (use parent_level(3)[OF assms(1,2)] in blast)

lemma has_child:
  assumes "linked_tree p e pli ns" "Suc k < length pli" "in_level pli k q"
  shows "\<exists>i. in_level pli (Suc k) i \<and> par ns i = q"
proof -
  have "level_tiles p e k (lv_first pli k) (lv_past pli k) ns"
    using assms by (auto simp: linked_tree_def intro: tree_ok_level)
  from level_tiles_at(3)[OF this, of q] assms(3) have "covers ns q \<noteq> {}"
    by (auto simp: covers_def cn_end_def in_level_def)
  then show ?thesis using children_cover[OF assms] by auto
qed

lemma level_of:
  assumes "tree_ok p e pli ns" "i < length ns"
  shows "\<exists>k. k < length pli \<and> in_level pli k i"
proof -
  let ?P = "\<lambda>k. k < length pli \<and> i < lv_past pli k"
  have "?P (length pli - 1)" using assms by (auto simp: tree_ok_def)
  then have P: "?P (LEAST k. ?P k)" by (rule LeastI)
  define k where "k = (LEAST k. ?P k)"
  have "lv_first pli k \<le> i"
  proof (cases k)
    case (Suc k')
    then have "\<not> ?P k'" using not_less_Least[of k' ?P] k_def by simp
    then show ?thesis using P k_def Suc tree_ok_next(1)[OF assms(1), of k'] by auto
  qed (use assms(1) in \<open>simp add: tree_ok_def\<close>)
  then show ?thesis using P k_def by (auto simp: in_level_def)
qed


section \<open>Resolution\<close>

text \<open>
  What a resolved chunk \<open>i\<close> satisfies: if its name is computed, it is the SHA-1 of its bytes and the
  chunk counts as known exactly when it is tiny or its name is in the hint table; the name is computed
  unless the parent is already known; and the children of a known chunk are known.
\<close>

definition content :: "byte list \<Rightarrow> OneChunkName \<Rightarrow> byte list" where
  "content p c = take (cn_length c) (drop (cn_offset c) p)"

definition named :: "(byte list \<Rightarrow> sha1) \<Rightarrow> (sha1 \<Rightarrow> bool) \<Rightarrow> byte list \<Rightarrow> OneChunkName \<Rightarrow> bool" where
  "named sha hint p c \<longleftrightarrow> cn_isSha1Ready c \<longrightarrow> cn_sha1 c = sha (content p c) \<and>
     (cn_isHit c \<longleftrightarrow> cn_length c \<le> WAPROX_MIN_CHUNK_SIZE \<or> hint (sha (content p c)))"

definition resolved :: "(byte list \<Rightarrow> sha1) \<Rightarrow> (sha1 \<Rightarrow> bool) \<Rightarrow> byte list \<Rightarrow> OneChunkName list \<Rightarrow> nat \<Rightarrow> bool" where
  "resolved sha hint p ns i \<longleftrightarrow> named sha hint p (ns ! i) \<and>
     (i = 0 \<or> \<not> cn_isHit (ns ! par ns i) \<longrightarrow> cn_isSha1Ready (ns ! i)) \<and>
     (i \<noteq> 0 \<longrightarrow> cn_isHit (ns ! par ns i) \<longrightarrow> cn_isHit (ns ! i))"

text \<open>The parts of a name that resolution leaves alone.\<close>

definition skel :: "OneChunkName \<Rightarrow> (nat \<times> nat \<times> nat \<times> nat \<times> byte list option) \<times> int \<times> bool" where
  "skel c = (geom c, cn_parentIdx c, cn_isCandidate c)"

lemma skel_geom: "map skel ns' = map skel ns \<Longrightarrow> same_geom ns ns'"
proof -
  assume "map skel ns' = map skel ns"
  then have "map fst (map skel ns') = map fst (map skel ns)" by simp
  then show ?thesis by (simp add: same_geom_def skel_def comp_def)
qed

lemma skel_nth:
  assumes "map skel ns' = map skel ns" "i < length ns"
  shows "cn_parentIdx (ns' ! i) = cn_parentIdx (ns ! i)" "cn_isCandidate (ns' ! i) = cn_isCandidate (ns ! i)"
    "par ns' i = par ns i" "GetParent2 ns' i = GetParent2 ns i"
proof -
  have "length ns' = length ns" using assms(1) by (metis length_map)
  then have "skel (ns' ! i) = skel (ns ! i)" using assms by (metis nth_map)
  then show "cn_parentIdx (ns' ! i) = cn_parentIdx (ns ! i)" "cn_isCandidate (ns' ! i) = cn_isCandidate (ns ! i)"
    "par ns' i = par ns i" "GetParent2 ns' i = GetParent2 ns i"
    by (auto simp: skel_def par_def GetParent2_def)
qed

lemma map_update_same: "i < length xs \<Longrightarrow> f y = f (xs ! i) \<Longrightarrow> map f (xs[i := y]) = map f xs"
  by (rule nth_equalityI) (auto simp: nth_list_update)

lemma linked_tree_parents:
  assumes "linked_tree p e pli ns" "same_geom ns ns'"
    and "\<And>i. i < length ns \<Longrightarrow> cn_parentIdx (ns' ! i) = cn_parentIdx (ns ! i)"
  shows "linked_tree p e pli ns'"
proof -
  have t: "tree_ok p e pli ns" using assms(1) by (simp add: linked_tree_def)
  have "tree_linked pli ns'"
    unfolding tree_linked_def
  proof (intro allI impI)
    fix k assume k: "Suc k < length pli"
    have b: "lv_past pli k \<le> length ns" "lv_past pli (Suc k) \<le> length ns"
      using tree_ok_bounds(2)[OF t] k by auto
    show "linked (lv_first pli k) (lv_past pli k) (lv_first pli (Suc k)) (lv_past pli (Suc k)) ns'"
      using assms(1) k b assms(3) by (intro linked_cong[OF _ assms(2)]) (auto simp: linked_tree_def tree_linked_def)
  qed
  then show ?thesis using tree_ok_geom[OF t assms(2)] by (simp add: linked_tree_def)
qed

lemma linked_tree_skel:
  assumes "linked_tree p e pli ns" "map skel ns' = map skel ns"
  shows "linked_tree p e pli ns'"
  using linked_tree_parents[OF assms(1) skel_geom[OF assms(2)]] skel_nth(1)[OF assms(2)] by blast

lemma parent_below:
  assumes "linked_tree p e pli ns" "i < length ns" "i \<noteq> 0"
  shows "par ns i < i" "GetParent2 ns i = int (par ns i)" "covers ns i \<subseteq> covers ns (par ns i)"
proof -
  have t: "tree_ok p e pli ns" using assms(1) by (simp add: linked_tree_def)
  from level_of[OF t assms(2)] obtain k where k: "k < length pli" "in_level pli k i" by blast
  have "lv_past pli 0 = 1" using t by (simp add: tree_ok_def)
  then have "k \<noteq> 0" using k(2) assms(3) by (cases k) (auto simp: in_level_def)
  then obtain k' where "k = Suc k'" by (cases k) auto
  then show "par ns i < i" "GetParent2 ns i = int (par ns i)" "covers ns i \<subseteq> covers ns (par ns i)"
    using parent_level[OF assms(1), of k' i] k by auto
qed


lemma content_chunk:
  assumes "linked_tree p e pli ns" "i < length ns"
  shows "cn_pChunk (ns ! i) = Some (content p (ns ! i))" "0 < cn_length (ns ! i)" "cn_end (ns ! i) \<le> e"
    "cn_index (ns ! i) = i"
proof -
  have t: "tree_ok p e pli ns" using assms(1) by (simp add: linked_tree_def)
  from level_of[OF t assms(2)] obtain k where k: "k < length pli" "lv_first pli k \<le> i" "i < lv_past pli k"
    by (auto simp: in_level_def)
  note L = tree_ok_level[OF t k(1)]
  show "cn_pChunk (ns ! i) = Some (content p (ns ! i))" "0 < cn_length (ns ! i)" "cn_index (ns ! i) = i"
    using level_tiles_at[OF L k(2,3)] by (auto simp: content_def)
  show "cn_end (ns ! i) \<le> e" using level_tiles_end_le[OF L k(2,3)] by simp
qed

abbreviation hint_of :: "cache \<Rightarrow> bool \<Rightarrow> sha1 \<Rightarrow> bool" where
  "hint_of s isSender n \<equiv> if isSender then GetSendHint s n else GetDiskHint s n"

lemma CheckNameHint_named:
  assumes "cn_pChunk c = Some (content p c)"
  shows "CheckNameHint sha s isSender c =
    Inr (c\<lparr>cn_sha1 := sha (content p c), cn_isSha1Ready := True, cn_isHit := hint_of s isSender (sha (content p c))\<rparr>)"
  using assms by (simp add: CheckNameHint_def content_def Let_def)

text \<open>The copied name of a chunk as long as its parent is right, because the chunks are the same.\<close>

lemma same_as_parent:
  assumes "linked_tree p e pli ns" "i < length ns" "i \<noteq> 0" "cn_length (ns ! par ns i) = cn_length (ns ! i)"
  shows "content p (ns ! i) = content p (ns ! par ns i)"
proof -
  have "0 < cn_length (ns ! i)" using content_chunk(2)[OF assms(1,2)] .
  with parent_below(3)[OF assms(1-3)] assms(4) have "cn_offset (ns ! par ns i) = cn_offset (ns ! i)"
    by (auto simp: covers_def cn_end_def)
  with assms(4) show ?thesis by (simp add: content_def)
qed

lemma par_ready:
  assumes "resolved sha hint p ns q" "\<not> cn_isHit (ns ! q)"
  shows "cn_isSha1Ready (ns ! q)"
  using assms by (auto simp: resolved_def)

lemma named_simps: "\<not> cn_isSha1Ready c \<Longrightarrow> named sha hint p c"
  by (simp add: named_def)

lemma named_update: "named sha hint p (c\<lparr>cn_sha1 := n, cn_isSha1Ready := r, cn_isHit := b\<rparr>) \<longleftrightarrow>
    (r \<longrightarrow> n = sha (content p c) \<and> (b \<longleftrightarrow> cn_length c \<le> WAPROX_MIN_CHUNK_SIZE \<or> hint (sha (content p c))))"
  by (simp add: named_def content_def)

lemma resolve_one_ok:
  assumes "linked_tree p e pli ns" "i < length ns" "\<forall>j < i. resolved sha (hint_of s isSender) p ns j"
    and "\<not> cn_isSha1Ready (ns ! i)"
  shows "\<exists>c. resolve_one sha s isSender p i (cn_offset (ns ! i)) ns = Inr c \<and> skel c = skel (ns ! i) \<and>
    named sha (hint_of s isSender) p c \<and> (i = 0 \<or> \<not> cn_isHit (ns ! par ns i) \<longrightarrow> cn_isSha1Ready c) \<and>
    (i \<noteq> 0 \<longrightarrow> cn_isHit (ns ! par ns i) \<longrightarrow> cn_isHit c)"
proof -
  let ?cur = "ns ! i" and ?n = "sha (content p (ns ! i))"
  let ?c = "\<lambda>b. ?cur\<lparr>cn_sha1 := ?n, cn_isSha1Ready := True, cn_isHit := b\<rparr>"
  note ck = CheckNameHint_named[OF content_chunk(1)[OF assms(1,2)], of sha s isSender]
  have blk: "take (cn_length ?cur) (drop (cn_offset ?cur) p) = content p ?cur" by (simp add: content_def)
  have sk: "skel (?c b) = skel ?cur" for b by (simp add: skel_def geom_def)
  have par: "\<not> (GetParent2 ns i < 0 \<or> GetParent2 ns i \<ge> int (length ns))" if "i \<noteq> 0"
    using parent_below[OF assms(1,2) that] assms(2) by simp
  note run = resolve_one_def Let_def ck blk VerifySHA1_def
  consider (small) "cn_length ?cur \<le> WAPROX_MIN_CHUNK_SIZE"
    | (known) "\<not> cn_length ?cur \<le> WAPROX_MIN_CHUNK_SIZE" "i \<noteq> 0" "cn_isHit (ns ! par ns i)"
    | (same) "\<not> cn_length ?cur \<le> WAPROX_MIN_CHUNK_SIZE" "i \<noteq> 0" "\<not> cn_isHit (ns ! par ns i)"
        "cn_length (ns ! par ns i) = cn_length ?cur"
    | (fresh) "\<not> cn_length ?cur \<le> WAPROX_MIN_CHUNK_SIZE"
        "i = 0 \<or> \<not> cn_isHit (ns ! par ns i) \<and> cn_length (ns ! par ns i) \<noteq> cn_length ?cur" by metis
  then show ?thesis
  proof cases
    case small
    then have "resolve_one sha s isSender p i (cn_offset ?cur) ns = Inr (?c True)" by (simp add: run)
    with small sk show ?thesis by (intro exI[of _ "?c True"]) (simp add: named_update)
  next
    case known
    then have "resolve_one sha s isSender p i (cn_offset ?cur) ns = Inr (?cur\<lparr>cn_isHit := True\<rparr>)"
      using par by (simp add: run flip: par_def)
    with known assms(4) show ?thesis
      by (intro exI[of _ "?cur\<lparr>cn_isHit := True\<rparr>"]) (simp add: named_def skel_def geom_def)
  next
    case same
    have q: "resolved sha (hint_of s isSender) p ns (par ns i)"
      using assms(3) parent_below(1)[OF assms(1,2) same(2)] by blast
    from par_ready[OF this same(3)] have r: "cn_isSha1Ready (ns ! par ns i)" .
    with q have n: "cn_sha1 (ns ! par ns i) = ?n" "\<not> hint_of s isSender ?n"
      using same same_as_parent[OF assms(1,2) same(2,4)] by (auto simp: resolved_def named_def)
    then have "resolve_one sha s isSender p i (cn_offset ?cur) ns = Inr (?c False)"
      using same r par by (simp add: run flip: par_def)
    moreover have "named sha (hint_of s isSender) p (?c False)" unfolding named_update using n same(1) by blast
    ultimately show ?thesis using same sk by (intro exI[of _ "?c False"]) simp
  next
    case fresh
    then have "resolve_one sha s isSender p i (cn_offset ?cur) ns = Inr (?c (hint_of s isSender ?n))"
      using par unfolding run by (auto simp flip: par_def)
    moreover have "named sha (hint_of s isSender) p (?c (hint_of s isSender ?n))"
      unfolding named_update using fresh(1) by blast
    ultimately show ?thesis using fresh sk by (intro exI[of _ "?c (hint_of s isSender ?n)"]) auto
  qed
qed

text \<open>Resolving chunk \<open>i\<close> leaves the chunks before it resolved, because no parent comes after its child.\<close>

lemma resolved_update:
  assumes "linked_tree p e pli ns" "i < length ns" "skel c = skel (ns ! i)" "\<forall>j < i. resolved sha hint p ns j"
    and "named sha hint p c" "i = 0 \<or> \<not> cn_isHit (ns ! par ns i) \<longrightarrow> cn_isSha1Ready c"
    and "i \<noteq> 0 \<longrightarrow> cn_isHit (ns ! par ns i) \<longrightarrow> cn_isHit c"
  shows "\<forall>j < Suc i. resolved sha hint p (ns[i := c]) j"
proof (intro allI impI)
  have sk: "map skel (ns[i := c]) = map skel ns" using assms(2,3) by (intro map_update_same) auto
  fix j assume "j < Suc i"
  then have j: "j < length ns" "j \<le> i" using assms(2) by auto
  have pr: "par (ns[i := c]) j = par ns j" using skel_nth(3)[OF sk j(1)] .
  have "par ns j < i" if "j \<noteq> 0" using parent_below(1)[OF assms(1) j(1) that] j(2) by simp
  then show "resolved sha hint p (ns[i := c]) j"
    using assms(2,4-7) j pr by (cases "j = i"; cases "j = 0") (auto simp: resolved_def)
qed

lemma resolve_level_ok:
  assumes "linked_tree p e pli ns" "k < length pli" "lv_first pli k \<le> i" "i + j = lv_past pli k"
    and "\<forall>m < i. resolved sha (hint_of s isSender) p ns m" "\<forall>m. i \<le> m \<and> m < length ns \<longrightarrow> \<not> cn_isSha1Ready (ns ! m)"
    and "0 < j \<longrightarrow> off = cn_offset (ns ! i)"
  shows "\<exists>ns' h. resolve_level sha s isSender p e j i off nh ns = Inr (ns', h) \<and> map skel ns' = map skel ns \<and>
    (\<forall>m < lv_past pli k. resolved sha (hint_of s isSender) p ns' m) \<and>
    (\<forall>m. lv_past pli k \<le> m \<and> m < length ns \<longrightarrow> \<not> cn_isSha1Ready (ns' ! m))"
  using assms
proof (induction j arbitrary: i off nh ns)
  case 0
  then show ?case by simp
next
  case (Suc j)
  have t: "tree_ok p e pli ns" using Suc.prems(1) by (simp add: linked_tree_def)
  note L = tree_ok_level[OF t Suc.prems(2)]
  have il: "i < lv_past pli k" "i < length ns" using Suc.prems(4) tree_ok_bounds(2)[OF t Suc.prems(2)] by auto
  have off: "off = cn_offset (ns ! i)" using Suc.prems(7) by simp
  from resolve_one_ok[OF Suc.prems(1) il(2) Suc.prems(5)] Suc.prems(6) il(2) obtain c where
    c: "resolve_one sha s isSender p i off ns = Inr c" "skel c = skel (ns ! i)"
      "named sha (hint_of s isSender) p c" "i = 0 \<or> \<not> cn_isHit (ns ! par ns i) \<longrightarrow> cn_isSha1Ready c"
      "i \<noteq> 0 \<longrightarrow> cn_isHit (ns ! par ns i) \<longrightarrow> cn_isHit c" using off by auto
  let ?ns = "ns[i := c]"
  have sk: "map skel ?ns = map skel ns" using il(2) c(2) by (intro map_update_same) auto
  have g: "cn_length c = cn_length (ns ! i)" "cn_offset (?ns ! i) = cn_offset (ns ! i)"
    using c(2) il(2) by (auto simp: skel_def geom_def)
  have nxt: "0 < j \<longrightarrow> off + cn_length c = cn_offset (?ns ! (i + 1))"
    using level_tiles_at(5)[OF L, of "Suc i"] Suc.prems(3,4) off g by (auto simp: cn_end_def)
  have "\<exists>ns' h. resolve_level sha s isSender p e j (i + 1) (off + cn_length c)
      (if cn_isHit c then nh + 1 else nh) ?ns = Inr (ns', h) \<and> map skel ns' = map skel ?ns \<and>
    (\<forall>m < lv_past pli k. resolved sha (hint_of s isSender) p ns' m) \<and>
    (\<forall>m. lv_past pli k \<le> m \<and> m < length ?ns \<longrightarrow> \<not> cn_isSha1Ready (ns' ! m))"
    using resolved_update[OF Suc.prems(1) il(2) c(2) Suc.prems(5) c(3-5)] Suc.prems(2-4,6) nxt
    by (intro Suc.IH linked_tree_skel[OF Suc.prems(1) sk]) auto
  moreover have "off + cn_length (ns ! i) \<le> e"
    using content_chunk(3)[OF Suc.prems(1) il(2)] off by (simp add: cn_end_def)
  ultimately show ?case using il(2) off c(1) sk by simp
qed

lemma resolve_levels_ok:
  assumes "linked_tree p e pli ns" "k + length rest = length pli" "rest = drop k pli"
    and "\<forall>m < (if k = 0 then 0 else lv_past pli (k - 1)). resolved sha (hint_of s isSender) p ns m"
    and "\<forall>m. (if k = 0 then 0 else lv_past pli (k - 1)) \<le> m \<and> m < length ns \<longrightarrow> \<not> cn_isSha1Ready (ns ! m)"
    and "low = k - 1" "0 < k \<or> rest \<noteq> []"
  shows "\<exists>ns' low'. resolve_levels sha s isSender p e k low rest ns = Inr (ns', low') \<and> low' < length pli \<and>
    map skel ns' = map skel ns \<and> (\<forall>m < lv_past pli low'. resolved sha (hint_of s isSender) p ns' m)"
  using assms
proof (induction rest arbitrary: k low ns)
  case Nil
  then show ?case by auto
next
  case (Cons pl rest)
  have k: "k < length pli" using Cons.prems(2) by simp
  from Cons_nth_drop_Suc[OF this] Cons.prems(3) have "pli ! k # drop (Suc k) pli = pl # rest" by simp
  with k have k: "k < length pli" "pli ! k = pl" "rest = drop (Suc k) pli" by auto
  have t: "tree_ok p e pli ns" using Cons.prems(1) by (simp add: linked_tree_def)
  have first: "lv_first pli k = (if k = 0 then 0 else lv_past pli (k - 1))"
    using tree_ok_next(1)[OF t, of "k - 1"] k(1) root_index(1)[OF Cons.prems(1)] by (cases k) auto
  have pl: "pl_firstIndex pl = lv_first pli k" "lv_first pli k + pl_numNames pl = lv_past pli k"
    using k(2) by (auto simp: lv_first_def lv_past_def)
  have "0 < pl_numNames pl \<longrightarrow> 0 = cn_offset (ns ! lv_first pli k)"
    using level_tiles_at(5)[OF tree_ok_level[OF t k(1)], of "lv_first pli k"] tree_ok_bounds(1)[OF t k(1)] by simp
  from resolve_level_ok[OF Cons.prems(1) k(1) order_refl pl(2) _ _ this, where sha = sha and s = s and isSender = isSender and nh = 0] Cons.prems(4,5)
  obtain ns' h where R: "resolve_level sha s isSender p e (pl_numNames pl) (lv_first pli k) 0 0 ns = Inr (ns', h)"
    "map skel ns' = map skel ns" "\<forall>m < lv_past pli k. resolved sha (hint_of s isSender) p ns' m"
    "\<forall>m. lv_past pli k \<le> m \<and> m < length ns \<longrightarrow> \<not> cn_isSha1Ready (ns' ! m)"
    unfolding first by blast
  have len: "length ns' = length ns" using R(2) by (metis length_map)
  show ?case
  proof (cases "h = pl_numNames pl")
    case True
    then show ?thesis using R k(1) pl(1) by auto
  next
    case False
    have "\<exists>ns'' low'. resolve_levels sha s isSender p e (Suc k) k rest ns' = Inr (ns'', low') \<and> low' < length pli \<and>
      map skel ns'' = map skel ns' \<and> (\<forall>m < lv_past pli low'. resolved sha (hint_of s isSender) p ns'' m)"
      using R k Cons.prems(2) len by (intro Cons.IH linked_tree_skel[OF Cons.prems(1)]) auto
    then show ?thesis using R False pl(1) by auto
  qed
qed

lemma ResolveWithHint_ok:
  assumes "linked_tree p e pli ns" "list_all fresh_name ns"
  shows "\<exists>ns' low. ResolveWithHint sha s ns p e pli isSender = Inr (ns', low) \<and> low < length pli \<and>
    map skel ns' = map skel ns \<and> (\<forall>m < lv_past pli low. resolved sha (hint_of s isSender) p ns' m)"
proof -
  have "\<not> cn_isSha1Ready (ns ! m)" if "m < length ns" for m
    using assms(2) that by (simp add: list_all_length fresh_name_def)
  then show ?thesis
    using root_index(2)[OF assms(1)] unfolding ResolveWithHint_def
    by (intro resolve_levels_ok[OF assms(1), of 0 pli]) auto
qed


section \<open>The candidates cover the block\<close>

text \<open>
  A set of intervals that covers \<open>U\<close> without overlaps stays one when some of them are replaced by
  their union.
\<close>

definition exact_cover :: "('i \<Rightarrow> nat set) \<Rightarrow> 'i set \<Rightarrow> nat set \<Rightarrow> bool" where
  "exact_cover I C U \<longleftrightarrow> (\<Union>i\<in>C. I i) = U \<and> (\<forall>i\<in>C. \<forall>j\<in>C. i \<noteq> j \<longrightarrow> I i \<inter> I j = {})"

lemma exact_cover_merge:
  assumes "exact_cover I C U" "G \<subseteq> C" "(\<Union>i\<in>G. I i) = I q"
  shows "exact_cover I (insert q (C - G)) U"
proof -
  have "(\<Union>i\<in>insert q (C - G). I i) = (\<Union>i\<in>G. I i) \<union> (\<Union>i\<in>C - G. I i)" using assms(3) by simp
  also have "\<dots> = U" using assms(1,2) by (auto simp: exact_cover_def)
  finally have "(\<Union>i\<in>insert q (C - G). I i) = U" .
  moreover have "I q \<inter> I j = {}" if "j \<in> C - G" for j
  proof -
    have "I i \<inter> I j = {}" if "i \<in> G" for i
      using assms(1,2) that \<open>j \<in> C - G\<close> unfolding exact_cover_def by (metis DiffD1 DiffD2 subsetD)
    then show ?thesis unfolding assms(3)[symmetric] by blast
  qed
  ultimately show ?thesis using assms(1) unfolding exact_cover_def by (auto simp: Int_commute)
qed

text \<open>A covering set that includes all parts of \<open>q\<close> does not include a nonempty \<open>q\<close> besides.\<close>

lemma exact_cover_not_union:
  assumes "exact_cover I C U" "G \<subseteq> C" "(\<Union>i\<in>G. I i) = I q" "I q \<noteq> {}" "q \<notin> G"
  shows "q \<notin> C"
proof
  assume "q \<in> C"
  then have "I q \<inter> I i = {}" if "i \<in> G" for i using assms that unfolding exact_cover_def by (metis subsetD)
  then have "I q = {}" using assms(3) by blast
  with assms(4) show False by simp
qed

text \<open>The intervals of an exact cover, in the order of their offsets, tile it.\<close>

lemma exact_cover_tiled:
  assumes "sorted (map ca_offset cs)" "distinct cs" "\<forall>c \<in> set cs. 0 < ca_length c"
    and "exact_cover (\<lambda>c. {ca_offset c..<ca_offset c + ca_length c}) (set cs) {a..<e}" "a \<le> e"
  shows "tiled a cs \<and> a + span cs = e"
  using assms
proof (induction cs arbitrary: a)
  case Nil
  then show ?case by (auto simp: exact_cover_def)
next
  case (Cons c cs)
  let ?I = "\<lambda>c. {ca_offset c..<ca_offset c + ca_length c}"
  have ec: "(\<Union>c\<in>set (c # cs). ?I c) = {a..<e}" "\<And>d. d \<in> set cs \<Longrightarrow> ?I c \<inter> ?I d = {}"
    using Cons.prems(2,4) unfolding exact_cover_def by auto
  have len: "0 < ca_length c" using Cons.prems(3) by simp
  then have "ca_offset c \<in> ?I c" by simp
  then have c: "a \<le> ca_offset c" "ca_offset c < e" using ec(1) by auto
  have le: "ca_offset c \<le> ca_offset d" if "d \<in> set cs" for d using Cons.prems(1) that by auto
  have "a \<in> (\<Union>c\<in>set (c # cs). ?I c)" unfolding ec(1) using c by simp
  then have off: "ca_offset c = a" using c(1) le by fastforce
  have "a + ca_length c - 1 \<in> (\<Union>c\<in>set (c # cs). ?I c)" using off len by (intro UN_I[of c]) auto
  then have ce: "a + ca_length c \<le> e" unfolding ec(1) by auto
  have past: "a + ca_length c \<le> ca_offset d" if "d \<in> set cs" for d
  proof (rule ccontr)
    assume "\<not> a + ca_length c \<le> ca_offset d"
    then have "ca_offset d \<in> ?I c \<inter> ?I d" using le[OF that] off Cons.prems(3) that by auto
    with ec(2)[OF that] show False by blast
  qed
  have "(\<Union>c\<in>set cs. ?I c) = {a + ca_length c..<e}"
  proof (intro set_eqI iffI)
    fix x assume "x \<in> (\<Union>c\<in>set cs. ?I c)"
    then obtain d where d: "d \<in> set cs" "x \<in> ?I d" by blast
    then have "x \<in> {a..<e}" unfolding ec(1)[symmetric] by auto
    with past[OF d(1)] d(2) show "x \<in> {a + ca_length c..<e}" by auto
  next
    fix x assume x: "x \<in> {a + ca_length c..<e}"
    then have "x \<in> (\<Union>c\<in>set (c # cs). ?I c)" unfolding ec(1) by simp
    then show "x \<in> (\<Union>c\<in>set cs. ?I c)" using x off by auto
  qed
  then have "exact_cover ?I (set cs) {a + ca_length c..<e}"
    using Cons.prems(4) unfolding exact_cover_def by auto
  from Cons.IH[OF _ _ _ this ce] Cons.prems(1-3) off show ?case by simp
qed


text \<open>The children of a chunk are consecutive.\<close>

lemma par_mono:
  assumes "linked_tree p e pli ns" "Suc k < length pli" "in_level pli (Suc k) i" "in_level pli (Suc k) j" "i \<le> j"
  shows "par ns i \<le> par ns j"
proof (rule ccontr)
  assume "\<not> par ns i \<le> par ns j"
  then have lt: "par ns j < par ns i" "i < j" using assms(5) by (auto simp: nat_less_le)
  have t: "tree_ok p e pli ns" using assms(1) by (simp add: linked_tree_def)
  note L = tree_ok_level[OF t assms(2)] tree_ok_level[OF t Suc_lessD[OF assms(2)]]
  note pi = parent_level[OF assms(1-3)] and pj = parent_level[OF assms(1,2,4)]
  have "cn_end (ns ! par ns j) \<le> cn_offset (ns ! par ns i)"
    using level_tiles_end_mono(1)[OF L(2), of "par ns j" "par ns i"] lt pi(2) pj(2) by (auto simp: in_level_def)
  moreover have "cn_end (ns ! i) \<le> cn_offset (ns ! j)"
    using level_tiles_end_mono(1)[OF L(1), of i j] lt assms(3,4) by (auto simp: in_level_def)
  moreover have "cn_offset (ns ! i) < cn_end (ns ! i)" "cn_offset (ns ! j) < cn_end (ns ! j)"
    using level_tiles_at(3)[OF L(1)] assms(3,4) by (auto simp: in_level_def cn_end_def)
  moreover from this have "cn_offset (ns ! par ns i) \<le> cn_offset (ns ! i)" "cn_end (ns ! j) \<le> cn_end (ns ! par ns j)"
    using pi(3) pj(3) by (auto simp: covers_def)
  ultimately show False by linarith
qed

definition siblings :: "MRCPerLevelInfo list \<Rightarrow> OneChunkName list \<Rightarrow> nat \<Rightarrow> nat \<Rightarrow> nat set" where
  "siblings pli ns k q = {i. in_level pli k i \<and> par ns i = q}"

lemma siblings_run:
  assumes "linked_tree p e pli ns" "Suc k < length pli" "in_level pli (Suc k) m" "in_level pli (Suc k) c" "m \<le> c"
    and "par ns m = q" "par ns c = q" "m = lv_first pli (Suc k) \<or> par ns (m - 1) \<noteq> q"
    and "Suc c = lv_past pli (Suc k) \<or> par ns (Suc c) \<noteq> q"
  shows "siblings pli ns (Suc k) q = {m..<Suc c}"
proof (intro set_eqI iffI)
  note mono = par_mono[OF assms(1,2)]
  fix i assume "i \<in> siblings pli ns (Suc k) q"
  then have i: "in_level pli (Suc k) i" "par ns i = q" by (auto simp: siblings_def)
  have "m \<le> i"
  proof (rule ccontr)
    assume "\<not> m \<le> i"
    then have "i \<le> m - 1" "m - 1 \<le> m" "m \<noteq> lv_first pli (Suc k)" using i(1) by (auto simp: in_level_def)
    moreover from this have "in_level pli (Suc k) (m - 1)" using assms(3) i(1) by (auto simp: in_level_def)
    ultimately show False
      using mono[OF i(1), of "m - 1"] mono[of "m - 1" m] assms(3,6,8) i by auto
  qed
  moreover have "i \<le> c"
  proof (rule ccontr)
    assume "\<not> i \<le> c"
    moreover from this have "in_level pli (Suc k) (Suc c)" using assms(4) i(1) by (auto simp: in_level_def)
    ultimately show False
      using mono[OF _ i(1), of "Suc c"] mono[OF assms(4), of "Suc c"] assms(7,9) i by (auto simp: in_level_def)
  qed
  ultimately show "i \<in> {m..<Suc c}" by simp
next
  fix i assume i: "i \<in> {m..<Suc c}"
  then have l: "in_level pli (Suc k) i" using assms(3,4) by (auto simp: in_level_def)
  have "par ns m \<le> par ns i" "par ns i \<le> par ns c"
    using par_mono[OF assms(1,2)] assms(3,4) l i by auto
  then show "i \<in> siblings pli ns (Suc k) q" using l assms(6,7) by (simp add: siblings_def)
qed

text \<open>
  The state of the choice while level \<open>k\<close> is processed up to chunk \<open>m\<close>: the candidates \<open>C\<close> cover the
  block exactly; below, no candidate has a known parent; the known parents of the chunks done are
  candidates; and so are the known chunks still to come.
\<close>

definition choice_inv :: "MRCPerLevelInfo list \<Rightarrow> nat \<Rightarrow> nat \<Rightarrow> OneChunkName list \<Rightarrow> nat \<Rightarrow> nat \<Rightarrow> nat set \<Rightarrow> bool" where
  "choice_inv pli e low ns k m C \<longleftrightarrow> exact_cover (covers ns) C {0..<e} \<and> C \<subseteq> {..<lv_past pli low} \<and>
     (\<forall>i \<in> C. lv_past pli k \<le> i \<or> in_level pli k i \<and> i < m \<longrightarrow> i = 0 \<or> \<not> cn_isHit (ns ! par ns i)) \<and>
     (\<forall>i. in_level pli k i \<and> i < m \<and> i \<noteq> 0 \<and> cn_isHit (ns ! par ns i) \<longrightarrow> par ns i \<in> C) \<and>
     (\<forall>i. in_level pli k i \<and> m \<le> i \<and> cn_isHit (ns ! i) \<longrightarrow> i \<in> C)"

definition flush_set :: "OneChunkName list \<Rightarrow> nat set \<Rightarrow> nat \<Rightarrow> nat set \<Rightarrow> nat set" where
  "flush_set ns G q C = (if G \<subseteq> C then
       if (\<forall>i \<in> G. \<not> cn_isHit (ns ! i)) \<or> (\<forall>i \<in> G. cn_isHit (ns ! i)) then insert q (C - G) else C \<union> G - {q}
     else C)"

text \<open>Children of a chunk that is not known can be passed without a change.\<close>

lemma choice_inv_stay:
  assumes "choice_inv pli e low ns k m C" "m < m'"
    and "\<And>i. m \<le> i \<Longrightarrow> i < m' \<Longrightarrow> in_level pli k i \<and> par ns i = q" "\<not> cn_isHit (ns ! q)"
  shows "choice_inv pli e low ns k m' C"
proof -
  note I = assms(1)[unfolded choice_inv_def]
  have "par ns i = q" if "i < m'" "\<not> i < m" for i using assms(3) that by simp
  then have "\<forall>i\<in>C. lv_past pli k \<le> i \<or> in_level pli k i \<and> i < m' \<longrightarrow> i = 0 \<or> \<not> cn_isHit (ns ! par ns i)"
    "\<forall>i. in_level pli k i \<and> i < m' \<and> i \<noteq> 0 \<and> cn_isHit (ns ! par ns i) \<longrightarrow> par ns i \<in> C"
    "\<forall>i. in_level pli k i \<and> m' \<le> i \<and> cn_isHit (ns ! i) \<longrightarrow> i \<in> C"
    using I assms(2,4) by (metis, metis, auto)
  then show ?thesis using I unfolding choice_inv_def by blast
qed

lemma flush_set_inv:
  assumes "linked_tree p e pli ns" "Suc k < length pli" "Suc k \<le> low" "low < length pli"
    and "\<And>i. i < lv_past pli low \<Longrightarrow> i \<noteq> 0 \<Longrightarrow> cn_isHit (ns ! par ns i) \<Longrightarrow> cn_isHit (ns ! i)"
    and "siblings pli ns (Suc k) q = {m..<m'}" "m < m'"
    and "choice_inv pli e low ns (Suc k) m C"
  shows "choice_inv pli e low ns (Suc k) m' (flush_set ns {m..<m'} q C)"
proof -
  have t: "tree_ok p e pli ns" using assms(1) by (simp add: linked_tree_def)
  have G: "in_level pli (Suc k) i \<and> par ns i = q" if "m \<le> i" "i < m'" for i
  proof -
    have "i \<in> siblings pli ns (Suc k) q" unfolding assms(6) using that by simp
    then show ?thesis by (simp add: siblings_def)
  qed
  have m: "in_level pli (Suc k) m" "par ns m = q" using G[of m] assms(7) by auto
  have q: "in_level pli k q" using parent_level(2)[OF assms(1,2) m(1)] m(2) by simp
  have lv: "lv_past pli k = lv_first pli (Suc k)" "lv_past pli (Suc k) \<le> lv_past pli low" "q < lv_past pli k"
    using tree_ok_next(1)[OF t assms(2)] lv_past_mono[OF t, of "Suc k" low] tree_ok_bounds(1)[OF t assms(4)] assms(3,4) q
    by (auto simp: in_level_def le_less)
  have qout: "q \<notin> {m..<m'}" "\<not> in_level pli (Suc k) q" "q < lv_first pli (Suc k)"
    using lv(1,3) m(1) by (auto simp: in_level_def)
  have un: "(\<Union>i\<in>{m..<m'}. covers ns i) = covers ns q"
    using children_cover[OF assms(1,2) q] unfolding assms(6)[symmetric] siblings_def by simp
  have "covers ns q \<noteq> {}"
    using content_chunk(2)[OF assms(1), of q] lv(3) tree_ok_bounds(2)[OF t, of k] assms(2)
    by (auto simp: covers_def cn_end_def)
  then have notin: "q \<notin> C" if "{m..<m'} \<subseteq> C"
    using exact_cover_not_union[OF _ that un _ qout(1)] assms(8) by (auto simp: choice_inv_def)
  have inh: "cn_isHit (ns ! i)" if "cn_isHit (ns ! q)" "m \<le> i" "i < m'" for i
    using assms(5)[of i] G[OF that(2,3)] that(1) lv by (auto simp: in_level_def)
  have bound: "lv_first pli (Suc k) \<le> m" "m' \<le> lv_past pli (Suc k)"
  proof -
    have "m \<le> m' - 1" "m' - 1 < m'" using assms(7) by auto
    from G[OF this] m(1) show "lv_first pli (Suc k) \<le> m" "m' \<le> lv_past pli (Suc k)" by (auto simp: in_level_def)
  qed
  note I = assms(8)[unfolded choice_inv_def]
  let ?uniform = "(\<forall>i \<in> {m..<m'}. \<not> cn_isHit (ns ! i)) \<or> (\<forall>i \<in> {m..<m'}. cn_isHit (ns ! i))"
  consider (none) "\<not> {m..<m'} \<subseteq> C" | (merge) "{m..<m'} \<subseteq> C" ?uniform | (mixed) "{m..<m'} \<subseteq> C" "\<not> ?uniform"
    by blast
  then show ?thesis
  proof cases
    case merge
    have "choice_inv pli e low ns (Suc k) m' (insert q (C - {m..<m'}))"
      unfolding choice_inv_def
    proof (intro conjI)
      show "exact_cover (covers ns) (insert q (C - {m..<m'})) {0..<e}"
        using exact_cover_merge[OF _ merge(1) un] I by blast
      show "insert q (C - {m..<m'}) \<subseteq> {..<lv_past pli low}" using I lv tree_ok_bounds(1)[OF t assms(2)] by auto
      show "\<forall>i\<in>insert q (C - {m..<m'}). lv_past pli (Suc k) \<le> i \<or> in_level pli (Suc k) i \<and> i < m' \<longrightarrow>
          i = 0 \<or> \<not> cn_isHit (ns ! par ns i)"
        using I qout lv tree_ok_bounds(1)[OF t assms(2)] by auto
      show "\<forall>i. in_level pli (Suc k) i \<and> i < m' \<and> i \<noteq> 0 \<and> cn_isHit (ns ! par ns i) \<longrightarrow> par ns i \<in> insert q (C - {m..<m'})"
      proof (intro allI impI)
        fix i assume i: "in_level pli (Suc k) i \<and> i < m' \<and> i \<noteq> 0 \<and> cn_isHit (ns ! par ns i)"
        have "par ns i < lv_first pli (Suc k)" using parent_level(2)[OF assms(1,2)] i lv(1) by (auto simp: in_level_def)
        then have "par ns i \<notin> {m..<m'}" using bound(1) by auto
        then show "par ns i \<in> insert q (C - {m..<m'})" using i I G[of i] by (cases "i < m") auto
      qed
      show "\<forall>i. in_level pli (Suc k) i \<and> m' \<le> i \<and> cn_isHit (ns ! i) \<longrightarrow> i \<in> insert q (C - {m..<m'})"
        using I assms(7) by auto
    qed
    then show ?thesis unfolding flush_set_def if_P[OF merge(1)] if_P[OF merge(2)] .
  next
    case none
    have nq: "\<not> cn_isHit (ns ! q)"
    proof
      assume "cn_isHit (ns ! q)"
      then have "{m..<m'} \<subseteq> C" using inh G I by auto
      with none show False by simp
    qed
    have f: "flush_set ns {m..<m'} q C = C" unfolding flush_set_def if_not_P[OF none] by (rule refl)
    show ?thesis unfolding f using choice_inv_stay[OF assms(8,7) G nq] .
  next
    case mixed
    then have nq: "\<not> cn_isHit (ns ! q)" using inh by auto
    have f: "flush_set ns {m..<m'} q C = C"
      unfolding flush_set_def if_P[OF mixed(1)] if_not_P[OF mixed(2)] using mixed(1) notin by auto
    show ?thesis unfolding f using choice_inv_stay[OF assms(8,7) G nq] .
  qed
qed


text \<open>The loops of the code, step by step.\<close>

definition chosen :: "OneChunkName list \<Rightarrow> nat set" where
  "chosen ns = {i. i < length ns \<and> cn_isCandidate (ns ! i)}"

definition unchosen :: "OneChunkName \<Rightarrow> OneChunkName" where
  "unchosen c = c\<lparr>cn_isCandidate := False\<rparr>"

lemma set_candidate_simps [simp]:
  "length (set_candidate b i ns) = length ns"
  "map unchosen (set_candidate b i ns) = map unchosen ns"
proof -
  show "map unchosen (set_candidate b i ns) = map unchosen ns"
    by (cases "i < length ns") (simp_all add: set_candidate_def map_update_same unchosen_def not_less list_update_beyond)
qed (simp add: set_candidate_def)

lemma fold_set_candidate [simp]:
  "length (fold (set_candidate b) is ns) = length ns"
  "map unchosen (fold (set_candidate b) is ns) = map unchosen ns"
  by (induction "is" arbitrary: ns) auto

lemma chosen_set: "i < length ns \<Longrightarrow> chosen (set_candidate b i ns) = (if b then insert i (chosen ns) else chosen ns - {i})"
  by (auto simp: chosen_def set_candidate_def nth_list_update)

lemma chosen_fold: "set is \<subseteq> {..<length ns} \<Longrightarrow>
    chosen (fold (set_candidate b) is ns) = (if b then chosen ns \<union> set is else chosen ns - set is)"
  by (induction "is" arbitrary: ns) (auto simp: chosen_set)

lemma unchosen_nth:
  assumes "map unchosen ns' = map unchosen ns"
  shows "length ns' = length ns" "i < length ns \<Longrightarrow> cn_isHit (ns' ! i) = cn_isHit (ns ! i)"
    "i < length ns \<Longrightarrow> GetParent2 ns' i = GetParent2 ns i" "same_geom ns ns'"
    "i < length ns \<Longrightarrow> unchosen (ns' ! i) = unchosen (ns ! i)"
    "i < length ns \<Longrightarrow> cn_parentIdx (ns' ! i) = cn_parentIdx (ns ! i)"
proof -
  show l: "length ns' = length ns" using assms by (metis length_map)
  show u: "unchosen (ns' ! i) = unchosen (ns ! i)" if "i < length ns" for i using assms l that by (metis nth_map)
  have f: "f (unchosen c) = f c" if "f \<in> {cn_isHit}" for f c using that by (auto simp: unchosen_def)
  show "cn_isHit (ns' ! i) = cn_isHit (ns ! i)" if "i < length ns" using u[OF that] by (metis f singletonI)
  show p: "cn_parentIdx (ns' ! i) = cn_parentIdx (ns ! i)" if "i < length ns" for i
    using arg_cong[OF u[OF that], of cn_parentIdx] by (simp add: unchosen_def)
  show "GetParent2 ns' i = GetParent2 ns i" if "i < length ns" using p[OF that] by (simp add: GetParent2_def)
  have "map geom (map unchosen ns') = map geom (map unchosen ns)" using assms by simp
  moreover have "geom \<circ> unchosen = geom" by (auto simp: geom_def unchosen_def)
  ultimately show "same_geom ns ns'" by (simp add: same_geom_def)
qed

lemma filter_all_length: "length (filter P xs) = length xs \<longleftrightarrow> (\<forall>x \<in> set xs. P x)"
  "length (filter P xs) = 0 \<longleftrightarrow> (\<forall>x \<in> set xs. \<not> P x)" "length (filter P xs) < length xs \<longleftrightarrow> \<not> (\<forall>x \<in> set xs. P x)"
proof -
  show "length (filter P xs) = length xs \<longleftrightarrow> (\<forall>x \<in> set xs. P x)"
    by (metis filter_True filter_id_conv length_filter_less less_irrefl)
  then show "length (filter P xs) < length xs \<longleftrightarrow> \<not> (\<forall>x \<in> set xs. P x)"
    by (metis length_filter_le nat_less_le)
qed (simp add: filter_empty_conv)

lemma FlushChildren_ok:
  assumes "stack \<noteq> []" "set stack \<subseteq> {..<length ns}" "q < length ns" "\<forall>i \<in> set stack. GetParent2 ns i = int q"
  shows "\<exists>ns'. FlushChildren ns stack = Inr ns' \<and> map unchosen ns' = map unchosen ns \<and>
    chosen ns' = flush_set ns (set stack) q (chosen ns)"
proof -
  have hd: "GetParent2 ns (hd stack) = int q" using assms(1,4) by simp
  have sub: "set stack \<subseteq> chosen ns \<longleftrightarrow> (\<forall>i \<in> set stack. cn_isCandidate (ns ! i))"
    using assms(2) by (auto simp: chosen_def)
  have run: "FlushChildren ns stack =
      (if \<not> set stack \<subseteq> chosen ns then Inr ns
       else if (\<forall>i \<in> set stack. \<not> cn_isHit (ns ! i)) \<or> (\<forall>i \<in> set stack. cn_isHit (ns ! i))
       then Inr (set_candidate True q (fold (set_candidate False) stack ns))
       else Inr (set_candidate False q (fold (set_candidate True) stack ns)))"
    using assms unfolding FlushChildren_def Let_def hd filter_all_length sub
    by (simp add: list_all_iff)
  show ?thesis
    unfolding run flush_set_def using chosen_set chosen_fold[OF assms(2)] assms(3) by auto
qed


lemma flush_level_ok:
  assumes "linked_tree p e pli ns0" "Suc k < length pli" "Suc k \<le> low" "low < length pli" "length ns0 \<le> g_maxNames cfg"
    and inh: "\<And>i. i < lv_past pli low \<Longrightarrow> i \<noteq> 0 \<Longrightarrow> cn_isHit (ns0 ! par ns0 i) \<Longrightarrow> cn_isHit (ns0 ! i)"
    and "map unchosen ns = map unchosen ns0" "choice_inv pli e low ns0 (Suc k) m (chosen ns)"
    and "in_level pli (Suc k) m" "m \<le> c" "c < lv_past pli (Suc k)" "\<forall>i. m \<le> i \<and> i \<le> c \<longrightarrow> par ns0 i = q"
    and "m = lv_first pli (Suc k) \<or> par ns0 (m - 1) \<noteq> q"
  shows "\<exists>ns'. flush_level cfg [m..<c] [c..<lv_past pli (Suc k)] ns = Inr ns' \<and> map unchosen ns' = map unchosen ns0 \<and>
    choice_inv pli e low ns0 (Suc k) (lv_past pli (Suc k)) (chosen ns')"
  using assms(7-)
proof (induction "lv_past pli (Suc k) - c" arbitrary: c m q ns)
  case 0
  then show ?case using "0.hyps" "0.prems"(5) by linarith
next
  case (Suc d)
  let ?past = "lv_past pli (Suc k)"
  note prems = Suc.prems
  have t: "tree_ok p e pli ns0" using assms(1) by (simp add: linked_tree_def)
  note U = unchosen_nth[OF prems(1)]
  have pl: "?past \<le> length ns0" using tree_ok_bounds(2)[OF t assms(2)] .
  have lev: "in_level pli (Suc k) i" if "m \<le> i" "i < ?past" for i using prems(3) that by (auto simp: in_level_def)
  note pc = parent_level[OF assms(1,2) lev]
  have P: "GetParent2 ns i = int (par ns0 i)" if "m \<le> i" "i < ?past" for i
    using U(3)[of i] pc(1)[OF that] that pl by simp
  have q: "par ns0 c = q" "q < c" "par ns0 m = q" using prems(4,5,6) pc(4)[of c] by auto
  have upt: "[c..<?past] = c # [Suc c..<?past]" using prems(5) by (rule upt_conv_Cons)
  have small: "0 < m" using prems(3) tree_ok_next(1)[OF t assms(2)] tree_ok_bounds(1)[OF t, of k] assms(2)
    by (auto simp: in_level_def)
  have asserts: "c < length ns \<and> GetParent2 ns c < int (length ns) \<and> GetParent2 ns c \<le> int c \<and>
      length ([m..<c] @ [c]) < g_maxNames cfg"
    using P[of c] q(1,2) prems(4,5) pl U(1) small assms(5) by auto
  have st: "[m..<c] @ [c] = [m..<Suc c]" using prems(4) by simp
  show ?case
  proof (cases "Suc c = ?past \<or> par ns0 (Suc c) \<noteq> q")
    case flush: True
    have sib: "siblings pli ns0 (Suc k) q = {m..<Suc c}"
      using siblings_run[OF assms(1,2) prems(3) lev prems(4) q(3,1) prems(7) flush] prems(4,5) by simp
    have "\<exists>ns1. FlushChildren ns [m..<Suc c] = Inr ns1 \<and> map unchosen ns1 = map unchosen ns \<and>
        chosen ns1 = flush_set ns (set [m..<Suc c]) q (chosen ns)"
      using prems(4,5,6) pl U(1) q P by (intro FlushChildren_ok) auto
    then obtain ns1 where F: "FlushChildren ns [m..<Suc c] = Inr ns1" "map unchosen ns1 = map unchosen ns0"
      "chosen ns1 = flush_set ns {m..<Suc c} q (chosen ns)" unfolding set_upt prems(1) by blast
    have "flush_set ns {m..<Suc c} q (chosen ns) = flush_set ns0 {m..<Suc c} q (chosen ns)"
      using U(2) prems(5) pl unfolding flush_set_def by (auto simp: less_Suc_eq_le)
    then have inv: "choice_inv pli e low ns0 (Suc k) (Suc c) (chosen ns1)"
      using flush_set_inv[OF assms(1-4) inh sib _ prems(2)] prems(4) F(3) by simp
    have run: "flush_level cfg [m..<c] [c..<?past] ns = flush_level cfg [] [Suc c..<?past] ns1"
    proof -
      have "[Suc c..<?past] = [] \<or> GetParent2 ns (c + 1) \<noteq> GetParent2 ns c"
        using flush P[of c] P[of "Suc c"] prems(4,5) q(1) by (cases "Suc c = ?past") auto
      then show ?thesis unfolding upt using asserts F(1) st by (simp add: Let_def)
    qed
    show ?thesis
    proof (cases "Suc c = ?past")
      case True
      then show ?thesis using run F(2) inv by (intro exI[of _ ns1]) simp
    next
      case False
      then have lt: "Suc c < ?past" using prems(5) by simp
      have bnd: "Suc c = lv_first pli (Suc k) \<or> par ns0 (Suc c - 1) \<noteq> par ns0 (Suc c)" using flush False q(1) by auto
      have all: "\<forall>i. Suc c \<le> i \<and> i \<le> Suc c \<longrightarrow> par ns0 i = par ns0 (Suc c)" by (metis le_antisym)
      have d: "d = ?past - Suc c" using Suc.hyps(2) by simp
      have l: "in_level pli (Suc k) (Suc c)" using lev lt prems(4) by simp
      from Suc.hyps(1)[OF d F(2) inv l order_refl lt all bnd] show ?thesis using run by simp
    qed
  next
    case False
    then have extend: "\<forall>i. m \<le> i \<and> i \<le> Suc c \<longrightarrow> par ns0 i = q" using prems(6) by (auto simp: le_Suc_eq)
    have run: "flush_level cfg [m..<c] [c..<?past] ns = flush_level cfg [m..<Suc c] [Suc c..<?past] ns"
    proof -
      have "\<not> ([Suc c..<?past] = [] \<or> GetParent2 ns (c + 1) \<noteq> GetParent2 ns c)"
        using False P[of c] P[of "Suc c"] prems(4,5) q(1) by auto
      then show ?thesis unfolding upt flush_level.simps Let_def st[symmetric] using asserts by (simp only: ensure_simps if_False simp_thms)
    qed
    have "\<exists>ns'. flush_level cfg [m..<Suc c] [Suc c..<?past] ns = Inr ns' \<and>
        map unchosen ns' = map unchosen ns0 \<and> choice_inv pli e low ns0 (Suc k) ?past (chosen ns')"
      using Suc.hyps(2) prems(4,5) False by (intro Suc.hyps(1)[OF _ prems(1-3) _ _ extend prems(7)]) auto
    then show ?thesis using run by simp
  qed
qed


text \<open>From one level to the next, and the root.\<close>

lemma choice_inv_up:
  assumes "linked_tree p e pli ns" "Suc k < length pli" "choice_inv pli e low ns (Suc k) (lv_past pli (Suc k)) C"
  shows "choice_inv pli e low ns k (lv_first pli k) C"
proof -
  have t: "tree_ok p e pli ns" using assms(1) by (simp add: linked_tree_def)
  have lv: "lv_past pli k = lv_first pli (Suc k)" "0 < lv_first pli (Suc k)"
    using tree_ok_next(1)[OF t assms(2)] tree_ok_bounds(1)[OF t, of k] assms(2) by auto
  note I = assms(3)[unfolded choice_inv_def]
  have "i \<in> C" if "in_level pli k i" "cn_isHit (ns ! i)" for i
  proof -
    from has_child[OF assms(1,2) that(1)] obtain j where j: "in_level pli (Suc k) j" "par ns j = i" by blast
    then have "j < lv_past pli (Suc k)" "j \<noteq> 0" using lv(2) by (auto simp: in_level_def)
    with I j that(2) show ?thesis by blast
  qed
  moreover have "\<forall>i \<in> C. lv_past pli k \<le> i \<longrightarrow> i = 0 \<or> \<not> cn_isHit (ns ! par ns i)"
    using I lv(1) by (metis in_level_def not_less)
  ultimately show ?thesis using I unfolding choice_inv_def by (auto simp: in_level_def)
qed

lemma choice_inv_root:
  assumes "linked_tree p e pli ns" "choice_inv pli e low ns 0 0 C"
  shows "choice_inv pli e low ns 0 1 C"
proof -
  have "lv_past pli 0 = 1" using assms(1) by (simp add: linked_tree_def tree_ok_def)
  then show ?thesis using assms(2) unfolding choice_inv_def by (auto simp: in_level_def)
qed

lemma flush_root:
  assumes "ns \<noteq> []" "1 < g_maxNames cfg"
  shows "\<exists>ns'. flush_level cfg [] [0] ns = Inr ns' \<and> map unchosen ns' = map unchosen ns \<and> chosen ns' = chosen ns"
proof -
  have "\<exists>ns'. FlushChildren ns [0] = Inr ns' \<and> map unchosen ns' = map unchosen ns \<and>
      chosen ns' = flush_set ns (set [0]) 0 (chosen ns)"
    using assms(1) by (intro FlushChildren_ok) (auto simp: GetParent2_def)
  moreover have "flush_set ns (set [0]) 0 (chosen ns) = chosen ns" by (auto simp: flush_set_def)
  ultimately show ?thesis using assms by (auto simp: Let_def GetParent2_def)
qed

abbreviation level_indices :: "MRCPerLevelInfo list \<Rightarrow> nat \<Rightarrow> nat list" where
  "level_indices pli i \<equiv> [pl_firstIndex (pli ! i)..<pl_firstIndex (pli ! i) + pl_numNames (pli ! i)]"

lemma flush_levels_ok:
  assumes "linked_tree p e pli ns0" "low < length pli" "length ns0 < g_maxNames cfg"
    and inh: "\<And>i. i < lv_past pli low \<Longrightarrow> i \<noteq> 0 \<Longrightarrow> cn_isHit (ns0 ! par ns0 i) \<Longrightarrow> cn_isHit (ns0 ! i)"
    and "map unchosen ns = map unchosen ns0" "k \<le> low" "choice_inv pli e low ns0 k (lv_first pli k) (chosen ns)"
  shows "\<exists>ns'. rfold (\<lambda>i. flush_level cfg [] (level_indices pli i)) (rev [0..<Suc k]) ns = Inr ns' \<and>
    map unchosen ns' = map unchosen ns0 \<and> choice_inv pli e low ns0 0 1 (chosen ns')"
  using assms(5-)
proof (induction k arbitrary: ns)
  case 0
  note r = root_index[OF assms(1)]
  have "lv_past pli 0 = 1" using assms(1) by (simp add: linked_tree_def tree_ok_def)
  then have li: "level_indices pli 0 = [0]" using r(1) by (simp add: lv_first_def lv_past_def)
  have "length ns = length ns0" using unchosen_nth(1)[OF "0.prems"(1)] .
  then have "ns \<noteq> []" "1 < g_maxNames cfg" using r(3) assms(3) by (auto, linarith)
  from flush_root[OF this] obtain ns' where "flush_level cfg [] [0] ns = Inr ns'"
    "map unchosen ns' = map unchosen ns" "chosen ns' = chosen ns" by blast
  then show ?case using "0.prems" choice_inv_root[OF assms(1)] r(1) li by simp
next
  case (Suc k)
  have k: "Suc k < length pli" using Suc.prems(2) assms(2) by simp
  have t: "tree_ok p e pli ns0" using assms(1) by (simp add: linked_tree_def)
  have b: "lv_first pli (Suc k) < lv_past pli (Suc k)" using tree_ok_bounds(1)[OF t k] .
  have li: "level_indices pli (Suc k) = [lv_first pli (Suc k)..<lv_past pli (Suc k)]"
    by (simp add: lv_first_def lv_past_def)
  have "\<exists>ns1. flush_level cfg [lv_first pli (Suc k)..<lv_first pli (Suc k)] [lv_first pli (Suc k)..<lv_past pli (Suc k)] ns
      = Inr ns1 \<and> map unchosen ns1 = map unchosen ns0 \<and>
    choice_inv pli e low ns0 (Suc k) (lv_past pli (Suc k)) (chosen ns1)"
    using b assms(3) Suc.prems
    by (intro flush_level_ok[OF assms(1) k _ assms(2) _ inh, where q = "par ns0 (lv_first pli (Suc k))"])
      (auto simp: in_level_def dest: le_antisym)
  then obtain ns1 where F: "flush_level cfg [] (level_indices pli (Suc k)) ns = Inr ns1"
    "map unchosen ns1 = map unchosen ns0" "choice_inv pli e low ns0 (Suc k) (lv_past pli (Suc k)) (chosen ns1)"
    unfolding li by auto
  from Suc.IH[OF F(2) _ choice_inv_up[OF assms(1) k F(3)]] Suc.prems(2) F(1) show ?case by simp
qed

text \<open>The list made from the chosen names.\<close>

lemma exact_cover_image:
  assumes "exact_cover I C U" "\<And>i. i \<in> C \<Longrightarrow> J (f i) = I i"
  shows "exact_cover J (f ` C) U"
  using assms unfolding exact_cover_def by (auto simp: image_iff) (metis IntI empty_iff)

lemma candidate_list_tiled:
  assumes "linked_tree p e pli ns" "map unchosen ns' = map unchosen ns" "exact_cover (covers ns) (chosen ns') {0..<e}"
  defines "cs \<equiv> map to_candidate (sort_key cn_offset (filter cn_isCandidate ns'))"
  shows "tiled 0 cs" "span cs = e" "set cs = (\<lambda>i. to_candidate (ns ! i)) ` chosen ns'"
proof -
  note U = unchosen_nth[OF assms(2)]
  have tree: "linked_tree p e pli ns'" using linked_tree_parents[OF assms(1) U(4)] U(6) by blast
  note cc = content_chunk[OF tree]
  have same: "to_candidate (ns' ! i) = to_candidate (ns ! i)" if "i < length ns" for i
    using arg_cong[OF U(5)[OF that], of to_candidate] by (simp add: to_candidate_def unchosen_def)
  have "set cs = to_candidate ` set (filter cn_isCandidate ns')" by (simp add: cs_def)
  also have "set (filter cn_isCandidate ns') = (!) ns' ` chosen ns'"
    by (auto simp: chosen_def in_set_conv_nth image_iff)
  finally have set': "set cs = (\<lambda>i. to_candidate (ns' ! i)) ` chosen ns'" by (simp add: image_image)
  also have "\<dots> = (\<lambda>i. to_candidate (ns ! i)) ` chosen ns'" using same U(1) by (intro image_cong) (auto simp: chosen_def)
  finally show st: "set cs = (\<lambda>i. to_candidate (ns ! i)) ` chosen ns'" .
  have "map cn_index ns' = [0..<length ns']" by (rule nth_equalityI) (auto simp: cc(4))
  then have "distinct (map cn_index ns')" by simp
  then have "distinct (map cn_index (filter cn_isCandidate ns'))" by (rule distinct_map_filter)
  moreover have "mset (map cn_index (sort_key cn_offset (filter cn_isCandidate ns'))) =
      mset (map cn_index (filter cn_isCandidate ns'))" by simp
  ultimately have "distinct (map cn_index (sort_key cn_offset (filter cn_isCandidate ns')))"
    by (metis mset_eq_imp_distinct_iff)
  moreover have "map ca_index cs = map cn_index (sort_key cn_offset (filter cn_isCandidate ns'))"
    by (simp add: cs_def comp_def to_candidate_def)
  ultimately have d: "distinct cs" by (metis distinct_map)
  have "map ca_offset cs = map cn_offset (sort_key cn_offset (filter cn_isCandidate ns'))"
    by (simp add: cs_def comp_def to_candidate_def)
  then have srt: "sorted (map ca_offset cs)" by simp
  have pos: "\<forall>c \<in> set cs. 0 < ca_length c"
    using set' cc(2) by (auto simp: to_candidate_def chosen_def)
  have "exact_cover (\<lambda>c. {ca_offset c..<ca_offset c + ca_length c}) (set cs) {0..<e}"
    unfolding st by (rule exact_cover_image[OF assms(3)]) (simp add: to_candidate_def covers_def cn_end_def)
  from exact_cover_tiled[OF srt d pos this] show "tiled 0 cs" "span cs = e" by auto
qed


lemma level_exact_cover:
  assumes "level_tiles p e l a b ns"
  shows "exact_cover (covers ns) {a..<b} {0..<e}"
  unfolding exact_cover_def
proof (intro conjI ballI impI)
  have "covers ns i \<subseteq> {0..<e}" if "i \<in> {a..<b}" for i
    using level_tiles_end_le[OF assms] that by (fastforce simp: covers_def)
  then show "(\<Union>i\<in>{a..<b}. covers ns i) = {0..<e}"
    using level_tiles_cover[OF assms] by fastforce
  show "covers ns i \<inter> covers ns j = {}" if "i \<in> {a..<b}" "j \<in> {a..<b}" "i \<noteq> j" for i j
  proof (rule ccontr)
    assume "covers ns i \<inter> covers ns j \<noteq> {}"
    then obtain x where "x \<in> covers ns i" "x \<in> covers ns j" by blast
    with level_tiles_disjoint[OF assms, of i j x] that show False by (simp add: covers_def)
  qed
qed

lemma GetCandidateList2_ok:
  assumes "linked_tree p e pli ns" "low < length pli" "length ns < g_maxNames cfg" "chosen ns = {}"
    and "\<forall>i < lv_past pli low. resolved sha hint p ns i" "g_NumMRCWays cfg = 1 \<longrightarrow> low = 0"
  shows "\<exists>ns' cs. GetCandidateList2 cfg ns pli low = Inr (ns', cs) \<and> map unchosen ns' = map unchosen ns \<and>
    tiled 0 cs \<and> span cs = e \<and>
    (\<forall>c \<in> set cs. \<exists>i < length ns. c = to_candidate (ns ! i) \<and> cn_isSha1Ready (ns ! i) \<and> named sha hint p (ns ! i))"
proof -
  have t: "tree_ok p e pli ns" using assms(1) by (simp add: linked_tree_def)
  have b: "lv_past pli low \<le> length ns" "lv_first pli low < lv_past pli low"
    using tree_ok_bounds[OF t assms(2)] by auto
  note L = tree_ok_level[OF t assms(2)]
  have inh: "cn_isHit (ns ! i)" if "i < lv_past pli low" "i \<noteq> 0" "cn_isHit (ns ! par ns i)" for i
    using assms(5) that by (auto simp: resolved_def)
  let ?leaves = "fold (set_candidate True) (level_indices pli low) ns"
  have lvs: "chosen ?leaves = {lv_first pli low..<lv_past pli low}"
  proof -
    have "set (level_indices pli low) \<subseteq> {..<length ns}" using b(1) by (auto simp: lv_past_def)
    from chosen_fold[OF this, of True] show ?thesis using assms(4) by (simp add: lv_first_def lv_past_def)
  qed
  have inv: "choice_inv pli e low ns low (lv_first pli low) (chosen ?leaves)"
    using level_exact_cover[OF L] unfolding choice_inv_def lvs by (auto simp: in_level_def)
  obtain ns' where R: "(if g_NumMRCWays cfg = 1 then ensure (low = 0) (Inr ?leaves)
      else rfold (\<lambda>i. flush_level cfg [] (level_indices pli i)) (rev [0..<Suc low]) ?leaves) = Inr ns'"
    "map unchosen ns' = map unchosen ns" "choice_inv pli e low ns 0 1 (chosen ns')"
  proof (cases "g_NumMRCWays cfg = 1")
    case True
    then show ?thesis
      using that[of ?leaves] assms(6) choice_inv_root[OF assms(1), of low "chosen ?leaves"] inv root_index(1)[OF assms(1)]
      by simp
  next
    case False
    then show ?thesis
      using that flush_levels_ok[OF assms(1-3) inh _ order_refl inv] by auto
  qed
  note I = R(3)[unfolded choice_inv_def] and U = unchosen_nth[OF R(2)]
  have past0: "lv_past pli 0 = 1" "lv_first pli 0 = 0" using t by (auto simp: tree_ok_def)
  have ready: "cn_isSha1Ready (ns ! i) \<and> i < lv_past pli low" if "i \<in> chosen ns'" for i
  proof -
    have "lv_past pli 0 \<le> i \<or> in_level pli 0 i \<and> i < 1" using past0 by (auto simp: in_level_def)
    then have "i = 0 \<or> \<not> cn_isHit (ns ! par ns i)" and "i < lv_past pli low" using I that by auto
    with assms(5) show ?thesis by (auto simp: resolved_def)
  qed
  have "exact_cover (covers ns) (chosen ns') {0..<e}" using I by blast
  note C = candidate_list_tiled[OF assms(1) R(2) this]
  let ?cs = "map to_candidate (sort_key cn_offset (filter cn_isCandidate ns'))"
  have len: "length ns' = length ns" "ns \<noteq> []" using U(1) root_index(3)[OF assms(1)] by auto
  have "cn_isSha1Ready (ns' ! i) = cn_isSha1Ready (ns ! i)" if "i < length ns" for i
    using arg_cong[OF U(5)[OF that], of cn_isSha1Ready] by (simp add: unchosen_def)
  then have "list_all (\<lambda>c. cn_isCandidate c \<longrightarrow> cn_isSha1Ready c) ns'"
    using ready len by (auto simp: list_all_length chosen_def)
  moreover have "cn_end (ns ! 0) = e" "cn_offset (ns ! 0) = 0"
    using tree_ok_level[OF t, of 0] past0 root_index(2)[OF assms(1)] by (auto simp: level_tiles_def)
  then have "cn_length (ns' ! 0) = e" using same_geom_nth(4)[OF U(4), of 0] len by (simp add: cn_end_def)
  moreover have "span ?cs = e" "tiled 0 ?cs" using C(1,2) by auto
  ultimately have "GetCandidateList2 cfg ns pli low = Inr (ns', ?cs)"
    using R(1) b len by (simp add: GetCandidateList2_def Let_def lv_first_def lv_past_def)
  moreover have "\<exists>i < length ns. c = to_candidate (ns ! i) \<and> cn_isSha1Ready (ns ! i) \<and> named sha hint p (ns ! i)"
    if "c \<in> set ?cs" for c
  proof -
    from that C(3) obtain i where i: "i \<in> chosen ns'" "c = to_candidate (ns ! i)" by blast
    with ready[OF i(1)] assms(5) b(1) show ?thesis by (intro exI[of _ i]) (simp add: resolved_def)
  qed
  ultimately show ?thesis using R(2) \<open>span ?cs = e\<close> \<open>tiled 0 ?cs\<close> by blast
qed


section \<open>Properties\<close>

text \<open>What the sender knows of a chosen candidate.\<close>

definition candidate_ok :: "(byte list \<Rightarrow> sha1) \<Rightarrow> (sha1 \<Rightarrow> bool) \<Rightarrow> byte list \<Rightarrow> OneChunkName list \<Rightarrow> OneCandidate \<Rightarrow> bool" where
  "candidate_ok sha hint psrc ns c \<longleftrightarrow> 0 < ca_length c \<and> ca_index c < length ns \<and>
     cn_sha1 (ns ! ca_index c) = ca_sha1 c \<and> ca_sha1 c = sha (take (ca_length c) (drop (ca_offset c) psrc)) \<and>
     (ca_isHit c \<longleftrightarrow> ca_length c \<le> WAPROX_MIN_CHUNK_SIZE \<or> hint (ca_sha1 c))"

lemma one_way_one_level:
  assumes "mrc_config_ok cfg" "g_NumMRCWays cfg = 1"
  shows "g_maxLevel cfg = 1"
  using assms by (cases cfg) (auto simp: mrc_config_ok_def InitMRCParams_def)

lemma low_names_ready:
  assumes "tree_ok p e pli ns" "low < length pli" "\<forall>i < lv_past pli low. resolved sha hint p ns i"
    and "i < length ns" "cn_level (ns ! i) \<le> low"
  shows "cn_isHit (ns ! i) \<or> cn_isSha1Ready (ns ! i)"
proof -
  from level_of[OF assms(1,4)] obtain k where k: "k < length pli" "in_level pli k i" by blast
  then have "cn_level (ns ! i) = k" using assms(1) by (auto simp: tree_ok_def level_tiles_def in_level_def)
  with assms(5) have "lv_past pli k \<le> lv_past pli low" 
    using lv_past_mono[OF assms(1), of k low] tree_ok_bounds(1)[OF assms(1,2)] assms(2) by (cases "k = low") auto
  then have "resolved sha hint p ns i" using assms(3) k(2) by (simp add: in_level_def)
  then show ?thesis unfolding resolved_def by blast
qed

lemma choose_candidates_ok:
  assumes "mrc_config_ok cfg" "scanner_ok c" "psrc \<noteq> []" "DoPreMRC cfg c psrc = Inr (c', names, rb, pli)"
  shows "\<exists>tree resolved low ns cs. MakeTree pli names = Inr tree \<and>
    ResolveWithHint sha s tree psrc rb pli isSender = Inr (resolved, low) \<and> low < length pli \<and>
    GetCandidateList2 cfg resolved pli low = Inr (ns, cs) \<and> length ns = length names \<and>
    0 < length ns \<and> length ns < g_maxNames cfg \<and>
    (\<forall>n \<in> set ns. cn_level n \<le> low \<longrightarrow> cn_isHit n \<or> cn_isSha1Ready n) \<and>
    0 < rb \<and> rb \<le> length psrc \<and> rb \<le> WAPROX_MRC_MAX \<and> scanner_ok c' \<and> tiled 0 cs \<and> span cs = rb \<and>
    (\<forall>k \<in> set cs. candidate_ok sha (hint_of s isSender) psrc ns k)"
proof -
  from mrc_tree_ok[OF assms(1-3)] assms(4) obtain tree where T: "MakeTree pli names = Inr tree" "length tree = length names"
    "0 < rb" "rb \<le> length psrc" "rb \<le> WAPROX_MRC_MAX" "length pli \<le> g_maxLevel cfg" "length names < g_maxNames cfg"
    "tree_ok psrc rb pli tree" "tree_linked pli tree" "list_all fresh_name tree" "scanner_ok c'" by auto
  then have lt: "linked_tree psrc rb pli tree" by (simp add: linked_tree_def)
  from ResolveWithHint_ok[OF lt T(10)] obtain ns1 low where
    R: "ResolveWithHint sha s tree psrc rb pli isSender = Inr (ns1, low)" "low < length pli"
      "map skel ns1 = map skel tree" "\<forall>m < lv_past pli low. resolved sha (hint_of s isSender) psrc ns1 m" by blast
  have len: "length ns1 = length tree" using R(3) by (metis length_map)
  have lt1: "linked_tree psrc rb pli ns1" by (rule linked_tree_skel[OF lt R(3)])
  have "chosen ns1 = {}"
    using skel_nth(2)[OF R(3)] T(10) len by (auto simp: chosen_def list_all_length fresh_name_def)
  moreover have "g_NumMRCWays cfg = 1 \<longrightarrow> low = 0"
    using one_way_one_level[OF assms(1)] T(6) R(2) by auto
  ultimately obtain ns cs where C: "GetCandidateList2 cfg ns1 pli low = Inr (ns, cs)" "map unchosen ns = map unchosen ns1"
    "tiled 0 cs" "span cs = rb" "\<forall>k \<in> set cs. \<exists>i < length ns1. k = to_candidate (ns1 ! i) \<and>
      cn_isSha1Ready (ns1 ! i) \<and> named sha (hint_of s isSender) psrc (ns1 ! i)"
    using GetCandidateList2_ok[OF lt1 R(2) _ _ R(4), of cfg] T(2,7) len by auto
  note U = unchosen_nth[OF C(2)]
  have "candidate_ok sha (hint_of s isSender) psrc ns k" if k: "k \<in> set cs" for k
  proof -
    from C(5) k obtain i where i: "i < length ns1" "k = to_candidate (ns1 ! i)" "cn_isSha1Ready (ns1 ! i)"
      "named sha (hint_of s isSender) psrc (ns1 ! i)" by blast
    have "cn_sha1 (ns ! i) = cn_sha1 (ns1 ! i)"
      using arg_cong[OF U(5)[OF i(1)], of cn_sha1] by (simp add: unchosen_def)
    then show ?thesis
      using i(1,3,4) content_chunk(2,4)[OF lt1 i(1)] U(1) unfolding i(2) candidate_ok_def named_def
      by (simp add: to_candidate_def content_def)
  qed
  moreover have "cn_isHit n \<or> cn_isSha1Ready n" if n: "n \<in> set ns" "cn_level n \<le> low" for n
  proof -
    from n(1) obtain i where i: "i < length ns1" "n = ns ! i" unfolding in_set_conv_nth U(1) by blast
    have same: "cn_level n = cn_level (ns1 ! i)" "cn_isHit n = cn_isHit (ns1 ! i)"
      "cn_isSha1Ready n = cn_isSha1Ready (ns1 ! i)"
      using arg_cong[OF U(5)[OF i(1)], of cn_level] arg_cong[OF U(5)[OF i(1)], of cn_isHit]
        arg_cong[OF U(5)[OF i(1)], of cn_isSha1Ready] by (simp_all add: unchosen_def i(2))
    show ?thesis using low_names_ready[OF _ R(2,4) i(1)] lt1 n(2) unfolding same linked_tree_def by blast
  qed
  moreover have "0 < length names"
    using tree_ok_bounds[OF T(8), of 0] R(2) T(2) by linarith
  ultimately show ?thesis using T R(1,2) C(1,3,4) U(1) len by auto
qed

text \<open>
  Claim C5: the chunks chosen to be sent. For a block that \<open>DoPreMRC\<close> cuts, linking the tree, resolving
  it against the hint table and choosing the candidates fails no assertion. The candidates tile the
  block; each is named by the SHA-1 of its own bytes, although hashing is skipped under known parents
  and copied from parents of equal length; and each is a hit exactly when it is too small to be worth
  a name or its name is in the hint table.
\<close>

theorem candidates_tile_block:
  assumes "mrc_config_ok cfg" "scanner_ok c" "psrc \<noteq> []" "DoPreMRC cfg c psrc = Inr (c', names, rb, pli)"
  shows "\<exists>tree resolved low ns cs. MakeTree pli names = Inr tree \<and>
    ResolveWithHint sha s tree psrc rb pli True = Inr (resolved, low) \<and>
    GetCandidateList2 cfg resolved pli low = Inr (ns, cs) \<and> tiled 0 cs \<and> span cs = rb \<and>
    (\<forall>k \<in> set cs. 0 < ca_length k \<and>
       ca_sha1 k = sha (take (ca_length k) (drop (ca_offset k) psrc)) \<and>
       (ca_isHit k \<longleftrightarrow> ca_length k \<le> WAPROX_MIN_CHUNK_SIZE \<or> GetSendHint s (ca_sha1 k)))"
  using choose_candidates_ok[OF assms, of sha s True] unfolding candidate_ok_def by auto

theorem candidates_tile_block_witness:
  "\<exists>c names rb pli tree resolved low ns cs.
     DoPreMRC default_config blank_scanner (replicate 40 7) = Inr (c, names, rb, pli) \<and>
     MakeTree pli names = Inr tree \<and>
     ResolveWithHint (\<lambda>b. replicate 20 (of_nat (length b))) (empty_cache 0) tree (replicate 40 7) rb pli True = Inr (resolved, low) \<and>
     GetCandidateList2 default_config resolved pli low = Inr (ns, cs) \<and> tiled 0 cs \<and> span cs = rb"
proof -
  let ?p = "replicate 40 7 :: byte list"
  have ne: "?p \<noteq> []" by simp
  have "length ?p \<le> g_ChunkSize default_config" by (simp add: default_config_def)
  with mrc_tree_ok[OF default_config_ok blank_scanner_ok ne] obtain c' names rb pli where
    d: "DoPreMRC default_config blank_scanner ?p = Inr (c', names, rb, pli)" by blast
  from candidates_tile_block[OF default_config_ok blank_scanner_ok ne d,
      of "\<lambda>b. replicate 20 (of_nat (length b))" "empty_cache 0"]
  obtain tree resolved low ns cs where "MakeTree pli names = Inr tree"
    "ResolveWithHint (\<lambda>b. replicate 20 (of_nat (length b))) (empty_cache 0) tree ?p rb pli True = Inr (resolved, low)"
    "GetCandidateList2 default_config resolved pli low = Inr (ns, cs)" "tiled 0 cs" "span cs = rb" by blast
  with d show ?thesis by blast
qed

end
