(* ===== verification/Chunk_Buffer.thy ===== *)
theory Chunk_Buffer
  imports Mrc_Resolve
begin

text \<open>
  The blocks a connection has sent and that are not acknowledged yet (waprox/chunkcache.c,
  \<open>ChunkBuffer\<close>). A buffer holds one reference in the temporary cache for each candidate of its
  block; when the block is acknowledged the references are dropped and the names of the block become
  hints.

  The global parameters of the chunk tree are the argument \<open>cfg\<close>; \<open>list\<close> is the candidate list,
  \<open>None\<close> for null.
\<close>

section \<open>Operations\<close>

record ChunkBuffer =
  cb_pMRC :: "OneChunkName list"
  cb_chunkList :: "OneCandidate list option"
  cb_numNames :: nat
  cb_seq_no :: u32
  cb_length :: u32
  cb_lowLevel :: int

definition CreateNewChunkBuffer :: "mrc_config \<Rightarrow> nat \<Rightarrow> u32 \<Rightarrow> OneChunkName list \<Rightarrow> ChunkBuffer res" where
  "CreateNewChunkBuffer cfg len seq_no pMRC =
     ensure (len > 0)
       (let numNames = length pMRC in
        ensure (numNames > 0)
          (ensure (numNames \<le> g_maxNames cfg)
            (Inr \<lparr>cb_pMRC = pMRC, cb_chunkList = None, cb_numNames = numNames, cb_seq_no = seq_no,
                  cb_length = of_nat len, cb_lowLevel = -1\<rparr>)))"

text \<open>\<open>buffer\<close> are the bytes that can be read, \<open>buflen\<close> the length of the block at its start.\<close>

fun put_list :: "cache \<Rightarrow> OneCandidate list \<Rightarrow> byte list \<Rightarrow> nat \<Rightarrow> nat \<Rightarrow> cache res" where
  "put_list s [] buffer buflen offset = ensure (offset = buflen) (Inr s)"
| "put_list s (walk # ws) buffer buflen offset =
     (if offset + ca_length walk > length buffer then Inl UndefinedBehaviour
      else rbind (RefPutChunkCallback s (ca_sha1 walk) (take (ca_length walk) (drop offset buffer)))
        (\<lambda>s1. let offset' = offset + ca_length walk
              in ensure (offset' \<le> buflen) (put_list s1 ws buffer buflen offset')))"

definition PutTempCacheCandidateList :: "cache \<Rightarrow> OneCandidate list \<Rightarrow> byte list \<Rightarrow> nat \<Rightarrow> cache res" where
  "PutTempCacheCandidateList s chunkList buffer buflen = put_list s chunkList buffer buflen 0"

definition CreateNewChunkBuffer2 :: "mrc_config \<Rightarrow> cache \<Rightarrow> byte list \<Rightarrow> nat \<Rightarrow> u32 \<Rightarrow> OneChunkName list \<Rightarrow>
    OneCandidate list \<Rightarrow> int \<Rightarrow> (cache \<times> ChunkBuffer) res" where
  "CreateNewChunkBuffer2 cfg s block len seq_no pMRC list lowLevel =
     rbind (CreateNewChunkBuffer cfg len seq_no pMRC) (\<lambda>newChunk.
       rbind (PutTempCacheCandidateList s list block len) (\<lambda>s1.
         Inr (s1, newChunk\<lparr>cb_lowLevel := lowLevel, cb_chunkList := Some list\<rparr>)))"

text \<open>The frees of \<open>FreeCandidateList\<close>: the nodes, first to last.\<close>

fun FreeCandidateList :: "OneCandidate list option \<Rightarrow> OneCandidate list res" where
  "FreeCandidateList None = Inl AssertFail"
| "FreeCandidateList (Some []) = Inr []"
| "FreeCandidateList (Some (walk # ws)) = rbind (FreeCandidateList (Some ws)) (\<lambda>fs. Inr (walk # fs))"

definition note_hint :: "OneChunkName \<Rightarrow> cache \<Rightarrow> cache res" where
  "note_hint n s =
     (if GetSendHint s (cn_sha1 n) then Inr s else PutSendHint s (cn_sha1 n) (cn_length n))"

text \<open>\<open>DestroyChunkBuffer\<close> belongs to the build that keeps whole trees.\<close>

definition DestroyChunkBuffer :: "cache \<Rightarrow> ChunkBuffer \<Rightarrow> cache res" where
  "DestroyChunkBuffer s cb =
     ensure (cb_lowLevel cb = -1)
       (rfold (\<lambda>n s.
          rbind (if SearchCache s (cn_sha1 n) \<noteq> None then RefFlushChunk s (cn_sha1 n) else Inr s)
            (note_hint n)) (take (cb_numNames cb) (cb_pMRC cb)) s)"

text \<open>The loop over the names stops at the first one below \<open>lowLevel\<close>.\<close>

fun note_names :: "int \<Rightarrow> OneChunkName list \<Rightarrow> cache \<Rightarrow> cache res" where
  "note_names low [] s = Inr s"
| "note_names low (n # ns) s =
     (if int (cn_level n) > low then Inr s
      else if \<not> cn_isHit n then
        ensure (cn_isSha1Ready n) (rbind (note_hint n s) (note_names low ns))
      else note_names low ns s)"

definition DestroyChunkBuffer2 :: "cache \<Rightarrow> ChunkBuffer \<Rightarrow> bool \<Rightarrow> cache res" where
  "DestroyChunkBuffer2 s cb updateHint =
     ensure (cb_lowLevel cb \<ge> 0)
       (case cb_chunkList cb of
          None \<Rightarrow> Inl UndefinedBehaviour
        | Some list \<Rightarrow>
            rbind (rfold (\<lambda>walk s. RefFlushChunk s (ca_sha1 walk)) list s) (\<lambda>s1.
              rbind (FreeCandidateList (cb_chunkList cb)) (\<lambda>_.
                if updateHint then note_names (cb_lowLevel cb) (take (cb_numNames cb) (cb_pMRC cb)) s1
                else Inr s1)))"

text \<open>
  \<open>ack\<close> is an \<open>int\<close> that the comparison converts to \<open>unsigned\<close>. The result is the cache, the buffers
  left and \<open>numDestroyed\<close>.
\<close>

fun DestroyChunkBufferList :: "cache \<Rightarrow> ChunkBuffer list \<Rightarrow> u32 \<Rightarrow> bool \<Rightarrow> (cache \<times> ChunkBuffer list \<times> nat) res" where
  "DestroyChunkBufferList s [] ack updateHint = Inr (s, [], 0)"
| "DestroyChunkBufferList s (cb # cbl) ack updateHint =
     (if ack = 0 \<or> cb_seq_no cb + cb_length cb \<le> ack then
        rbind (DestroyChunkBuffer2 s cb updateHint) (\<lambda>s1.
          rbind (DestroyChunkBufferList s1 cbl ack updateHint) (\<lambda>(s2, rest, numDestroyed).
            Inr (s2, rest, numDestroyed + 1)))
      else Inr (s, cb # cbl, 0))"

section \<open>Hints\<close>

text \<open>A change of the hint table alone.\<close>

definition same_tmp :: "cache \<Rightarrow> cache \<Rightarrow> bool" where
  "same_tmp s s' \<longleftrightarrow> tmp_ht s' = tmp_ht s \<and> mem_ht s' = mem_ht s \<and> g_CacheFifo s' = g_CacheFifo s \<and>
     put_tmp_ht s' = put_tmp_ht s \<and> disk_hint_ht s' = disk_hint_ht s \<and> g_DiskFifo s' = g_DiskFifo s \<and>
     g_NumKeys s' = g_NumKeys s \<and> g_CacheSize s' = g_CacheSize s \<and> maxCacheSize s' = maxCacheSize s"

lemma same_tmp_refl [simp]: "same_tmp s s"
  by (simp add: same_tmp_def)

lemma same_tmp_trans: "same_tmp s1 s2 \<Longrightarrow> same_tmp s2 s3 \<Longrightarrow> same_tmp s1 s3"
  by (simp add: same_tmp_def)

lemma same_tmp_facts:
  assumes "same_tmp s s'"
  shows "tmp_inv s' = tmp_inv s" "tmp_refs s' m = tmp_refs s m" "tmp_content s' m = tmp_content s m"
    "SearchCache s' m = SearchCache s m"
  using assms by (simp_all add: same_tmp_def tmp_inv_def tmp_refs_def tmp_content_def SearchCache_def)

abbreviation send_inv :: "cache \<Rightarrow> bool" where
  "send_inv s \<equiv> hint_inv (send_hint_ht s) (g_NameFifo s)"

lemma PutSendHint_same: "PutSendHint s n l = Inr s' \<Longrightarrow> same_tmp s s'"
  by (auto simp: PutSendHint_def PutSendHintNoDisk_def res_simps Let_def same_tmp_def)

lemma note_hint_ok:
  assumes "send_inv s"
  shows "\<exists>s'. note_hint n s = Inr s' \<and> send_inv s' \<and> same_tmp s s' \<and> GetSendHint s' (cn_sha1 n) \<and>
    (length (g_NameFifo s) < unat MAX_NAMES \<longrightarrow> length (g_NameFifo s') \<le> Suc (length (g_NameFifo s)) \<and>
       (\<forall>m. GetSendHint s m \<longrightarrow> GetSendHint s' m))"
proof (cases "GetSendHint s (cn_sha1 n)")
  case True
  with assms show ?thesis by (auto simp: note_hint_def)
next
  case False
  from send_hints.put_fresh[OF assms False, of "cn_length n"] obtain s' where
    s': "PutSendHint s (cn_sha1 n) (cn_length n) = Inr s'" "send_inv s'"
      "g_NameFifo s' = bound_queue (g_NameFifo s @ [NewKey (cn_sha1 n) (cn_length n)])" by blast
  have "\<forall>m. GetSendHint s m \<longrightarrow> GetSendHint s' m" if "length (g_NameFifo s) < unat MAX_NAMES"
    using that s'(3) unfolding send_hints.has_queue[OF assms] send_hints.has_queue[OF s'(2)]
    by (auto simp: bound_queue_short)
  then show ?thesis
    using s' False send_hints.put_has[OF assms False s'(1)] PutSendHint_same[OF s'(1)]
    by (auto simp: note_hint_def bound_queue_def)
qed

abbreviation noted :: "int \<Rightarrow> OneChunkName list \<Rightarrow> OneChunkName list" where
  "noted low ns \<equiv> filter (\<lambda>n. \<not> cn_isHit n) (takeWhile (\<lambda>n. int (cn_level n) \<le> low) ns)"

lemma note_names_ok:
  assumes "send_inv s" "\<forall>n \<in> set ns. int (cn_level n) \<le> low \<longrightarrow> cn_isHit n \<or> cn_isSha1Ready n"
  shows "\<exists>s'. note_names low ns s = Inr s' \<and> send_inv s' \<and> same_tmp s s' \<and>
    (length (g_NameFifo s) + length ns \<le> unat MAX_NAMES \<longrightarrow>
       (\<forall>m. GetSendHint s m \<longrightarrow> GetSendHint s' m) \<and> (\<forall>n \<in> set (noted low ns). GetSendHint s' (cn_sha1 n)))"
  using assms
proof (induction low ns s rule: note_names.induct)
  case (2 low n ns s)
  show ?case
  proof (cases "int (cn_level n) \<le> low \<and> \<not> cn_isHit n")
    case True
    with 2(4) have r: "cn_isSha1Ready n" by auto
    from note_hint_ok[OF 2(3), of n] obtain s1 where s1: "note_hint n s = Inr s1" "send_inv s1" "same_tmp s s1"
      "GetSendHint s1 (cn_sha1 n)" "length (g_NameFifo s) < unat MAX_NAMES \<longrightarrow>
        length (g_NameFifo s1) \<le> Suc (length (g_NameFifo s)) \<and> (\<forall>m. GetSendHint s m \<longrightarrow> GetSendHint s1 m)" by blast
    from 2(1)[OF _ _ r s1(1,2)] True 2(4) obtain s2 where s2: "note_names low ns s1 = Inr s2" "send_inv s2" "same_tmp s1 s2"
      "length (g_NameFifo s1) + length ns \<le> unat MAX_NAMES \<longrightarrow> (\<forall>m. GetSendHint s1 m \<longrightarrow> GetSendHint s2 m) \<and>
        (\<forall>n \<in> set (noted low ns). GetSendHint s2 (cn_sha1 n))" by auto
    show ?thesis using True r s1 s2 same_tmp_trans[OF s1(3) s2(3)] by (intro exI[of _ s2]) auto
  next
    case False
    then show ?thesis using 2 by auto
  qed
qed auto

section \<open>References\<close>

text \<open>What is known of the content of a store by name stays known when what is put fits its name.\<close>

context ref_store
begin

definition contents :: "(sha1 \<Rightarrow> byte list \<Rightarrow> bool) \<Rightarrow> 's \<Rightarrow> bool" where
  "contents P s \<longleftrightarrow> (\<forall>n b. content s n = Some b \<longrightarrow> P (take SHA1_LEN n) b)"

lemma put_all_contents:
  assumes "inv s" "\<forall>(n, b) \<in> set nbs. b \<noteq> [] \<and> length b \<le> MAX_CHUNK_SIZE \<and> P (take SHA1_LEN n) b"
    and "contents P s" "rfold (\<lambda>(n, b) s. put s n b) nbs s = Inr s'"
  shows "contents P s'"
  using assms
proof (induction nbs arbitrary: s)
  case (Cons nb nbs)
  obtain n b where nb: "nb = (n, b)" by fastforce
  with Cons.prems have b: "b \<noteq> []" "length b \<le> MAX_CHUNK_SIZE" "P (take SHA1_LEN n) b" by auto
  from put_ok[OF Cons.prems(1) b(1,2), of n] obtain s1 where s1: "put s n b = Inr s1" "inv s1"
    "\<forall>m. content s1 m = (if take SHA1_LEN m = take SHA1_LEN n \<and> refs s n = 0 then Some b else content s m)"
    by blast
  have "contents P s1" using Cons.prems(3) b(3) s1(3) by (auto simp: contents_def)
  with Cons.IH[OF s1(2)] Cons.prems nb s1(1) show ?case by auto
qed simp

lemma flush_all_contents:
  assumes "inv s" "\<And>m. occurs m ns \<le> refs s m" "contents P s" "rfold (\<lambda>n s. flush s n) ns s = Inr s'"
  shows "contents P s'"
proof -
  from flush_all[OF assms(1,2)] assms(4) have s': "inv s'" "\<forall>m. refs s' m = refs s m - occurs m ns"
    "\<forall>m. occurs m ns < refs s m \<longrightarrow> content s' m = content s m" by auto
  have "P (take SHA1_LEN m) b" if "content s' m = Some b" for m b
  proof -
    from that have "0 < refs s' m" using content_refs[OF s'(1), of m] by simp
    then have "content s' m = content s m" using s'(2,3) by simp
    then show ?thesis using that assms(3) by (auto simp: contents_def)
  qed
  then show ?thesis by (simp add: contents_def)
qed

end

abbreviation slices :: "OneCandidate list \<Rightarrow> byte list \<Rightarrow> (sha1 \<times> byte list) list" where
  "slices cs buffer \<equiv> map (\<lambda>c. (ca_sha1 c, take (ca_length c) (drop (ca_offset c) buffer))) cs"

lemma put_list_slices:
  assumes "tiled off cs" "off + span cs = buflen" "buflen \<le> length buffer"
  shows "put_list s cs buffer buflen off = rfold (\<lambda>(n, b) s. RefPutChunkCallback s n b) (slices cs buffer) s"
  using assms
proof (induction cs arbitrary: s off)
  case (Cons c cs)
  then have IH: "put_list s1 cs buffer buflen (off + ca_length c) =
      rfold (\<lambda>(n, b) s. RefPutChunkCallback s n b) (slices cs buffer) s1" for s1 by simp
  show ?case using Cons.prems by (simp add: IH Let_def)
qed simp

text \<open>The chunks of the temporary cache have the names they are stored under.\<close>

definition tmp_true :: "(byte list \<Rightarrow> sha1) \<Rightarrow> cache \<Rightarrow> bool" where
  "tmp_true sha s \<longleftrightarrow> (\<forall>n b. tmp_content s n = Some b \<longrightarrow> take SHA1_LEN (sha b) = take SHA1_LEN n)"

lemma tmp_true_contents: "tmp_true sha = tmp_cache.contents (\<lambda>n b. take SHA1_LEN (sha b) = n)"
  by (simp add: fun_eq_iff tmp_true_def tmp_cache.contents_def)

abbreviation buffer_names :: "ChunkBuffer list \<Rightarrow> sha1 list" where
  "buffer_names cbl \<equiv> concat (map (\<lambda>cb. case cb_chunkList cb of None \<Rightarrow> [] | Some cs \<Rightarrow> map ca_sha1 cs) cbl)"

text \<open>
  A buffer is well formed when its names down to \<open>lowLevel\<close> can become hints; the cache holds the
  references of a list of buffers when each candidate is counted.
\<close>

definition buffer_ok :: "ChunkBuffer \<Rightarrow> bool" where
  "buffer_ok cb \<longleftrightarrow> cb_lowLevel cb \<ge> 0 \<and> cb_chunkList cb \<noteq> None \<and> cb_numNames cb = length (cb_pMRC cb) \<and>
     (\<forall>n \<in> set (cb_pMRC cb). int (cn_level n) \<le> cb_lowLevel cb \<longrightarrow> cn_isHit n \<or> cn_isSha1Ready n)"

definition held :: "cache \<Rightarrow> sha1 list \<Rightarrow> bool" where
  "held s ns \<longleftrightarrow> (\<forall>m. tmp_cache.occurs m ns \<le> tmp_refs s m)"

lemma FreeCandidateList_all [simp]: "FreeCandidateList (Some cs) = Inr cs"
  by (induction cs) simp_all

text \<open>The operations of the temporary cache change nothing else.\<close>

definition tmp_only :: "cache \<Rightarrow> cache \<Rightarrow> bool" where
  "tmp_only s s' \<longleftrightarrow> s' = s\<lparr>tmp_ht := tmp_ht s'\<rparr>"

lemma tmp_only_refl [simp]: "tmp_only s s"
  by (simp add: tmp_only_def)

lemma tmp_only_trans: "tmp_only s1 s2 \<Longrightarrow> tmp_only s2 s3 \<Longrightarrow> tmp_only s1 s3"
  unfolding tmp_only_def by (metis cache.update_convs(4) cache.surjective)

lemma tmp_only_op:
  "RefFlushChunk s n = Inr s' \<Longrightarrow> tmp_only s s'"
  "RefPutChunkCallback s n b = Inr s' \<Longrightarrow> tmp_only s s'"
  by (auto simp: RefFlushChunk_def RefPutChunkCallback_def tmp_only_def res_simps Let_def split: option.splits if_splits)

lemma tmp_only_flush_all: "rfold (\<lambda>n s. RefFlushChunk s n) ns s = Inr s' \<Longrightarrow> tmp_only s s'"
  by (rule rfold_related[where R = tmp_only]) (auto intro: tmp_only_op tmp_only_trans)

lemma tmp_only_put_all: "rfold (\<lambda>(n, b) s. RefPutChunkCallback s n b) nbs s = Inr s' \<Longrightarrow> tmp_only s s'"
  by (rule rfold_related[where R = tmp_only]) (auto intro: tmp_only_op tmp_only_trans)

lemma tmp_only_facts:
  assumes "tmp_only s s'"
  shows "send_hint_ht s' = send_hint_ht s" "g_NameFifo s' = g_NameFifo s" "GetSendHint s' = GetSendHint s"
proof -
  have "send_hint_ht (s\<lparr>tmp_ht := h\<rparr>) = send_hint_ht s" "g_NameFifo (s\<lparr>tmp_ht := h\<rparr>) = g_NameFifo s" for h by simp_all
  then show f: "send_hint_ht s' = send_hint_ht s" "g_NameFifo s' = g_NameFifo s"
    using assms unfolding tmp_only_def by metis+
  show "GetSendHint s' = GetSendHint s" by (simp add: fun_eq_iff GetSendHint_def f)
qed

lemma DestroyChunkBuffer2_ok:
  assumes "tmp_inv s" "send_inv s" "buffer_ok cb" "held s (buffer_names [cb] @ ns)" "tmp_true sha s"
  shows "\<exists>s'. DestroyChunkBuffer2 s cb u = Inr s' \<and> tmp_inv s' \<and> send_inv s' \<and> tmp_true sha s' \<and>
    (\<forall>m. tmp_refs s' m = tmp_refs s m - tmp_cache.occurs m (buffer_names [cb])) \<and> held s' ns \<and>
    (length (g_NameFifo s) + cb_numNames cb \<le> unat MAX_NAMES \<longrightarrow> u \<longrightarrow>
       (\<forall>m. GetSendHint s m \<longrightarrow> GetSendHint s' m) \<and>
       (\<forall>n \<in> set (noted (cb_lowLevel cb) (cb_pMRC cb)). GetSendHint s' (cn_sha1 n)))"
proof -
  from assms(3) obtain cs where cs: "cb_chunkList cb = Some cs" "cb_lowLevel cb \<ge> 0" "cb_numNames cb = length (cb_pMRC cb)"
    "\<forall>n \<in> set (cb_pMRC cb). int (cn_level n) \<le> cb_lowLevel cb \<longrightarrow> cn_isHit n \<or> cn_isSha1Ready n"
    by (auto simp: buffer_ok_def)
  let ?ns = "map ca_sha1 cs"
  have le: "tmp_cache.occurs m ?ns + tmp_cache.occurs m ns \<le> tmp_refs s m" for m
    using assms(4) cs(1) by (simp add: held_def)
  then have le1: "tmp_cache.occurs m ?ns \<le> tmp_refs s m" for m by (meson add_leD1)
  from tmp_cache.flush_all[OF assms(1) le1] obtain s1 where
    s1: "rfold (\<lambda>n s. RefFlushChunk s n) ?ns s = Inr s1" "tmp_inv s1"
      "\<forall>m. tmp_refs s1 m = tmp_refs s m - tmp_cache.occurs m ?ns" by blast
  have same: "send_inv s1" "g_NameFifo s1 = g_NameFifo s" "send_hint_ht s1 = send_hint_ht s"
    using assms(2) tmp_only_facts[OF tmp_only_flush_all[OF s1(1)]] by simp_all
  have t1: "tmp_true sha s1"
    using tmp_cache.flush_all_contents[OF assms(1) le1 _ s1(1)] assms(5) by (simp add: tmp_true_contents)
  from note_names_ok[OF same(1) cs(4)] obtain s2 where
    s2: "note_names (cb_lowLevel cb) (cb_pMRC cb) s1 = Inr s2" "send_inv s2" "same_tmp s1 s2"
      "length (g_NameFifo s1) + length (cb_pMRC cb) \<le> unat MAX_NAMES \<longrightarrow>
       (\<forall>m. GetSendHint s1 m \<longrightarrow> GetSendHint s2 m) \<and> (\<forall>n \<in> set (noted (cb_lowLevel cb) (cb_pMRC cb)). GetSendHint s2 (cn_sha1 n))"
    by blast
  have d: "DestroyChunkBuffer2 s cb u = Inr (if u then s2 else s1)"
    using s1(1) s2(1) cs by (simp add: DestroyChunkBuffer2_def rfold_map comp_def)
  have "held s1 ns" unfolding held_def
  proof
    fix m show "tmp_cache.occurs m ns \<le> tmp_refs s1 m" using le[of m] s1(3) by simp
  qed
  then show ?thesis unfolding d
    using s1(2,3) s2(2-4) same t1 cs(1,3) same_tmp_facts[OF s2(3)]
    by (auto simp: held_def tmp_true_def GetSendHint_def)
qed


lemma held_append: "held s (ms @ ns) \<Longrightarrow> held s ms" "held s (ms @ ns) \<Longrightarrow> held s ns"
  unfolding held_def by (auto dest: spec intro: order_trans[rotated])

abbreviation acked :: "u32 \<Rightarrow> ChunkBuffer list \<Rightarrow> ChunkBuffer list" where
  "acked ack cbl \<equiv> takeWhile (\<lambda>cb. ack = 0 \<or> cb_seq_no cb + cb_length cb \<le> ack) cbl"

lemma DestroyChunkBufferList_ok:
  assumes "tmp_inv s" "send_inv s" "list_all buffer_ok cbl" "held s (buffer_names cbl)" "tmp_true sha s"
  shows "\<exists>s'. DestroyChunkBufferList s cbl ack u = Inr (s', drop (length (acked ack cbl)) cbl, length (acked ack cbl)) \<and>
    tmp_inv s' \<and> send_inv s' \<and> tmp_true sha s' \<and> held s' (buffer_names (drop (length (acked ack cbl)) cbl)) \<and>
    (\<forall>m. tmp_refs s' m = tmp_refs s m - tmp_cache.occurs m (buffer_names (acked ack cbl)))"
  using assms
proof (induction cbl arbitrary: s)
  case (Cons cb cbl)
  let ?P = "\<lambda>cb. ack = 0 \<or> cb_seq_no cb + cb_length cb \<le> ack"
  show ?case
  proof (cases "?P cb")
    case True
    from Cons.prems have "held s (buffer_names [cb] @ buffer_names cbl)" by simp
    from DestroyChunkBuffer2_ok[OF Cons.prems(1,2) _ this Cons.prems(5), of u] Cons.prems(3) obtain s1 where
      s1: "DestroyChunkBuffer2 s cb u = Inr s1" "tmp_inv s1" "send_inv s1" "tmp_true sha s1" "held s1 (buffer_names cbl)"
        "\<forall>m. tmp_refs s1 m = tmp_refs s m - tmp_cache.occurs m (buffer_names [cb])" by auto
    from Cons.IH[OF s1(2,3) _ s1(5,4)] Cons.prems(3) obtain s2 where
      s2: "DestroyChunkBufferList s1 cbl ack u = Inr (s2, drop (length (takeWhile ?P cbl)) cbl, length (takeWhile ?P cbl))"
        "tmp_inv s2" "send_inv s2" "tmp_true sha s2" "held s2 (buffer_names (drop (length (takeWhile ?P cbl)) cbl))"
        "\<forall>m. tmp_refs s2 m = tmp_refs s1 m - tmp_cache.occurs m (buffer_names (takeWhile ?P cbl))" by auto
    show ?thesis using True s1(1,6) s2 by (intro exI[of _ s2]) auto
  next
    case False
    then show ?thesis using Cons.prems by auto
  qed
qed auto

lemma CreateNewChunkBuffer2_ok:
  assumes "tmp_inv s" "send_inv s" "tmp_true sha s" "held s ns"
    and "tiled 0 cs" "span cs = len" "len \<le> length block" "len \<le> MAX_CHUNK_SIZE" "0 < len"
    and "\<forall>c \<in> set cs. 0 < ca_length c \<and> ca_sha1 c = sha (take (ca_length c) (drop (ca_offset c) block))"
    and "0 < length names" "length names \<le> g_maxNames cfg" "0 \<le> low"
    and "\<forall>n \<in> set names. int (cn_level n) \<le> low \<longrightarrow> cn_isHit n \<or> cn_isSha1Ready n"
  shows "\<exists>s' cb. CreateNewChunkBuffer2 cfg s block len seq names cs low = Inr (s', cb) \<and>
    tmp_only s s' \<and> tmp_inv s' \<and> tmp_true sha s' \<and> buffer_ok cb \<and> held s' (ns @ buffer_names [cb]) \<and>
    cb_seq_no cb = seq \<and> cb_length cb = of_nat len \<and> cb_chunkList cb = Some cs \<and>
    (\<forall>m. tmp_refs s' m = tmp_refs s m + tmp_cache.occurs m (map ca_sha1 cs))"
proof -
  have bnd: "ca_offset c + ca_length c \<le> off + span cs" if "tiled off cs" "c \<in> set cs" for c off
    using that by (induction cs arbitrary: off) fastforce+
  have sl: "\<forall>(n, b) \<in> set (slices cs block). b \<noteq> [] \<and> length b \<le> MAX_CHUNK_SIZE \<and> take SHA1_LEN (sha b) = take SHA1_LEN n"
    using assms(6-8,10) bnd[OF assms(5)] by (fastforce simp: min_def)
  then have "\<forall>(n, b) \<in> set (slices cs block). b \<noteq> [] \<and> length b \<le> MAX_CHUNK_SIZE" by fast
  from tmp_cache.put_all[OF assms(1) this] obtain s' where
    s': "rfold (\<lambda>(n, b) s. RefPutChunkCallback s n b) (slices cs block) s = Inr s'" "tmp_inv s'"
      "\<forall>m. tmp_refs s' m = tmp_refs s m + tmp_cache.occurs m (map fst (slices cs block))" by blast
  have f: "map fst (slices cs block) = map ca_sha1 cs" by simp
  have p: "PutTempCacheCandidateList s cs block len = Inr s'"
    unfolding PutTempCacheCandidateList_def
    using s'(1) put_list_slices[OF assms(5), of len block s] assms(6,7) by simp
  have t: "tmp_true sha s'"
    using tmp_cache.put_all_contents[OF assms(1) sl _ s'(1)] assms(3) unfolding tmp_true_contents by blast
  have "held s' (ns @ map ca_sha1 cs)"
    using assms(4) s'(3) unfolding held_def f by simp
  then show ?thesis
    using p assms(9,11-14) s'(2) t s'(3)[unfolded f] tmp_only_put_all[OF s'(1)]
    by (simp add: CreateNewChunkBuffer2_def CreateNewChunkBuffer_def Let_def buffer_ok_def)
qed

section \<open>Properties\<close>

text \<open>
  Claim C24: an acknowledgement releases exactly the blocks it covers. For a list of sent blocks whose
  references the temporary cache holds, \<open>DestroyChunkBufferList\<close> passes every assertion, removes the
  longest prefix of blocks that end at or before the acknowledged byte (all of them when the value is
  0), drops one reference for each candidate of the removed blocks and no other, and leaves the cache
  consistent, with the references of the remaining blocks.
\<close>

theorem DestroyChunkBufferList_releases:
  assumes "tmp_inv s" "send_inv s" "list_all buffer_ok cbl" "held s (buffer_names cbl)" "tmp_true sha s"
  shows "\<exists>s' rest n. DestroyChunkBufferList s cbl ack updateHint = Inr (s', rest, n) \<and>
    rest = dropWhile (\<lambda>cb. ack = 0 \<or> cb_seq_no cb + cb_length cb \<le> ack) cbl \<and> n + length rest = length cbl \<and>
    (\<forall>m. tmp_refs s' m = tmp_refs s m - tmp_cache.occurs m (buffer_names (take n cbl))) \<and>
    held s' (buffer_names rest) \<and> tmp_inv s' \<and> send_inv s' \<and> tmp_true sha s'"
proof -
  let ?k = "length (acked ack cbl)"
  from DestroyChunkBufferList_ok[OF assms, of ack updateHint] obtain s' where
    d: "DestroyChunkBufferList s cbl ack updateHint = Inr (s', drop ?k cbl, ?k)" "tmp_inv s'" "send_inv s'" "tmp_true sha s'"
      "held s' (buffer_names (drop ?k cbl))" "\<forall>m. tmp_refs s' m = tmp_refs s m - tmp_cache.occurs m (buffer_names (acked ack cbl))" by blast
  have "take ?k cbl = acked ack cbl" by (simp add: takeWhile_eq_take[symmetric])
  moreover have "?k \<le> length cbl" by (rule length_takeWhile_le)
  ultimately show ?thesis using d by (intro exI[of _ s'] exI[of _ "drop ?k cbl"] exI[of _ ?k]) (simp add: dropWhile_eq_drop)
qed

definition demo_leaf :: OneChunkName where
  "demo_leaf = \<lparr>cn_type = chunk_name, cn_length = 3, cn_sha1 = replicate 20 7, cn_pChunk = None,
     cn_freeChunk = False, cn_rindex = -1, cn_index = 0, cn_parentIdx = -1, cn_level = 0,
     cn_isHit = False, cn_isSha1Ready = True, cn_isCandidate = True, cn_offset = 0, cn_fromPeer = False\<rparr>"

definition demo_block :: "OneCandidate list" where
  "demo_block = [\<lparr>ca_index = 0, ca_offset = 0, ca_length = 3, ca_isHit = False, ca_sha1 = replicate 20 7\<rparr>]"

theorem DestroyChunkBufferList_releases_witness:
  "\<exists>s cb s'. CreateNewChunkBuffer2 default_config (empty_cache 0) [1, 2, 3] 3 5 [demo_leaf] demo_block 0 = Inr (s, cb) \<and>
     tmp_refs s (replicate 20 7) = 1 \<and> DestroyChunkBufferList s [cb] 8 True = Inr (s', [], 1) \<and> tmp_refs s' (replicate 20 7) = 0"
proof -
  let ?sha = "\<lambda>b. replicate 20 (7 :: byte)" and ?s = "empty_cache 0"
  have r0: "tmp_refs ?s m = 0" "tmp_content ?s m = None" for m by (simp_all add: tmp_refs_def tmp_content_def empty_cache)
  then have "tmp_true ?sha ?s" "held ?s []" by (simp_all add: tmp_true_def held_def)
  from CreateNewChunkBuffer2_ok[OF empty_cache(2,3) this, of demo_block 3 "[1, 2, 3]" "[demo_leaf]" default_config 0 5]
  obtain s cb where c: "CreateNewChunkBuffer2 default_config ?s [1, 2, 3] 3 5 [demo_leaf] demo_block 0 = Inr (s, cb)" "tmp_only ?s s"
    "tmp_inv s" "tmp_true ?sha s" "buffer_ok cb" "held s (buffer_names [cb])" "cb_seq_no cb = 5" "cb_length cb = 3"
    "\<forall>m. tmp_refs s m = tmp_refs ?s m + tmp_cache.occurs m (map ca_sha1 demo_block)"
    by (auto simp: demo_block_def demo_leaf_def MAX_CHUNK_SIZE_def default_config_def InitMRCParams_def)
  have "send_inv s" using empty_cache(3)[of 0] tmp_only_facts(1,2)[OF c(2)] by simp
  moreover have "list_all buffer_ok [cb]" using c(5) by simp
  ultimately obtain s' rest n where d: "DestroyChunkBufferList s [cb] 8 True = Inr (s', rest, n)"
    "rest = dropWhile (\<lambda>cb. (8 :: u32) = 0 \<or> cb_seq_no cb + cb_length cb \<le> 8) [cb]" "n + length rest = length [cb]"
    "\<forall>m. tmp_refs s' m = tmp_refs s m - tmp_cache.occurs m (buffer_names (take n [cb]))"
    using DestroyChunkBufferList_releases[OF c(3) _ _ c(6,4), of 8 True] by blast
  have n: "rest = []" "n = 1" using d(2,3) c(7,8) by simp_all
  have "tmp_refs s (replicate 20 7) = 1" using c(9) r0 by (simp add: demo_block_def)
  moreover have "cb_chunkList cb = Some demo_block" using c(1) by (auto simp: CreateNewChunkBuffer2_def res_simps)
  then have "tmp_cache.occurs (replicate 20 7) (buffer_names [cb]) = 1" by (simp add: demo_block_def)
  ultimately show ?thesis using c(1) d(1,4) n by auto
qed

end
