(* ===== verification/Protocol.thy ===== *)
theory Protocol
  imports Chunk_Types
begin

text \<open>
  The messages between proxies (waprox/protocol.c, protocol.h): their layout, the functions that
  build, verify and merge them, and the loops with which the handlers of waprox.c read them.

  A message is the list of its bytes. The structures are packed, so a field is at a fixed offset;
  integers are in network order except addresses and the fields of a tree, which are copied with
  \<open>memcpy\<close>. The out-parameters \<open>*buffer\<close> and \<open>*len\<close> of a builder, which every caller passes as
  null and zero, are the list returned and its length.
\<close>

section \<open>Constants\<close>

definition MAGIC_WAHEADER :: byte where "MAGIC_WAHEADER = 0x57"
definition MAGIC_WAOPENCONNECTION :: byte where "MAGIC_WAOPENCONNECTION = 0x70"
definition MAGIC_WANAMEDELIVERY :: byte where "MAGIC_WANAMEDELIVERY = 0x71"
definition MAGIC_WACLOSECONNECTION :: byte where "MAGIC_WACLOSECONNECTION = 0x72"
definition MAGIC_WANAMEACK :: byte where "MAGIC_WANAMEACK = 0x73"
definition MAGIC_WARAWMESSAGE :: byte where "MAGIC_WARAWMESSAGE = 0x74"
definition MAGIC_WABODYREQUEST :: byte where "MAGIC_WABODYREQUEST = 0x80"
definition MAGIC_WABODYRESPONSE :: byte where "MAGIC_WABODYRESPONSE = 0x81"
definition MAGIC_WAPEEKREQUEST :: byte where "MAGIC_WAPEEKREQUEST = 0x82"
definition MAGIC_WAPEEKRESPONSE :: byte where "MAGIC_WAPEEKRESPONSE = 0x83"
definition MAGIC_WAPUTREQUEST :: byte where "MAGIC_WAPUTREQUEST = 0x84"
definition MAGIC_WAPUTRESPONSE :: byte where "MAGIC_WAPUTRESPONSE = 0x85"
definition MAGIC_WAPING :: byte where "MAGIC_WAPING = 0x90"

definition TYPE_WAOPENCONNECTION :: byte where "TYPE_WAOPENCONNECTION = 0x4F"
definition TYPE_WANAMEDELIVERY :: byte where "TYPE_WANAMEDELIVERY = 0x4E"
definition TYPE_WACLOSECONNECTION :: byte where "TYPE_WACLOSECONNECTION = 0x43"
definition TYPE_WANAMEACK :: byte where "TYPE_WANAMEACK = 0x41"
definition TYPE_WARAWMESSAGE :: byte where "TYPE_WARAWMESSAGE = 0x4D"
definition TYPE_WABODYREQUEST :: byte where "TYPE_WABODYREQUEST = 0x51"
definition TYPE_WABODYRESPONSE :: byte where "TYPE_WABODYRESPONSE = 0x52"
definition TYPE_WAPEEKREQUEST :: byte where "TYPE_WAPEEKREQUEST = 0x45"
definition TYPE_WAPEEKRESPONSE :: byte where "TYPE_WAPEEKRESPONSE = 0x4B"
definition TYPE_WAPUTREQUEST :: byte where "TYPE_WAPUTREQUEST = 0x55"
definition TYPE_WAPUTRESPONSE :: byte where "TYPE_WAPUTRESPONSE = 0x54"
definition TYPE_WAPING :: byte where "TYPE_WAPING = 0x50"

lemmas type_defs = TYPE_WAOPENCONNECTION_def TYPE_WANAMEDELIVERY_def TYPE_WACLOSECONNECTION_def
  TYPE_WANAMEACK_def TYPE_WARAWMESSAGE_def TYPE_WABODYREQUEST_def TYPE_WABODYRESPONSE_def
  TYPE_WAPEEKREQUEST_def TYPE_WAPEEKRESPONSE_def TYPE_WAPUTREQUEST_def TYPE_WAPUTRESPONSE_def
  TYPE_WAPING_def

text \<open>The sizes of the packed structures.\<close>

definition sizeof_WAControlHeader :: nat where "sizeof_WAControlHeader = 18"
definition sizeof_WAChunkHeader :: nat where "sizeof_WAChunkHeader = 6"
definition sizeof_WANameDelivery :: nat where "sizeof_WANameDelivery = 23"
definition sizeof_WAOneTree :: nat where "sizeof_WAOneTree = 5"
definition sizeof_WAOneChunk :: nat where "sizeof_WAOneChunk = 25"
definition sizeof_WABodyRequest :: nat where "sizeof_WABodyRequest = 11"
definition sizeof_WAOneRequest :: nat where "sizeof_WAOneRequest = 28"
definition sizeof_WAOneResponse :: nat where "sizeof_WAOneResponse = 24"
definition sizeof_WAPing :: nat where "sizeof_WAPing = 30"

lemmas sizeof_defs = sizeof_WAControlHeader_def sizeof_WAChunkHeader_def sizeof_WANameDelivery_def
  sizeof_WAOneTree_def sizeof_WAOneChunk_def sizeof_WABodyRequest_def sizeof_WAOneRequest_def
  sizeof_WAOneResponse_def sizeof_WAPing_def SHA1_LEN_def

section \<open>Data\<close>

record ConnectionID =
  srcIP :: u32
  srcPort :: u16
  dstIP :: u32
  dstPort :: u16

record WAOneChunk =
  ck_sha1 :: sha1
  ck_length :: u32
  ck_hasContent :: bool
  ck_content :: "byte list"

record WAOneRequest =
  rq_orgPxyAddr :: u32
  rq_sha1 :: sha1
  rq_length :: u32

record WAOneResponse =
  rs_sha1 :: sha1
  rs_block :: "byte list"

datatype verified = NeedMore | Bad | Valid byte

section \<open>Building messages\<close>

text \<open>The name field of a structure: \<open>SHA1_LEN\<close> bytes copied from a name.\<close>

definition name_bytes :: "sha1 \<Rightarrow> byte list" where
  "name_bytes n = take SHA1_LEN n"

definition FillControlHeader :: "ConnectionID \<Rightarrow> byte \<Rightarrow> u32 \<Rightarrow> byte list res" where
  "FillControlHeader cid ty len =
     ensure (srcIP cid \<noteq> 0 \<and> srcPort cid \<noteq> 0 \<and> dstIP cid \<noteq> 0 \<and> dstPort cid \<noteq> 0)
       (Inr ([MAGIC_WAHEADER, ty] @ be32 len @ be32 (srcIP cid) @ be16 (srcPort cid)
          @ be32 (dstIP cid) @ be16 (dstPort cid)))"

definition FillChunkHeader :: "byte \<Rightarrow> u32 \<Rightarrow> byte list" where
  "FillChunkHeader ty len = [MAGIC_WAHEADER, ty] @ be32 len"

text \<open>A control message: the header, with the length of the whole message, and the rest.\<close>

definition control_message :: "ConnectionID \<Rightarrow> byte \<Rightarrow> byte list \<Rightarrow> byte list res" where
  "control_message cid ty body =
     rbind (FillControlHeader cid ty (of_nat (sizeof_WAControlHeader + length body)))
       (\<lambda>hdr. Inr (hdr @ body))"

definition chunk_message :: "byte \<Rightarrow> byte list \<Rightarrow> byte list" where
  "chunk_message ty body =
     FillChunkHeader ty (of_nat (sizeof_WAChunkHeader + length body)) @ body"

definition BuildWAOpenConnection :: "ConnectionID \<Rightarrow> byte list res" where
  "BuildWAOpenConnection cid =
     control_message cid TYPE_WAOPENCONNECTION [MAGIC_WAOPENCONNECTION]"

text \<open>\<open>numLevels\<close> of the tree is not initialised here: \<open>uninit\<close> is the byte found in memory.\<close>

definition BuildWANameTreeDelivery :: "byte \<Rightarrow> ConnectionID \<Rightarrow> u32 \<Rightarrow> byte list \<Rightarrow> byte list res" where
  "BuildWANameTreeDelivery uninit cid numNames pTree =
     ensure (length pTree > 0)
       (control_message cid TYPE_WANAMEDELIVERY
          ([MAGIC_WANAMEDELIVERY] @ be32 1 @ [uninit] @ be32 numNames @ pTree))"

text \<open>\<open>CopyToMessage\<close> asserts that there is something to copy.\<close>

definition CopyToMessage :: "byte list \<Rightarrow> byte list \<Rightarrow> byte list res" where
  "CopyToMessage buffer msg = ensure (length msg > 0) (Inr (buffer @ msg))"

definition type_code :: "chunkType \<Rightarrow> u32" where
  "type_code t = (case t of chunk_name \<Rightarrow> 0 | chunk_both \<Rightarrow> 1 | chunk_index \<Rightarrow> 2 | chunk_raw \<Rightarrow> 3)"

text \<open>The size of one name in a tree message (mrc_tree.c, \<open>GetAcutalTreeSize\<close>).\<close>

definition name_size :: "OneChunkName \<Rightarrow> nat" where
  "name_size n = 4 + (case cn_type n of
       chunk_name \<Rightarrow> 4 + SHA1_LEN
     | chunk_both \<Rightarrow> 4 + SHA1_LEN + cn_length n
     | chunk_raw \<Rightarrow> 4 + cn_length n
     | chunk_index \<Rightarrow> 4)"

definition GetAcutalTreeSize :: "OneChunkName list \<Rightarrow> nat" where
  "GetAcutalTreeSize pNames = sum_list (map name_size pNames)"

text \<open>
  The loop of \<open>BuildWANameTreeDelivery2\<close>. For a raw chunk the code copies \<open>sizeof(length)\<close> bytes
  of the content, and for a name with content it copies no content.
\<close>

definition put_name :: "OneChunkName \<Rightarrow> byte list \<Rightarrow> byte list res" where
  "put_name n buffer =
     rbind (CopyToMessage buffer (host32 (type_code (cn_type n)))) (\<lambda>b1.
       case cn_type n of
         chunk_name \<Rightarrow>
           rbind (CopyToMessage b1 (host32 (of_nat (cn_length n)))) (\<lambda>b2.
             CopyToMessage b2 (name_bytes (cn_sha1 n)))
       | chunk_both \<Rightarrow>
           rbind (CopyToMessage b1 (host32 (of_nat (cn_length n)))) (\<lambda>b2.
             CopyToMessage b2 (name_bytes (cn_sha1 n)))
       | chunk_raw \<Rightarrow>
           rbind (CopyToMessage b1 (host32 (of_nat (cn_length n)))) (\<lambda>b2.
             case cn_pChunk n of
               None \<Rightarrow> Inl AssertFail
             | Some c \<Rightarrow> if length c < 4 then Inl UndefinedBehaviour else CopyToMessage b2 (take 4 c))
       | chunk_index \<Rightarrow> CopyToMessage b1 (host32 (of_int (cn_rindex n))))"

definition BuildWANameTreeDelivery2 ::
  "ConnectionID \<Rightarrow> OneChunkName list \<Rightarrow> byte \<Rightarrow> byte list res" where
  "BuildWANameTreeDelivery2 cid pNames numLevels =
     (let lenTree = GetAcutalTreeSize pNames + sizeof_WANameDelivery + sizeof_WAOneTree;
          start = [MAGIC_WANAMEDELIVERY] @ be32 1 @ [numLevels] @ be32 (of_nat (length pNames))
      in ensure (length pNames = 1 \<longrightarrow> numLevels = 1)
           (rbind (rfold (\<lambda>n b. rbind (put_name n b) (\<lambda>b'.
                     ensure (sizeof_WAControlHeader + length b' \<le> lenTree) (Inr b'))) pNames start)
              (\<lambda>body. ensure (sizeof_WAControlHeader + length body = lenTree)
                 (control_message cid TYPE_WANAMEDELIVERY body))))"

text \<open>
  The loop of \<open>BuildWANameTreeDelivery3\<close> over the candidate chunks of a block: \<open>room\<close> is what is left
  of the \<open>newmsg_len\<close> bytes that the buffer has for them. A name beyond \<open>pNames\<close>, content beyond \<open>psrc\<close>
  and bytes beyond the buffer are undefined behaviour. \<open>VerifySHA1\<close> returns \<open>TRUE\<close> in this build, so
  that its assertion holds.
\<close>

definition sends_content :: "OneCandidate \<Rightarrow> bool" where
  "sends_content w \<longleftrightarrow> \<not> ca_isHit w \<or> ca_length w \<le> WAPROX_MIN_CHUNK_SIZE"

fun put_candidates :: "OneChunkName list \<Rightarrow> byte list \<Rightarrow> OneCandidate list \<Rightarrow> nat \<Rightarrow> nat \<Rightarrow> byte list res" where
  "put_candidates pNames psrc [] off room = Inr []"
| "put_candidates pNames psrc (w # ws) off room =
     ensure (off = ca_offset w)
       (let len = (if sends_content w then ca_length w else 0)
        in if length pNames \<le> ca_index w \<or> length psrc < off + len \<or> room < sizeof_WAOneChunk + len
           then Inl UndefinedBehaviour
           else let chunk = name_bytes (cn_sha1 (pNames ! ca_index w)) @ be32 (of_nat (ca_length w))
                      @ [if sends_content w then 1 else 0];
                    content = take len (drop off psrc)
                in rbind (put_candidates pNames psrc ws (off + ca_length w) (room - (sizeof_WAOneChunk + len)))
                     (\<lambda>rest. Inr (chunk @ content @ rest)))"

definition BuildWANameTreeDelivery3 ::
  "ConnectionID \<Rightarrow> byte list \<Rightarrow> OneChunkName list \<Rightarrow> OneCandidate list \<Rightarrow> u32 \<Rightarrow> nat \<Rightarrow> byte list res" where
  "BuildWANameTreeDelivery3 cid psrc pNames candidateList numCandidates newmsg_len =
     rbind (put_candidates pNames psrc candidateList 0 newmsg_len) (\<lambda>chunks.
       control_message cid TYPE_WANAMEDELIVERY
         ([MAGIC_WANAMEDELIVERY] @ be32 1 @ [1] @ be32 numCandidates @ chunks))"

fun candidate_lengths :: "OneCandidate list \<Rightarrow> nat \<Rightarrow> nat \<Rightarrow> nat \<Rightarrow> (nat \<times> nat) res" where
  "candidate_lengths [] off newmsg_len items = Inr (newmsg_len, items)"
| "candidate_lengths (w # ws) off newmsg_len items =
     ensure (off = ca_offset w)
       (candidate_lengths ws (off + ca_length w)
          (newmsg_len + sizeof_WAOneChunk + (if sends_content w then ca_length w else 0)) (items + 1))"

definition GetCandidateMessageLength :: "OneCandidate list \<Rightarrow> (nat \<times> nat) res" where
  "GetCandidateMessageLength candidateList = candidate_lengths candidateList 0 0 0"

definition one_request :: "u32 \<Rightarrow> sha1 \<Rightarrow> u32 \<Rightarrow> byte list" where
  "one_request orgPxyAddr name len = host32 orgPxyAddr @ name_bytes name @ be32 len"

definition BuildWABodyRequest :: "u32 \<Rightarrow> sha1 \<Rightarrow> u32 \<Rightarrow> byte list" where
  "BuildWABodyRequest orgPxyAddr name len =
     chunk_message TYPE_WABODYREQUEST
       ([MAGIC_WABODYREQUEST] @ be32 1 @ one_request orgPxyAddr name len)"

definition one_response :: "sha1 \<Rightarrow> byte list \<Rightarrow> byte list" where
  "one_response name block = name_bytes name @ be32 (of_nat (length block)) @ block"

definition BuildWABodyResponse :: "sha1 \<Rightarrow> byte list \<Rightarrow> byte list res" where
  "BuildWABodyResponse name block =
     ensure (length block > 0)
       (Inr (chunk_message TYPE_WABODYRESPONSE
          ([MAGIC_WABODYRESPONSE] @ be32 1 @ one_response name block)))"

definition BuildWAPeekRequest :: "sha1 \<Rightarrow> byte list" where
  "BuildWAPeekRequest name =
     chunk_message TYPE_WAPEEKREQUEST ([MAGIC_WAPEEKREQUEST] @ be32 1 @ name_bytes name)"

text \<open>
  \<open>BuildWAPeekResponse\<close> allocates the size of a peek response and sets the length to that of a
  body response with one entry: the buffer and the length it reports are returned separately.
\<close>

definition BuildWAPeekResponse :: "sha1 \<Rightarrow> byte \<Rightarrow> byte list \<times> nat" where
  "BuildWAPeekResponse name isHit =
     (let len = sizeof_WABodyRequest + sizeof_WAOneResponse
      in (FillChunkHeader TYPE_WAPEEKRESPONSE (of_nat len) @ [MAGIC_WAPEEKRESPONSE] @ be32 1
            @ name_bytes name @ [isHit], len))"

definition BuildWAPutRequest :: "sha1 \<Rightarrow> byte list \<Rightarrow> byte list res" where
  "BuildWAPutRequest name block =
     ensure (length block > 0)
       (Inr (chunk_message TYPE_WAPUTREQUEST
          ([MAGIC_WAPUTREQUEST] @ be32 1 @ one_response name block)))"

definition BuildWAPutResponse :: "sha1 \<Rightarrow> byte list" where
  "BuildWAPutResponse name =
     chunk_message TYPE_WAPUTRESPONSE ([MAGIC_WAPUTRESPONSE] @ be32 1 @ name_bytes name)"

definition BuildWANameAck :: "ConnectionID \<Rightarrow> u32 \<Rightarrow> byte list res" where
  "BuildWANameAck cid ack =
     control_message cid TYPE_WANAMEACK ([MAGIC_WANAMEACK] @ be32 ack)"

definition BuildWACloseConnection :: "ConnectionID \<Rightarrow> u32 \<Rightarrow> byte list res" where
  "BuildWACloseConnection cid bytesTX =
     control_message cid TYPE_WACLOSECONNECTION ([MAGIC_WACLOSECONNECTION] @ be32 bytesTX)"

text \<open>The timestamp is the memory image of a \<open>struct timeval\<close>, 16 bytes.\<close>

definition BuildWAPing :: "byte \<Rightarrow> u32 \<Rightarrow> byte list \<Rightarrow> u32 \<Rightarrow> u32 \<Rightarrow> byte list res" where
  "BuildWAPing isPing serverAddr timestamp networkBytes diskChunks =
     ensure (isPing = 1 \<or> isPing = 0)
       (Inr ([MAGIC_WAPING, isPing] @ host32 serverAddr @ take 16 timestamp
          @ be32 networkBytes @ be32 diskChunks))"

definition BuildWARawMessage :: "ConnectionID \<Rightarrow> byte list \<Rightarrow> byte list res" where
  "BuildWARawMessage cid message =
     ensure (length message > 0)
       (control_message cid TYPE_WARAWMESSAGE
          ([MAGIC_WARAWMESSAGE] @ be32 (of_nat (length message)) @ message))"

section \<open>Reading messages\<close>

definition be32_at :: "byte list \<Rightarrow> nat \<Rightarrow> u32" where
  "be32_at b i = rd_be32 (drop i b)"

definition be16_at :: "byte list \<Rightarrow> nat \<Rightarrow> u16" where
  "be16_at b i = rd_be16 (drop i b)"

text \<open>The connection of a control message, at offset 6.\<close>

definition connID_at :: "byte list \<Rightarrow> ConnectionID" where
  "connID_at b = \<lparr>srcIP = be32_at b 6, srcPort = be16_at b 10, dstIP = be32_at b 12, dstPort = be16_at b 16\<rparr>"

definition VerifyControlHeader :: "byte list \<Rightarrow> verified" where
  "VerifyControlHeader buffer =
     (if length buffer < sizeof_WAControlHeader then NeedMore
      else if buffer ! 0 \<noteq> MAGIC_WAHEADER then Bad
      else if length buffer < unat (be32_at buffer 2) then NeedMore
      else if buffer ! 1 = TYPE_WAOPENCONNECTION then Valid TYPE_WAOPENCONNECTION
      else if buffer ! 1 = TYPE_WANAMEDELIVERY then Valid TYPE_WANAMEDELIVERY
      else if buffer ! 1 = TYPE_WACLOSECONNECTION then Valid TYPE_WACLOSECONNECTION
      else if buffer ! 1 = TYPE_WANAMEACK then Valid TYPE_WANAMEACK
      else if buffer ! 1 = TYPE_WARAWMESSAGE then Valid TYPE_WARAWMESSAGE
      else Bad)"

definition VerifyChunkHeader :: "byte list \<Rightarrow> verified" where
  "VerifyChunkHeader buffer =
     (if length buffer < sizeof_WAChunkHeader then NeedMore
      else if buffer ! 0 \<noteq> MAGIC_WAHEADER then Bad
      else if length buffer < unat (be32_at buffer 2) then NeedMore
      else if buffer ! 1 = TYPE_WABODYREQUEST then Valid TYPE_WABODYREQUEST
      else if buffer ! 1 = TYPE_WABODYRESPONSE then Valid TYPE_WABODYRESPONSE
      else if buffer ! 1 = TYPE_WAPEEKREQUEST then Valid TYPE_WAPEEKREQUEST
      else if buffer ! 1 = TYPE_WAPEEKRESPONSE then Valid TYPE_WAPEEKRESPONSE
      else if buffer ! 1 = TYPE_WAPUTREQUEST then Valid TYPE_WAPUTREQUEST
      else if buffer ! 1 = TYPE_WAPUTRESPONSE then Valid TYPE_WAPUTRESPONSE
      else Bad)"

definition VerifyPing :: "byte list \<Rightarrow> verified" where
  "VerifyPing buffer =
     (if length buffer < sizeof_WAPing then NeedMore
      else if buffer ! 0 \<noteq> MAGIC_WAPING then Bad
      else if \<not> (buffer ! 1 = 1 \<or> buffer ! 1 = 0) then Bad
      else Valid TYPE_WAPING)"

text \<open>
  The handlers of waprox.c read the entries of a message in a loop: each entry is read where the
  previous one ended. \<open>read_items\<close> is that loop, with the bytes consumed.
\<close>

fun read_items :: "(byte list \<Rightarrow> 'a \<times> nat) \<Rightarrow> nat \<Rightarrow> byte list \<Rightarrow> 'a list \<times> nat" where
  "read_items dec 0 b = ([], 0)"
| "read_items dec (Suc n) b =
     (let (x, k) = dec b; (xs, m) = read_items dec n (drop k b) in (x # xs, k + m))"

text \<open>An entry of a name delivery (\<open>ProcessNameTreeDelivery2\<close>).\<close>

definition read_chunk :: "byte list \<Rightarrow> WAOneChunk \<times> nat" where
  "read_chunk b =
     (let clength = be32_at b SHA1_LEN; has = (b ! (SHA1_LEN + 4) = 1)
      in (\<lparr>ck_sha1 = take SHA1_LEN b, ck_length = clength, ck_hasContent = has,
           ck_content = (if has then take (unat clength) (drop sizeof_WAOneChunk b) else [])\<rparr>,
          sizeof_WAOneChunk + (if has then unat clength else 0)))"

text \<open>An entry of a body request (\<open>ProcessBodyRequest\<close>).\<close>

definition read_request :: "byte list \<Rightarrow> WAOneRequest \<times> nat" where
  "read_request b =
     (\<lparr>rq_orgPxyAddr = rd_host32 b, rq_sha1 = take SHA1_LEN (drop 4 b), rq_length = be32_at b 24\<rparr>,
      sizeof_WAOneRequest)"

text \<open>An entry of a body response or of a put request (\<open>ProcessBodyResponse\<close>, \<open>ProcessPutRequest\<close>).\<close>

definition read_response :: "byte list \<Rightarrow> WAOneResponse \<times> nat" where
  "read_response b =
     (let blength = unat (be32_at b SHA1_LEN)
      in (\<lparr>rs_sha1 = take SHA1_LEN b, rs_block = take blength (drop sizeof_WAOneResponse b)\<rparr>,
          sizeof_WAOneResponse + blength))"

section \<open>Merging messages\<close>

definition IsSameMessageType :: "byte list \<Rightarrow> byte list \<Rightarrow> bool res" where
  "IsSameMessageType msg1 msg2 =
     ensure (unat (be32_at msg1 2) = length msg1)
       (ensure (unat (be32_at msg2 2) = length msg2)
          (Inr (take sizeof_WAChunkHeader msg1 = take sizeof_WAChunkHeader msg2 \<and> msg1 ! 0 = msg2 ! 0)))"

text \<open>
  The three merge functions differ in the size \<open>sz\<close> of the fixed part, whose last four bytes are
  the number of entries. The result is the new first message and the number of bytes added.
\<close>

definition merge_two :: "nat \<Rightarrow> byte list \<Rightarrow> byte list \<Rightarrow> (byte list \<times> nat) res" where
  "merge_two sz msg1 msg2 =
     rbind (IsSameMessageType msg1 msg2) (\<lambda>same.
       if same then
         ensure (be32_at msg1 (sz - 4) \<ge> 1)
           (ensure (be32_at msg2 (sz - 4) \<ge> 1)
              (ensure (int (length msg2) - int sz > 0)
                 (let bytesToAdd = length msg2 - sz;
                      grown = msg1 @ drop sz msg2;
                      count = be32 (be32_at msg1 (sz - 4) + be32_at msg2 (sz - 4));
                      len = be32 (of_nat (length msg1 + bytesToAdd));
                      counted = take (sz - 4) grown @ count @ drop sz grown
                  in Inr (take 2 counted @ len @ drop 6 counted, bytesToAdd))))
       else Inr (msg1, 0))"

definition MergeTwoNameDelivery :: "byte list \<Rightarrow> byte list \<Rightarrow> (byte list \<times> nat) res" where
  "MergeTwoNameDelivery = merge_two sizeof_WANameDelivery"

definition MergeTwoBodyRequest :: "byte list \<Rightarrow> byte list \<Rightarrow> (byte list \<times> nat) res" where
  "MergeTwoBodyRequest = merge_two sizeof_WABodyRequest"

definition MergeTwoBodyResponse :: "byte list \<Rightarrow> byte list \<Rightarrow> (byte list \<times> nat) res" where
  "MergeTwoBodyResponse = merge_two sizeof_WABodyRequest"

section \<open>Codecs\<close>

text \<open>
  The interface of an entry format: what the reader returns for an entry followed by anything. It
  gives the round trip of the loop that reads a sequence of entries.
\<close>

locale wire_codec =
  fixes enc :: "'a \<Rightarrow> byte list"
    and dec :: "byte list \<Rightarrow> 'a \<times> nat"
    and ok :: "'a \<Rightarrow> bool"
  assumes dec_enc: "ok x \<Longrightarrow> dec (enc x @ rest) = (x, length (enc x))"
begin

lemma read_all:
  "\<forall>x \<in> set xs. ok x \<Longrightarrow>
    read_items dec (length xs) (concat (map enc xs) @ rest) = (xs, length (concat (map enc xs)))"
proof (induction xs)
  case (Cons x xs)
  then have x: "ok x" and IH: "read_items dec (length xs) (concat (map enc xs) @ rest) =
      (xs, length (concat (map enc xs)))" by auto
  have "dec (enc x @ (concat (map enc xs) @ rest)) = (x, length (enc x))" by (rule dec_enc[OF x])
  with IH show ?case by (simp add: Let_def)
qed simp

end

lemma name_bytes_20: "length n = SHA1_LEN \<Longrightarrow> name_bytes n = n"
  by (simp add: name_bytes_def)

lemma unat_of_nat_32: "n < 2 ^ 32 \<Longrightarrow> unat (of_nat n :: u32) = n"
  by (simp add: unsigned_of_nat take_bit_nat_eq_self_iff)

definition enc_chunk :: "WAOneChunk \<Rightarrow> byte list" where
  "enc_chunk c = ck_sha1 c @ be32 (ck_length c) @ [if ck_hasContent c then 1 else 0] @ ck_content c"

definition ok_chunk :: "WAOneChunk \<Rightarrow> bool" where
  "ok_chunk c \<longleftrightarrow> length (ck_sha1 c) = SHA1_LEN \<and>
     length (ck_content c) = (if ck_hasContent c then unat (ck_length c) else 0)"

interpretation chunk_codec: wire_codec enc_chunk read_chunk ok_chunk
proof
  fix c rest assume ok: "ok_chunk c"
  let ?b = "enc_chunk c @ rest"
  have len: "length (ck_sha1 c) = 20" using ok by (simp add: ok_chunk_def SHA1_LEN_def)
  have "be32_at ?b SHA1_LEN = ck_length c"
    by (simp add: be32_at_def enc_chunk_def SHA1_LEN_def len)
  moreover have "?b ! (SHA1_LEN + 4) = (if ck_hasContent c then 1 else 0)"
    by (simp add: enc_chunk_def SHA1_LEN_def len nth_append)
  moreover have "drop sizeof_WAOneChunk ?b = ck_content c @ rest"
    by (simp add: enc_chunk_def sizeof_defs len)
  moreover have "take SHA1_LEN ?b = ck_sha1 c" by (simp add: enc_chunk_def SHA1_LEN_def len)
  ultimately show "read_chunk ?b = (c, length (enc_chunk c))"
    using ok by (auto simp: read_chunk_def Let_def ok_chunk_def enc_chunk_def sizeof_defs)
qed

definition enc_request :: "WAOneRequest \<Rightarrow> byte list" where
  "enc_request r = one_request (rq_orgPxyAddr r) (rq_sha1 r) (rq_length r)"

interpretation request_codec: wire_codec enc_request read_request "\<lambda>r. length (rq_sha1 r) = SHA1_LEN"
proof
  fix r :: WAOneRequest and rest assume n: "length (rq_sha1 r) = SHA1_LEN"
  show "read_request (enc_request r @ rest) = (r, length (enc_request r))"
    using n by (simp add: read_request_def enc_request_def one_request_def name_bytes_20 be32_at_def sizeof_defs)
qed

definition enc_response :: "WAOneResponse \<Rightarrow> byte list" where
  "enc_response r = one_response (rs_sha1 r) (rs_block r)"

interpretation response_codec: wire_codec enc_response read_response
  "\<lambda>r. length (rs_sha1 r) = SHA1_LEN \<and> length (rs_block r) < 2 ^ 32"
proof
  fix r :: WAOneResponse and rest assume "length (rs_sha1 r) = SHA1_LEN \<and> length (rs_block r) < 2 ^ 32"
  then show "read_response (enc_response r @ rest) = (r, length (enc_response r))"
    by (simp add: read_response_def enc_response_def one_response_def name_bytes_20 be32_at_def
        sizeof_defs unat_of_nat_32 Let_def)
qed

section \<open>Framing\<close>

definition ok_cid :: "ConnectionID \<Rightarrow> bool" where
  "ok_cid cid \<longleftrightarrow> srcIP cid \<noteq> 0 \<and> srcPort cid \<noteq> 0 \<and> dstIP cid \<noteq> 0 \<and> dstPort cid \<noteq> 0"

definition control_types :: "byte list" where
  "control_types = [TYPE_WAOPENCONNECTION, TYPE_WANAMEDELIVERY, TYPE_WACLOSECONNECTION,
     TYPE_WANAMEACK, TYPE_WARAWMESSAGE]"

definition chunk_types :: "byte list" where
  "chunk_types = [TYPE_WABODYREQUEST, TYPE_WABODYRESPONSE, TYPE_WAPEEKREQUEST, TYPE_WAPEEKRESPONSE,
     TYPE_WAPUTREQUEST, TYPE_WAPUTRESPONSE]"

lemma control_message_eq:
  "control_message cid ty body = (if ok_cid cid then
     Inr ([MAGIC_WAHEADER, ty] @ be32 (of_nat (18 + length body)) @ be32 (srcIP cid) @ be16 (srcPort cid)
          @ be32 (dstIP cid) @ be16 (dstPort cid) @ body) else Inl AssertFail)"
  by (auto simp: control_message_def FillControlHeader_def ok_cid_def sizeof_defs ensure_def)

lemma control_message_props:
  assumes "control_message cid ty body = Inr msg" "length msg < 2 ^ 32"
  shows "length msg = 18 + length body" "drop 18 msg = body" "connID_at (msg @ rest) = cid"
    "unat (be32_at (msg @ rest) 2) = length msg" "msg ! 0 = MAGIC_WAHEADER" "msg ! 1 = ty"
proof -
  have m: "msg = [MAGIC_WAHEADER, ty] @ be32 (of_nat (18 + length body)) @ be32 (srcIP cid) @ be16 (srcPort cid)
          @ be32 (dstIP cid) @ be16 (dstPort cid) @ body"
    using assms(1) by (simp add: control_message_eq split: if_splits)
  show len: "length msg = 18 + length body" by (simp add: m)
  show "drop 18 msg = body" by (simp add: m)
  show "connID_at (msg @ rest) = cid" by (simp add: m connID_at_def be32_at_def be16_at_def)
  show "unat (be32_at (msg @ rest) 2) = length msg"
    using len assms(2) unat_of_nat_32[of "18 + length body"] by (simp add: m be32_at_def)
  show "msg ! 0 = MAGIC_WAHEADER" "msg ! 1 = ty" by (simp_all add: m)
qed

lemma verify_control:
  assumes "control_message cid ty body = Inr msg" "length msg < 2 ^ 32" "ty \<in> set control_types"
  shows "VerifyControlHeader (msg @ rest) = Valid ty"
proof -
  note p = control_message_props[OF assms(1,2)]
  have "(msg @ rest) ! 0 = MAGIC_WAHEADER" "(msg @ rest) ! 1 = ty" using p by (simp_all add: nth_append)
  moreover have "ty = TYPE_WAOPENCONNECTION \<or> ty = TYPE_WANAMEDELIVERY \<or> ty = TYPE_WACLOSECONNECTION \<or>
      ty = TYPE_WANAMEACK \<or> ty = TYPE_WARAWMESSAGE"
    using assms(3) by (simp add: control_types_def)
  ultimately show ?thesis
    using p(1) p(4)[of rest] by (auto simp: VerifyControlHeader_def sizeof_defs)
qed

lemma verify_control_prefix:
  assumes "control_message cid ty body = Inr msg" "length msg < 2 ^ 32" "n < length msg"
  shows "VerifyControlHeader (take n msg) = NeedMore"
proof (cases "n < 18")
  case True
  then show ?thesis by (simp add: VerifyControlHeader_def sizeof_defs min_less_iff_disj)
next
  case False
  note p = control_message_props[OF assms(1,2)]
  have "be32_at (take n msg) 2 = be32_at (msg @ []) 2"
    using False assms(3) p(1) by (simp add: be32_at_def rd_be32_def)
  with False assms(3) p(1,5) p(4)[of "[]"] show ?thesis by (simp add: VerifyControlHeader_def sizeof_defs)
qed

lemma chunk_message_props:
  assumes "length (chunk_message ty body) < 2 ^ 32"
  shows "length (chunk_message ty body) = 6 + length body" "drop 6 (chunk_message ty body) = body"
    "unat (be32_at (chunk_message ty body @ rest) 2) = length (chunk_message ty body)"
  using assms unat_of_nat_32[of "6 + length body"]
  by (simp_all add: chunk_message_def FillChunkHeader_def sizeof_defs be32_at_def)

lemma verify_chunk:
  assumes "length (chunk_message ty body) < 2 ^ 32" "ty \<in> set chunk_types"
  shows "VerifyChunkHeader (chunk_message ty body @ rest) = Valid ty"
proof -
  note p = chunk_message_props[OF assms(1)]
  have "(chunk_message ty body @ rest) ! 0 = MAGIC_WAHEADER" "(chunk_message ty body @ rest) ! 1 = ty"
    by (simp_all add: chunk_message_def FillChunkHeader_def)
  moreover have "ty = TYPE_WABODYREQUEST \<or> ty = TYPE_WABODYRESPONSE \<or> ty = TYPE_WAPEEKREQUEST \<or>
      ty = TYPE_WAPEEKRESPONSE \<or> ty = TYPE_WAPUTREQUEST \<or> ty = TYPE_WAPUTRESPONSE"
    using assms(2) by (simp add: chunk_types_def)
  ultimately show ?thesis
    using p(1) p(3)[of rest] by (auto simp: VerifyChunkHeader_def sizeof_defs)
qed

lemma verify_chunk_prefix:
  assumes "length (chunk_message ty body) < 2 ^ 32" "n < length (chunk_message ty body)"
  shows "VerifyChunkHeader (take n (chunk_message ty body)) = NeedMore"
proof (cases "n < 6")
  case True
  then show ?thesis by (simp add: VerifyChunkHeader_def sizeof_defs min_less_iff_disj)
next
  case False
  note p = chunk_message_props[OF assms(1)]
  have "be32_at (take n (chunk_message ty body)) 2 = be32_at (chunk_message ty body @ []) 2"
    using False assms(2) p(1) by (simp add: be32_at_def rd_be32_def)
  moreover have "take n (chunk_message ty body) ! 0 = MAGIC_WAHEADER"
    using False by (simp add: chunk_message_def FillChunkHeader_def)
  ultimately show ?thesis
    using False assms(2) p(1) p(3)[of "[]"] by (simp add: VerifyChunkHeader_def sizeof_defs)
qed

section \<open>Name deliveries\<close>

text \<open>What a candidate is on the wire.\<close>

definition chunk_of :: "OneChunkName list \<Rightarrow> byte list \<Rightarrow> OneCandidate \<Rightarrow> WAOneChunk" where
  "chunk_of pNames psrc w = \<lparr>ck_sha1 = cn_sha1 (pNames ! ca_index w), ck_length = of_nat (ca_length w),
     ck_hasContent = sends_content w,
     ck_content = (if sends_content w then take (ca_length w) (drop (ca_offset w) psrc) else [])\<rparr>"

definition ok_candidate :: "OneChunkName list \<Rightarrow> byte list \<Rightarrow> OneCandidate \<Rightarrow> bool" where
  "ok_candidate pNames psrc w \<longleftrightarrow> ca_index w < length pNames \<and> length (cn_sha1 (pNames ! ca_index w)) = SHA1_LEN \<and>
     ca_offset w + ca_length w \<le> length psrc \<and> ca_length w < 2 ^ 32"

lemma length_wire_chunk:
  "ok_candidate pNames psrc w \<Longrightarrow>
    length (enc_chunk (chunk_of pNames psrc w)) = sizeof_WAOneChunk + (if sends_content w then ca_length w else 0)"
  by (auto simp: enc_chunk_def chunk_of_def ok_candidate_def SHA1_LEN_def sizeof_defs)

lemma put_candidates_eq:
  assumes "tiled off ws" "\<forall>w \<in> set ws. ok_candidate pNames psrc w"
    and "length (concat (map (enc_chunk \<circ> chunk_of pNames psrc) ws)) \<le> room"
  shows "put_candidates pNames psrc ws off room = Inr (concat (map (enc_chunk \<circ> chunk_of pNames psrc) ws))"
  using assms
proof (induction ws arbitrary: off room)
  case (Cons w ws)
  then have w: "ok_candidate pNames psrc w" and r: "length (enc_chunk (chunk_of pNames psrc w)) +
      length (concat (map (enc_chunk \<circ> chunk_of pNames psrc) ws)) \<le> room" by (simp_all add: comp_def)
  let ?len = "if sends_content w then ca_length w else 0"
  from r have len: "sizeof_WAOneChunk + ?len \<le> room" "length (concat (map (enc_chunk \<circ> chunk_of pNames psrc) ws)) \<le> room - (sizeof_WAOneChunk + ?len)"
    unfolding length_wire_chunk[OF w] by simp_all
  have rest: "put_candidates pNames psrc ws (off + ca_length w) (room - (sizeof_WAOneChunk + ?len)) =
      Inr (concat (map (enc_chunk \<circ> chunk_of pNames psrc) ws))"
    by (rule Cons.IH[OF _ _ len(2)]) (use Cons.prems in auto)
  have "\<not> (length pNames \<le> ca_index w \<or> length psrc < off + ?len \<or> room < sizeof_WAOneChunk + ?len)"
    using w len(1) Cons.prems(1) by (auto simp: ok_candidate_def)
  with rest w Cons.prems(1) show ?case
    by (simp only: put_candidates.simps Let_def if_not_P rbind_simps)
      (simp add: enc_chunk_def chunk_of_def ok_candidate_def name_bytes_20 comp_def)
qed simp

text \<open>What was put is all there is, whatever the size of the buffer.\<close>

lemma put_candidates_put:
  assumes "put_candidates pNames psrc ws off room = Inr chunks" "\<forall>w \<in> set ws. ok_candidate pNames psrc w"
  shows "chunks = concat (map (enc_chunk \<circ> chunk_of pNames psrc) ws) \<and> length chunks \<le> room"
  using assms
proof (induction ws arbitrary: off room chunks)
  case (Cons w ws)
  let ?len = "if sends_content w then ca_length w else 0"
  have w: "ok_candidate pNames psrc w" using Cons.prems(2) by simp
  from Cons.prems(1) obtain rest where r: "put_candidates pNames psrc ws (off + ca_length w) (room - (sizeof_WAOneChunk + ?len)) = Inr rest"
    "chunks = enc_chunk (chunk_of pNames psrc w) @ rest" "sizeof_WAOneChunk + ?len \<le> room"
    using name_bytes_20[of "cn_sha1 (pNames ! ca_index w)"] w
    by (auto simp: res_simps Let_def enc_chunk_def chunk_of_def ok_candidate_def split: if_splits)
  from Cons.IH[OF r(1)] Cons.prems(2) r(2,3) show ?case using length_wire_chunk[OF w] by auto
qed simp

lemma ok_chunk_of: "ok_candidate pNames psrc w \<Longrightarrow> ok_chunk (chunk_of pNames psrc w)"
  by (auto simp: ok_candidate_def ok_chunk_def chunk_of_def unat_of_nat_32)

lemma candidate_lengths_eq:
  assumes "tiled off ws" "\<forall>w \<in> set ws. ok_candidate pNames psrc w"
  shows "candidate_lengths ws off n k =
    Inr (n + length (concat (map (enc_chunk \<circ> chunk_of pNames psrc) ws)), k + length ws)"
  using assms
proof (induction ws arbitrary: off n k)
  case (Cons w ws)
  then have w: "ok_candidate pNames psrc w" by simp
  with Cons show ?case using length_wire_chunk[OF w] by (simp add: add.assoc)
qed simp

section \<open>Merging\<close>

text \<open>A chunk message with a list of entries.\<close>

definition entries_message :: "byte \<Rightarrow> byte \<Rightarrow> ('a \<Rightarrow> byte list) \<Rightarrow> 'a list \<Rightarrow> byte list" where
  "entries_message ty magic enc xs =
     chunk_message ty ([magic] @ be32 (of_nat (length xs)) @ concat (map enc xs))"

lemma length_entries_message:
  "length (entries_message ty magic enc xs) = 11 + length (concat (map enc xs))"
  by (simp add: entries_message_def chunk_message_def FillChunkHeader_def)

lemma entries_message_split:
  "entries_message ty magic enc xs = [MAGIC_WAHEADER, ty] @ be32 (of_nat (length (entries_message ty magic enc xs)))
     @ [magic] @ be32 (of_nat (length xs)) @ concat (map enc xs)"
  by (subst length_entries_message) (simp add: entries_message_def chunk_message_def FillChunkHeader_def sizeof_defs)

lemma of_nat_ge_1: "0 < n \<Longrightarrow> n < 2 ^ 32 \<Longrightarrow> 1 \<le> (of_nat n :: u32)"
  by (simp add: word_le_nat_alt unat_of_nat_32)

lemma merge_entries:
  assumes "length (entries_message ty magic enc xs) + length (entries_message ty magic enc ys) < 2 ^ 32"
    and "0 < length xs" "0 < length ys" "length xs < 2 ^ 32" "length ys < 2 ^ 32"
    and "length (entries_message ty magic enc xs) = length (entries_message ty magic enc ys)"
    and "concat (map enc ys) \<noteq> []"
  shows "merge_two 11 (entries_message ty magic enc xs) (entries_message ty magic enc ys) =
    Inr (entries_message ty magic enc (xs @ ys), length (concat (map enc ys)))"
proof -
  let ?m = "entries_message ty magic enc"
  define L where "L = length (?m xs)"
  have Ly: "length (?m ys) = L" using assms(6) by (simp add: L_def)
  have L: "unat (of_nat L :: u32) = L" using assms(1) by (intro unat_of_nat_32) (simp add: L_def)
  have X: "?m xs = [MAGIC_WAHEADER, ty] @ be32 (of_nat L) @ [magic] @ be32 (of_nat (length xs)) @ concat (map enc xs)"
    unfolding L_def by (rule entries_message_split)
  have Y: "?m ys = [MAGIC_WAHEADER, ty] @ be32 (of_nat L) @ [magic] @ be32 (of_nat (length ys)) @ concat (map enc ys)"
    unfolding Ly[symmetric] by (rule entries_message_split)
  have lx: "length (?m xs) = L" by (simp only: L_def)
  have hdr: "be32_at (?m xs) 2 = of_nat L" "be32_at (?m ys) 2 = of_nat L"
    by (subst X, simp add: be32_at_def) (subst Y, simp add: be32_at_def)
  have same_prefix: "take 6 (?m xs) = take 6 (?m ys)" "?m xs ! 0 = ?m ys ! 0"
    by (subst X, subst Y, simp)+
  have same: "IsSameMessageType (?m xs) (?m ys) = Inr True"
    by (simp only: IsSameMessageType_def hdr L lx Ly same_prefix sizeof_WAChunkHeader_def ensure_simps simp_thms)
  have cnt: "be32_at (?m xs) (11 - 4) = of_nat (length xs)" "be32_at (?m ys) (11 - 4) = of_nat (length ys)"
    by (subst X, simp add: be32_at_def) (subst Y, simp add: be32_at_def)
  have tot: "length (?m (xs @ ys)) = length (?m xs) + (length (?m ys) - 11)"
    by (simp add: length_entries_message)
  have XY: "?m (xs @ ys) = [MAGIC_WAHEADER, ty] @ be32 (of_nat (length (?m xs) + (length (?m ys) - 11))) @ [magic]
      @ be32 (of_nat (length xs) + of_nat (length ys)) @ concat (map enc xs) @ concat (map enc ys)"
    using entries_message_split[of ty magic enc "xs @ ys"] unfolding tot by simp
  have ne: "0 < int (length (?m ys)) - int 11" "length (?m ys) - 11 = length (concat (map enc ys))"
    using assms(7) length_entries_message[of ty magic enc ys] by auto
  have "drop 11 (?m ys) = concat (map enc ys)" by (subst Y) simp
  then have res: "(let bytesToAdd = length (?m ys) - 11; grown = ?m xs @ drop 11 (?m ys);
        count = be32 (be32_at (?m xs) (11 - 4) + be32_at (?m ys) (11 - 4));
        len = be32 (of_nat (length (?m xs) + bytesToAdd));
        counted = take (11 - 4) grown @ count @ drop 11 grown
      in Inr (take 2 counted @ len @ drop 6 counted, bytesToAdd)) =
      (Inr (?m (xs @ ys), length (concat (map enc ys))) :: (byte list \<times> nat) res)"
    unfolding cnt Let_def XY using ne(2) by (subst (1 2 3) X) simp
  show ?thesis
    unfolding merge_two_def same using of_nat_ge_1[OF assms(2,4)] of_nat_ge_1[OF assms(3,5)] ne(1) res
    by (simp only: rbind_simps cnt if_True ensure_simps)
qed

lemma IsSameMessageType_lengths:
  assumes "length (entries_message ty magic enc xs) < 2 ^ 32" "length (entries_message ty magic enc ys) < 2 ^ 32"
    and "length (entries_message ty magic enc xs) \<noteq> length (entries_message ty magic enc ys)"
  shows "IsSameMessageType (entries_message ty magic enc xs) (entries_message ty magic enc ys) = Inr False"
proof -
  let ?m = "entries_message ty magic enc"
  have hdr: "unat (be32_at (?m zs) 2) = length (?m zs)" if "length (?m zs) < 2 ^ 32" for zs
    using chunk_message_props(3)[of ty "[magic] @ be32 (of_nat (length zs)) @ concat (map enc zs)" "[]"] that
    by (simp add: entries_message_def)
  have "take 6 (?m zs) = [MAGIC_WAHEADER, ty] @ be32 (of_nat (length (?m zs)))" for zs
    using arg_cong[OF entries_message_split[of ty magic enc zs], of "take 6"] by simp
  moreover have "be32 (of_nat (length (?m xs))) \<noteq> be32 (of_nat (length (?m ys)))"
    using assms unat_of_nat_32 by (metis rd_be32_be32')
  ultimately have "take 6 (?m xs) \<noteq> take 6 (?m ys)" by simp
  then show ?thesis
    using hdr[OF assms(1)] hdr[OF assms(2)] by (simp add: IsSameMessageType_def sizeof_WAChunkHeader_def)
qed

abbreviation body_request :: "WAOneRequest list \<Rightarrow> byte list" where
  "body_request \<equiv> entries_message TYPE_WABODYREQUEST MAGIC_WABODYREQUEST enc_request"

lemma BuildWABodyRequest_eq:
  "BuildWABodyRequest a n l = body_request [\<lparr>rq_orgPxyAddr = a, rq_sha1 = n, rq_length = l\<rparr>]"
  by (simp add: BuildWABodyRequest_def entries_message_def enc_request_def)

lemma length_requests:
  "\<forall>r \<in> set rs. length (rq_sha1 r) = SHA1_LEN \<Longrightarrow> length (concat (map enc_request rs)) = 28 * length rs"
  by (induction rs) (auto simp: enc_request_def one_request_def name_bytes_20 SHA1_LEN_def)

lemma read_body_request:
  assumes "\<forall>r \<in> set rs. length (rq_sha1 r) = SHA1_LEN" "length rs < 2 ^ 32"
  shows "read_items read_request (unat (be32_at (body_request rs) 7)) (drop 11 (body_request rs)) =
    (rs, 28 * length rs)"
proof -
  have "be32_at (body_request rs) 7 = of_nat (length rs)"
    by (subst entries_message_split) (simp add: be32_at_def)
  moreover have "drop 11 (body_request rs) = concat (map enc_request rs)"
    by (subst entries_message_split) simp
  ultimately show ?thesis
    using request_codec.read_all[OF assms(1), of "[]"] length_requests[OF assms(1)] assms(2)
    by (simp add: unat_of_nat_32)
qed

section \<open>Properties\<close>

lemma name_delivery_entries:
  assumes "ok_cid cid" "tiled 0 cs" "\<forall>c \<in> set cs. ok_candidate pNames psrc c"
    and "BuildWANameTreeDelivery3 cid psrc pNames cs (of_nat (length cs)) newmsg_len = Inr msg" "length msg < 2 ^ 32"
  shows "VerifyControlHeader (msg @ rest) = Valid TYPE_WANAMEDELIVERY" "connID_at (msg @ rest) = cid"
    "unat (be32_at (msg @ rest) 2) = length msg" "be32_at (msg @ rest) 19 = 1" "be32_at (msg @ rest) 24 = of_nat (length cs)"
    "drop 28 msg = concat (map enc_chunk (map (chunk_of pNames psrc) cs))" "28 \<le> length msg"
proof -
  let ?enc = "concat (map (enc_chunk \<circ> chunk_of pNames psrc) cs)"
  have b: "control_message cid TYPE_WANAMEDELIVERY
      ([MAGIC_WANAMEDELIVERY] @ be32 1 @ [1] @ be32 (of_nat (length cs)) @ ?enc) = Inr msg"
    using assms(4) put_candidates_put[OF _ assms(3)] by (auto simp: BuildWANameTreeDelivery3_def rbind_eq_Inr)
  note p = control_message_props[OF b assms(5)]
  have d: "drop (18 + k) msg = drop k ([MAGIC_WANAMEDELIVERY] @ be32 1 @ [1] @ be32 (of_nat (length cs)) @ ?enc)" for k
    using p(2) by (metis add.commute drop_drop)
  show l: "28 \<le> length msg" using p(1) by simp
  show "be32_at (msg @ rest) 19 = 1" "be32_at (msg @ rest) 24 = of_nat (length cs)"
    using d[of 1] d[of 6] l by (simp_all add: be32_at_def)
  show "drop 28 msg = concat (map enc_chunk (map (chunk_of pNames psrc) cs))" using d[of 10] by simp
  show "VerifyControlHeader (msg @ rest) = Valid TYPE_WANAMEDELIVERY"
    by (rule verify_control[OF b assms(5)]) (simp add: control_types_def)
  show "connID_at (msg @ rest) = cid" "unat (be32_at (msg @ rest) 2) = length msg" by (rule p)+
qed

text \<open>
  Claim C17: the receiver of a name delivery reads back what the sender put in it. For candidates
  that tile the block, \<open>BuildWANameTreeDelivery3\<close> builds a message that the header check accepts as
  a name delivery of this connection, and the loop of \<open>ProcessNameTreeDelivery2\<close> reads from it, for
  each candidate in order, its name, its length and, exactly when it is a miss or too small, its
  bytes of the block; it consumes the whole message.
\<close>

theorem name_delivery_roundtrip:
  assumes "ok_cid cid" "tiled 0 cs" "\<forall>c \<in> set cs. ok_candidate pNames psrc c" "length cs < 2 ^ 32"
    and "BuildWANameTreeDelivery3 cid psrc pNames cs (of_nat (length cs)) newmsg_len = Inr msg" "length msg < 2 ^ 32"
  shows "VerifyControlHeader (msg @ rest) = Valid TYPE_WANAMEDELIVERY \<and> connID_at msg = cid \<and>
    unat (be32_at msg 2) = length msg \<and> be32_at msg 19 = 1 \<and>
    read_items read_chunk (unat (be32_at msg 24)) (drop 28 msg) =
      (map (chunk_of pNames psrc) cs, length msg - 28)"
proof -
  note e = name_delivery_entries[OF assms(1-3,5,6)]
  have "\<forall>c \<in> set (map (chunk_of pNames psrc) cs). ok_chunk c" using assms(3) ok_chunk_of by auto
  from chunk_codec.read_all[OF this, of "[]"]
  have "read_items read_chunk (length cs) (drop 28 msg) = (map (chunk_of pNames psrc) cs, length (drop 28 msg))"
    unfolding e(6) by simp
  then show ?thesis
    using e(1)[of rest] e(2)[of "[]"] e(3)[of "[]"] e(4)[of "[]"] e(5)[of "[]"] assms(4) by (simp add: unat_of_nat_32)
qed

definition demo_name :: "byte \<Rightarrow> OneChunkName" where
  "demo_name b = \<lparr>cn_type = chunk_name, cn_length = 2, cn_sha1 = replicate 20 b, cn_pChunk = None,
     cn_freeChunk = False, cn_rindex = -1, cn_index = 0, cn_parentIdx = -1, cn_level = 0,
     cn_isHit = False, cn_isSha1Ready = True, cn_isCandidate = True, cn_offset = 0, cn_fromPeer = False\<rparr>"

definition demo_cid :: ConnectionID where
  "demo_cid = \<lparr>srcIP = 0x0A000001, srcPort = 80, dstIP = 0x0A000002, dstPort = 8080\<rparr>"

definition demo_candidates :: "OneCandidate list" where
  "demo_candidates = [\<lparr>ca_index = 0, ca_offset = 0, ca_length = 2, ca_isHit = False, ca_sha1 = replicate 20 1\<rparr>,
     \<lparr>ca_index = 1, ca_offset = 2, ca_length = 40, ca_isHit = True, ca_sha1 = replicate 20 2\<rparr>]"

lemma demo_wire_length:
  "length (concat (map (enc_chunk \<circ> chunk_of [demo_name 1, demo_name 2] (replicate 42 7)) demo_candidates)) = 52"
  by (simp add: demo_candidates_def enc_chunk_def chunk_of_def demo_name_def sends_content_def WAPROX_MIN_CHUNK_SIZE_def
      name_bytes_def SHA1_LEN_def)

theorem name_delivery_roundtrip_witness:
  "\<exists>msg. BuildWANameTreeDelivery3 demo_cid (replicate 42 7) [demo_name 1, demo_name 2] demo_candidates 2 52 = Inr msg \<and>
     VerifyControlHeader msg = Valid TYPE_WANAMEDELIVERY \<and>
     map ck_content (fst (read_items read_chunk (unat (be32_at msg 24)) (drop 28 msg))) = [replicate 2 7, []]"
proof -
  let ?src = "replicate 42 7 :: byte list" and ?ns = "[demo_name 1, demo_name 2]"
  have ok: "ok_cid demo_cid" "tiled 0 demo_candidates"
    "\<forall>c \<in> set demo_candidates. ok_candidate ?ns ?src c" "length demo_candidates < 2 ^ 32"
    by (simp_all add: ok_cid_def demo_cid_def demo_candidates_def ok_candidate_def demo_name_def SHA1_LEN_def)
  have l: "(of_nat (length demo_candidates) :: u32) = 2" by (simp add: demo_candidates_def)
  have "\<exists>msg. BuildWANameTreeDelivery3 demo_cid ?src ?ns demo_candidates (of_nat (length demo_candidates)) 52 = Inr msg \<and>
      length msg < 2 ^ 32"
    using ok(1) demo_wire_length by (simp add: BuildWANameTreeDelivery3_def put_candidates_eq[OF ok(2,3)] control_message_eq)
  then obtain msg where m: "BuildWANameTreeDelivery3 demo_cid ?src ?ns demo_candidates (of_nat (length demo_candidates)) 52 = Inr msg"
    "length msg < 2 ^ 32" by blast
  from name_delivery_roundtrip[OF ok m, of "[]"] m(1) show ?thesis unfolding l
    by (simp add: demo_candidates_def chunk_of_def sends_content_def WAPROX_MIN_CHUNK_SIZE_def)
qed

text \<open>
  The buffer of a name delivery is large enough and filled exactly: for candidates that
  tile the block, \<open>GetCandidateMessageLength\<close> returns the number of candidates and the number of
  bytes the building loop writes after the fixed part.
\<close>

theorem candidate_message_length_exact:
  assumes "tiled 0 cs" "\<forall>c \<in> set cs. ok_candidate pNames psrc c"
  shows "\<exists>newmsg_len chunks. GetCandidateMessageLength cs = Inr (newmsg_len, length cs) \<and>
    put_candidates pNames psrc cs 0 newmsg_len = Inr chunks \<and> length chunks = newmsg_len"
  using put_candidates_eq[OF assms] candidate_lengths_eq[OF assms, of 0 0]
  by (simp add: GetCandidateMessageLength_def)

theorem candidate_message_length_exact_witness:
  "GetCandidateMessageLength demo_candidates = Inr (52, Suc (Suc 0))"
proof -
  have ok: "tiled 0 demo_candidates" "\<forall>c \<in> set demo_candidates. ok_candidate [demo_name 1, demo_name 2] (replicate 42 7) c"
    by (simp_all add: demo_candidates_def ok_candidate_def demo_name_def SHA1_LEN_def)
  from candidate_message_length_exact[OF ok] obtain n chunks where n: "GetCandidateMessageLength demo_candidates = Inr (n, length demo_candidates)"
    "put_candidates [demo_name 1, demo_name 2] (replicate 42 7) demo_candidates 0 n = Inr chunks" "length chunks = n" by blast
  from put_candidates_put[OF n(2) ok(2)] demo_wire_length n(3) have "n = 52" by simp
  with n(1) show ?thesis by (simp add: demo_candidates_def)
qed

text \<open>A control message of the builders with the type it is built for.\<close>

definition built :: "ConnectionID \<Rightarrow> byte \<Rightarrow> byte list \<Rightarrow> bool" where
  "built cid ty msg \<longleftrightarrow>
     ty = TYPE_WAOPENCONNECTION \<and> BuildWAOpenConnection cid = Inr msg \<or>
     ty = TYPE_WANAMEACK \<and> (\<exists>ack. BuildWANameAck cid ack = Inr msg) \<or>
     ty = TYPE_WACLOSECONNECTION \<and> (\<exists>n. BuildWACloseConnection cid n = Inr msg) \<or>
     ty = TYPE_WARAWMESSAGE \<and> (\<exists>d. BuildWARawMessage cid d = Inr msg) \<or>
     ty = TYPE_WANAMEDELIVERY \<and> (\<exists>psrc pNames cs n l. BuildWANameTreeDelivery3 cid psrc pNames cs n l = Inr msg)"

lemma built_message:
  assumes "built cid ty msg"
  obtains body where "control_message cid ty body = Inr msg" "ty \<in> set control_types"
  using assms by (fastforce simp: built_def BuildWAOpenConnection_def BuildWANameAck_def BuildWACloseConnection_def
      BuildWARawMessage_def BuildWANameTreeDelivery3_def control_types_def res_simps)

lemma built_verified: "built cid ty msg \<Longrightarrow> length msg < 2 ^ 32 \<Longrightarrow> VerifyControlHeader (msg @ rest) = Valid ty \<and> connID_at msg = cid"
  by (erule built_message, use verify_control control_message_props(3)[of cid ty _ msg "[]"] in auto)

text \<open>
  Claim C33: framing of the control stream. Every control message that the builders return carries
  its own length, connection and type: whatever follows it in the stream, \<open>VerifyControlHeader\<close> accepts
  an open, an acknowledgement, a close, a raw message and a name delivery each as its own type, and on
  every strict prefix of it the check asks for more data. No message can have been built for another
  type or for another connection.
\<close>

theorem control_framing:
  assumes "built cid ty msg" "length msg < 2 ^ 32"
  shows "(\<forall>rest. VerifyControlHeader (msg @ rest) = Valid ty) \<and>
    (\<forall>n < length msg. VerifyControlHeader (take n msg) = NeedMore) \<and>
    unat (be32_at msg 2) = length msg \<and> connID_at msg = cid \<and>
    (\<forall>cid' ty'. built cid' ty' msg \<longrightarrow> cid' = cid \<and> ty' = ty)"
proof -
  from built_message[OF assms(1)] obtain body where m: "control_message cid ty body = Inr msg" .
  have "cid' = cid \<and> ty' = ty" if "built cid' ty' msg" for cid' ty'
    using built_verified[OF assms, of "[]"] built_verified[OF that assms(2), of "[]"] by simp
  then show ?thesis
    using built_verified[OF assms] verify_control_prefix[OF m assms(2)] control_message_props(4)[OF m assms(2), of "[]"] by simp
qed

text \<open>An acknowledgement is taken for one, and not for a close message.\<close>

theorem control_framing_witness:
  "\<exists>msg. BuildWANameAck demo_cid 5 = Inr msg \<and> VerifyControlHeader (take 3 msg) = NeedMore \<and>
     VerifyControlHeader (msg @ [1, 2]) = Valid TYPE_WANAMEACK \<and> connID_at msg = demo_cid \<and>
     \<not> built demo_cid TYPE_WACLOSECONNECTION msg"
proof -
  have "\<exists>msg. BuildWANameAck demo_cid 5 = Inr msg \<and> length msg = 23"
    by (simp add: BuildWANameAck_def control_message_eq ok_cid_def demo_cid_def)
  then obtain msg where m: "BuildWANameAck demo_cid 5 = Inr msg" "length msg = 23" by blast
  then have b: "built demo_cid TYPE_WANAMEACK msg" and len: "length msg < 2 ^ 32" by (auto simp: built_def)
  have ne: "TYPE_WACLOSECONNECTION \<noteq> TYPE_WANAMEACK" by (simp add: type_defs)
  from control_framing[OF b len] m ne show ?thesis by auto
qed

text \<open>
  Framing and round trip of a chunk body: \<open>BuildWABodyResponse\<close> and \<open>BuildWAPutRequest\<close>
  of a nonempty block return a message that \<open>VerifyChunkHeader\<close> accepts with anything after it and
  asks to complete on every strict prefix, and reading its one entry gives the name and the block.
\<close>

theorem body_response_roundtrip:
  assumes "length name = SHA1_LEN" "0 < length block" "length block < 2 ^ 31"
  shows "\<exists>msg. BuildWABodyResponse name block = Inr msg \<and>
    VerifyChunkHeader (msg @ rest) = Valid TYPE_WABODYRESPONSE \<and>
    (\<forall>n < length msg. VerifyChunkHeader (take n msg) = NeedMore) \<and>
    read_items read_response (unat (be32_at msg 7)) (drop 11 msg) =
      ([\<lparr>rs_sha1 = name, rs_block = block\<rparr>], length msg - 11)"
proof -
  let ?body = "[MAGIC_WABODYRESPONSE] @ be32 1 @ enc_response \<lparr>rs_sha1 = name, rs_block = block\<rparr>"
  let ?m = "chunk_message TYPE_WABODYRESPONSE ?body"
  have b: "BuildWABodyResponse name block = Inr ?m"
    using assms(2) by (simp add: BuildWABodyResponse_def enc_response_def)
  have l: "length ?m < 2 ^ 32"
    using assms by (simp add: chunk_message_def FillChunkHeader_def enc_response_def one_response_def
        name_bytes_20 SHA1_LEN_def)
  have "drop (6 + k) ?m = drop k ?body" for k
    using chunk_message_props(2)[OF l] by (metis add.commute drop_drop)
  from this[of 1] this[of 5] have "unat (be32_at ?m 7) = Suc 0"
    "drop 11 ?m = enc_response \<lparr>rs_sha1 = name, rs_block = block\<rparr>"
    by (simp_all add: be32_at_def)
  moreover have "length ?m - 11 = length (enc_response \<lparr>rs_sha1 = name, rs_block = block\<rparr>)"
    using chunk_message_props(1)[OF l] by simp
  ultimately show ?thesis
    using response_codec.read_all[of "[\<lparr>rs_sha1 = name, rs_block = block\<rparr>]" "[]"] assms
      verify_chunk[OF l] verify_chunk_prefix[OF l] b
    by (intro exI[of _ ?m]) (simp add: chunk_types_def)
qed

theorem body_response_roundtrip_witness:
  "\<exists>msg. BuildWABodyResponse (replicate 20 3) [1, 2] = Inr msg \<and>
     fst (read_items read_response (unat (be32_at msg 7)) (drop 11 msg)) =
       [\<lparr>rs_sha1 = replicate 20 3, rs_block = [1, 2]\<rparr>]"
  using body_response_roundtrip[of "replicate 20 3" "[1, 2]" "[]"] by (auto simp: SHA1_LEN_def)

text \<open>
  Merging two body requests. Messages with the same number of requests are merged into
  one that is read as the requests of the first followed by those of the second; messages with
  different numbers are never merged, because \<open>IsSameMessageType\<close> compares the length field too.
\<close>

theorem MergeTwoBodyRequest_concat:
  assumes "\<forall>r \<in> set (xs @ ys). length (rq_sha1 r) = SHA1_LEN" "xs \<noteq> []" "ys \<noteq> []"
    and "length (xs @ ys) < 2 ^ 26"
  shows "\<exists>m k. MergeTwoBodyRequest (body_request xs) (body_request ys) = Inr (m, k) \<and>
    read_items read_request (unat (be32_at m 7)) (drop 11 m) =
      (if length xs = length ys then (xs @ ys, 28 * length (xs @ ys)) else (xs, 28 * length xs)) \<and>
    unat (be32_at m 2) = length m"
proof -
  have okx: "\<forall>r \<in> set xs. length (rq_sha1 r) = SHA1_LEN" and oky: "\<forall>r \<in> set ys. length (rq_sha1 r) = SHA1_LEN"
    using assms(1) by auto
  have len: "length (body_request rs) = 11 + 28 * length rs" if "\<forall>r \<in> set rs. length (rq_sha1 r) = SHA1_LEN" for rs
    using length_requests[OF that] by (simp add: length_entries_message)
  have hdr: "unat (be32_at (body_request rs) 2) = length (body_request rs)" if "length (body_request rs) < 2 ^ 32" for rs
    using chunk_message_props(3)[of TYPE_WABODYREQUEST _ "[]"] that by (simp add: entries_message_def)
  show ?thesis
  proof (cases "length xs = length ys")
    case True
    have "concat (map enc_request ys) \<noteq> []"
      using length_requests[OF oky] assms(3) by (metis length_0_conv mult_eq_0_iff zero_neq_numeral)
    then have "MergeTwoBodyRequest (body_request xs) (body_request ys) =
        Inr (body_request (xs @ ys), length (concat (map enc_request ys)))"
      unfolding MergeTwoBodyRequest_def sizeof_WABodyRequest_def
      using assms True len[OF okx] len[OF oky] by (intro merge_entries) simp_all
    moreover have "length (body_request (xs @ ys)) < 2 ^ 32" using assms(4) len[OF assms(1)] by simp
    ultimately show ?thesis
      using read_body_request[OF assms(1)] assms(4) True hdr by (intro exI) (auto simp del: map_append concat_append)
  next
    case False
    then have "IsSameMessageType (body_request xs) (body_request ys) = Inr False"
      using assms(4) len[OF okx] len[OF oky] by (intro IsSameMessageType_lengths) auto
    then have "MergeTwoBodyRequest (body_request xs) (body_request ys) = Inr (body_request xs, 0)"
      by (simp add: MergeTwoBodyRequest_def merge_two_def)
    then show ?thesis using read_body_request[OF okx] assms(4) False hdr len[OF okx] by (intro exI) auto
  qed
qed

theorem MergeTwoBodyRequest_concat_witness:
  "\<exists>m k. MergeTwoBodyRequest (BuildWABodyRequest 1 (replicate 20 1) 5) (BuildWABodyRequest 1 (replicate 20 2) 6) =
      Inr (m, k) \<and>
    map rq_length (fst (read_items read_request (unat (be32_at m 7)) (drop 11 m))) = [5, 6]"
proof -
  let ?x = "\<lparr>rq_orgPxyAddr = 1, rq_sha1 = replicate 20 1, rq_length = 5\<rparr>"
  let ?y = "\<lparr>rq_orgPxyAddr = 1, rq_sha1 = replicate 20 2, rq_length = 6\<rparr>"
  from MergeTwoBodyRequest_concat[of "[?x]" "[?y]"] show ?thesis
    by (auto simp: BuildWABodyRequest_eq SHA1_LEN_def)
qed

text \<open>
  \<open>BuildWAPeekResponse\<close> reports, and writes in the header, a length three bytes larger
  than the buffer it allocates and fills: the sender transmits three bytes beyond the buffer.
\<close>

theorem peek_response_overlong:
  assumes "length name = SHA1_LEN" "BuildWAPeekResponse name isHit = (buffer, len)"
  shows "len = length buffer + 3 \<and> unat (be32_at buffer 2) = length buffer + 3"
  using assms by (auto simp: BuildWAPeekResponse_def Let_def FillChunkHeader_def name_bytes_20 sizeof_defs be32_at_def)

theorem peek_response_overlong_witness:
  "snd (BuildWAPeekResponse (replicate 20 9) 1) = length (fst (BuildWAPeekResponse (replicate 20 9) 1)) + 3"
  using peek_response_overlong[of "replicate 20 9" 1 "fst (BuildWAPeekResponse (replicate 20 9) 1)"
      "snd (BuildWAPeekResponse (replicate 20 9) 1)"] by (simp add: SHA1_LEN_def)

end
