(* ===== verification/Peer_Weights.thy ===== *)
theory Peer_Weights
  imports Chunk_Cache
begin

text \<open>
  The weights by which a chunk is assigned to a peer (waprox/peer.c): the hash of a chunk name, its
  combination with the hash of a peer, and the quicksort that puts the heaviest peer first.

  The rotation \<open>_rotl(hash, 19)\<close> comes from a header that is not part of the sources; it is the
  argument \<open>rotl\<close>. The array of weights is a list, and a read behind its end is undefined.
\<close>

section \<open>Operations\<close>

record ServerWeight =
  sw_index :: nat
  sw_weight :: u32

text \<open>The bytes of the name are read as signed characters.\<close>

fun hash_bytes :: "(u32 \<Rightarrow> u32) \<Rightarrow> byte list \<Rightarrow> u32 \<Rightarrow> u32" where
  "hash_bytes rotl [] h = h"
| "hash_bytes rotl (b # bs) h = hash_bytes rotl bs (h + (rotl h + scast b))"

definition ChunkHashString :: "(u32 \<Rightarrow> u32) \<Rightarrow> sha1 \<Rightarrow> u32 \<Rightarrow> u32" where
  "ChunkHashString rotl name h = hash_bytes rotl (take SHA1_LEN name) h"

definition WrandHash :: "u32 \<Rightarrow> u32 \<Rightarrow> u32" where
  "WrandHash url_hash svr_hash =
     (let url_digest = url_hash AND 0x7FFFFFFF;
          svr_digest = svr_hash AND 0x7FFFFFFF
      in (1103515245 * ((1103515245 * svr_digest + 12345) XOR url_digest) + 12345) AND 0x7FFFFFFF)"

definition swap :: "ServerWeight list \<Rightarrow> nat \<Rightarrow> nat \<Rightarrow> ServerWeight list" where
  "swap ws left right = ws[left := ws ! right, right := ws ! left]"

text \<open>
  The inner loops of \<open>quickSort\<close>. \<open>scan_up ws w i\<close> is the loop on \<open>i\<close> when its next test is at
  index \<open>i\<close>; \<open>scan_down ws w j\<close> is the loop on \<open>j\<close>.
\<close>

function scan_up :: "ServerWeight list \<Rightarrow> u32 \<Rightarrow> nat \<Rightarrow> nat res" where
  "scan_up ws w i =
     (if i \<ge> length ws then Inl UndefinedBehaviour
      else if sw_weight (ws ! i) > w then scan_up ws w (i + 1)
      else Inr i)"
  by pat_completeness auto
termination by (relation "measure (\<lambda>(ws, w, i). length ws - i)") auto

fun scan_down :: "ServerWeight list \<Rightarrow> u32 \<Rightarrow> nat \<Rightarrow> nat" where
  "scan_down ws w 0 = 0"
| "scan_down ws w (Suc j) = (if sw_weight (ws ! j) \<ge> w then j else scan_down ws w j)"

lemma scan_down_le: "scan_down ws w j \<le> j"
  by (induction j) auto

function partition_loop :: "ServerWeight list \<Rightarrow> u32 \<Rightarrow> nat \<Rightarrow> nat \<Rightarrow> (ServerWeight list \<times> nat) res" where
  "partition_loop ws w i j =
     rbind (scan_up ws w i) (\<lambda>i'.
       let j' = scan_down ws w j
       in if i' \<ge> j' then Inr (ws, i') else partition_loop (swap ws i' j') w (i' + 1) j')"
  by pat_completeness auto
termination
proof (relation "measure (\<lambda>(ws, w, i, j). j)")
  fix ws w i j x xa assume "\<not> xa \<le> (x::nat)" "xa = scan_down ws w j"
  then show "((swap ws x xa, w, x + 1, xa), ws, w, i, j) \<in> measure (\<lambda>(ws, w, i, j). j)"
    by (cases j) (auto simp: less_Suc_eq_le scan_down_le)
qed simp

declare scan_up.simps [simp del] partition_loop.simps [simp del]

lemma scan_up_ok:
  assumes "i \<le> r" "r < length ws" "sw_weight (ws ! r) \<le> w"
  shows "\<exists>i'. scan_up ws w i = Inr i' \<and> i \<le> i' \<and> i' \<le> r \<and> sw_weight (ws ! i') \<le> w \<and>
    (\<forall>m. i \<le> m \<and> m < i' \<longrightarrow> w < sw_weight (ws ! m))"
  using assms
proof (induction ws w i rule: scan_up.induct)
  case (1 ws w i)
  show ?case
  proof (cases "sw_weight (ws ! i) > w")
    case True
    with 1(4) have "i \<noteq> r" by auto
    with 1(2) have "i + 1 \<le> r" by simp
    from 1(1)[OF _ True this 1(3,4)] 1(2,3) obtain i' where "scan_up ws w (i + 1) = Inr i'" "i + 1 \<le> i'" "i' \<le> r"
      "sw_weight (ws ! i') \<le> w" "\<forall>m. i + 1 \<le> m \<and> m < i' \<longrightarrow> w < sw_weight (ws ! m)" by auto
    moreover have "w < sw_weight (ws ! m)" if "i \<le> m" "m < i'" for m
      using that True calculation(5) by (cases "m = i") auto
    ultimately show ?thesis using True 1(2,3) by (subst scan_up.simps) auto
  next
    case False
    then show ?thesis using 1(2,3) by (subst scan_up.simps) auto
  qed
qed

lemma scan_down_ok:
  shows "\<forall>m. scan_down ws w j < m \<and> m < j \<longrightarrow> sw_weight (ws ! m) < w"
    "0 < scan_down ws w j \<Longrightarrow> w \<le> sw_weight (ws ! scan_down ws w j)"
    "0 < j \<Longrightarrow> scan_down ws w j < j"
  by (induction j) (auto simp: less_Suc_eq not_le split: if_splits)

lemma swap_facts [simp]:
  "length (swap ws i j) = length ws"
  "i < length ws \<Longrightarrow> j < length ws \<Longrightarrow> mset (swap ws i j) = mset ws"
  "i < length ws \<Longrightarrow> j < length ws \<Longrightarrow> m < length ws \<Longrightarrow>
     swap ws i j ! m = (if m = j then ws ! i else if m = i then ws ! j else ws ! m)"
  by (auto simp: swap_def mset_swap)

text \<open>The loop that splits a range around the last weight, which it leaves in place.\<close>

lemma partition_loop_ok:
  assumes "l \<le> i" "i \<le> j" "j \<le> r" "r < length ws" "sw_weight (ws ! r) = w"
    and "\<forall>m. l \<le> m \<and> m < i \<longrightarrow> w \<le> sw_weight (ws ! m)" "\<forall>m. j \<le> m \<and> m < r \<longrightarrow> sw_weight (ws ! m) \<le> w"
    and "0 < l \<longrightarrow> w \<le> sw_weight (ws ! (l - 1))"
  shows "\<exists>ws' i'. partition_loop ws w i j = Inr (ws', i') \<and> l \<le> i' \<and> i' \<le> r \<and> length ws' = length ws \<and>
    mset ws' = mset ws \<and> (\<forall>m. m < l \<or> r \<le> m \<longrightarrow> ws' ! m = ws ! m) \<and>
    (\<forall>m. l \<le> m \<and> m < i' \<longrightarrow> w \<le> sw_weight (ws' ! m)) \<and> (\<forall>m. i' \<le> m \<and> m < r \<longrightarrow> sw_weight (ws' ! m) \<le> w)"
  using assms
proof (induction ws w i j rule: partition_loop.induct)
  case (1 ws w i j)
  have "i \<le> r" "sw_weight (ws ! r) \<le> w" using 1(3,4,6) by auto
  from scan_up_ok[OF this(1) 1(5) this(2)] obtain i1 where i1: "scan_up ws w i = Inr i1" "i \<le> i1" "i1 \<le> r"
    "sw_weight (ws ! i1) \<le> w" "\<forall>m. i \<le> m \<and> m < i1 \<longrightarrow> w < sw_weight (ws ! m)" by blast
  define j1 where "j1 = scan_down ws w j"
  note j1 = scan_down_ok[where ws = ws and w = w and j = j, folded j1_def] scan_down_le[of ws w j, folded j1_def]
  have up: "w \<le> sw_weight (ws ! m)" if "l \<le> m" "m < i1" for m
    using that 1(7) i1(5) by (cases "m < i") (auto simp: less_imp_le)
  show ?case
  proof (cases "i1 \<ge> j1")
    case True
    have "sw_weight (ws ! m) \<le> w" if m: "i1 \<le> m" "m < r" for m
    proof -
      consider "m = i1" | "j1 < m" "m < j" | "j \<le> m" using m True by linarith
      then show ?thesis using i1(4) j1(1) 1(8) m(2) by cases (auto simp: less_imp_le)
    qed
    with True i1 up 1(2) show ?thesis by (subst partition_loop.simps) (auto simp: j1_def)
  next
    case False
    then have less: "i1 < j1" "j1 < j" using j1(3,4) by (cases j; auto)+
    have jw: "w \<le> sw_weight (ws ! j1)" using j1(2) less by auto
    have len: "i1 < length ws" "j1 < length ws" using less 1(4,5) by auto
    let ?ws = "swap ws i1 j1"
    have nth: "?ws ! m = (if m = j1 then ws ! i1 else if m = i1 then ws ! j1 else ws ! m)" if "m < length ws" for m
      using that len by simp
    have a: "\<forall>m. l \<le> m \<and> m < i1 + 1 \<longrightarrow> w \<le> sw_weight (?ws ! m)"
      using up jw less len nth by (auto simp: less_Suc_eq)
    have b: "\<forall>m. j1 \<le> m \<and> m < r \<longrightarrow> sw_weight (?ws ! m) \<le> w"
    proof (intro allI impI)
      fix m assume m: "j1 \<le> m \<and> m < r"
      then consider "m = j1" | "j1 < m" "m < j" | "j \<le> m" by linarith
      then show "sw_weight (?ws ! m) \<le> w"
        using i1(4) j1(1) 1(5,8) m less nth[of m] by cases (auto simp: less_imp_le)
    qed
    have c: "0 < l \<longrightarrow> w \<le> sw_weight (?ws ! (l - 1))"
      using 1(2,5,9) i1(2,3) less nth[of "l - 1"] by auto
    have d: "sw_weight (?ws ! r) = w" using 1(4,5,6) less nth[of r] by auto
    from 1(1)[OF i1(1) j1_def False] a b c d 1(2,4,5) i1(2) less len obtain ws' i' where
      r: "partition_loop ?ws w (i1 + 1) j1 = Inr (ws', i')" "l \<le> i'" "i' \<le> r" "length ws' = length ws"
      "mset ws' = mset ws" "\<forall>m. m < l \<or> r \<le> m \<longrightarrow> ws' ! m = ?ws ! m"
      "\<forall>m. l \<le> m \<and> m < i' \<longrightarrow> w \<le> sw_weight (ws' ! m)" "\<forall>m. i' \<le> m \<and> m < r \<longrightarrow> sw_weight (ws' ! m) \<le> w"
      by (auto simp: j1_def)
    have e: "partition_loop ws w i j = partition_loop ?ws w (i1 + 1) j1"
      using i1(1) False by (subst partition_loop.simps) (simp add: j1_def Let_def)
    have "ws' ! m = ws ! m" if "m < l \<or> r \<le> m" for m
      using r(6) that less 1(2,4) i1(2,3) by (auto simp: swap_def)
    with r e show ?thesis by auto
  qed
qed


text \<open>
  \<open>left\<close> and \<open>right\<close> are the bounds of the range, which is empty when \<open>right\<close> is below \<open>left\<close> (it can
  be -1); the recursion is on smaller ranges because the split point lies between them.
\<close>

definition partition_range :: "ServerWeight list \<Rightarrow> int \<Rightarrow> int \<Rightarrow> (ServerWeight list \<times> nat) res" where
  "partition_range ws left right =
     (if left < 0 \<or> nat right \<ge> length ws then Inl UndefinedBehaviour
      else let curWeight = ws ! nat right
        in rbind (partition_loop ws (sw_weight curWeight) (nat left) (nat right))
             (\<lambda>(ws', i). Inr (swap ws' i (nat right), i)))"

lemma partition_loop_range:
  assumes "partition_loop ws w i j = Inr (ws', i')" "i \<le> r" "j \<le> r" "r < length ws" "sw_weight (ws ! r) = w"
  shows "i \<le> i' \<and> i' \<le> r"
  using assms
proof (induction ws w i j rule: partition_loop.induct)
  case (1 ws w i j)
  from scan_up_ok[OF 1(3,5)] 1(6) obtain i1 where i1: "scan_up ws w i = Inr i1" "i \<le> i1" "i1 \<le> r" by auto
  show ?case
  proof (cases "i1 \<ge> scan_down ws w j")
    case True
    with 1(2) i1 show ?thesis by (subst (asm) partition_loop.simps) auto
  next
    case False
    let ?j = "scan_down ws w j"
    have less: "i1 < ?j" "?j < j" using False scan_down_ok(3)[of j ws w] by (cases j; auto)+
    have r: "sw_weight (swap ws i1 ?j ! r) = w" using less 1(4-6) by (subst swap_facts(3)) auto
    have e: "partition_loop (swap ws i1 ?j) w (i1 + 1) ?j = Inr (ws', i')"
      using 1(2) i1(1) False by (subst (asm) partition_loop.simps) (simp add: Let_def)
    from 1(1)[OF i1(1) refl False e _ _ _ r] less 1(4,5) i1(2) show ?thesis by auto
  qed
qed

lemma partition_range_split:
  assumes "partition_range ws left right = Inr (ws', i)" "right > left"
  shows "left \<le> int i" "int i \<le> right"
  using assms partition_loop_range[of ws _ "nat left" "nat right" _ _ "nat right"]
  by (fastforce simp: partition_range_def Let_def res_simps nat_le_iff split: if_splits)+

function quickSort :: "ServerWeight list \<Rightarrow> int \<Rightarrow> int \<Rightarrow> ServerWeight list res" where
  "quickSort ws left right =
     (if right > left then
        rbind (partition_range ws left right) (\<lambda>(ws1, i).
          rbind (quickSort ws1 left (int i - 1)) (\<lambda>ws2. quickSort ws2 (int i + 1) right))
      else Inr ws)"
  by pat_completeness auto
termination
  by (relation "measure (\<lambda>(ws, left, right). nat (right - left))") (auto dest: partition_range_split)

declare quickSort.simps [simp del]

text \<open>
  A range of the array after sorting: the weights of the range in falling order, everything else in
  place. A weight in front of the range that is at least as large as all of it is the sentinel the
  inner loops stop at.
\<close>

definition falling :: "ServerWeight list \<Rightarrow> nat \<Rightarrow> nat \<Rightarrow> bool" where
  "falling ws l n \<longleftrightarrow> (\<forall>a b. l \<le> a \<and> a \<le> b \<and> b < n \<longrightarrow> sw_weight (ws ! b) \<le> sw_weight (ws ! a))"

definition same_outside :: "nat \<Rightarrow> nat \<Rightarrow> ServerWeight list \<Rightarrow> ServerWeight list \<Rightarrow> bool" where
  "same_outside l n ws ws' \<longleftrightarrow> length ws' = length ws \<and> mset ws' = mset ws \<and> (\<forall>m. m < l \<or> n \<le> m \<longrightarrow> ws' ! m = ws ! m)"


lemma same_outside_range:
  assumes "same_outside l n ws ws'" "l \<le> n" "n \<le> length ws" "\<forall>m. l \<le> m \<and> m < n \<longrightarrow> P (ws ! m)"
  shows "\<forall>m. l \<le> m \<and> m < n \<longrightarrow> P (ws' ! m)"
proof -
  define mid where "mid xs = take (n - l) (drop l xs)" for xs :: "ServerWeight list"
  have len: "length ws' = length ws" and m: "mset ws' = mset ws" and out: "\<And>m. m < l \<or> n \<le> m \<Longrightarrow> ws' ! m = ws ! m"
    using assms(1) by (auto simp: same_outside_def)
  have split: "xs = take l xs @ mid xs @ drop n xs" for xs
    unfolding mid_def by (metis append_take_drop_id assms(2) drop_drop le_add_diff_inverse2)
  have "take l ws' = take l ws" "drop n ws' = drop n ws" using len out assms(2,3) by (auto intro!: nth_equalityI)
  then have "mset (mid ws') = mset (mid ws)" using m split[of ws] split[of ws'] by (metis add_left_imp_eq add_right_imp_eq mset_append)
  then have s: "set (mid ws') = set (mid ws)" by (rule mset_eq_setD)
  have P: "P x" if "x \<in> set (mid ws)" for x
    using that assms(3,4) by (force simp: mid_def in_set_conv_nth)
  have "ws' ! m \<in> set (mid ws')" if "l \<le> m" "m < n" for m
    using that assms(3) len by (auto simp: mid_def in_set_conv_nth intro!: exI[of _ "m - l"])
  then show ?thesis using s P by blast
qed

lemma same_outside_trans:
  assumes "same_outside l n ws ws'" "same_outside l' n' ws' ws''" "l \<le> l'" "n' \<le> n"
  shows "same_outside l n ws ws''"
  using assms by (auto simp: same_outside_def)

lemma partition_range_ok:
  assumes "0 \<le> left" "left < right" "nat right < length ws"
    and "0 < left \<longrightarrow> (\<forall>m. nat left \<le> m \<and> m \<le> nat right \<longrightarrow> sw_weight (ws ! m) \<le> sw_weight (ws ! (nat left - 1)))"
  shows "\<exists>ws' i. partition_range ws left right = Inr (ws', i) \<and> nat left \<le> i \<and> i \<le> nat right \<and>
    same_outside (nat left) (Suc (nat right)) ws ws' \<and>
    (\<forall>m. nat left \<le> m \<and> m < i \<longrightarrow> sw_weight (ws' ! i) \<le> sw_weight (ws' ! m)) \<and>
    (\<forall>m. i < m \<and> m \<le> nat right \<longrightarrow> sw_weight (ws' ! m) \<le> sw_weight (ws' ! i))"
proof -
  let ?l = "nat left" and ?r = "nat right" let ?w = "sw_weight (ws ! ?r)"
  have sent: "0 < ?l \<longrightarrow> ?w \<le> sw_weight (ws ! (?l - 1))" using assms(2,4) by auto
  have lr: "?l \<le> ?r" using assms(2) by simp
  have none: "\<forall>m. a \<le> m \<and> m < a \<longrightarrow> Q m" for a :: nat and Q by auto
  obtain ws1 i where
    p: "partition_loop ws ?w ?l ?r = Inr (ws1, i)" "?l \<le> i" "i \<le> ?r" "length ws1 = length ws" "mset ws1 = mset ws"
      "\<forall>m. m < ?l \<or> ?r \<le> m \<longrightarrow> ws1 ! m = ws ! m" "\<forall>m. ?l \<le> m \<and> m < i \<longrightarrow> ?w \<le> sw_weight (ws1 ! m)"
      "\<forall>m. i \<le> m \<and> m < ?r \<longrightarrow> sw_weight (ws1 ! m) \<le> ?w"
    using partition_loop_ok[OF order_refl lr order_refl assms(3) refl none none sent] by blast
  let ?ws = "swap ws1 i ?r"
  have nth: "?ws ! m = (if m = ?r then ws1 ! i else if m = i then ws1 ! ?r else ws1 ! m)" if "m < length ws" for m
    using p(3,4) assms(3) that by simp
  have w: "sw_weight (ws1 ! ?r) = ?w" using p(6) by simp
  have i: "sw_weight (?ws ! i) = ?w" using nth[of i] p(3) assms(3) w by auto
  have "same_outside ?l (Suc ?r) ws ?ws"
  proof -
    have "mset ?ws = mset ws" using p(3-5) assms(3) swap_facts(2)[of i ws1 ?r] by simp
    moreover have "?ws ! m = ws ! m" if "m < ?l \<or> Suc ?r \<le> m" for m
      using that p(2,3,6) lr by (auto simp: swap_def)
    ultimately show ?thesis using p(4) by (simp add: same_outside_def)
  qed
  moreover have "sw_weight (?ws ! m) \<le> ?w" if "i < m" "m \<le> ?r" for m
    using that p(3,8) assms(3) nth[of m] by auto
  moreover have "?w \<le> sw_weight (?ws ! m)" if "?l \<le> m" "m < i" for m
    using that p(3,7) assms(3) nth[of m] by auto
  moreover have "partition_range ws left right = Inr (?ws, i)"
    using p(1) assms(1-3) by (simp add: partition_range_def Let_def)
  ultimately show ?thesis using p(2,3) i by auto
qed

lemma quickSort_ok:
  assumes "0 \<le> left" "right < int (length ws)"
    and "0 < left \<longrightarrow> (\<forall>m. nat left \<le> m \<and> m < nat (right + 1) \<longrightarrow> sw_weight (ws ! m) \<le> sw_weight (ws ! (nat left - 1)))"
  shows "\<exists>ws'. quickSort ws left right = Inr ws' \<and> same_outside (nat left) (max (nat left) (nat (right + 1))) ws ws' \<and>
    falling ws' (nat left) (nat (right + 1))"
  using assms
proof (induction ws left right rule: quickSort.induct)
  case (1 ws left right)
  show ?case
  proof (cases "right > left")
    case False
    have "a = b" if "nat left \<le> a" "a \<le> b" "b < nat (right + 1)" for a b using that False by linarith
    then have "falling ws (nat left) (nat (right + 1))" unfolding falling_def by fastforce
    with False show ?thesis by (subst quickSort.simps) (auto simp: same_outside_def)
  next
    case True
    let ?l = "nat left" and ?r = "nat right"
    have n: "nat (right + 1) = Suc ?r" "?r < length ws" using True 1(3,4) by auto
    from partition_range_ok[OF 1(3) True n(2)] 1(5) obtain ws1 i where
      p: "partition_range ws left right = Inr (ws1, i)" "?l \<le> i" "i \<le> ?r" "same_outside ?l (Suc ?r) ws ws1"
        "\<forall>m. ?l \<le> m \<and> m < i \<longrightarrow> sw_weight (ws1 ! i) \<le> sw_weight (ws1 ! m)"
        "\<forall>m. i < m \<and> m \<le> ?r \<longrightarrow> sw_weight (ws1 ! m) \<le> sw_weight (ws1 ! i)"
      unfolding n(1) by (auto simp: less_Suc_eq_le)
    have len: "length ws1 = length ws" using p(4) by (simp add: same_outside_def)
    have "\<forall>m. ?l \<le> m \<and> m < Suc ?r \<longrightarrow> sw_weight (ws1 ! m) \<le> sw_weight (ws ! (?l - 1))" if "0 < left"
      using same_outside_range[OF p(4), of "\<lambda>x. sw_weight x \<le> sw_weight (ws ! (?l - 1))"] 1(5) that n True by auto
    moreover have "ws1 ! (?l - 1) = ws ! (?l - 1)" if "0 < left" using p(4) that by (simp add: same_outside_def)
    ultimately have "0 < left \<longrightarrow> (\<forall>m. ?l \<le> m \<and> m < nat (int i - 1 + 1) \<longrightarrow> sw_weight (ws1 ! m) \<le> sw_weight (ws1 ! (?l - 1)))"
      using p(3) by simp
    moreover have "int i - 1 < int (length ws1)" "nat (int i - 1 + 1) = i" "max ?l i = i" using p(2,3) n(2) len by auto
    ultimately obtain ws2 where
      q: "quickSort ws1 left (int i - 1) = Inr ws2" "same_outside ?l i ws1 ws2" "falling ws2 ?l i"
      using 1(1)[OF True p(1) refl 1(3)] by metis
    have len2: "length ws2 = length ws" and keep: "\<And>m. i \<le> m \<Longrightarrow> ws2 ! m = ws1 ! m"
      using q(2) len by (auto simp: same_outside_def)
    have "nat (int i + 1) = Suc i" "max (Suc i) (Suc ?r) = Suc ?r" "0 \<le> int i + 1" "right < int (length ws2)"
      using p(3) 1(4) len2 by auto
    moreover have "\<forall>m. Suc i \<le> m \<and> m < Suc ?r \<longrightarrow> sw_weight (ws2 ! m) \<le> sw_weight (ws2 ! (Suc i - 1))" using p(6) keep by simp
    ultimately obtain ws3 where
      s: "quickSort ws2 (int i + 1) right = Inr ws3" "same_outside (Suc i) (Suc ?r) ws2 ws3" "falling ws3 (Suc i) (Suc ?r)"
      using 1(2)[OF True p(1) refl q(1)] unfolding n(1) by metis
    have below: "\<forall>m. ?l \<le> m \<and> m < i \<longrightarrow> sw_weight (ws1 ! i) \<le> sw_weight (ws2 ! m)"
      using same_outside_range[OF q(2) p(2) _ p(5)] p(3) n(2) len by simp
    have above: "\<forall>m. Suc i \<le> m \<and> m < Suc ?r \<longrightarrow> sw_weight (ws3 ! m) \<le> sw_weight (ws1 ! i)"
      using same_outside_range[OF s(2), of "\<lambda>x. sw_weight x \<le> sw_weight (ws1 ! i)"] p(3,6) n(2) len2 keep by simp
    have low: "ws3 ! m = ws2 ! m" if "m \<le> i" for m using s(2) that by (simp add: same_outside_def)
    have "sw_weight (ws3 ! b) \<le> sw_weight (ws3 ! a)" if ab: "?l \<le> a" "a \<le> b" "b < Suc ?r" for a b
    proof -
      consider "b < i" | "a < i" "i < b" | "a < i" "b = i" | "a = i" "i < b" | "a = i" "b = i" | "i < a"
        using ab(2) by linarith
      then show ?thesis
      proof cases
        case 1 then show ?thesis using ab low q(3) by (simp add: falling_def)
      next
        case 2
        then have "sw_weight (ws3 ! b) \<le> sw_weight (ws1 ! i)" "sw_weight (ws1 ! i) \<le> sw_weight (ws2 ! a)" "ws3 ! a = ws2 ! a"
          using ab low[of a] below above by auto
        then show ?thesis by simp
      next
        case 3 then show ?thesis using ab low keep[of i] below by simp
      next
        case 4 then show ?thesis using ab low[of i] keep[of i] above by simp
      next
        case 5 then show ?thesis by simp
      next
        case 6 then show ?thesis using ab s(3) by (simp add: falling_def)
      qed
    qed
    then have f: "falling ws3 ?l (Suc ?r)" by (simp add: falling_def)
    have "same_outside ?l (Suc ?r) ws ws3"
      by (rule same_outside_trans[OF same_outside_trans[OF p(4) q(2)] s(2)]) (use p(2,3) in auto)
    moreover have "max ?l (Suc ?r) = Suc ?r" using p(2,3) by simp
    moreover have "quickSort ws left right = Inr ws3"
      using True p(1) q(1) s(1) by (subst quickSort.simps) simp
    ultimately show ?thesis using f n(1) by simp
  qed
qed

end
