(* ===== verification/Peer.thy ===== *)
theory Peer
  imports Peer_Weights Protocol
begin

text \<open>
  The table of peer proxies (waprox/peer.c): configuration, liveness by ping, the choice of the peer
  that is responsible for a chunk, and the rotation over the connections to a peer.

  \<open>g_PeerInfo\<close> is the list of its entries in use, so \<open>g_NumPeers\<close> is its length; a pointer to an entry
  is its index. The tables by name and by address have the key as it was at the insertion, which is
  what the pointers into the entries refer to. Names are lists of bytes. What the operating system
  provides enters as arguments: the result of a name lookup, the clock, the local host name and
  addresses, and whether a datagram could be sent. The arrays of connections of a peer have
  \<open>MAX_PER_PEER_CONNS\<close> entries; the number of connections to use is a setting that is not checked
  against it, and an index beyond the array is undefined behaviour. A datagram that is sent is a pair of its address and its bytes. \<open>HashString\<close>, which is not
  part of the sources, is the argument \<open>hs\<close>. The printable form of the address (\<open>ip\<close>) is left out.
\<close>

section \<open>Data\<close>

definition MAX_PEER_SIZE :: nat where "MAX_PEER_SIZE = 1024"
definition MAX_PER_PEER_CONNS :: nat where "MAX_PER_PEER_CONNS = 10"

record PeerInfo =
  pi_idx :: nat
  pi_name :: "byte list option"
  pi_netAddr :: u32
  pi_isAlive :: bool
  pi_isLocalHost :: bool
  pi_lastPingTime :: int
  pi_addrHash :: u32
  pi_numRedirected :: u32
  pi_bytesRedirected :: u32
  pi_RTT :: u32
  pi_networkPendingBytes :: u32
  pi_diskPendingChunks :: u32
  pi_nameFlowID :: nat
  pi_chunkFlowID :: nat
  pi_chunkCI :: "nat option list"
  pi_nameCI :: "nat option list"
  pi_userList :: "nat list"
  pi_numUsers :: u32

record peer_table =
  g_PeerInfo :: "PeerInfo list"
  g_NumLivePeers :: int
  g_FirstPeerIdx :: int
  g_LocalInfo :: "nat option"
  peerNameMap :: "(byte list, nat) hashtable"
  peerAddrMap :: "(u32, nat) hashtable"
  peerAssocMap :: "nat \<Rightarrow> nat option"

text \<open>An entry as \<open>calloc\<close> leaves it.\<close>

definition blank_peer :: PeerInfo where
  "blank_peer = \<lparr>pi_idx = 0, pi_name = None, pi_netAddr = 0, pi_isAlive = False, pi_isLocalHost = False,
     pi_lastPingTime = 0, pi_addrHash = 0, pi_numRedirected = 0, pi_bytesRedirected = 0,
     pi_RTT = 0, pi_networkPendingBytes = 0, pi_diskPendingChunks = 0, pi_nameFlowID = 0, pi_chunkFlowID = 0, pi_chunkCI = replicate MAX_PER_PEER_CONNS None,
     pi_nameCI = replicate MAX_PER_PEER_CONNS None, pi_userList = [], pi_numUsers = 0\<rparr>"

section \<open>Operations\<close>

definition hash_from_key_fn_name :: "byte list \<Rightarrow> u32" where
  "hash_from_key_fn_name name = of_nat (sum_list (map unat name))"

definition keys_equal_fn_name :: "byte list \<Rightarrow> byte list \<Rightarrow> bool" where
  "keys_equal_fn_name key1 key2 \<longleftrightarrow> length key1 = length key2 \<and> take (length key1) key2 = key1"

definition hash_from_key_fn_addr :: "u32 \<Rightarrow> u32" where
  "hash_from_key_fn_addr addr = of_nat (sum_list (map unat (host32 addr)))"

definition keys_equal_fn_addr :: "u32 \<Rightarrow> u32 \<Rightarrow> bool" where
  "keys_equal_fn_addr key1 key2 \<longleftrightarrow> host32 key1 = host32 key2"

definition CreatePeerInfo :: "peer_table res" where
  "CreatePeerInfo =
     (case (create_hashtable True True (of_nat MAX_PEER_SIZE) hash_from_key_fn_name keys_equal_fn_name,
            create_hashtable True True (of_nat MAX_PEER_SIZE) hash_from_key_fn_addr keys_equal_fn_addr) of
        (Some nm, Some am) \<Rightarrow>
          Inr \<lparr>g_PeerInfo = [], g_NumLivePeers = 0, g_FirstPeerIdx = -1, g_LocalInfo = None,
               peerNameMap = nm, peerAddrMap = am, peerAssocMap = (\<lambda>_. None)\<rparr>
      | _ \<Rightarrow> Inl NiceExit)"

definition CheckLocalHost :: "byte list \<Rightarrow> u32 list \<Rightarrow> byte list \<Rightarrow> u32 \<Rightarrow> bool" where
  "CheckLocalHost hostName localAddr name addr \<longleftrightarrow>
     take (length hostName) name = hostName \<or> addr \<in> set localAddr"

definition add_peer :: "peer_table \<Rightarrow> PeerInfo \<Rightarrow> peer_table res" where
  "add_peer p info =
     (let p1 = p\<lparr>g_PeerInfo := g_PeerInfo p @ [info]\<rparr>
      in ensure (length (g_PeerInfo p1) \<le> MAX_PEER_SIZE) (Inr p1))"

definition AddUnknownPeerInfo :: "peer_table \<Rightarrow> u32 \<Rightarrow> (peer_table \<times> nat) res" where
  "AddUnknownPeerInfo p netAddr =
     (let idx = length (g_PeerInfo p) in
      if idx \<ge> MAX_PEER_SIZE then Inl UndefinedBehaviour
      else rbind (table_insert (peerAddrMap p) netAddr idx) (\<lambda>am.
        rbind (add_peer (p\<lparr>peerAddrMap := am\<rparr>)
            (blank_peer\<lparr>pi_idx := idx, pi_netAddr := netAddr, pi_isAlive := True\<rparr>)) (\<lambda>p1.
          Inr (p1, idx))))"

definition ParsePeerConf :: "(byte list \<Rightarrow> u32) \<Rightarrow> (byte list \<Rightarrow> u32 option) \<Rightarrow> byte list \<Rightarrow> u32 list \<Rightarrow>
    peer_table \<Rightarrow> byte list \<Rightarrow> peer_table res" where
  "ParsePeerConf hs lookup hostName localAddr p buf =
     (if buf = [] then Inl UndefinedBehaviour
      else let name = (if last buf = 10 then butlast buf else buf);
               idx = length (g_PeerInfo p)
        in if idx \<ge> MAX_PEER_SIZE then Inl UndefinedBehaviour
        else let first = (if g_FirstPeerIdx p = -1 then int idx else g_FirstPeerIdx p);
               addr = (case lookup name of None \<Rightarrow> 0 | Some a \<Rightarrow> a);
               isLocal = CheckLocalHost hostName localAddr name addr;
               p1 = p\<lparr>g_FirstPeerIdx := first,
                      g_LocalInfo := (if isLocal then Some idx else g_LocalInfo p)\<rparr>
        in rbind (table_insert (peerNameMap p1) name idx) (\<lambda>nm.
           rbind (table_insert (peerAddrMap p1) addr idx) (\<lambda>am.
             add_peer (p1\<lparr>peerNameMap := nm, peerAddrMap := am\<rparr>)
               (blank_peer\<lparr>pi_idx := idx, pi_name := Some name, pi_netAddr := addr,
                  pi_addrHash := hs name, pi_isLocalHost := isLocal\<rparr>))))"

definition GetPeerInfoByName :: "peer_table \<Rightarrow> byte list \<Rightarrow> nat option" where
  "GetPeerInfoByName p name = hashtable_search (peerNameMap p) name"

definition GetPeerInfoByAddr :: "peer_table \<Rightarrow> u32 \<Rightarrow> nat option" where
  "GetPeerInfoByAddr p addr = hashtable_search (peerAddrMap p) addr"

definition SetPeerInfoByAssoc :: "peer_table \<Rightarrow> int \<Rightarrow> int \<Rightarrow> peer_table res" where
  "SetPeerInfoByAssoc p assocID peerID =
     ensure (assocID \<ge> 0 \<and> assocID < int MAX_PEER_SIZE)
       (ensure (peerID \<ge> 0 \<and> peerID < int MAX_PEER_SIZE)
         (Inr (p\<lparr>peerAssocMap := (peerAssocMap p)(nat assocID := Some (nat peerID))\<rparr>)))"

definition GetPeerInfoByAssoc :: "peer_table \<Rightarrow> nat \<Rightarrow> nat option res" where
  "GetPeerInfoByAssoc p assocID =
     (if assocID < MAX_PEER_SIZE then Inr (peerAssocMap p assocID) else Inl UndefinedBehaviour)"

definition GetPeerIdxFromFD :: "peer_table \<Rightarrow> u32 \<Rightarrow> (peer_table \<times> nat) res" where
  "GetPeerIdxFromFD p peeraddr =
     (case GetPeerInfoByAddr p peeraddr of
        None \<Rightarrow> AddUnknownPeerInfo p peeraddr
      | Some i \<Rightarrow> if i < length (g_PeerInfo p) then Inr (p, pi_idx (g_PeerInfo p ! i)) else Inl UndefinedBehaviour)"

text \<open>
  The case of \<open>SendPing\<close> that the callers use, with the peer given; the datagram is the result. \<open>io\<close> is
  what the operating system does: it gives no socket, it does not take the datagram, or it takes it.
\<close>

datatype ping_io = no_socket | not_sent | ping_sent

definition SendPing :: "ping_io \<Rightarrow> peer_table \<Rightarrow> bool \<Rightarrow> nat \<Rightarrow> byte list \<Rightarrow> (u32 \<times> byte list) res" where
  "SendPing io p isPing i timestamp =
     (if io = no_socket then Inl NiceExit
      else if i \<ge> length (g_PeerInfo p) then Inl UndefinedBehaviour
      else case g_LocalInfo p of
        None \<Rightarrow> Inl AssertFail
      | Some l \<Rightarrow>
          if l < length (g_PeerInfo p) then
            rbind (BuildWAPing (if isPing then 1 else 0) (pi_netAddr (g_PeerInfo p ! l)) timestamp 0 0)
              (\<lambda>msg. if io = not_sent then Inl NiceExit else Inr (pi_netAddr (g_PeerInfo p ! i), msg))
          else Inl UndefinedBehaviour)"

definition update_peer :: "nat \<Rightarrow> (PeerInfo \<Rightarrow> PeerInfo) \<Rightarrow> peer_table \<Rightarrow> peer_table" where
  "update_peer i f p = p\<lparr>g_PeerInfo := (g_PeerInfo p)[i := f (g_PeerInfo p ! i)]\<rparr>"

definition UpdatePeerLiveness :: "int \<Rightarrow> nat \<Rightarrow> peer_table \<Rightarrow> peer_table res" where
  "UpdatePeerLiveness now i p =
     (if i \<ge> length (g_PeerInfo p) then Inl UndefinedBehaviour
      else rbind
        (if \<not> pi_isAlive (g_PeerInfo p ! i)
         then let p1 = (update_peer i (\<lambda>pi. pi\<lparr>pi_isAlive := True\<rparr>) p)\<lparr>g_NumLivePeers := g_NumLivePeers p + 1\<rparr>
              in ensure (g_NumLivePeers p1 \<le> int (length (g_PeerInfo p1))) (Inr p1)
         else Inr p)
        (\<lambda>p1. Inr (update_peer i (\<lambda>pi. pi\<lparr>pi_lastPingTime := now\<rparr>) p1)))"

text \<open>The fields of a ping message; \<open>rtt\<close> is the time since its time stamp in milliseconds.\<close>

definition ProcessPing :: "ping_io \<Rightarrow> int \<Rightarrow> u32 \<Rightarrow> peer_table \<Rightarrow> byte list \<Rightarrow> (peer_table \<times> (u32 \<times> byte list) list) res" where
  "ProcessPing io now rtt p msg =
     (case GetPeerInfoByAddr p (rd_host32 (drop 2 msg)) of
        None \<Rightarrow> Inr (p, [])
      | Some i \<Rightarrow>
          rbind (UpdatePeerLiveness now i p) (\<lambda>p1.
            if msg ! 1 \<noteq> 0 then
              if int (pi_idx (g_PeerInfo p1 ! i)) \<noteq> g_FirstPeerIdx p1 then
                rbind (SendPing io p1 False i (take 16 (drop 6 msg))) (\<lambda>d. Inr (p1, [d]))
              else Inr (p1, [])
            else
              Inr (update_peer i (\<lambda>pi. pi\<lparr>pi_networkPendingBytes := rd_be32 (drop 22 msg),
                     pi_diskPendingChunks := rd_be32 (drop 26 msg), pi_RTT := rtt\<rparr>) p1, [])))"

definition PickRandomPeer :: "nat \<Rightarrow> peer_table \<Rightarrow> int" where
  "PickRandomPeer rand p =
     (let ready = filter (\<lambda>i. pi_isAlive (g_PeerInfo p ! i)) [0..<length (g_PeerInfo p)]
      in if ready = [] then -1 else int (ready ! (rand mod length ready)))"

definition PickDestinationProxy :: "peer_table \<Rightarrow> int res" where
  "PickDestinationProxy p = ensure (g_FirstPeerIdx p \<noteq> -1) (Inr (g_FirstPeerIdx p))"

definition PING_TIMEOUT :: "int \<Rightarrow> int" where
  "PING_TIMEOUT timerInterval = timerInterval * 3"

text \<open>
  A step of the loop of \<open>CheckNodeStatus\<close>. \<open>timeex\<close> is called once in each step and twice after the loop:
  \<open>now k\<close> is the time that the \<open>k\<close>-th call returns. \<open>curtime i\<close> is the time stamp of the ping to peer
  \<open>i\<close>, and \<open>io i\<close> what becomes of it.
\<close>

definition check_node :: "int \<Rightarrow> (nat \<Rightarrow> int) \<Rightarrow> (nat \<Rightarrow> byte list) \<Rightarrow> (nat \<Rightarrow> ping_io) \<Rightarrow> nat \<Rightarrow>
    peer_table \<times> (u32 \<times> byte list) list \<Rightarrow> (peer_table \<times> (u32 \<times> byte list) list) res" where
  "check_node timerInterval now curtime io i = (\<lambda>(p, out).
     rbind (if \<not> pi_isLocalHost (g_PeerInfo p ! i) \<and> int i \<noteq> g_FirstPeerIdx p
            then rbind (SendPing (io i) p True i (curtime i)) (\<lambda>d. Inr (out @ [d])) else Inr out) (\<lambda>out1.
       if pi_lastPingTime (g_PeerInfo p ! i) + PING_TIMEOUT timerInterval \<le> now i \<and> pi_isAlive (g_PeerInfo p ! i)
       then let p1 = (update_peer i (\<lambda>pi. pi\<lparr>pi_isAlive := False\<rparr>) p)\<lparr>g_NumLivePeers := g_NumLivePeers p - 1\<rparr>
            in ensure (g_NumLivePeers p1 \<ge> 0) (Inr (p1, out1))
       else Inr (p, out1)))"

definition CheckNodeStatus :: "int \<Rightarrow> (nat \<Rightarrow> int) \<Rightarrow> (nat \<Rightarrow> byte list) \<Rightarrow> (nat \<Rightarrow> ping_io) \<Rightarrow> peer_table \<Rightarrow>
    (peer_table \<times> (u32 \<times> byte list) list) res" where
  "CheckNodeStatus timerInterval now curtime io p =
     (let n = length (g_PeerInfo p) in
      rbind (rfold (check_node timerInterval now curtime io) [0..<n] (p, [])) (\<lambda>(p1, out).
       case g_LocalInfo p1 of
         None \<Rightarrow> Inl UndefinedBehaviour
       | Some l \<Rightarrow>
           rbind (UpdatePeerLiveness (now n) l p1) (\<lambda>p2.
             if g_FirstPeerIdx p2 < 0 then Inl UndefinedBehaviour
             else rbind (UpdatePeerLiveness (now (n + 1)) (nat (g_FirstPeerIdx p2)) p2) (\<lambda>p3. Inr (p3, out)))))"

definition collect_weights :: "(u32 \<Rightarrow> u32) \<Rightarrow> peer_table \<Rightarrow> nat \<Rightarrow> sha1 \<Rightarrow> ServerWeight list" where
  "collect_weights rotl p local chunkName =
     map (\<lambda>i. \<lparr>sw_index = i, sw_weight = WrandHash (ChunkHashString rotl chunkName 0) (pi_addrHash (g_PeerInfo p ! i))\<rparr>)
       (filter (\<lambda>i. i \<noteq> local \<and> pi_isAlive (g_PeerInfo p ! i)) [0..<length (g_PeerInfo p)])"

definition RhrwPickPeer :: "(u32 \<Rightarrow> u32) \<Rightarrow> peer_table \<Rightarrow> sha1 \<Rightarrow> int res" where
  "RhrwPickPeer rotl p chunkName =
     (case g_LocalInfo p of
        None \<Rightarrow> if g_PeerInfo p = [] then Inr (-1) else Inl UndefinedBehaviour
      | Some l \<Rightarrow>
          let weights = collect_weights rotl p (pi_idx (g_PeerInfo p ! l)) chunkName;
              numReady = length weights
          in if numReady < 1 then Inr (-1)
             else if numReady = 1 then Inr (int (sw_index (weights ! 0)))
             else rbind (quickSort weights 0 (int numReady - 1)) (\<lambda>ws. Inr (int (sw_index (ws ! 0)))))"

definition PickPeerToRedirect :: "(u32 \<Rightarrow> u32) \<Rightarrow> peer_table \<Rightarrow> sha1 \<Rightarrow> int res" where
  "PickPeerToRedirect rotl p name = RhrwPickPeer rotl p name"

text \<open>
  The loop of \<open>GetNextChunkFlowID\<close>; \<open>n\<close> rounds are left, and \<open>ci\<close> is the whole array. The array is
  read at every index below \<open>g_MaxPeerConns\<close>.
\<close>

fun next_flow :: "nat \<Rightarrow> nat \<Rightarrow> nat option list \<Rightarrow> nat \<Rightarrow> nat \<Rightarrow> (nat \<times> nat) res" where
  "next_flow 0 maxConns ci cur flowID = Inr (cur, flowID)"
| "next_flow (Suc n) maxConns ci cur flowID =
     (let f = (cur + 1) mod maxConns
      in if f \<ge> length ci then Inl UndefinedBehaviour
         else if ci ! f \<noteq> None then Inr (f, f) else next_flow n maxConns ci f f)"

definition GetNextChunkFlowID :: "nat \<Rightarrow> peer_table \<Rightarrow> nat \<Rightarrow> (peer_table \<times> nat) res" where
  "GetNextChunkFlowID maxConns p peerIdx =
     (if peerIdx \<ge> length (g_PeerInfo p) then Inl UndefinedBehaviour
      else let info = g_PeerInfo p ! peerIdx
        in rbind (next_flow maxConns maxConns (pi_chunkCI info) (pi_chunkFlowID info) 0) (\<lambda>(cur, flowID).
             let p1 = update_peer peerIdx (\<lambda>pi. pi\<lparr>pi_chunkFlowID := cur\<rparr>) p
             in ensure (flowID < maxConns)
                  (if flowID \<ge> length (pi_chunkCI info) then Inl UndefinedBehaviour
                   else ensure (pi_chunkCI info ! flowID \<noteq> None) (Inr (p1, flowID)))))"

definition GetNextControlFlowID :: "nat \<Rightarrow> peer_table \<Rightarrow> nat \<Rightarrow> (peer_table \<times> nat) res" where
  "GetNextControlFlowID maxConns p peerIdx =
     (if peerIdx \<ge> length (g_PeerInfo p) \<or> maxConns = 0 then Inl UndefinedBehaviour
      else let flowID = (pi_nameFlowID (g_PeerInfo p ! peerIdx) + 1) mod maxConns
        in ensure (flowID < maxConns) (Inr (update_peer peerIdx (\<lambda>pi. pi\<lparr>pi_nameFlowID := flowID\<rparr>) p, flowID)))"

section \<open>The tables of peers\<close>

lemma host32_inj: "host32 a = host32 b \<longleftrightarrow> a = b"
  by (metis append_Nil2 rd_host32_host32)

lemma peer_key_fns: "key_fns hash_from_key_fn_name keys_equal_fn_name" "key_fns hash_from_key_fn_addr keys_equal_fn_addr"
proof -
  have "keys_equal_fn_name a b \<longleftrightarrow> a = b" for a b by (auto simp: keys_equal_fn_name_def)
  moreover have "keys_equal_fn_addr a b \<longleftrightarrow> a = b" for a b by (simp add: keys_equal_fn_addr_def host32_inj)
  ultimately show "key_fns hash_from_key_fn_name keys_equal_fn_name" "key_fns hash_from_key_fn_addr keys_equal_fn_addr"
    by (auto simp: key_fns_def intro!: equivpI reflpI sympI transpI)
qed

interpretation peer_names: keyed_table "ht_good hash_from_key_fn_name keys_equal_fn_name"
  hashtable_search ht_put hashtable_remove hashtable_count keys_equal_fn_name
  by (rule keyed_table_hashtable[OF peer_key_fns(1)])

interpretation peer_addrs: keyed_table "ht_good hash_from_key_fn_addr keys_equal_fn_addr"
  hashtable_search ht_put hashtable_remove hashtable_count keys_equal_fn_addr
  by (rule keyed_table_hashtable[OF peer_key_fns(2)])

lemma CreatePeerInfo_ok:
  "\<exists>p. CreatePeerInfo = Inr p \<and> g_PeerInfo p = [] \<and> ht_good hash_from_key_fn_addr keys_equal_fn_addr (peerAddrMap p) \<and>
     ht_good hash_from_key_fn_name keys_equal_fn_name (peerNameMap p) \<and>
     (\<forall>a. GetPeerInfoByAddr p a = None) \<and> (\<forall>n. GetPeerInfoByName p n = None)"
proof -
  obtain nm :: "(byte list, nat) hashtable" where
    nm: "create_hashtable True True (of_nat MAX_PEER_SIZE) hash_from_key_fn_name keys_equal_fn_name = Some nm"
    using create_hashtable_total[of "of_nat MAX_PEER_SIZE"] by (auto simp: MAX_PEER_SIZE_def)
  obtain am :: "(u32, nat) hashtable" where
    am: "create_hashtable True True (of_nat MAX_PEER_SIZE) hash_from_key_fn_addr keys_equal_fn_addr = Some am"
    using create_hashtable_total[of "of_nat MAX_PEER_SIZE"] by (auto simp: MAX_PEER_SIZE_def)
  show ?thesis
    using create_hashtable_good[OF nm] create_hashtable_good[OF am]
    by (simp add: CreatePeerInfo_def nm am GetPeerInfoByAddr_def GetPeerInfoByName_def)
qed

section \<open>Liveness\<close>

definition live :: "peer_table \<Rightarrow> nat set" where
  "live p = {i. i < length (g_PeerInfo p) \<and> pi_isAlive (g_PeerInfo p ! i)}"

text \<open>
  The invariant of the table: the count of live peers is right, an entry knows its index, and the
  address table and the local peer refer to entries.
\<close>

definition peers_ok :: "peer_table \<Rightarrow> bool" where
  "peers_ok p \<longleftrightarrow> g_NumLivePeers p = int (card (live p)) \<and> length (g_PeerInfo p) \<le> MAX_PEER_SIZE \<and>
     (\<forall>i < length (g_PeerInfo p). pi_idx (g_PeerInfo p ! i) = i) \<and>
     (\<forall>a i. GetPeerInfoByAddr p a = Some i \<longrightarrow> i < length (g_PeerInfo p)) \<and>
     (\<forall>l. g_LocalInfo p = Some l \<longrightarrow> l < length (g_PeerInfo p))"

lemma live_finite [simp]: "finite (live p)" "live p \<subseteq> {..<length (g_PeerInfo p)}"
  by (auto simp: live_def)

lemma live_card: "card (live p) \<le> length (g_PeerInfo p)"
  using card_mono[OF _ live_finite(2), of p] by simp

lemma update_peer_simps [simp]:
  "length (g_PeerInfo (update_peer i f p)) = length (g_PeerInfo p)"
  "g_NumLivePeers (update_peer i f p) = g_NumLivePeers p"
  "g_FirstPeerIdx (update_peer i f p) = g_FirstPeerIdx p"
  "g_LocalInfo (update_peer i f p) = g_LocalInfo p"
  "peerAddrMap (update_peer i f p) = peerAddrMap p"
  "peerNameMap (update_peer i f p) = peerNameMap p"
  "j < length (g_PeerInfo p) \<Longrightarrow> g_PeerInfo (update_peer i f p) ! j = (if j = i then f (g_PeerInfo p ! j) else g_PeerInfo p ! j)"
  by (auto simp: update_peer_def nth_list_update)

lemma update_peer_same:
  assumes "peers_ok p" "\<And>q. pi_isAlive (f q) = pi_isAlive q" "\<And>q. pi_idx (f q) = pi_idx q"
  shows "peers_ok (update_peer i f p)" "live (update_peer i f p) = live p"
proof -
  have "pi_isAlive (g_PeerInfo (update_peer i f p) ! j) = pi_isAlive (g_PeerInfo p ! j)" if "j < length (g_PeerInfo p)" for j
    using that by (simp add: assms(2))
  then show l: "live (update_peer i f p) = live p" by (auto simp: live_def)
  have "pi_idx (g_PeerInfo (update_peer i f p) ! j) = j" if "j < length (g_PeerInfo p)" for j
    using that assms(1) by (simp add: peers_ok_def assms(3))
  then show "peers_ok (update_peer i f p)" unfolding peers_ok_def l
    using assms(1) by (simp add: peers_ok_def GetPeerInfoByAddr_def)
qed

lemma live_set:
  assumes "i < length (g_PeerInfo p)"
  shows "live ((update_peer i (\<lambda>pi. pi\<lparr>pi_isAlive := b\<rparr>) p)\<lparr>g_NumLivePeers := n\<rparr>) = (if b then insert i (live p) else live p - {i})"
proof -
  have "pi_isAlive (g_PeerInfo (update_peer i (\<lambda>pi. pi\<lparr>pi_isAlive := b\<rparr>) p) ! j) \<longleftrightarrow>
      (if j = i then b else pi_isAlive (g_PeerInfo p ! j))" if "j < length (g_PeerInfo p)" for j using that by simp
  then show ?thesis using assms by (auto simp: live_def split: if_splits)
qed

lemma set_alive_ok:
  assumes "peers_ok p" "i < length (g_PeerInfo p)" "pi_isAlive (g_PeerInfo p ! i) = (\<not> b)"
  shows "peers_ok ((update_peer i (\<lambda>pi. pi\<lparr>pi_isAlive := b\<rparr>) p)\<lparr>g_NumLivePeers := g_NumLivePeers p + (if b then 1 else -1)\<rparr>)"
proof -
  have "i \<in> live p \<longleftrightarrow> \<not> b" using assms(2,3) by (simp add: live_def)
  then have "int (card (if b then insert i (live p) else live p - {i})) = int (card (live p)) + (if b then 1 else -1)"
    using card_Diff1_less[of "live p" i] by (auto simp: card_Suc_Diff1 of_nat_diff Suc_leI card_gt_0_iff)
  then show ?thesis
    using assms(1,2) unfolding peers_ok_def live_set[OF assms(2)] by (auto simp: GetPeerInfoByAddr_def)
qed

text \<open>The result of one liveness update: the peer is alive, the others as before.\<close>

lemma UpdatePeerLiveness_ok:
  assumes "peers_ok p" "i < length (g_PeerInfo p)"
  shows "\<exists>p'. UpdatePeerLiveness now i p = Inr p' \<and> peers_ok p' \<and> live p' = insert i (live p) \<and>
    length (g_PeerInfo p') = length (g_PeerInfo p) \<and> g_FirstPeerIdx p' = g_FirstPeerIdx p \<and> g_LocalInfo p' = g_LocalInfo p"
proof (cases "pi_isAlive (g_PeerInfo p ! i)")
  case True
  then have "insert i (live p) = live p" using assms(2) by (auto simp: live_def)
  with True assms update_peer_same[OF assms(1), of "\<lambda>pi. pi\<lparr>pi_lastPingTime := now\<rparr>" i] show ?thesis
    by (auto simp: UpdatePeerLiveness_def)
next
  case False
  let ?p1 = "(update_peer i (\<lambda>pi. pi\<lparr>pi_isAlive := True\<rparr>) p)\<lparr>g_NumLivePeers := g_NumLivePeers p + 1\<rparr>"
  have ok: "peers_ok ?p1" using set_alive_ok[OF assms, of True] False by simp
  have "g_NumLivePeers ?p1 \<le> int (length (g_PeerInfo ?p1))" using ok live_card[of ?p1] by (simp add: peers_ok_def)
  with False assms(2) update_peer_same[OF ok, of "\<lambda>pi. pi\<lparr>pi_lastPingTime := now\<rparr>" i] show ?thesis
    by (simp add: UpdatePeerLiveness_def Let_def live_set[OF assms(2)])
qed

lemma SendPing_ok:
  assumes "peers_ok p" "i < length (g_PeerInfo p)" "g_LocalInfo p = Some l"
  shows "io = ping_sent \<Longrightarrow> \<exists>d. SendPing io p b i ts = Inr d" "io \<noteq> ping_sent \<Longrightarrow> SendPing io p b i ts = Inl NiceExit"
  using assms by (cases io; auto simp: SendPing_def BuildWAPing_def peers_ok_def)+

lemma ProcessPing_ok:
  assumes "peers_ok p" "g_LocalInfo p = Some l"
  shows "\<exists>p' out. ProcessPing ping_sent now rtt p msg = Inr (p', out) \<and> peers_ok p' \<and>
    live p' = live p \<union> set_option (GetPeerInfoByAddr p (rd_host32 (drop 2 msg)))"
proof (cases "GetPeerInfoByAddr p (rd_host32 (drop 2 msg))")
  case None
  with assms show ?thesis by (simp add: ProcessPing_def)
next
  case (Some i)
  with assms(1) have "i < length (g_PeerInfo p)" by (simp add: peers_ok_def)
  from UpdatePeerLiveness_ok[OF assms(1) this, of now] obtain p1 where p1: "UpdatePeerLiveness now i p = Inr p1" "peers_ok p1"
    "live p1 = insert i (live p)" "length (g_PeerInfo p1) = length (g_PeerInfo p)" "g_LocalInfo p1 = g_LocalInfo p" by blast
  obtain d where "SendPing ping_sent p1 False i (take 16 (drop 6 msg)) = Inr d"
    using SendPing_ok(1)[OF p1(2), of i l ping_sent False "take 16 (drop 6 msg)"] p1(4,5) \<open>i < length (g_PeerInfo p)\<close> assms(2)
    by (metis)
  with Some p1 update_peer_same[OF p1(2), of "\<lambda>pi. pi\<lparr>pi_networkPendingBytes := rd_be32 (drop 22 msg),
      pi_diskPendingChunks := rd_be32 (drop 26 msg), pi_RTT := rtt\<rparr>" i]
  show ?thesis by (auto simp: ProcessPing_def)
qed


text \<open>
  The loop of \<open>CheckNodeStatus\<close>: a peer that was not heard of for long enough is not alive
  afterwards, whatever the order.
\<close>

definition expired :: "int \<Rightarrow> (nat \<Rightarrow> int) \<Rightarrow> peer_table \<Rightarrow> nat \<Rightarrow> bool" where
  "expired timerInterval now p i \<longleftrightarrow> pi_lastPingTime (g_PeerInfo p ! i) + PING_TIMEOUT timerInterval \<le> now i"

text \<open>The peers that are sent a ping.\<close>

definition pinged :: "peer_table \<Rightarrow> nat set" where
  "pinged p = {i. i < length (g_PeerInfo p) \<and> \<not> pi_isLocalHost (g_PeerInfo p ! i) \<and> int i \<noteq> g_FirstPeerIdx p}"

definition same_peers :: "peer_table \<Rightarrow> peer_table \<Rightarrow> bool" where
  "same_peers p p' \<longleftrightarrow> length (g_PeerInfo p') = length (g_PeerInfo p) \<and> g_FirstPeerIdx p' = g_FirstPeerIdx p \<and>
     g_LocalInfo p' = g_LocalInfo p \<and>
     (\<forall>i < length (g_PeerInfo p). pi_lastPingTime (g_PeerInfo p' ! i) = pi_lastPingTime (g_PeerInfo p ! i) \<and>
        pi_isLocalHost (g_PeerInfo p' ! i) = pi_isLocalHost (g_PeerInfo p ! i))"

lemma same_peers_pinged: "same_peers p p' \<Longrightarrow> pinged p' = pinged p"
  by (auto simp: same_peers_def pinged_def)

lemma check_node_fails:
  assumes "peers_ok p" "i \<in> pinged p" "g_LocalInfo p = Some l" "io i \<noteq> ping_sent"
  shows "check_node t now cur io i (p, out) = Inl NiceExit"
  using SendPing_ok(2)[OF assms(1) _ assms(3,4), of i True "cur i"] assms(2) by (simp add: check_node_def pinged_def)

lemma check_node_ok:
  assumes "peers_ok p" "i < length (g_PeerInfo p)" "g_LocalInfo p = Some l" "i \<in> pinged p \<Longrightarrow> io i = ping_sent"
  shows "\<exists>p' out'. check_node t now cur io i (p, out) = Inr (p', out') \<and> peers_ok p' \<and> same_peers p p' \<and>
    live p' = (if expired t now p i then live p - {i} else live p)"
proof -
  have d: "\<exists>d. SendPing (io i) p True i (cur i) = Inr d" if "i \<in> pinged p" using SendPing_ok(1)[OF assms(1-3)] assms(4)[OF that] by blast
  have ping: "i \<in> pinged p \<longleftrightarrow> \<not> pi_isLocalHost (g_PeerInfo p ! i) \<and> int i \<noteq> g_FirstPeerIdx p" using assms(2) by (simp add: pinged_def)
  show ?thesis
  proof (cases "expired t now p i \<and> pi_isAlive (g_PeerInfo p ! i)")
    case True
    let ?p = "(update_peer i (\<lambda>pi. pi\<lparr>pi_isAlive := False\<rparr>) p)\<lparr>g_NumLivePeers := g_NumLivePeers p - 1\<rparr>"
    have ok: "peers_ok ?p" using set_alive_ok[OF assms(1,2), of False] True by simp
    then have "0 \<le> g_NumLivePeers ?p" by (simp add: peers_ok_def)
    then have "\<exists>out'. check_node t now cur io i (p, out) = Inr (?p, out')"
      using True d unfolding ping by (auto simp: check_node_def expired_def Let_def)
    moreover have "same_peers p ?p" by (simp add: same_peers_def)
    moreover have "live ?p = live p - {i}" using live_set[OF assms(2), where b = False] by simp
    ultimately show ?thesis using True ok by auto
  next
    case False
    then have "\<exists>out'. check_node t now cur io i (p, out) = Inr (p, out')"
      using d unfolding ping by (auto simp: check_node_def expired_def Let_def)
    moreover have "(if expired t now p i then live p - {i} else live p) = live p" using False by (auto simp: live_def)
    moreover have "same_peers p p" by (simp add: same_peers_def)
    ultimately show ?thesis using assms(1) by metis
  qed
qed

lemma check_nodes_ok:
  assumes "peers_ok p" "set js \<subseteq> {..<length (g_PeerInfo p)}" "g_LocalInfo p = Some l"
  shows "if \<exists>i \<in> set js \<inter> pinged p. io i \<noteq> ping_sent then rfold (check_node t now cur io) js (p, out) = Inl NiceExit
    else \<exists>p' out'. rfold (check_node t now cur io) js (p, out) = Inr (p', out') \<and> peers_ok p' \<and> same_peers p p' \<and>
      live p' = live p - {i \<in> set js. expired t now p i}"
  using assms
proof (induction js arbitrary: p out)
  case (Cons i js)
  then have i: "i < length (g_PeerInfo p)" by auto
  show ?case
  proof (cases "i \<in> pinged p \<and> io i \<noteq> ping_sent")
    case True
    then show ?thesis using check_node_fails[OF Cons.prems(1) _ Cons.prems(3), of i io] by auto
  next
    case False
    with check_node_ok[OF Cons.prems(1) i Cons.prems(3), of io t now cur out] obtain p1 out1 where
      p1: "check_node t now cur io i (p, out) = Inr (p1, out1)" "peers_ok p1" "same_peers p p1"
        "live p1 = (if expired t now p i then live p - {i} else live p)" by blast
    have sub: "set js \<subseteq> {..<length (g_PeerInfo p1)}" "g_LocalInfo p1 = Some l"
      using Cons.prems(2,3) p1(3) by (auto simp: same_peers_def)
    have e: "expired t now p1 j = expired t now p j" if "j \<in> set js" for j
      using that Cons.prems(2) p1(3) by (auto simp: same_peers_def expired_def)
    have l: "live p1 - {j \<in> set js. expired t now p1 j} = live p - {j \<in> set (i # js). expired t now p j}"
      using p1(4) e by (auto split: if_splits)
    have s: "same_peers p p2" if "same_peers p1 p2" for p2 using that p1(3) by (simp add: same_peers_def)
    have q: "(\<exists>j \<in> set (i # js) \<inter> pinged p. io j \<noteq> ping_sent) = (\<exists>j \<in> set js \<inter> pinged p1. io j \<noteq> ping_sent)"
      using False same_peers_pinged[OF p1(3)] by auto
    show ?thesis using Cons.IH[OF p1(2) sub, of out1] p1(1) s unfolding q l by (auto split: if_splits)
  qed
qed (auto simp: same_peers_def)

lemma CheckNodeStatus_ok:
  assumes "peers_ok p" "g_LocalInfo p = Some l" "0 \<le> g_FirstPeerIdx p" "nat (g_FirstPeerIdx p) < length (g_PeerInfo p)"
  shows "if \<exists>i \<in> pinged p. io i \<noteq> ping_sent then CheckNodeStatus t now cur io p = Inl NiceExit
    else \<exists>p' out. CheckNodeStatus t now cur io p = Inr (p', out) \<and> peers_ok p' \<and>
      live p' = {i \<in> live p. \<not> expired t now p i} \<union> {l, nat (g_FirstPeerIdx p)}"
proof -
  let ?f = "nat (g_FirstPeerIdx p)" and ?n = "length (g_PeerInfo p)"
  have all: "set [0..<?n] \<subseteq> {..<?n}" "set [0..<?n] \<inter> pinged p = pinged p" by (auto simp: pinged_def)
  note c = check_nodes_ok[OF assms(1) all(1) assms(2), of io t now cur "[]", unfolded all(2)]
  show ?thesis
  proof (cases "\<exists>i \<in> pinged p. io i \<noteq> ping_sent")
    case True
    with c have "rfold (check_node t now cur io) [0..<?n] (p, []) = Inl NiceExit" by simp
    with True show ?thesis by (simp add: CheckNodeStatus_def Let_def)
  next
    case False
    with c obtain p1 out where
      p1: "rfold (check_node t now cur io) [0..<?n] (p, []) = Inr (p1, out)" "peers_ok p1" "same_peers p p1"
        "live p1 = live p - {i \<in> set [0..<?n]. expired t now p i}" by auto
    have 1: "g_LocalInfo p1 = Some l" "length (g_PeerInfo p1) = ?n" "g_FirstPeerIdx p1 = g_FirstPeerIdx p"
      using p1(3) assms(2) by (auto simp: same_peers_def)
    then have l: "l < length (g_PeerInfo p1)" using p1(2) by (simp add: peers_ok_def)
    from UpdatePeerLiveness_ok[OF p1(2) l, of "now ?n"] obtain p2 where p2: "UpdatePeerLiveness (now ?n) l p1 = Inr p2" "peers_ok p2"
      "live p2 = insert l (live p1)" "length (g_PeerInfo p2) = length (g_PeerInfo p1)" "g_FirstPeerIdx p2 = g_FirstPeerIdx p1" by blast
    have f: "?f < length (g_PeerInfo p2)" using assms(4) 1 p2(4) by simp
    from UpdatePeerLiveness_ok[OF p2(2) f, of "now (?n + 1)"] obtain p3 where
      p3: "UpdatePeerLiveness (now (?n + 1)) ?f p2 = Inr p3" "peers_ok p3" "live p3 = insert ?f (live p2)" by blast
    have "CheckNodeStatus t now cur io p = Inr (p3, out)"
      using p1(1) p2(1,5) p3(1) 1 assms(3) by (simp add: CheckNodeStatus_def)
    moreover have "live p1 = {i \<in> live p. \<not> expired t now p i}" using p1(4) by (auto simp: live_def)
    ultimately show ?thesis using False p2(3) p3(2,3) by auto
  qed
qed


section \<open>The peer responsible for a chunk\<close>

abbreviation peer_weight :: "(u32 \<Rightarrow> u32) \<Rightarrow> peer_table \<Rightarrow> sha1 \<Rightarrow> nat \<Rightarrow> u32" where
  "peer_weight rotl p name i \<equiv> WrandHash (ChunkHashString rotl name 0) (pi_addrHash (g_PeerInfo p ! i))"

text \<open>The peers a chunk can be assigned to: those alive, other than the local one.\<close>

definition remote :: "peer_table \<Rightarrow> nat set" where
  "remote p = live p - set_option (g_LocalInfo p)"

lemma collect_weights_facts:
  assumes "peers_ok p" "g_LocalInfo p = Some l"
  shows "sw_index ` set (collect_weights rotl p (pi_idx (g_PeerInfo p ! l)) name) = remote p"
    "w \<in> set (collect_weights rotl p (pi_idx (g_PeerInfo p ! l)) name) \<Longrightarrow>
       sw_index w \<in> remote p \<and> sw_weight w = peer_weight rotl p name (sw_index w)"
proof -
  have "pi_idx (g_PeerInfo p ! l) = l" using assms by (simp add: peers_ok_def)
  then show "sw_index ` set (collect_weights rotl p (pi_idx (g_PeerInfo p ! l)) name) = remote p"
    "w \<in> set (collect_weights rotl p (pi_idx (g_PeerInfo p ! l)) name) \<Longrightarrow>
       sw_index w \<in> remote p \<and> sw_weight w = peer_weight rotl p name (sw_index w)"
    using assms(2) by (auto simp: collect_weights_def remote_def live_def image_iff)
qed

lemma RhrwPickPeer_ok:
  assumes "peers_ok p" "g_LocalInfo p = Some l"
  shows "if remote p = {} then RhrwPickPeer rotl p name = Inr (-1)
    else \<exists>i \<in> remote p. RhrwPickPeer rotl p name = Inr (int i) \<and>
      (\<forall>j \<in> remote p. peer_weight rotl p name j \<le> peer_weight rotl p name i)"
proof -
  define ws where "ws = collect_weights rotl p (pi_idx (g_PeerInfo p ! l)) name"
  note c = collect_weights_facts[OF assms, where rotl = rotl and name = name, folded ws_def]
  have n: "ws = [] \<longleftrightarrow> remote p = {}" using c(1) by auto
  have pick: "RhrwPickPeer rotl p name = (if length ws < 1 then Inr (-1) else if length ws = 1 then Inr (int (sw_index (ws ! 0)))
      else rbind (quickSort ws 0 (int (length ws) - 1)) (\<lambda>ws. Inr (int (sw_index (ws ! 0)))))"
    by (simp add: RhrwPickPeer_def assms(2) Let_def ws_def)
  have best: "\<exists>i \<in> remote p. RhrwPickPeer rotl p name = Inr (int i) \<and>
      (\<forall>j \<in> remote p. peer_weight rotl p name j \<le> peer_weight rotl p name i)"
    if r: "RhrwPickPeer rotl p name = Inr (int (sw_index (vs ! 0)))" and s: "set vs = set ws" "vs \<noteq> []"
      and m: "\<forall>v \<in> set vs. sw_weight v \<le> sw_weight (vs ! 0)" for vs
  proof -
    have v: "vs ! 0 \<in> set ws" using s by (metis length_greater_0_conv nth_mem)
    have "peer_weight rotl p name j \<le> peer_weight rotl p name (sw_index (vs ! 0))" if "j \<in> remote p" for j
    proof -
      from that c(1) obtain w where w: "w \<in> set ws" "j = sw_index w" by blast
      then have "sw_weight w \<le> sw_weight (vs ! 0)" using m s(1) by blast
      then show ?thesis using c(2)[OF w(1)] c(2)[OF v] w(2) by metis
    qed
    then show ?thesis using r c(2)[OF v] by blast
  qed
  consider "ws = []" | w where "ws = [w]" | "2 \<le> length ws" by (cases ws rule: remdups_adj.cases) auto
  then show ?thesis
  proof cases
    case 1
    then show ?thesis using n pick by simp
  next
    case 2
    then show ?thesis using best[of ws] n pick by auto
  next
    case 3
    from quickSort_ok[of 0 "int (length ws) - 1" ws] obtain vs where
      v: "quickSort ws 0 (int (length ws) - 1) = Inr vs" "mset vs = mset ws" "length vs = length ws" "falling vs 0 (length ws)"
      by (auto simp: same_outside_def)
    have "\<forall>v \<in> set vs. sw_weight v \<le> sw_weight (vs ! 0)" using v(3,4) by (auto simp: falling_def in_set_conv_nth)
    moreover have "RhrwPickPeer rotl p name = Inr (int (sw_index (vs ! 0)))" using pick v(1) 3 by (cases ws) auto
    moreover have "vs \<noteq> []" using v(3) 3 by auto
    ultimately show ?thesis using best[of vs] n v(2) mset_eq_setD[OF v(2)] 3 by auto
  qed
qed

section \<open>The connections to a peer\<close>

lemma next_flow_finds:
  assumes "k < n" "m \<le> length ci" "0 < m" "ci ! ((cur + 1 + k) mod m) \<noteq> None" "\<forall>j < k. ci ! ((cur + 1 + j) mod m) = None"
  shows "next_flow n m ci cur fl = Inr ((cur + 1 + k) mod m, (cur + 1 + k) mod m)"
  using assms
proof (induction n arbitrary: k cur fl)
  case (Suc n)
  have b: "x mod m < length ci" for x using less_le_trans[OF mod_less_divisor[OF Suc.prems(3)] Suc.prems(2)] .
  show ?case
  proof (cases k)
    case 0
    then show ?thesis using Suc.prems b[of "cur + 1"] by (simp add: Let_def not_le)
  next
    case (Suc k')
    have shift: "((cur + 1) mod m + 1 + j) mod m = (cur + 1 + Suc j) mod m" for j
      by (metis add.assoc add.commute mod_add_left_eq plus_1_eq_Suc)
    have "ci ! ((cur + 1) mod m) = None" using Suc.prems(5)[rule_format, of 0] Suc by simp
    moreover have "next_flow n m ci ((cur + 1) mod m) ((cur + 1) mod m) =
        Inr (((cur + 1) mod m + 1 + k') mod m, ((cur + 1) mod m + 1 + k') mod m)"
      by (rule Suc.IH) (use Suc.prems Suc shift in auto)
    ultimately show ?thesis using shift Suc b[of "cur + 1"] by (simp add: Let_def not_le)
  qed
qed simp

lemma mod_reach: "f < m \<Longrightarrow> \<exists>k < m. (c + k) mod m = (f :: nat)"
proof (intro exI conjI)
  assume f: "f < m"
  show "(f + m - c mod m) mod m < m" using f by simp
  have "c mod m \<le> f + m" using f by (metis less_imp_le mod_less_divisor not_less_zero trans_le_add2 gr0I)
  then have "(c mod m + (f + m - c mod m)) mod m = f" using f by simp
  then show "(c + (f + m - c mod m) mod m) mod m = f" by (simp add: mod_simps)
qed

lemma GetNextChunkFlowID_ok:
  assumes "peerIdx < length (g_PeerInfo p)" "f < m" "pi_chunkCI (g_PeerInfo p ! peerIdx) ! f \<noteq> None"
    and "m \<le> length (pi_chunkCI (g_PeerInfo p ! peerIdx))"
  shows "\<exists>p' k. GetNextChunkFlowID m p peerIdx = Inr (p', (pi_chunkFlowID (g_PeerInfo p ! peerIdx) + 1 + k) mod m) \<and> k < m \<and>
    pi_chunkCI (g_PeerInfo p ! peerIdx) ! ((pi_chunkFlowID (g_PeerInfo p ! peerIdx) + 1 + k) mod m) \<noteq> None \<and>
    (\<forall>j < k. pi_chunkCI (g_PeerInfo p ! peerIdx) ! ((pi_chunkFlowID (g_PeerInfo p ! peerIdx) + 1 + j) mod m) = None) \<and>
    pi_chunkFlowID (g_PeerInfo p' ! peerIdx) = (pi_chunkFlowID (g_PeerInfo p ! peerIdx) + 1 + k) mod m"
proof -
  define ci where "ci = pi_chunkCI (g_PeerInfo p ! peerIdx)"
  define cur where "cur = pi_chunkFlowID (g_PeerInfo p ! peerIdx)"
  let ?P = "\<lambda>k. k < m \<and> ci ! ((cur + 1 + k) mod m) \<noteq> None"
  from mod_reach[OF assms(2), of "cur + 1"] assms(3) have "\<exists>k. ?P k" unfolding ci_def by metis
  then obtain k where k: "?P k" and first: "\<And>j. j < k \<Longrightarrow> \<not> ?P j" using exists_least_iff[of ?P] by blast
  then have least: "\<forall>j < k. ci ! ((cur + 1 + j) mod m) = None" by auto
  have n: "next_flow m m ci cur 0 = Inr ((cur + 1 + k) mod m, (cur + 1 + k) mod m)"
    using k least assms(4) by (intro next_flow_finds) (auto simp: ci_def)
  let ?p = "update_peer peerIdx (\<lambda>pi. pi\<lparr>pi_chunkFlowID := (cur + 1 + k) mod m\<rparr>) p"
  have "(cur + 1 + k) mod m < m" using assms(2) by simp
  then have "(cur + 1 + k) mod m < m" "\<not> length ci \<le> (cur + 1 + k) mod m" using assms(4) unfolding ci_def by linarith+
  then have "GetNextChunkFlowID m p peerIdx = Inr (?p, (cur + 1 + k) mod m)"
    using n k assms(1) unfolding GetNextChunkFlowID_def ci_def cur_def by (simp add: Let_def)
  moreover have "pi_chunkFlowID (g_PeerInfo ?p ! peerIdx) = (cur + 1 + k) mod m" using assms(1) by simp
  ultimately show ?thesis using k least unfolding ci_def[symmetric] cur_def[symmetric] by blast
qed


section \<open>Properties\<close>

text \<open>
  Claim C20: \<open>quickSort\<close> over the used part of the weight array ends without reading outside it, and
  leaves a permutation of the array with the weights in falling order. The inner loops have no bound
  check of their own; they stop at the pivot and at the weight in front of the range.
\<close>

theorem quickSort_sorts:
  assumes "n \<le> length ws"
  shows "\<exists>ws'. quickSort ws 0 (int n - 1) = Inr ws' \<and> mset ws' = mset ws \<and> length ws' = length ws \<and>
    drop n ws' = drop n ws \<and> sorted_wrt (\<lambda>a b. sw_weight a \<ge> sw_weight b) (take n ws')"
proof -
  from quickSort_ok[of 0 "int n - 1" ws] assms obtain ws' where q: "quickSort ws 0 (int n - 1) = Inr ws'"
    "same_outside 0 n ws ws'" "falling ws' 0 n" by auto
  then have "drop n ws' = drop n ws" by (auto simp: same_outside_def intro!: nth_equalityI)
  moreover have "sorted_wrt (\<lambda>a b. sw_weight a \<ge> sw_weight b) (take n ws')"
    using q(2,3) assms by (auto simp: sorted_wrt_iff_nth_less falling_def same_outside_def)
  ultimately show ?thesis using q(1,2) by (auto simp: same_outside_def)
qed

theorem quickSort_sorts_witness:
  "\<exists>ws'. quickSort [\<lparr>sw_index = 0, sw_weight = 3\<rparr>, \<lparr>sw_index = 1, sw_weight = 7\<rparr>, \<lparr>sw_index = 2, sw_weight = 3\<rparr>] 0 (int 3 - 1)
     = Inr ws' \<and> sorted_wrt (\<lambda>a b. sw_weight a \<ge> sw_weight b) (take 3 ws')"
  using quickSort_sorts[of 3 "[\<lparr>sw_index = 0, sw_weight = 3\<rparr>, \<lparr>sw_index = 1, sw_weight = 7\<rparr>, \<lparr>sw_index = 2, sw_weight = 3\<rparr>]"]
  by auto

text \<open>A table of three peers, the local one first.\<close>

definition three_peers :: "bool \<Rightarrow> bool \<Rightarrow> peer_table" where
  "three_peers b c = (projr CreatePeerInfo)\<lparr>
     g_PeerInfo := [blank_peer\<lparr>pi_isAlive := True, pi_isLocalHost := True\<rparr>,
       blank_peer\<lparr>pi_idx := 1, pi_addrHash := 5, pi_isAlive := b\<rparr>,
       blank_peer\<lparr>pi_idx := 2, pi_addrHash := 9, pi_isAlive := c\<rparr>],
     g_LocalInfo := Some 0, g_FirstPeerIdx := 1, g_NumLivePeers := 1 + of_bool b + of_bool c\<rparr>"

lemma three_peers:
  "peers_ok (three_peers b c)" "g_LocalInfo (three_peers b c) = Some 0" "g_FirstPeerIdx (three_peers b c) = 1"
  "length (g_PeerInfo (three_peers b c)) = 3"
  "live (three_peers b c) = {0} \<union> (if b then {1} else {}) \<union> (if c then {2} else {})"
proof -
  show s: "g_LocalInfo (three_peers b c) = Some 0" "g_FirstPeerIdx (three_peers b c) = 1" "length (g_PeerInfo (three_peers b c)) = 3"
    by (simp_all add: three_peers_def)
  have below3: "i < 3 \<longleftrightarrow> i = 0 \<or> i = 1 \<or> i = (2::nat)" for i by auto
  show l: "live (three_peers b c) = {0} \<union> (if b then {1} else {}) \<union> (if c then {2} else {})"
    unfolding live_def s(3) below3 by (auto simp: three_peers_def)
  obtain p where "CreatePeerInfo = Inr p" "\<forall>a. GetPeerInfoByAddr p a = None" using CreatePeerInfo_ok by blast
  then have "projr CreatePeerInfo = p" "\<forall>a. GetPeerInfoByAddr p a = None" by (metis sum.sel(2), blast)
  then have "GetPeerInfoByAddr (three_peers b c) a = None" for a
    by (simp add: three_peers_def GetPeerInfoByAddr_def)
  then show "peers_ok (three_peers b c)" unfolding peers_ok_def l s(3) below3
    by (auto simp: s three_peers_def MAX_PEER_SIZE_def blank_peer_def)
qed

lemma three_peers_remote: "remote (three_peers b c) = (if b then {1} else {}) \<union> (if c then {2} else {})"
  by (auto simp: remote_def three_peers)

lemma three_peers_weights:
  "peer_weight id (three_peers b c) (replicate 20 1) (Suc 0) = WrandHash (ChunkHashString id (replicate 20 1) 0) 5"
  "peer_weight id (three_peers b c) (replicate 20 1) 2 = WrandHash (ChunkHashString id (replicate 20 1) 0) 9"
  by (simp_all add: three_peers_def)

text \<open>
  Claim C18: the peer picked for a chunk is -1 exactly when no remote peer is alive; otherwise it is a
  live remote peer of the largest weight for the chunk.
\<close>

theorem RhrwPickPeer_heaviest:
  assumes "peers_ok p" "g_LocalInfo p = Some l"
  shows "if remote p = {} then PickPeerToRedirect rotl p name = Inr (-1)
    else \<exists>i \<in> remote p. PickPeerToRedirect rotl p name = Inr (int i) \<and>
      (\<forall>j \<in> remote p. peer_weight rotl p name j \<le> peer_weight rotl p name i)"
  using RhrwPickPeer_ok[OF assms] by (simp add: PickPeerToRedirect_def)

theorem RhrwPickPeer_heaviest_witness:
  "(\<exists>i. PickPeerToRedirect id (three_peers True True) (replicate 20 1) = Inr (int i) \<and> i \<in> {1, 2}) \<and>
   PickPeerToRedirect id (three_peers False False) (replicate 20 1) = Inr (-1)"
proof
  have "remote (three_peers True True) \<noteq> {}" by (simp add: three_peers_remote)
  with RhrwPickPeer_heaviest[OF three_peers(1,2), of True True id "replicate 20 1"]
  show "\<exists>i. PickPeerToRedirect id (three_peers True True) (replicate 20 1) = Inr (int i) \<and> i \<in> {1, 2}"
    by (auto simp: three_peers_remote)
  from RhrwPickPeer_heaviest[OF three_peers(1,2), of False False id "replicate 20 1"]
  show "PickPeerToRedirect id (three_peers False False) (replicate 20 1) = Inr (-1)" by (simp add: three_peers_remote)
qed

text \<open>
  Claim C19: when the weights of the live peers for a chunk are pairwise different, the peer picked for
  the chunk stays the same as long as it is alive, whatever other peers stop being alive.
\<close>

theorem RhrwPickPeer_stable:
  assumes "peers_ok p" "peers_ok p'" "g_LocalInfo p = Some l" "g_LocalInfo p' = Some l"
    and "map pi_addrHash (g_PeerInfo p') = map pi_addrHash (g_PeerInfo p)" "live p' \<subseteq> live p"
    and "inj_on (peer_weight rotl p name) (remote p)"
    and "RhrwPickPeer rotl p name = Inr (int i)" "i \<in> live p'"
  shows "RhrwPickPeer rotl p' name = Inr (int i)"
proof -
  have len: "length (g_PeerInfo p') = length (g_PeerInfo p)" using assms(5) by (metis length_map)
  have w: "peer_weight rotl p' name j = peer_weight rotl p name j" if "j \<in> live p'" for j
    using that assms(5) len by (metis (no_types, lifting) live_def mem_Collect_eq nth_map)
  have "remote p \<noteq> {}" using assms(8) RhrwPickPeer_ok[OF assms(1,3), of rotl name] by (auto split: if_splits)
  then have i: "i \<in> remote p" "\<forall>j \<in> remote p. peer_weight rotl p name j \<le> peer_weight rotl p name i"
    using RhrwPickPeer_ok[OF assms(1,3), of rotl name] assms(8) by auto
  then have i': "i \<in> remote p'" using assms(3,4,9) by (simp add: remote_def)
  then obtain j where j: "j \<in> remote p'" "RhrwPickPeer rotl p' name = Inr (int j)"
    "peer_weight rotl p' name i \<le> peer_weight rotl p' name j"
    using RhrwPickPeer_ok[OF assms(2,4), of rotl name] by (auto split: if_splits)
  have l: "j \<in> remote p" "j \<in> live p'" using j(1) assms(3,4,6) by (auto simp: remote_def)
  have "peer_weight rotl p name i = peer_weight rotl p name j"
    using j(3) i(2) l w[OF assms(9)] w[OF l(2)] by (metis order_antisym)
  then have "i = j" using inj_onD[OF assms(7)] i(1) l(1) by blast
  with j(2) show ?thesis by simp
qed

lemma three_peers_distinct:
  "WrandHash (ChunkHashString id (replicate 20 1) 0) 5 \<noteq> WrandHash (ChunkHashString id (replicate 20 1) 0) 9"
  by code_simp

theorem RhrwPickPeer_stable_witness:
  "\<exists>i b c. (b \<or> c) \<and> \<not> (b \<and> c) \<and> RhrwPickPeer id (three_peers True True) (replicate 20 1) = Inr (int i) \<and>
     RhrwPickPeer id (three_peers b c) (replicate 20 1) = Inr (int i)"
proof -
  let ?n = "replicate 20 1 :: sha1"
  have "remote (three_peers True True) \<noteq> {}" by (simp add: three_peers_remote)
  with RhrwPickPeer_ok[OF three_peers(1,2), of True True id ?n] obtain i where
    i: "i = 1 \<or> i = 2" "RhrwPickPeer id (three_peers True True) ?n = Inr (int i)"
    by (auto simp: three_peers_remote)
  have inj: "inj_on (peer_weight id (three_peers True True) ?n) (remote (three_peers True True))"
    using three_peers_distinct by (auto simp: inj_on_def three_peers_remote three_peers_weights)
  have same: "map pi_addrHash (g_PeerInfo (three_peers (i = 1) (i = 2))) = map pi_addrHash (g_PeerInfo (three_peers True True))"
    by (simp add: three_peers_def)
  have sub: "live (three_peers (i = 1) (i = 2)) \<subseteq> live (three_peers True True)" "i \<in> live (three_peers (i = 1) (i = 2))"
    using i(1) by (auto simp: three_peers(5))
  from RhrwPickPeer_stable[OF three_peers(1,1,2,2) same sub(1) inj i(2) sub(2)] i show ?thesis
    by (intro exI[of _ i] exI[of _ "i = 1"] exI[of _ "i = 2"]) auto
qed

text \<open>
  Claim C35: \<open>CheckNodeStatus\<close> passes its assertions on a consistent table with a local and a first peer.
  It ends in \<open>NiceExit\<close> exactly when a ping cannot be sent. Otherwise it keeps the table consistent, and
  afterwards the peers that are alive are those heard of within the timeout at the time of their check,
  the local peer and the first peer.
\<close>

theorem CheckNodeStatus_expires:
  assumes "peers_ok p" "g_LocalInfo p = Some l" "0 \<le> g_FirstPeerIdx p" "nat (g_FirstPeerIdx p) < length (g_PeerInfo p)"
  shows "if \<exists>i < length (g_PeerInfo p). \<not> pi_isLocalHost (g_PeerInfo p ! i) \<and> int i \<noteq> g_FirstPeerIdx p \<and> io i \<noteq> ping_sent
    then CheckNodeStatus timer now cur io p = Inl NiceExit
    else \<exists>p' out. CheckNodeStatus timer now cur io p = Inr (p', out) \<and> peers_ok p' \<and>
      live p' = {i \<in> live p. now i < pi_lastPingTime (g_PeerInfo p ! i) + PING_TIMEOUT timer} \<union> {l, nat (g_FirstPeerIdx p)}"
proof -
  have "(\<exists>i \<in> pinged p. io i \<noteq> ping_sent) \<longleftrightarrow>
      (\<exists>i < length (g_PeerInfo p). \<not> pi_isLocalHost (g_PeerInfo p ! i) \<and> int i \<noteq> g_FirstPeerIdx p \<and> io i \<noteq> ping_sent)"
    by (auto simp: pinged_def)
  from CheckNodeStatus_ok[OF assms, of io timer now cur, unfolded this expired_def not_le] show ?thesis .
qed

theorem CheckNodeStatus_expires_witness:
  "(\<exists>p' out. CheckNodeStatus 5 (\<lambda>k. 100 + int k) (\<lambda>_. []) (\<lambda>_. ping_sent) (three_peers True True) = Inr (p', out) \<and> live p' = {0, 1}) \<and>
   CheckNodeStatus 5 (\<lambda>k. 100 + int k) (\<lambda>_. []) (\<lambda>_. not_sent) (three_peers True True) = Inl NiceExit"
proof
  have nat1: "nat (g_FirstPeerIdx (three_peers True True)) = 1" by (simp add: three_peers)
  have z: "\<not> (100 + int i < pi_lastPingTime (g_PeerInfo (three_peers True True) ! i) + PING_TIMEOUT 5)"
    if "i \<in> live (three_peers True True)" for i
    using that by (auto simp: three_peers(5)) (auto simp: three_peers_def blank_peer_def PING_TIMEOUT_def)
  note e = CheckNodeStatus_expires[OF three_peers(1,2), of True True _ 5 "\<lambda>k. 100 + int k" "\<lambda>_. []"]
  have s: "{i \<in> live (three_peers True True). 100 + int i < pi_lastPingTime (g_PeerInfo (three_peers True True) ! i) + PING_TIMEOUT 5} = {}"
    using z by blast
  from e[of "\<lambda>_. ping_sent", unfolded nat1 s]
  show "\<exists>p' out. CheckNodeStatus 5 (\<lambda>k. 100 + int k) (\<lambda>_. []) (\<lambda>_. ping_sent) (three_peers True True) = Inr (p', out) \<and> live p' = {0, 1}"
    by (simp add: three_peers) blast
  have "\<exists>i < length (g_PeerInfo (three_peers True True)). \<not> pi_isLocalHost (g_PeerInfo (three_peers True True) ! i) \<and>
      int i \<noteq> g_FirstPeerIdx (three_peers True True) \<and> not_sent \<noteq> ping_sent"
    by (intro exI[of _ 2]) (simp add: three_peers_def blank_peer_def)
  then show "CheckNodeStatus 5 (\<lambda>k. 100 + int k) (\<lambda>_. []) (\<lambda>_. not_sent) (three_peers True True) = Inl NiceExit"
    using e[of "\<lambda>_. not_sent", unfolded nat1] by (simp only: if_True three_peers(3,4))
qed

text \<open>
  A peer added for an unknown address is alive but not counted. If no peer was alive, the
  step of the next status check for the new peer takes it off the count, which becomes negative, and
  ends in a failed assertion.
\<close>

theorem AddUnknownPeerInfo_uncounted:
  assumes "AddUnknownPeerInfo p addr = Inr (p', idx)" "peers_ok p" "live p = {}" "g_LocalInfo p = Some l"
    and "PING_TIMEOUT timer \<le> now idx" "io idx = ping_sent"
  shows "live p' = {idx} \<and> g_NumLivePeers p' = 0 \<and> check_node timer now cur io idx (p', out) = Inl AssertFail"
proof -
  let ?q = "blank_peer\<lparr>pi_idx := idx, pi_netAddr := addr, pi_isAlive := True\<rparr>"
  have idx: "idx = length (g_PeerInfo p)" and g: "g_PeerInfo p' = g_PeerInfo p @ [?q]"
    and o: "g_NumLivePeers p' = g_NumLivePeers p" "g_LocalInfo p' = g_LocalInfo p" "g_FirstPeerIdx p' = g_FirstPeerIdx p"
    using assms(1) by (auto simp: AddUnknownPeerInfo_def Let_def add_peer_def res_simps split: if_splits)
  have z: "g_NumLivePeers p' = 0" using assms(2,3) o(1) by (simp add: peers_ok_def)
  have "live p' = {idx}" using assms(3) g idx by (auto simp: live_def nth_append less_Suc_eq)
  moreover have "l < length (g_PeerInfo p')" using assms(2,4) g by (simp add: peers_ok_def)
  then obtain d where "SendPing (io idx) p' True idx (cur idx) = Inr d"
    using assms(4,6) o(2) g idx by (auto simp: SendPing_def BuildWAPing_def)
  then have "check_node timer now cur io idx (p', out) = Inl AssertFail"
    using assms(5) z g idx by (auto simp: check_node_def nth_append blank_peer_def Let_def)
  ultimately show ?thesis using z by simp
qed

theorem AddUnknownPeerInfo_uncounted_witness:
  "\<exists>p p' idx. AddUnknownPeerInfo p 7 = Inr (p', idx) \<and> peers_ok p \<and>
     check_node 5 (\<lambda>_. 100) (\<lambda>_. []) (\<lambda>_. ping_sent) idx (p', []) = Inl AssertFail"
proof -
  let ?p = "(three_peers False False)\<lparr>g_PeerInfo := map (pi_isAlive_update (\<lambda>_. False)) (g_PeerInfo (three_peers False False)),
    g_NumLivePeers := 0\<rparr>"
  have l: "live ?p = {}" by (auto simp: live_def)
  have ok: "peers_ok ?p" unfolding peers_ok_def l
    using three_peers(1,2)[of False False] by (auto simp: peers_ok_def GetPeerInfoByAddr_def)
  have loc: "g_LocalInfo ?p = Some 0" by (simp add: three_peers)
  obtain p' idx where a: "AddUnknownPeerInfo ?p 7 = Inr (p', idx)"
    by (simp add: AddUnknownPeerInfo_def Let_def add_peer_def three_peers MAX_PEER_SIZE_def)
  from AddUnknownPeerInfo_uncounted[OF a ok l loc, of 5 "\<lambda>_. 100" "\<lambda>_. ping_sent" "\<lambda>_. []" "[]"] a ok show ?thesis
    by (auto simp: PING_TIMEOUT_def)
qed

text \<open>
  Claim C36: as long as some connection to a peer exists and the number of connections to use is not
  larger than the array that holds them, the rotation over the chunk connections stays inside the array
  and finds one: the next one after the connection used last, in cyclic order.
\<close>

theorem GetNextChunkFlowID_round_robin:
  assumes "peerIdx < length (g_PeerInfo p)" "f < maxConns" "pi_chunkCI (g_PeerInfo p ! peerIdx) ! f \<noteq> None"
    and "length (pi_chunkCI (g_PeerInfo p ! peerIdx)) = MAX_PER_PEER_CONNS" "maxConns \<le> MAX_PER_PEER_CONNS"
  shows "\<exists>p' k. GetNextChunkFlowID maxConns p peerIdx =
      Inr (p', (pi_chunkFlowID (g_PeerInfo p ! peerIdx) + 1 + k) mod maxConns) \<and> k < maxConns \<and>
    pi_chunkCI (g_PeerInfo p ! peerIdx) ! ((pi_chunkFlowID (g_PeerInfo p ! peerIdx) + 1 + k) mod maxConns) \<noteq> None \<and>
    (\<forall>j < k. pi_chunkCI (g_PeerInfo p ! peerIdx) ! ((pi_chunkFlowID (g_PeerInfo p ! peerIdx) + 1 + j) mod maxConns) = None) \<and>
    pi_chunkFlowID (g_PeerInfo p' ! peerIdx) = (pi_chunkFlowID (g_PeerInfo p ! peerIdx) + 1 + k) mod maxConns"
  by (rule GetNextChunkFlowID_ok[OF assms(1-3)]) (use assms(4,5) in simp)

text \<open>A table where the fourth connection to the second peer is open.\<close>

definition one_link :: peer_table where
  "one_link = update_peer 1 (\<lambda>pi. pi\<lparr>pi_chunkCI := (pi_chunkCI pi)[3 := Some 9]\<rparr>) (three_peers True True)"

lemma one_link:
  "length (g_PeerInfo one_link) = 3" "pi_chunkFlowID (g_PeerInfo one_link ! 1) = 0"
  "pi_chunkCI (g_PeerInfo one_link ! 1) = [None, None, None, Some 9, None, None, None, None, None, None]"
  by (simp_all add: one_link_def three_peers) (simp_all add: three_peers_def blank_peer_def MAX_PER_PEER_CONNS_def numeral_eq_Suc)

theorem GetNextChunkFlowID_round_robin_witness:
  "\<exists>p'. GetNextChunkFlowID 5 one_link 1 = Inr (p', 3) \<and> pi_chunkFlowID (g_PeerInfo p' ! 1) = 3"
proof -
  have "1 < length (g_PeerInfo one_link)" "(3::nat) < 5" "pi_chunkCI (g_PeerInfo one_link ! 1) ! 3 \<noteq> None"
    "length (pi_chunkCI (g_PeerInfo one_link ! 1)) = MAX_PER_PEER_CONNS" "5 \<le> MAX_PER_PEER_CONNS"
    by (simp_all add: one_link[unfolded One_nat_def] MAX_PER_PEER_CONNS_def)
  from GetNextChunkFlowID_round_robin[OF this] obtain p' k where
    r: "GetNextChunkFlowID 5 one_link 1 = Inr (p', (k + 1) mod 5)"
      "pi_chunkCI (g_PeerInfo one_link ! 1) ! ((k + 1) mod 5) \<noteq> None" "pi_chunkFlowID (g_PeerInfo p' ! 1) = (k + 1) mod 5"
    unfolding one_link(2) by (metis add_0 add.commute)
  define f where "f = (k + 1) mod 5"
  have "f < 5" by (simp add: f_def)
  then have "f = 0 \<or> f = 1 \<or> f = 2 \<or> f = 3 \<or> f = 4" by linarith
  with r(2) have "f = 3" unfolding f_def[symmetric] one_link(3) by auto
  then show ?thesis using r(1,3) unfolding f_def[symmetric] by simp
qed

text \<open>
  The setting is not checked. With more connections to use than the array holds, the rotation reads
  outside the array as soon as the connection used last is the last one of the array.
\<close>

theorem GetNextChunkFlowID_overrun:
  assumes "peerIdx < length (g_PeerInfo p)" "pi_chunkFlowID (g_PeerInfo p ! peerIdx) + 1 = MAX_PER_PEER_CONNS"
    and "length (pi_chunkCI (g_PeerInfo p ! peerIdx)) = MAX_PER_PEER_CONNS" "MAX_PER_PEER_CONNS < maxConns"
  shows "GetNextChunkFlowID maxConns p peerIdx = Inl UndefinedBehaviour"
proof -
  obtain n where n: "maxConns = Suc n" using assms(4) by (cases maxConns) auto
  have "(pi_chunkFlowID (g_PeerInfo p ! peerIdx) + 1) mod maxConns = MAX_PER_PEER_CONNS" unfolding assms(2) using assms(4) by simp
  then have "next_flow (Suc n) maxConns (pi_chunkCI (g_PeerInfo p ! peerIdx)) (pi_chunkFlowID (g_PeerInfo p ! peerIdx)) 0 = Inl UndefinedBehaviour"
    using assms(3) by (simp add: Let_def)
  then show ?thesis using assms(1) n by (simp add: GetNextChunkFlowID_def Let_def)
qed

theorem GetNextChunkFlowID_overrun_witness:
  "GetNextChunkFlowID 11 (update_peer 1 (\<lambda>pi. pi\<lparr>pi_chunkFlowID := 9\<rparr>) one_link) 1 = Inl UndefinedBehaviour"
  by (rule GetNextChunkFlowID_overrun) (simp_all add: one_link[unfolded One_nat_def] MAX_PER_PEER_CONNS_def)

end
