(* ===== verification/Chunk_Request.thy ===== *)
theory Chunk_Request
  imports Protocol Peer
begin

text \<open>
  The requests for chunks that wait for an answer (waprox/chunkrequest.c): for each name the list of
  requests, oldest first, and the count of requests in flight.

  A request of the \<open>PEEK\<close> exchange points to a name of a waiting block; the pointers are the
  descriptor of the connection, the sequence number of the block and the position of the name. Times
  kept for logging are left out. The load statistics of a request are those of the peer table.
\<close>

section \<open>Data\<close>

record ChunkRequestInfo =
  cri_isRedirected :: bool
  cri_pxyAddr :: u32
  cri_cid :: ConnectionID
  cri_length :: u32
  cri_isNetwork :: bool
  cri_peerIdx :: int

record PeekRequestInfo =
  pri_cid :: ConnectionID
  pri_ri :: "nat \<times> u32"
  pri_cni :: nat

record requests =
  chunk_request_ht :: "(sha1, ChunkRequestInfo list) hashtable"
  peek_request_ht :: "(sha1, PeekRequestInfo list) hashtable"
  g_NumChunkRequestsInFlight :: int
  g_NumPeekRequestsInFlight :: int

text \<open>The bytes a body response adds to a chunk.\<close>

definition PerChunkResponseOverhead :: nat where
  "PerChunkResponseOverhead = sizeof_WABodyRequest + sizeof_WAOneResponse"

section \<open>Operations\<close>

definition CreateChunkRequestTable :: "requests res" where
  "CreateChunkRequestTable =
     (case (create_hashtable True True 65536 chunk_hash_from_key_fn_raw chunk_keys_equal_fn_raw,
            create_hashtable True True 65536 chunk_hash_from_key_fn_raw chunk_keys_equal_fn_raw) of
        (Some c, Some p) \<Rightarrow> Inr \<lparr>chunk_request_ht = c, peek_request_ht = p,
           g_NumChunkRequestsInFlight = 0, g_NumPeekRequestsInFlight = 0\<rparr>
      | _ \<Rightarrow> Inl NiceExit)"

definition GetChunkRequestList :: "requests \<Rightarrow> sha1 \<Rightarrow> ChunkRequestInfo list option" where
  "GetChunkRequestList r name = hashtable_search (chunk_request_ht r) name"

definition GetPeekRequestList :: "requests \<Rightarrow> sha1 \<Rightarrow> PeekRequestInfo list option" where
  "GetPeekRequestList r name = hashtable_search (peek_request_ht r) name"

text \<open>A new entry at the end of the list of a name, which is created when there is none.\<close>

definition append_entry :: "(sha1, 'a list) hashtable \<Rightarrow> sha1 \<Rightarrow> 'a \<Rightarrow> (sha1, 'a list) hashtable res" where
  "append_entry ht name x =
     rbind (case hashtable_search ht name of
              None \<Rightarrow> table_insert ht (take SHA1_LEN name) []
            | Some _ \<Rightarrow> Inr ht)
       (\<lambda>ht1. Inr (ht_modify ht1 name (\<lambda>list. list @ [x])))"

definition PutChunkRequest :: "requests \<Rightarrow> peer_table \<Rightarrow> sha1 \<Rightarrow> ConnectionID \<Rightarrow> bool \<Rightarrow> u32 \<Rightarrow> u32 \<Rightarrow> int \<Rightarrow> bool \<Rightarrow>
    (requests \<times> peer_table) res" where
  "PutChunkRequest r p name cid isRedirected pxyAddr len peerIdx isNetwork =
     ensure (peerIdx \<noteq> -1)
       (if peerIdx < 0 \<or> nat peerIdx \<ge> length (g_PeerInfo p) then Inl UndefinedBehaviour
        else let p1 = (if isNetwork
               then update_peer (nat peerIdx) (\<lambda>pi. pi\<lparr>pi_networkPendingBytes :=
                      pi_networkPendingBytes pi + len + of_nat PerChunkResponseOverhead\<rparr>) p
               else update_peer (nat peerIdx) (\<lambda>pi. pi\<lparr>pi_diskPendingChunks := pi_diskPendingChunks pi + 1\<rparr>) p)
          in rbind (append_entry (chunk_request_ht r) name
               \<lparr>cri_isRedirected = isRedirected, cri_pxyAddr = pxyAddr, cri_cid = cid, cri_length = len,
                cri_isNetwork = isNetwork, cri_peerIdx = peerIdx\<rparr>) (\<lambda>ht.
               Inr (r\<lparr>chunk_request_ht := ht, g_NumChunkRequestsInFlight := g_NumChunkRequestsInFlight r + 1\<rparr>, p1)))"

definition PutPeekRequest :: "requests \<Rightarrow> nat \<times> u32 \<Rightarrow> nat \<Rightarrow> sha1 \<Rightarrow> ConnectionID \<Rightarrow> requests res" where
  "PutPeekRequest r ri cni name cid =
     rbind (append_entry (peek_request_ht r) name \<lparr>pri_cid = cid, pri_ri = ri, pri_cni = cni\<rparr>) (\<lambda>ht.
       Inr (r\<lparr>peek_request_ht := ht, g_NumPeekRequestsInFlight := g_NumPeekRequestsInFlight r + 1\<rparr>))"

text \<open>The loop that frees the entries of a list and counts them down.\<close>

fun drain :: "'a list \<Rightarrow> int \<Rightarrow> int res" where
  "drain [] n = Inr n"
| "drain (walk # list) n = ensure (n - 1 \<ge> 0) (drain list (n - 1))"

definition DestroyChunkRequestList :: "requests \<Rightarrow> sha1 \<Rightarrow> requests res" where
  "DestroyChunkRequestList r name =
     (case hashtable_remove (chunk_request_ht r) name of
        (ht, None) \<Rightarrow> Inl NiceExit
      | (ht, Some list) \<Rightarrow>
          rbind (drain list (g_NumChunkRequestsInFlight r))
            (\<lambda>n. Inr (r\<lparr>chunk_request_ht := ht, g_NumChunkRequestsInFlight := n\<rparr>)))"

definition DestroyPeekRequestList :: "requests \<Rightarrow> sha1 \<Rightarrow> requests res" where
  "DestroyPeekRequestList r name =
     (case hashtable_remove (peek_request_ht r) name of
        (ht, None) \<Rightarrow> Inl NiceExit
      | (ht, Some list) \<Rightarrow>
          rbind (drain list (g_NumPeekRequestsInFlight r))
            (\<lambda>n. Inr (r\<lparr>peek_request_ht := ht, g_NumPeekRequestsInFlight := n\<rparr>)))"

text \<open>
  \<open>DestroyChunkRequestTable\<close> removes the entry under the iterator, which frees it, and then advances
  the iterator, which reads the entry.
\<close>

definition DestroyChunkRequestTable :: "requests option \<Rightarrow> unit res" where
  "DestroyChunkRequestTable tables =
     (case tables of
        None \<Rightarrow> Inl NiceExit
      | Some r \<Rightarrow>
          rbind (if hashtable_count (chunk_request_ht r) > 0 then
                   rbind (hashtable_iterator_key (chunk_request_ht r) (hashtable_iterator (chunk_request_ht r))) (\<lambda>k.
                     rbind (DestroyChunkRequestList r k) (\<lambda>_. Inl UndefinedBehaviour))
                 else Inr r) (\<lambda>r1.
            if hashtable_count (peek_request_ht r1) > 0 then
              rbind (hashtable_iterator_key (peek_request_ht r1) (hashtable_iterator (peek_request_ht r1))) (\<lambda>k.
                rbind (DestroyPeekRequestList r1 k) (\<lambda>_. Inl UndefinedBehaviour))
            else Inr ()))"

section \<open>The tables as keyed tables\<close>

lemma raw_key_fns: "key_fns chunk_hash_from_key_fn_raw chunk_keys_equal_fn_raw"
  unfolding key_fns_def
  by (intro conjI equivpI reflpI sympI transpI) (simp_all add: chunk_keys_equal_fn_raw_def chunk_hash_from_key_fn_raw_def)

interpretation by_name: mutable_table "ht_good chunk_hash_from_key_fn_raw chunk_keys_equal_fn_raw"
  hashtable_search ht_put hashtable_remove hashtable_count chunk_keys_equal_fn_raw ht_modify
  by (rule mutable_table_hashtable[OF raw_key_fns])

abbreviation raw_good :: "(sha1, 'v) hashtable \<Rightarrow> bool" where
  "raw_good \<equiv> ht_good chunk_hash_from_key_fn_raw chunk_keys_equal_fn_raw"

text \<open>The lists by their full names, a finite map, and the number of their entries.\<close>

definition lists_of :: "(sha1, 'a list) hashtable \<Rightarrow> sha1 \<Rightarrow> 'a list option" where
  "lists_of ht n = (if take SHA1_LEN n = n then hashtable_search ht n else None)"

definition total :: "(sha1 \<Rightarrow> 'a list option) \<Rightarrow> nat" where
  "total f = (\<Sum>n \<in> dom f. length (the (f n)))"

lemma lists_of_take: "raw_good ht \<Longrightarrow> lists_of ht (take SHA1_LEN n) = hashtable_search ht n"
  using by_name.look_same[of ht "take SHA1_LEN n" n] by (simp add: lists_of_def chunk_keys_equal_fn_raw_def)

lemma finite_lists: "raw_good ht \<Longrightarrow> finite (dom (lists_of ht))"
proof (rule finite_subset)
  assume g: "raw_good ht"
  show "dom (lists_of ht) \<subseteq> (\<lambda>e. take SHA1_LEN (ent_k e)) ` set (ht_entries ht)"
  proof
    fix n assume "n \<in> dom (lists_of ht)"
    then have n: "take SHA1_LEN n = n" "hashtable_search ht n \<noteq> None" by (auto simp: lists_of_def split: if_splits)
    then obtain e where "find (\<lambda>e. chunk_keys_equal_fn_raw n (ent_k e)) (ht_entries ht) = Some e"
      using ht_good_find[OF g raw_key_fns, of n] by auto
    then have "e \<in> set (ht_entries ht)" "chunk_keys_equal_fn_raw n (ent_k e)" by (auto simp: find_Some_iff)
    then show "n \<in> (\<lambda>e. take SHA1_LEN (ent_k e)) ` set (ht_entries ht)" using n(1) by (auto simp: chunk_keys_equal_fn_raw_def)
  qed
qed simp

lemma total_upd: "finite (dom f) \<Longrightarrow> total (f(n \<mapsto> xs)) + (case f n of None \<Rightarrow> 0 | Some ys \<Rightarrow> length ys) = total f + length xs"
proof -
  assume f: "finite (dom f)"
  have rest: "(\<Sum>m \<in> dom f - {n}. length (the ((f(n \<mapsto> xs)) m))) = (\<Sum>m \<in> dom f - {n}. length (the (f m)))"
    by (rule sum.cong) auto
  have "total (f(n \<mapsto> xs)) = length xs + (\<Sum>m \<in> dom f - {n}. length (the (f m)))"
    using f sum.insert_remove[OF f, of "\<lambda>m. length (the ((f(n \<mapsto> xs)) m))" n] rest by (simp add: total_def)
  moreover have "total f = (case f n of None \<Rightarrow> 0 | Some ys \<Rightarrow> length ys) + (\<Sum>m \<in> dom f - {n}. length (the (f m)))"
  proof (cases "f n")
    case None
    then have "dom f - {n} = dom f" by (auto simp: domIff)
    with None show ?thesis by (simp add: total_def)
  next
    case (Some a)
    then have "n \<in> dom f" by (simp add: domIff)
    with Some sum.remove[OF f this, of "\<lambda>m. length (the (f m))"] show ?thesis by (simp add: total_def)
  qed
  ultimately show ?thesis by simp
qed

lemma total_del: "finite (dom f) \<Longrightarrow> f n = Some xs \<Longrightarrow> total (f(n := None)) + length xs = total f"
proof -
  assume f: "finite (dom f)" "f n = Some xs"
  have "(\<Sum>m \<in> dom f - {n}. length (the ((f(n := None)) m))) = (\<Sum>m \<in> dom f - {n}. length (the (f m)))"
    by (rule sum.cong) auto
  moreover have "n \<in> dom f" using f(2) by (simp add: domIff)
  ultimately show ?thesis using f(2) sum.remove[OF f(1) \<open>n \<in> dom f\<close>, of "\<lambda>m. length (the (f m))"] by (simp add: total_def)
qed

lemma append_entry_ok:
  assumes "raw_good ht"
  shows "\<exists>ht'. append_entry ht name x = Inr ht' \<and> raw_good ht' \<and>
    lists_of ht' = (lists_of ht)(take SHA1_LEN name \<mapsto> (case hashtable_search ht name of None \<Rightarrow> [] | Some l \<Rightarrow> l) @ [x])"
proof -
  let ?n = "take SHA1_LEN name" and ?f = "\<lambda>l. l @ [x]"
  have same: "chunk_keys_equal_fn_raw m name \<longleftrightarrow> take SHA1_LEN m = ?n" "chunk_keys_equal_fn_raw m ?n \<longleftrightarrow> take SHA1_LEN m = ?n" for m
    by (simp_all add: chunk_keys_equal_fn_raw_def)
  show ?thesis
  proof (cases "hashtable_search ht name")
    case None
    then have n: "hashtable_search ht ?n = None" using by_name.look_same[OF assms, of ?n name] by (simp add: same)
    let ?h = "ht_put ht ?n []"
    have g: "raw_good ?h" by (rule by_name.invar_store[OF assms n])
    have l: "hashtable_search ?h m = (if take SHA1_LEN m = ?n then Some [] else hashtable_search ht m)" for m
      using by_name.look_store[OF assms n, of "[]" m] by (simp add: same)
    have "lists_of (ht_modify ?h name ?f) = (lists_of ht)(?n \<mapsto> [x])"
      using by_name.look_modify[OF g, of name ?f] l by (auto simp: lists_of_def same fun_eq_iff)
    with None show ?thesis using by_name.invar_modify[OF g] by (simp add: append_entry_def)
  next
    case (Some l)
    have "hashtable_search ht m = Some l" if "take SHA1_LEN m = ?n" for m
      using by_name.look_same[OF assms, of m name] that Some by (simp add: same)
    then have "lists_of (ht_modify ht name ?f) = (lists_of ht)(?n \<mapsto> l @ [x])"
      using by_name.look_modify[OF assms, of name ?f] Some by (auto simp: lists_of_def same fun_eq_iff)
    with Some show ?thesis using by_name.invar_modify[OF assms] by (simp add: append_entry_def)
  qed
qed

lemma remove_lists:
  assumes "raw_good ht" "hashtable_remove ht name = (ht', l)"
  shows "raw_good ht'" "l = hashtable_search ht name" "lists_of ht' = (lists_of ht)(take SHA1_LEN name := None)"
proof -
  have look: "hashtable_search ht' m = (if take SHA1_LEN m = take SHA1_LEN name then None else hashtable_search ht m)" for m
    using by_name.look_drop[OF assms(1), of name m] assms(2) by (simp add: chunk_keys_equal_fn_raw_def)
  show "raw_good ht'" using by_name.invar_drop[OF assms(1), of name] assms(2) by simp
  show "l = hashtable_search ht name" using by_name.result_drop[OF assms(1), of name] assms(2) by simp
  show "lists_of ht' = (lists_of ht)(take SHA1_LEN name := None)" by (auto simp: lists_of_def look fun_eq_iff)
qed

lemma drain_ok: "int (length xs) \<le> n \<Longrightarrow> drain xs n = Inr (n - int (length xs))"
  by (induction xs arbitrary: n) auto

section \<open>The requests in flight\<close>

definition flight_inv :: "(sha1, 'a list) hashtable \<Rightarrow> int \<Rightarrow> bool" where
  "flight_inv ht n \<longleftrightarrow> raw_good ht \<and> n = int (total (lists_of ht))"

definition requests_ok :: "requests \<Rightarrow> bool" where
  "requests_ok r \<longleftrightarrow> flight_inv (chunk_request_ht r) (g_NumChunkRequestsInFlight r) \<and>
     flight_inv (peek_request_ht r) (g_NumPeekRequestsInFlight r)"

lemma append_flight:
  assumes "flight_inv ht n"
  shows "\<exists>ht'. append_entry ht name x = Inr ht' \<and> flight_inv ht' (n + 1) \<and>
    lists_of ht' = (lists_of ht)(take SHA1_LEN name \<mapsto> (case hashtable_search ht name of None \<Rightarrow> [] | Some l \<Rightarrow> l) @ [x])"
proof -
  have g: "raw_good ht" "n = int (total (lists_of ht))" using assms by (simp_all add: flight_inv_def)
  from append_entry_ok[OF g(1), of name x] obtain ht' where h: "append_entry ht name x = Inr ht'" "raw_good ht'"
    "lists_of ht' = (lists_of ht)(take SHA1_LEN name \<mapsto> (case hashtable_search ht name of None \<Rightarrow> [] | Some l \<Rightarrow> l) @ [x])" by blast
  have "total (lists_of ht') = total (lists_of ht) + 1"
    using total_upd[OF finite_lists[OF g(1)], of "take SHA1_LEN name" "(case hashtable_search ht name of None \<Rightarrow> [] | Some l \<Rightarrow> l) @ [x]"]
      h(3) lists_of_take[OF g(1), of name] by (auto split: option.splits)
  with h g show ?thesis by (simp add: flight_inv_def)
qed

lemma drain_flight:
  assumes "flight_inv ht n" "hashtable_search ht name = Some l"
  shows "\<exists>ht'. hashtable_remove ht name = (ht', Some l) \<and> drain l n = Inr (n - int (length l)) \<and> flight_inv ht' (n - int (length l)) \<and>
    lists_of ht' = (lists_of ht)(take SHA1_LEN name := None)"
proof -
  have g: "raw_good ht" "n = int (total (lists_of ht))" using assms by (simp_all add: flight_inv_def)
  obtain ht' k where r: "hashtable_remove ht name = (ht', k)" by fastforce
  note p = remove_lists[OF g(1) r]
  have "total ((lists_of ht)(take SHA1_LEN name := None)) + length l = total (lists_of ht)"
    using total_del[OF finite_lists[OF g(1)]] lists_of_take[OF g(1), of name] assms(2) by simp
  with p g r assms(2) show ?thesis by (simp add: flight_inv_def drain_ok)
qed

lemma CreateChunkRequestTable_ok: "\<exists>r. CreateChunkRequestTable = Inr r \<and> requests_ok r \<and> (\<forall>n. GetChunkRequestList r n = None)"
proof -
  obtain c :: "(sha1, ChunkRequestInfo list) hashtable" where c: "create_hashtable True True 65536 chunk_hash_from_key_fn_raw chunk_keys_equal_fn_raw = Some c"
    using create_hashtable_total[of 65536] by auto
  obtain p :: "(sha1, PeekRequestInfo list) hashtable" where p: "create_hashtable True True 65536 chunk_hash_from_key_fn_raw chunk_keys_equal_fn_raw = Some p"
    using create_hashtable_total[of 65536] by auto
  have "lists_of c = Map.empty" "lists_of p = Map.empty"
    using create_hashtable_good[OF c] create_hashtable_good[OF p] by (auto simp: lists_of_def fun_eq_iff)
  then show ?thesis using c p create_hashtable_good[OF c] create_hashtable_good[OF p]
    by (simp add: CreateChunkRequestTable_def requests_ok_def flight_inv_def total_def GetChunkRequestList_def)
qed

definition new_request :: "ConnectionID \<Rightarrow> bool \<Rightarrow> u32 \<Rightarrow> u32 \<Rightarrow> int \<Rightarrow> bool \<Rightarrow> ChunkRequestInfo" where
  "new_request cid redirected addr len idx net = \<lparr>cri_isRedirected = redirected, cri_pxyAddr = addr, cri_cid = cid,
     cri_length = len, cri_isNetwork = net, cri_peerIdx = idx\<rparr>"

abbreviation waiting_for :: "requests \<Rightarrow> sha1 \<Rightarrow> ChunkRequestInfo list" where
  "waiting_for r n \<equiv> (case GetChunkRequestList r n of None \<Rightarrow> [] | Some l \<Rightarrow> l)"

lemma PutChunkRequest_ok:
  assumes "requests_ok r" "i < length (g_PeerInfo p)"
  shows "\<exists>r' p'. PutChunkRequest r p name cid redirected addr len (int i) net = Inr (r', p') \<and> requests_ok r' \<and>
    g_NumChunkRequestsInFlight r' = g_NumChunkRequestsInFlight r + 1 \<and>
    (\<forall>m. GetChunkRequestList r' m = (if take SHA1_LEN m = take SHA1_LEN name
       then Some (waiting_for r name @ [new_request cid redirected addr len (int i) net]) else GetChunkRequestList r m)) \<and>
    p' = update_peer i (\<lambda>pi. if net then pi\<lparr>pi_networkPendingBytes := pi_networkPendingBytes pi + len + of_nat PerChunkResponseOverhead\<rparr>
       else pi\<lparr>pi_diskPendingChunks := pi_diskPendingChunks pi + 1\<rparr>) p"
proof -
  have f: "flight_inv (chunk_request_ht r) (g_NumChunkRequestsInFlight r)" using assms(1) by (simp add: requests_ok_def)
  from append_flight[OF f, of name "new_request cid redirected addr len (int i) net"] obtain ht where
    h: "append_entry (chunk_request_ht r) name (new_request cid redirected addr len (int i) net) = Inr ht"
      "flight_inv ht (g_NumChunkRequestsInFlight r + 1)"
      "lists_of ht = (lists_of (chunk_request_ht r))(take SHA1_LEN name \<mapsto> waiting_for r name @ [new_request cid redirected addr len (int i) net])"
    by (auto simp: GetChunkRequestList_def)
  have g: "raw_good ht" "raw_good (chunk_request_ht r)" using h(2) f by (simp_all add: flight_inv_def)
  have "hashtable_search ht m = (if take SHA1_LEN m = take SHA1_LEN name
       then Some (waiting_for r name @ [new_request cid redirected addr len (int i) net]) else hashtable_search (chunk_request_ht r) m)" for m
    using fun_cong[OF h(3), of "take SHA1_LEN m"] by (simp add: lists_of_take[OF g(1)] lists_of_take[OF g(2)])
  with h(1,2) assms show ?thesis
    by (simp add: PutChunkRequest_def new_request_def Let_def requests_ok_def GetChunkRequestList_def)
qed

lemma DestroyChunkRequestList_ok:
  assumes "requests_ok r" "GetChunkRequestList r name = Some l"
  shows "\<exists>r'. DestroyChunkRequestList r name = Inr r' \<and> requests_ok r' \<and>
    g_NumChunkRequestsInFlight r' = g_NumChunkRequestsInFlight r - int (length l) \<and>
    (\<forall>m. GetChunkRequestList r' m = (if take SHA1_LEN m = take SHA1_LEN name then None else GetChunkRequestList r m))"
proof -
  have f: "flight_inv (chunk_request_ht r) (g_NumChunkRequestsInFlight r)" using assms(1) by (simp add: requests_ok_def)
  from drain_flight[OF f, of name l] assms(2) obtain ht where
    h: "hashtable_remove (chunk_request_ht r) name = (ht, Some l)"
      "drain l (g_NumChunkRequestsInFlight r) = Inr (g_NumChunkRequestsInFlight r - int (length l))"
      "flight_inv ht (g_NumChunkRequestsInFlight r - int (length l))" "lists_of ht = (lists_of (chunk_request_ht r))(take SHA1_LEN name := None)"
    by (auto simp: GetChunkRequestList_def)
  have g: "raw_good ht" "raw_good (chunk_request_ht r)" using h(3) f by (simp_all add: flight_inv_def)
  have "hashtable_search ht m = (if take SHA1_LEN m = take SHA1_LEN name then None else hashtable_search (chunk_request_ht r) m)" for m
    using fun_cong[OF h(4), of "take SHA1_LEN m"] by (simp add: lists_of_take[OF g(1)] lists_of_take[OF g(2)])
  with h(1-3) assms(1) show ?thesis
    by (simp add: DestroyChunkRequestList_def requests_ok_def GetChunkRequestList_def)
qed

text \<open>Clearing a table that is not empty touches freed memory.\<close>

lemma DestroyChunkRequestTable_freed:
  assumes "hashtable_count (chunk_request_ht r) > 0"
  shows "\<exists>e. DestroyChunkRequestTable (Some r) = Inl e"
  using assms by (cases "hashtable_iterator_key (chunk_request_ht r) (hashtable_iterator (chunk_request_ht r))")
    (auto simp: DestroyChunkRequestTable_def rbind_def split: sum.splits)

section \<open>Properties\<close>

text \<open>
  Claim C25: a request for a chunk is tracked until it is answered. \<open>PutChunkRequest\<close> appends the request
  to those that wait for the name, leaves the requests for other names alone and adds the load to the
  peer that was asked; \<open>DestroyChunkRequestList\<close> then removes all requests for the name and no other.
  The count in flight is the number of requests in the table throughout, so that no assertion fails.
\<close>

theorem chunk_requests_tracked:
  assumes "requests_ok r" "i < length (g_PeerInfo p)"
  shows "\<exists>r1 p1 r2. PutChunkRequest r p name cid redirected addr len (int i) net = Inr (r1, p1) \<and>
    requests_ok r1 \<and> g_NumChunkRequestsInFlight r1 = g_NumChunkRequestsInFlight r + 1 \<and>
    GetChunkRequestList r1 name = Some (waiting_for r name @
      [\<lparr>cri_isRedirected = redirected, cri_pxyAddr = addr, cri_cid = cid, cri_length = len, cri_isNetwork = net, cri_peerIdx = int i\<rparr>]) \<and>
    pi_networkPendingBytes (g_PeerInfo p1 ! i) = pi_networkPendingBytes (g_PeerInfo p ! i) + (if net then len + 35 else 0) \<and>
    DestroyChunkRequestList r1 name = Inr r2 \<and> requests_ok r2 \<and>
    g_NumChunkRequestsInFlight r2 = g_NumChunkRequestsInFlight r - int (length (waiting_for r name)) \<and>
    (\<forall>m. GetChunkRequestList r2 m = (if take SHA1_LEN m = take SHA1_LEN name then None else GetChunkRequestList r m))"
proof -
  let ?x = "new_request cid redirected addr len (int i) net"
  from PutChunkRequest_ok[OF assms, of name cid redirected addr len net] obtain r1 p1 where
    p: "PutChunkRequest r p name cid redirected addr len (int i) net = Inr (r1, p1)" "requests_ok r1"
      "g_NumChunkRequestsInFlight r1 = g_NumChunkRequestsInFlight r + 1"
      "\<forall>m. GetChunkRequestList r1 m = (if take SHA1_LEN m = take SHA1_LEN name then Some (waiting_for r name @ [?x]) else GetChunkRequestList r m)"
      "p1 = update_peer i (\<lambda>pi. if net then pi\<lparr>pi_networkPendingBytes := pi_networkPendingBytes pi + len + of_nat PerChunkResponseOverhead\<rparr>
       else pi\<lparr>pi_diskPendingChunks := pi_diskPendingChunks pi + 1\<rparr>) p" by blast
  have l: "GetChunkRequestList r1 name = Some (waiting_for r name @ [?x])" using p(4) by simp
  from DestroyChunkRequestList_ok[OF p(2) l] obtain r2 where
    d: "DestroyChunkRequestList r1 name = Inr r2" "requests_ok r2"
      "g_NumChunkRequestsInFlight r2 = g_NumChunkRequestsInFlight r1 - int (length (waiting_for r name @ [?x]))"
      "\<forall>m. GetChunkRequestList r2 m = (if take SHA1_LEN m = take SHA1_LEN name then None else GetChunkRequestList r1 m)" by blast
  have "pi_networkPendingBytes (g_PeerInfo p1 ! i) = pi_networkPendingBytes (g_PeerInfo p ! i) + (if net then len + 35 else 0)"
    using assms(2) by (simp add: p(5) update_peer_def PerChunkResponseOverhead_def sizeof_defs)
  with p(1-4) l d show ?thesis by (auto simp: new_request_def)
qed

theorem chunk_requests_tracked_witness:
  "\<exists>r r1 p1. CreateChunkRequestTable = Inr r \<and>
     PutChunkRequest r (three_peers True True) (replicate 20 7) demo_cid False 1 100 2 True = Inr (r1, p1) \<and>
     map (map cri_length) (map (waiting_for r1) [replicate 20 7, replicate 20 8]) = [[100], []]"
proof -
  from CreateChunkRequestTable_ok obtain r where r: "CreateChunkRequestTable = Inr r" "requests_ok r" "\<forall>n. GetChunkRequestList r n = None" by blast
  have "2 < length (g_PeerInfo (three_peers True True))" by (simp add: three_peers)
  from chunk_requests_tracked[OF r(2) this, of "replicate 20 7" demo_cid False 1 100 True] obtain r1 p1 where
    p: "PutChunkRequest r (three_peers True True) (replicate 20 7) demo_cid False 1 100 2 True = Inr (r1, p1)"
      "map cri_length (waiting_for r1 (replicate 20 7)) = [100]" using r(3) by auto
  from PutChunkRequest_ok[OF r(2) \<open>2 < _\<close>, of "replicate 20 7" demo_cid False 1 100 True] p(1) r(3)
  have "GetChunkRequestList r1 (replicate 20 8) = None" by (auto simp: SHA1_LEN_def)
  with r(1) p show ?thesis by auto
qed

end
