(* ===== verification/Connection.thy ===== *)
theory Connection
  imports Chunk_Buffer Chunk_Request
begin

text \<open>
  The connections of the proxy (waprox/connection.c, connection.h) and the writing of data to them
  (waprox/waprox.c: \<open>SendDataPrivate\<close>, \<open>Write\<close>, \<open>ActualWrite\<close>, \<open>PostWrite\<close>).

  A connection is identified by its file descriptor. The global variables of the program are the
  record \<open>proxy\<close>; its field \<open>px_conns\<close> is \<open>g_MasterCIsetByFD\<close>. An operation on a connection takes the
  proxy and the connection and returns both; the caller stores the connection back. Lists of
  connections are lists of descriptors. The parts of \<open>ReassembleInfo\<close> that only the other build uses
  (\<open>cti\<close>), the pointers back to a parent and the times kept for logging are left out.

  What the operating system answers to the next calls of \<open>write\<close> is the list \<open>px_writes\<close>; a call
  beyond its end finds the socket busy. The bytes the system accepted on a connection are \<open>ci_out\<close>.
  The clock is \<open>px_now\<close>, and \<open>px_fds\<close> are the descriptors of the next outgoing connections; without
  one, a connection fails.
\<close>

section \<open>Data\<close>

definition MAX_NUM_CI :: nat where "MAX_NUM_CI = 1024 * 5"
definition MAX_WINDOW_SIZE :: u32 where "MAX_WINDOW_SIZE = 60 * 1024 * 1024"
definition MAX_CACHE_CONNS :: nat where "MAX_CACHE_CONNS = 100"
definition MAX_DNS_CONNS :: nat where "MAX_DNS_CONNS = 20"

datatype eventState = es_none | es_added | es_triggered

datatype connectionType = ct_user | ct_control | ct_chunk | ct_cache | ct_dns | ct_disk | ct_pptpd

datatype connectionStatus = cs_active | cs_block | cs_done | cs_finsent | cs_closed

record MessageInfo =
  mi_msg :: "byte list"
  mi_streamID :: int

record ChunkNameInfo =
  cni_isHit :: bool
  cni_inMemory :: bool
  cni_length :: u32
  cni_peerIdx :: int
  cni_isNetwork :: bool
  cni_sha1 :: sha1

record ReassembleInfo =
  ri_seq_no :: u32
  ri_numNames :: u32
  ri_numPeekResolved :: u32
  ri_getSent :: bool
  ri_source :: nat
  ri_nameList :: "ChunkNameInfo list"

text \<open>The list \<open>readyList\<close> links members of \<open>reassembleList\<close>; it is the list of their sequence numbers.\<close>

record UserConnectionInfo =
  uc_isForward :: bool
  uc_isHttpProxy :: bool
  uc_rctx :: RabinCtx
  uc_rctx4put :: RabinCtx
  uc_bytesTX :: u32
  uc_bytesRX :: u32
  uc_closeBytes :: u32
  uc_numChunks :: u32
  uc_numHits :: u32
  uc_numMisses :: u32
  uc_hitBytes :: u32
  uc_missBytes :: u32
  uc_numMoves :: u32
  uc_moveBytes :: u32
  uc_seq_no :: u32
  uc_reassembleList :: "ReassembleInfo list"
  uc_readyList :: "u32 list"
  uc_pendingNames :: u32
  uc_pendingBytes :: u32
  uc_chunkBufferList :: "ChunkBuffer list"
  uc_numChunkBuffers :: u32
  uc_maxWindowSize :: u32
  uc_numSent :: u32
  uc_lastAcked :: u32
  uc_lastCumulativeAck :: u32
  uc_sip :: u32
  uc_sport :: u16
  uc_dip :: u32
  uc_dport :: u16
  uc_dstPxyIdx :: int
  uc_nameFlowId :: int
  uc_controlMsgList :: "MessageInfo list"

record ControlConnectionInfo =
  cc_peerIdx :: int
  cc_flowIdx :: int

text \<open>
  A transaction with the disk cache (\<open>disk.h\<close>, \<open>chunkrequest.h\<close>). The opaque data of a transaction
  is a value of \<open>opaque\<close>; a pointer to a name of a waiting block is the descriptor of the connection, the
  sequence number of the block and the position of the name. What only the build with full trees uses
  (\<open>pCTInfo\<close>, \<open>index\<close>) is left out.
\<close>

datatype processState = ps_none | ps_keepalive | ps_nameTreeDelivery | ps_bodyRequest | ps_peekRequest | ps_putDisk | ps_userData

datatype hcMethod = hc_put | hc_get | hc_peek

record ChunkRequestOpaque =
  co_cid :: ConnectionID
  co_request :: WAOneRequest
  co_prevPxyAddr :: u32

datatype opaque =
    NoOpaque
  | BodyOpaque ChunkRequestOpaque
  | PeekOpaque sha1
  | PeekOpaque2 "nat \<times> u32" nat

record CacheTransactionInfo =
  ti_cid :: ConnectionID
  ti_sourceCI :: "nat option"
  ti_sha1 :: sha1
  ti_chunkLen :: int
  ti_pChunk :: "byte list option"
  ti_dstPxyId :: int
  ti_method :: hcMethod
  ti_ps :: processState
  ti_opaque :: opaque

record CacheConnectionInfo =
  ca_pCurTrans :: "CacheTransactionInfo option"
  ca_cacheConnIdx :: nat
  ca_lastAccessTime :: int

datatype stub =
    NoStub
  | UserStub UserConnectionInfo
  | ControlStub ControlConnectionInfo
  | ChunkStub ControlConnectionInfo
  | CacheStub CacheConnectionInfo
  | DnsStub

record ConnectionInfo =
  ci_fd :: nat
  ci_connID :: u32
  ci_type :: connectionType
  ci_status :: connectionStatus
  ci_isAbnormal :: bool
  ci_isWritable :: bool
  ci_bufRead :: "byte list"
  ci_lenWrite :: int
  ci_msgListWrite :: "MessageInfo list"
  ci_firstMsgOffset :: nat
  ci_stub :: stub
  ci_out :: "byte list"

record ConnectionKey =
  key_sip :: u32
  key_sport :: u16
  key_dip :: u32
  key_dport :: u16

datatype write_result = Written nat | Busy | Failed

record proxy =
  px_cache :: cache
  px_peers :: peer_table
  px_conns :: "nat \<Rightarrow> ConnectionInfo option"
  px_events :: "nat \<Rightarrow> eventState \<times> eventState"
  px_writes :: "write_result list"
  g_ConnectionID :: u32
  g_ConnMap :: "(ConnectionKey, nat) hashtable"
  g_PseudoConnMap :: "(ConnectionKey, nat) hashtable"
  g_UserList :: "nat list"
  g_DeadConnList :: "nat list"
  g_NumUserConns :: int
  g_NumDeadConns :: int
  g_NumPeerConns :: int
  g_NumCacheConns :: int
  g_NumDnsConns :: int
  g_NumTotUserConns :: u32
  g_CacheConnections :: "nat \<Rightarrow> nat option"
  g_NumBlocked :: u32
  g_Hits :: u32
  g_Misses :: u32
  g_BytesUserTX :: u32
  g_BytesUserRX :: u32
  g_BytesPeerTX :: u32
  g_BytesPptpTX :: u32
  g_BytesCacheTX :: u32
  g_BytesDnsTX :: u32
  g_TryReconstruction :: bool
  g_NewPeekUpdate :: bool
  g_PdNumNameTrees :: u32
  g_PutMessageList :: "(byte list \<times> int) list"
  g_NumPutMessages :: int
  g_CurPutQueueSize :: u32
  g_TotalPutDiscarded :: u32
  px_requests :: requests
  px_now :: int
  px_fds :: "nat list"
  g_BytesPeerRX :: u32
  g_BytesBlockTX :: u32
  g_BytesBlockRX :: u32
  g_NumChunkRequests :: u32
  g_PdNumChunkRequests :: u32
  g_NumChunkRequestSent :: u32
  g_NumChunkResponseReceived :: u32
  g_MissRedirected :: u32
  g_NumPutTempHits :: u32
  g_NumPutRequestSent :: u32
  g_NumPutResponseReceived :: u32
  g_FirstClassRequestList :: "CacheTransactionInfo list"
  g_SecondClassRequestList :: "CacheTransactionInfo list"
  g_NumPendingFirstTransactions :: int
  g_NumPendingSecondTransactions :: int
  g_NumCacheRequestSent :: u32
  g_NumCacheResponseReceived :: u32
  g_PdNumFirstRequests :: u32
  g_PdNumSecondRequests :: u32
  g_BytesCacheRX :: u32
  g_RareMisses :: u32
  g_NumPeekRequestSent :: u32
  g_NumPeekResponseReceived :: u32

section \<open>The tables of connections\<close>

definition conn_hash_from_key_fn :: "ConnectionKey \<Rightarrow> u32" where
  "conn_hash_from_key_fn k = of_nat (sum_list (map unat
     (host32 (key_sip k) @ host32 (key_dip k)
      @ [ucast (key_sport k), ucast (drop_bit 8 (key_sport k)), ucast (key_dport k), ucast (drop_bit 8 (key_dport k)) :: byte])))"

definition conn_keys_equal_fn :: "ConnectionKey \<Rightarrow> ConnectionKey \<Rightarrow> bool" where
  "conn_keys_equal_fn k1 k2 \<longleftrightarrow> key_sip k1 = key_sip k2 \<and> key_sport k1 = key_sport k2 \<and>
     key_dip k1 = key_dip k2 \<and> key_dport k1 = key_dport k2"

definition CONNECTIONMAP_SIZE :: u32 where "CONNECTIONMAP_SIZE = 65536"

text \<open>The two tables, which must not exist yet.\<close>

definition CreateConnectionTables :: "((ConnectionKey, nat) hashtable \<times> (ConnectionKey, nat) hashtable) option \<Rightarrow>
    ((ConnectionKey, nat) hashtable \<times> (ConnectionKey, nat) hashtable) res" where
  "CreateConnectionTables old =
     (if old \<noteq> None then Inl NiceExit
      else case (create_hashtable True True CONNECTIONMAP_SIZE conn_hash_from_key_fn conn_keys_equal_fn,
                 create_hashtable True True CONNECTIONMAP_SIZE conn_hash_from_key_fn conn_keys_equal_fn) of
        (Some pm, Some cm) \<Rightarrow> Inr (pm, cm)
      | _ \<Rightarrow> Inl NiceExit)"

definition DestroyConnectionTables :: "((ConnectionKey, nat) hashtable \<times> (ConnectionKey, nat) hashtable) option \<Rightarrow>
    (ConnectionKey \<times> nat option) list res" where
  "DestroyConnectionTables tables =
     (case tables of None \<Rightarrow> Inl NiceExit
      | Some (pm, cm) \<Rightarrow> Inr (hashtable_destroy pm True @ hashtable_destroy cm True))"

definition uc_key :: "UserConnectionInfo \<Rightarrow> ConnectionKey" where
  "uc_key u = \<lparr>key_sip = uc_sip u, key_sport = uc_sport u, key_dip = uc_dip u, key_dport = uc_dport u\<rparr>"

definition PutConnection :: "(ConnectionKey, nat) hashtable \<Rightarrow> ConnectionInfo \<Rightarrow> (ConnectionKey, nat) hashtable res" where
  "PutConnection ht ci =
     ensure (ci_type ci = ct_user)
       (case ci_stub ci of
          UserStub u \<Rightarrow> table_insert ht (uc_key u) (ci_fd ci)
        | _ \<Rightarrow> Inl UndefinedBehaviour)"

definition SearchConnection :: "(ConnectionKey, nat) hashtable \<Rightarrow> u32 \<Rightarrow> u16 \<Rightarrow> u32 \<Rightarrow> u16 \<Rightarrow> nat option" where
  "SearchConnection ht sip sport dip dport =
     hashtable_search ht \<lparr>key_sip = sip, key_sport = sport, key_dip = dip, key_dport = dport\<rparr>"

definition RemoveConnection :: "(ConnectionKey, nat) hashtable \<Rightarrow> u32 \<Rightarrow> u16 \<Rightarrow> u32 \<Rightarrow> u16 \<Rightarrow>
    (ConnectionKey, nat) hashtable \<times> bool" where
  "RemoveConnection ht sip sport dip dport =
     (case hashtable_remove ht \<lparr>key_sip = sip, key_sport = sport, key_dip = dip, key_dport = dport\<rparr> of
        (ht', None) \<Rightarrow> (ht', False)
      | (ht', Some v) \<Rightarrow> (ht', True))"

text \<open>The search of a handler: the connection in the reverse direction, then in the given one.\<close>

definition GetDestinationConnection :: "(ConnectionKey, nat) hashtable \<Rightarrow> u32 \<Rightarrow> u16 \<Rightarrow> u32 \<Rightarrow> u16 \<Rightarrow> nat option res" where
  "GetDestinationConnection ht sip sport dip dport =
     ensure (sip \<noteq> 0 \<and> sport \<noteq> 0 \<and> dip \<noteq> 0 \<and> dport \<noteq> 0)
       (Inr (case SearchConnection ht dip dport sip sport of
               None \<Rightarrow> SearchConnection ht sip sport dip dport
             | Some c \<Rightarrow> Some c))"

section \<open>Creating connections\<close>

definition CreateNewConnectionInfo :: "proxy \<Rightarrow> nat \<Rightarrow> connectionType \<Rightarrow> (proxy \<times> ConnectionInfo) res" where
  "CreateNewConnectionInfo px newfd type =
     (let ci = \<lparr>ci_fd = newfd, ci_connID = g_ConnectionID px, ci_type = type, ci_status = cs_active,
                ci_isAbnormal = False, ci_isWritable = True, ci_bufRead = [], ci_lenWrite = 0,
                ci_msgListWrite = [], ci_firstMsgOffset = 0, ci_stub = NoStub, ci_out = []\<rparr>
      in if newfd \<ge> MAX_NUM_CI then Inl UndefinedBehaviour
         else ensure (px_conns px newfd = None)
           (let px1 = px\<lparr>g_ConnectionID := g_ConnectionID px + 1, px_conns := (px_conns px)(newfd := Some ci)\<rparr>
            in ensure (fst (px_events px newfd) = es_none)
                 (ensure (snd (px_events px newfd) = es_none) (Inr (px1, ci)))))"

definition new_user :: "bool \<Rightarrow> RabinCtx \<Rightarrow> RabinCtx \<Rightarrow> UserConnectionInfo" where
  "new_user isForward rctx rctx4put =
     \<lparr>uc_isForward = isForward, uc_isHttpProxy = False, uc_rctx = rctx, uc_rctx4put = rctx4put,
      uc_bytesTX = 0, uc_bytesRX = 0, uc_closeBytes = 0, uc_numChunks = 0, uc_numHits = 0, uc_numMisses = 0,
      uc_hitBytes = 0, uc_missBytes = 0, uc_numMoves = 0, uc_moveBytes = 0, uc_seq_no = 0,
      uc_reassembleList = [], uc_readyList = [], uc_pendingNames = 0, uc_pendingBytes = 0,
      uc_chunkBufferList = [], uc_numChunkBuffers = 0, uc_maxWindowSize = MAX_WINDOW_SIZE,
      uc_numSent = 0, uc_lastAcked = 0, uc_lastCumulativeAck = 0, uc_sip = 0, uc_sport = 0, uc_dip = 0, uc_dport = 0,
      uc_dstPxyIdx = -1, uc_nameFlowId = -1, uc_controlMsgList = []\<rparr>"

text \<open>\<open>zero\<close> is the context after the \<open>memset\<close>.\<close>

definition CreateUserConnectionInfo :: "mrc_config \<Rightarrow> RabinCtx \<Rightarrow> proxy \<Rightarrow> ConnectionInfo \<Rightarrow> bool \<Rightarrow>
    (proxy \<times> ConnectionInfo) res" where
  "CreateUserConnectionInfo cfg zero px ci isForward =
     ensure (ci_type ci = ct_user)
       (rbind (InitRabinCtx zero (int (g_MinChunkSize cfg)) WAPROX_RABIN_WINDOW WAPROX_MRC_MIN WAPROX_MRC_MAX) (\<lambda>rctx.
        rbind (InitRabinCtx zero (int (g_MinChunkSize cfg)) WAPROX_RABIN_WINDOW WAPROX_MRC_MIN WAPROX_MRC_MAX) (\<lambda>rctx4put.
          Inr (px\<lparr>g_UserList := g_UserList px @ [ci_fd ci], g_NumUserConns := g_NumUserConns px + 1,
                  g_NumTotUserConns := g_NumTotUserConns px + 1\<rparr>,
               ci\<lparr>ci_stub := UserStub (new_user isForward rctx rctx4put)\<rparr>))))"

definition CreateControlConnectionInfo :: "proxy \<Rightarrow> ConnectionInfo \<Rightarrow> (proxy \<times> ConnectionInfo) res" where
  "CreateControlConnectionInfo px ci =
     ensure (ci_type ci = ct_control)
       (Inr (px\<lparr>g_NumPeerConns := g_NumPeerConns px + 1\<rparr>,
             ci\<lparr>ci_stub := ControlStub \<lparr>cc_peerIdx = -1, cc_flowIdx = -1\<rparr>\<rparr>))"

definition CreateChunkConnectionInfo :: "proxy \<Rightarrow> ConnectionInfo \<Rightarrow> (proxy \<times> ConnectionInfo) res" where
  "CreateChunkConnectionInfo px ci =
     ensure (ci_type ci = ct_chunk)
       (Inr (px\<lparr>g_NumPeerConns := g_NumPeerConns px + 1\<rparr>,
             ci\<lparr>ci_stub := ChunkStub \<lparr>cc_peerIdx = -1, cc_flowIdx = -1\<rparr>\<rparr>))"

definition CreateCacheConnectionInfo :: "proxy \<Rightarrow> ConnectionInfo \<Rightarrow> nat \<Rightarrow> (proxy \<times> ConnectionInfo) res" where
  "CreateCacheConnectionInfo px ci index =
     ensure (ci_type ci = ct_cache)
       (ensure (g_CacheConnections px index = Some (ci_fd ci))
         (Inr (px\<lparr>g_NumCacheConns := g_NumCacheConns px + 1\<rparr>, ci\<lparr>ci_stub := CacheStub \<lparr>ca_pCurTrans = None, ca_cacheConnIdx = index, ca_lastAccessTime = px_now px\<rparr>\<rparr>)))"

definition CreateDnsConnectionInfo :: "proxy \<Rightarrow> ConnectionInfo \<Rightarrow> (proxy \<times> ConnectionInfo) res" where
  "CreateDnsConnectionInfo px ci =
     ensure (ci_type ci = ct_dns)
       (let px1 = px\<lparr>g_NumDnsConns := g_NumDnsConns px + 1\<rparr>
        in ensure (g_NumDnsConns px1 < int MAX_DNS_CONNS) (Inr (px1, ci\<lparr>ci_stub := DnsStub\<rparr>)))"

section \<open>Sending\<close>

definition uc_id :: "UserConnectionInfo \<Rightarrow> ConnectionID" where
  "uc_id u = \<lparr>srcIP = uc_sip u, srcPort = uc_sport u, dstIP = uc_dip u, dstPort = uc_dport u\<rparr>"

definition QueueControlData :: "UserConnectionInfo \<Rightarrow> byte list \<Rightarrow> int \<Rightarrow> UserConnectionInfo res" where
  "QueueControlData u msg streamID =
     ensure (length msg > 0)
       (Inr (u\<lparr>uc_controlMsgList := uc_controlMsgList u @ [\<lparr>mi_msg = msg, mi_streamID = streamID\<rparr>]\<rparr>))"

text \<open>The user data of a connection, and an operation on it.\<close>

definition on_user :: "ConnectionInfo \<Rightarrow> (UserConnectionInfo \<Rightarrow> UserConnectionInfo res) \<Rightarrow> ConnectionInfo res" where
  "on_user ci f =
     (case ci_stub ci of
        UserStub u \<Rightarrow> rbind (f u) (\<lambda>u'. Inr (ci\<lparr>ci_stub := UserStub u'\<rparr>))
      | _ \<Rightarrow> Inl UndefinedBehaviour)"

definition SendWACloseConnection :: "ConnectionInfo \<Rightarrow> u32 \<Rightarrow> ConnectionInfo res" where
  "SendWACloseConnection ci bytesTX =
     on_user ci (\<lambda>u.
       if uc_dip u = 0 \<or> uc_dport u = 0 then Inr u
       else rbind (BuildWACloseConnection (uc_id u) bytesTX) (\<lambda>msg. QueueControlData u msg (int (ci_fd ci))))"

definition SendWANameAck :: "ConnectionInfo \<Rightarrow> u32 \<Rightarrow> ConnectionInfo res" where
  "SendWANameAck ci ack =
     ensure (ci_type ci = ct_user)
       (on_user ci (\<lambda>u.
          rbind (BuildWANameAck (uc_id u) ack) (\<lambda>msg. QueueControlData u msg (int (ci_fd ci)))))"

definition SetDead :: "proxy \<Rightarrow> ConnectionInfo \<Rightarrow> bool \<Rightarrow> (proxy \<times> ConnectionInfo) res" where
  "SetDead px ci abnormal =
     ensure (px_conns px (ci_fd ci) \<noteq> None)
       (if ci_status ci = cs_closed then Inr (px, ci)
        else let ci1 = ci\<lparr>ci_status := cs_closed, ci_isAbnormal := abnormal\<rparr>
          in rbind
            (if ci_type ci1 = ct_user \<and> ci_isAbnormal ci1
             then rbind (on_user ci1 (\<lambda>u. Inr (u\<lparr>uc_controlMsgList := []\<rparr>))) (\<lambda>ci2. SendWACloseConnection ci2 0)
             else Inr ci1)
            (\<lambda>ci3.
              let px1 = px\<lparr>g_DeadConnList := g_DeadConnList px @ [ci_fd ci], g_NumDeadConns := g_NumDeadConns px + 1\<rparr>
              in ensure (g_NumDeadConns px1 < int MAX_NUM_CI) (Inr (px1, ci3))))"

text \<open>One call of \<open>write\<close>: -1 on an error, 0 when the message is not sent completely, 1 when it is.\<close>

definition ActualWrite :: "ConnectionInfo \<Rightarrow> byte list \<Rightarrow> write_result \<Rightarrow> (ConnectionInfo \<times> int) res" where
  "ActualWrite ci bufSend r =
     (let lenSend = length bufSend in
      ensure (ci_firstMsgOffset ci < lenSend)
        (let actualLenSend = lenSend - ci_firstMsgOffset ci in
         ensure (actualLenSend > 0)
           (case r of
              Failed \<Rightarrow> Inr (ci, -1)
            | Busy \<Rightarrow> Inr (ci\<lparr>ci_isWritable := False\<rparr>, 0)
            | Written n \<Rightarrow>
                let numWrite = min n actualLenSend;
                    ci1 = ci\<lparr>ci_out := ci_out ci @ take numWrite (drop (ci_firstMsgOffset ci) bufSend)\<rparr>
                in if numWrite = 0 then Inr (ci, -1)
                   else if numWrite \<noteq> actualLenSend then
                     ensure (numWrite < lenSend)
                       (Inr (ci1\<lparr>ci_firstMsgOffset := ci_firstMsgOffset ci + numWrite\<rparr>, 0))
                   else Inr (ci1\<lparr>ci_firstMsgOffset := 0, ci_lenWrite := ci_lenWrite ci - int lenSend\<rparr>, 1))))"

definition next_write :: "proxy \<Rightarrow> proxy \<times> write_result" where
  "next_write px = (case px_writes px of [] \<Rightarrow> (px, Busy) | r # rs \<Rightarrow> (px\<lparr>px_writes := rs\<rparr>, r))"

text \<open>
  The loop of \<open>Write\<close> over the messages, with the bytes of the messages that were sent completely and
  a flag that is set when the connection died.
\<close>

function write_loop :: "proxy \<Rightarrow> ConnectionInfo \<Rightarrow> u32 \<Rightarrow> (proxy \<times> ConnectionInfo \<times> u32 \<times> bool) res" where
  "write_loop px ci bytesSent =
     (case ci_msgListWrite ci of
        [] \<Rightarrow> Inr (px, ci, bytesSent, False)
      | walk # rest \<Rightarrow>
          (let (px1, r) = next_write px in
           rbind (ActualWrite ci (mi_msg walk) r) (\<lambda>(ci1, ret).
             if ret = -1 then rbind (SetDead px1 ci1 True) (\<lambda>(px2, ci2). Inr (px2, ci2, bytesSent, True))
             else if ret = 0 then Inr (px1, ci1, bytesSent, False)
             else write_loop px1 (ci1\<lparr>ci_msgListWrite := rest\<rparr>) (bytesSent + of_nat (length (mi_msg walk))))))"
  by pat_completeness auto
termination by (relation "measure (\<lambda>(px, ci, b). length (ci_msgListWrite ci))") auto

definition PostWrite :: "proxy \<Rightarrow> ConnectionInfo \<Rightarrow> u32 \<Rightarrow> bool \<Rightarrow> (proxy \<times> ConnectionInfo) res" where
  "PostWrite px ci bytesSent eventTriggered =
     ensure (bytesSent > 0)
       (case ci_type ci of
          ct_user \<Rightarrow>
            rbind (on_user ci (\<lambda>u. Inr (u\<lparr>uc_bytesRX := uc_bytesRX u + bytesSent\<rparr>))) (\<lambda>ci1.
              case ci_stub ci1 of
                UserStub u1 \<Rightarrow>
                  rbind (SendWANameAck ci1 (uc_bytesRX u1)) (\<lambda>ci2.
                    rbind (if eventTriggered \<and> uc_closeBytes u1 \<noteq> 0 \<and> uc_bytesRX u1 = uc_closeBytes u1
                           then SetDead px ci2 False else Inr (px, ci2)) (\<lambda>(px3, ci3).
                      Inr (px3\<lparr>g_BytesUserTX := g_BytesUserTX px3 + bytesSent\<rparr>, ci3)))
              | _ \<Rightarrow> Inl UndefinedBehaviour)
        | ct_control \<Rightarrow> Inr (px\<lparr>g_BytesPeerTX := g_BytesPeerTX px + bytesSent\<rparr>, ci)
        | ct_chunk \<Rightarrow> Inr (px\<lparr>g_BytesPeerTX := g_BytesPeerTX px + bytesSent\<rparr>, ci)
        | ct_pptpd \<Rightarrow> Inr (px\<lparr>g_BytesPptpTX := g_BytesPptpTX px + bytesSent\<rparr>, ci)
        | ct_cache \<Rightarrow> Inr (px\<lparr>g_BytesCacheTX := g_BytesCacheTX px + bytesSent\<rparr>, ci)
        | ct_dns \<Rightarrow> Inr (px\<lparr>g_BytesDnsTX := g_BytesDnsTX px + bytesSent\<rparr>, ci)
        | ct_disk \<Rightarrow> Inr (px, ci))"

definition Write :: "proxy \<Rightarrow> ConnectionInfo \<Rightarrow> bool \<Rightarrow> (proxy \<times> ConnectionInfo) res" where
  "Write px ci eventTriggered =
     (if ci_type ci = ct_user \<and> ci_isAbnormal ci then ensure (ci_status ci = cs_closed) (Inr (px, ci))
      else rbind (write_loop px ci 0) (\<lambda>(px1, ci1, bytesSent, dead).
        if dead \<or> bytesSent = 0 then Inr (px1, ci1)
        else PostWrite px1 ci1 bytesSent eventTriggered))"

definition SendDataPrivate :: "proxy \<Rightarrow> ConnectionInfo \<Rightarrow> byte list \<Rightarrow> int \<Rightarrow> (proxy \<times> ConnectionInfo) res" where
  "SendDataPrivate px ci msg streamID =
     ensure (length msg > 0)
       (let ci1 = ci\<lparr>ci_msgListWrite := ci_msgListWrite ci @ [\<lparr>mi_msg = msg, mi_streamID = streamID\<rparr>]\<rparr> in
        rbind (if ci_type ci1 = ct_user then
                 case ci_stub ci1 of
                   UserStub u \<Rightarrow>
                     if ci_lenWrite ci1 + int (length msg) \<ge> uint (uc_maxWindowSize u * 2) then Inl NiceExit else Inr ci1
                 | _ \<Rightarrow> Inl UndefinedBehaviour
               else Inr ci1) (\<lambda>ci2.
          let ci3 = ci2\<lparr>ci_lenWrite := ci_lenWrite ci2 + int (length msg)\<rparr>
          in if ci_isWritable ci3 then Write px ci3 False else Inr (px, ci3)))"

definition SendData :: "proxy \<Rightarrow> ConnectionInfo \<Rightarrow> byte list \<Rightarrow> (proxy \<times> ConnectionInfo) res" where
  "SendData px ci msg = SendDataPrivate px ci msg (-1)"

section \<open>Closing connections\<close>

definition DestroyControlConnectionInfo :: "proxy \<Rightarrow> ConnectionInfo \<Rightarrow> proxy res" where
  "DestroyControlConnectionInfo px ci =
     ensure (ci_type ci = ct_control)
       (case ci_stub ci of
          ControlStub nci \<Rightarrow>
            rbind (if cc_peerIdx nci \<noteq> -1 \<and> cc_flowIdx nci \<noteq> -1 then
                     if 0 \<le> cc_peerIdx nci \<and> 0 \<le> cc_flowIdx nci \<and> nat (cc_peerIdx nci) < length (g_PeerInfo (px_peers px)) \<and>
                        nat (cc_flowIdx nci) < length (pi_nameCI (g_PeerInfo (px_peers px) ! nat (cc_peerIdx nci)))
                     then Inr (px\<lparr>px_peers := update_peer (nat (cc_peerIdx nci))
                            (\<lambda>pi. pi\<lparr>pi_nameCI := (pi_nameCI pi)[nat (cc_flowIdx nci) := None]\<rparr>) (px_peers px)\<rparr>)
                     else Inl UndefinedBehaviour
                   else Inr px) (\<lambda>px1.
              let px2 = px1\<lparr>g_NumPeerConns := g_NumPeerConns px1 - 1\<rparr>
              in ensure (g_NumPeerConns px2 \<ge> 0) (Inr px2))
        | _ \<Rightarrow> Inl UndefinedBehaviour)"

definition DestroyChunkConnectionInfo :: "proxy \<Rightarrow> ConnectionInfo \<Rightarrow> proxy res" where
  "DestroyChunkConnectionInfo px ci =
     ensure (ci_type ci = ct_chunk)
       (case ci_stub ci of
          ChunkStub cci \<Rightarrow>
            rbind (if cc_peerIdx cci \<noteq> -1 \<and> cc_flowIdx cci \<noteq> -1 then
                     if 0 \<le> cc_peerIdx cci \<and> 0 \<le> cc_flowIdx cci \<and> nat (cc_peerIdx cci) < length (g_PeerInfo (px_peers px)) \<and>
                        nat (cc_flowIdx cci) < length (pi_chunkCI (g_PeerInfo (px_peers px) ! nat (cc_peerIdx cci)))
                     then Inr (px\<lparr>px_peers := update_peer (nat (cc_peerIdx cci))
                            (\<lambda>pi. pi\<lparr>pi_chunkCI := (pi_chunkCI pi)[nat (cc_flowIdx cci) := None]\<rparr>) (px_peers px)\<rparr>)
                     else Inl UndefinedBehaviour
                   else Inr px) (\<lambda>px1.
              let px2 = px1\<lparr>g_NumPeerConns := g_NumPeerConns px1 - 1\<rparr>
              in ensure (g_NumPeerConns px2 \<ge> 0) (Inr px2))
        | _ \<Rightarrow> Inl UndefinedBehaviour)"

section \<open>The tables as keyed tables\<close>

lemma conn_key_eq: "conn_keys_equal_fn k1 k2 \<longleftrightarrow> k1 = k2"
  by (cases k1; cases k2) (simp add: conn_keys_equal_fn_def)

lemma conn_key_fns: "key_fns conn_hash_from_key_fn conn_keys_equal_fn"
  by (auto simp: key_fns_def conn_key_eq intro!: equivpI reflpI sympI transpI)

interpretation connections: keyed_table "ht_good conn_hash_from_key_fn conn_keys_equal_fn"
  hashtable_search ht_put hashtable_remove hashtable_count conn_keys_equal_fn
  by (rule keyed_table_hashtable[OF conn_key_fns])

abbreviation conns_good :: "(ConnectionKey, nat) hashtable \<Rightarrow> bool" where
  "conns_good \<equiv> ht_good conn_hash_from_key_fn conn_keys_equal_fn"

lemma CreateConnectionTables_ok:
  "\<exists>pm cm. CreateConnectionTables None = Inr (pm, cm) \<and> conns_good pm \<and> conns_good cm \<and>
     (\<forall>k. hashtable_search pm k = None) \<and> (\<forall>k. hashtable_search cm k = None)"
proof -
  obtain t :: "(ConnectionKey, nat) hashtable" where
    t: "create_hashtable True True CONNECTIONMAP_SIZE conn_hash_from_key_fn conn_keys_equal_fn = Some t"
    using create_hashtable_total[of CONNECTIONMAP_SIZE] by (auto simp: CONNECTIONMAP_SIZE_def)
  with create_hashtable_good[OF t] show ?thesis by (auto simp: CreateConnectionTables_def)
qed

lemma connection_laws:
  assumes "conns_good ht"
  shows "hashtable_search ht k = None \<Longrightarrow> conns_good (ht_put ht k v)"
    "hashtable_search ht k = None \<Longrightarrow> hashtable_search (ht_put ht k v) k' = (if k' = k then Some v else hashtable_search ht k')"
    "conns_good (fst (hashtable_remove ht k))" "snd (hashtable_remove ht k) = hashtable_search ht k"
    "hashtable_search (fst (hashtable_remove ht k)) k' = (if k' = k then None else hashtable_search ht k')"
  using connections.table_laws[OF assms] by (simp_all add: conn_key_eq)

section \<open>The data written to a connection\<close>

text \<open>
  The stream of a connection is what the system has accepted followed by what waits to be written;
  the counters of a connection describe the list of messages that wait.
\<close>

definition waiting :: "ConnectionInfo \<Rightarrow> byte list" where
  "waiting ci = concat (map mi_msg (ci_msgListWrite ci))"

definition stream :: "ConnectionInfo \<Rightarrow> byte list" where
  "stream ci = ci_out ci @ drop (ci_firstMsgOffset ci) (waiting ci)"

definition queue_ok :: "ConnectionInfo \<Rightarrow> bool" where
  "queue_ok ci \<longleftrightarrow> ci_lenWrite ci = int (length (waiting ci)) \<and> (\<forall>m \<in> set (ci_msgListWrite ci). mi_msg m \<noteq> []) \<and>
     ci_firstMsgOffset ci \<le> length (ci_out ci) \<and>
     (case ci_msgListWrite ci of [] \<Rightarrow> ci_firstMsgOffset ci = 0 | m # ms \<Rightarrow> ci_firstMsgOffset ci < length (mi_msg m))"

text \<open>The bytes of the messages that were written completely.\<close>

definition completed :: "ConnectionInfo \<Rightarrow> nat" where
  "completed ci = length (ci_out ci) - ci_firstMsgOffset ci"

text \<open>The parts of a connection that writing leaves alone.\<close>

definition same_conn :: "ConnectionInfo \<Rightarrow> ConnectionInfo \<Rightarrow> bool" where
  "same_conn ci ci' \<longleftrightarrow> ci_fd ci' = ci_fd ci \<and> ci_type ci' = ci_type ci \<and> ci_bufRead ci' = ci_bufRead ci \<and>
     ci_connID ci' = ci_connID ci"

lemma same_conn_refl [simp]: "same_conn ci ci"
  by (simp add: same_conn_def)

lemma queue_same:
  assumes "ci_msgListWrite ci' = ci_msgListWrite ci" "ci_lenWrite ci' = ci_lenWrite ci"
    "ci_firstMsgOffset ci' = ci_firstMsgOffset ci" "ci_out ci' = ci_out ci"
  shows "queue_ok ci' = queue_ok ci" "stream ci' = stream ci" "completed ci' = completed ci" "waiting ci' = waiting ci"
  by (simp_all only: queue_ok_def stream_def completed_def waiting_def assms)

lemma ActualWrite_ok:
  assumes "queue_ok ci" "ci_msgListWrite ci = m # ms"
  shows "\<exists>ci1 ret. ActualWrite ci (mi_msg m) r = Inr (ci1, ret) \<and> ret \<in> {-1, 0, 1} \<and> same_conn ci ci1 \<and>
    ci_stub ci1 = ci_stub ci \<and> ci_status ci1 = ci_status ci \<and> ci_isAbnormal ci1 = ci_isAbnormal ci \<and>
    (ret = -1 \<longrightarrow> ci1 = ci) \<and>
    (ret = 0 \<longrightarrow> stream ci1 = stream ci \<and> queue_ok ci1 \<and> completed ci1 = completed ci) \<and>
    (ret = 1 \<longrightarrow> stream (ci1\<lparr>ci_msgListWrite := ms\<rparr>) = stream ci \<and> queue_ok (ci1\<lparr>ci_msgListWrite := ms\<rparr>) \<and>
       completed (ci1\<lparr>ci_msgListWrite := ms\<rparr>) = completed ci + length (mi_msg m))"
proof -
  let ?msg = "mi_msg m" and ?k = "ci_firstMsgOffset ci"
  have q: "ci_lenWrite ci = int (length ?msg) + int (length (concat (map mi_msg ms)))" "\<forall>x \<in> set ms. mi_msg x \<noteq> []"
    "?k < length ?msg" "?k \<le> length (ci_out ci)"
    using assms by (auto simp: queue_ok_def waiting_def)
  show ?thesis
  proof (cases r)
    case (Written n)
    show ?thesis
    proof (cases "min n (length ?msg - ?k) = length ?msg - ?k")
      case True
      then show ?thesis using Written q assms
        by (auto simp: ActualWrite_def Let_def stream_def waiting_def queue_ok_def completed_def same_conn_def split: list.splits)
    next
      case False
      then have n: "n < length ?msg - ?k" "n < length ?msg" by auto
      let ?ci = "ci\<lparr>ci_out := ci_out ci @ take n (drop ?k ?msg), ci_firstMsgOffset := ?k + n\<rparr>"
      have w: "ActualWrite ci ?msg r = (if n = 0 then Inr (ci, -1) else Inr (?ci, 0))"
        using Written n q(3) by (auto simp: ActualWrite_def Let_def)
      have "take n (drop ?k ?msg) @ drop (?k + n) ?msg @ rest = drop ?k ?msg @ rest" for rest
        by (metis add.commute append_take_drop_id drop_drop append_assoc)
      then have "stream ?ci = stream ci"
        using assms(2) n q(3) by (simp add: stream_def waiting_def)
      moreover have "queue_ok ?ci" using assms n q(3) by (auto simp: queue_ok_def waiting_def)
      moreover have "completed ?ci = completed ci" using n q(3,4) by (simp add: completed_def)
      ultimately show ?thesis using w by (simp add: same_conn_def)
    qed
  qed (use q assms in \<open>auto simp: ActualWrite_def Let_def stream_def waiting_def queue_ok_def completed_def same_conn_def\<close>)
qed


section \<open>Writing to a user connection\<close>

text \<open>A connection of a user with both ends known, and room for it in the list of dead connections.\<close>

definition user_conn :: "proxy \<Rightarrow> ConnectionInfo \<Rightarrow> UserConnectionInfo \<Rightarrow> bool" where
  "user_conn px ci u \<longleftrightarrow> ci_type ci = ct_user \<and> ci_stub ci = UserStub u \<and> px_conns px (ci_fd ci) \<noteq> None \<and>
     uc_sip u \<noteq> 0 \<and> uc_sport u \<noteq> 0 \<and> uc_dip u \<noteq> 0 \<and> uc_dport u \<noteq> 0 \<and>
     (ci_status ci \<noteq> cs_closed \<longrightarrow> g_NumDeadConns px + 1 < int MAX_NUM_CI)"

text \<open>What writing to a connection changes of the proxy and of the user data.\<close>

definition io_only :: "proxy \<Rightarrow> proxy \<Rightarrow> bool" where
  "io_only px px' \<longleftrightarrow> px' = px\<lparr>px_writes := px_writes px', g_DeadConnList := g_DeadConnList px',
     g_NumDeadConns := g_NumDeadConns px', g_BytesUserTX := g_BytesUserTX px'\<rparr>"

definition rx_only :: "UserConnectionInfo \<Rightarrow> UserConnectionInfo \<Rightarrow> bool" where
  "rx_only u u' \<longleftrightarrow> u' = u\<lparr>uc_bytesRX := uc_bytesRX u', uc_controlMsgList := uc_controlMsgList u'\<rparr>"

lemma io_only_ex: "io_only px px' \<longleftrightarrow>
    (\<exists>w d n b. px' = px\<lparr>px_writes := w, g_DeadConnList := d, g_NumDeadConns := n, g_BytesUserTX := b\<rparr>)"
  unfolding io_only_def by (rule iffI, blast) auto

lemma io_only_trans: "io_only px1 px2 \<Longrightarrow> io_only px2 px3 \<Longrightarrow> io_only px1 px3"
  unfolding io_only_ex[of px1] io_only_ex[of px2] by (elim exE) (simp, blast)

lemma io_only_facts:
  assumes "io_only px px'"
  shows "px_conns px' = px_conns px" "px_cache px' = px_cache px" "px_peers px' = px_peers px" "g_ConnMap px' = g_ConnMap px"
    "g_NumBlocked px' = g_NumBlocked px" "g_UserList px' = g_UserList px" "g_NumUserConns px' = g_NumUserConns px"
  using assms unfolding io_only_ex by auto

lemma io_only_refl [simp]: "io_only px px"
  by (simp add: io_only_def)

lemma rx_only_refl [simp]: "rx_only u u"
  by (simp add: rx_only_def)

lemma rx_only_simps:
  "rx_only u (u\<lparr>uc_bytesRX := b, uc_controlMsgList := l\<rparr>)" "rx_only u (u\<lparr>uc_controlMsgList := l\<rparr>)"
  "rx_only u (u\<lparr>uc_bytesRX := b\<rparr>)"
  by (simp_all add: rx_only_def)

lemma build_messages:
  assumes "uc_sip u \<noteq> 0" "uc_sport u \<noteq> 0" "uc_dip u \<noteq> 0" "uc_dport u \<noteq> 0"
  shows "\<exists>msg. BuildWACloseConnection (uc_id u) n = Inr msg \<and> msg \<noteq> []"
    "\<exists>msg. BuildWANameAck (uc_id u) n = Inr msg \<and> msg \<noteq> []"
  using assms by (simp_all add: BuildWACloseConnection_def BuildWANameAck_def control_message_def FillControlHeader_def uc_id_def)

lemma SetDead_ok:
  assumes "user_conn px ci u" "ci_status ci \<noteq> cs_closed"
  shows "\<exists>l. SetDead px ci abnormal = Inr (px\<lparr>g_DeadConnList := g_DeadConnList px @ [ci_fd ci], g_NumDeadConns := g_NumDeadConns px + 1\<rparr>,
    ci\<lparr>ci_status := cs_closed, ci_isAbnormal := abnormal, ci_stub := UserStub (u\<lparr>uc_controlMsgList := l\<rparr>)\<rparr>)"
proof -
  have u: "ci_type ci = ct_user" "ci_stub ci = UserStub u" "px_conns px (ci_fd ci) \<noteq> None" "uc_sip u \<noteq> 0" "uc_sport u \<noteq> 0"
    "uc_dip u \<noteq> 0" "uc_dport u \<noteq> 0" "g_NumDeadConns px + 1 < int MAX_NUM_CI"
    using assms by (simp_all add: user_conn_def)
  obtain msg where msg: "BuildWACloseConnection (uc_id u) 0 = Inr msg" "msg \<noteq> []" using build_messages(1)[OF u(4-7)] by blast
  have id: "uc_id (u\<lparr>uc_controlMsgList := []\<rparr>) = uc_id u" by (simp add: uc_id_def)
  have same: "ci\<lparr>ci_status := cs_closed, ci_isAbnormal := abnormal, ci_stub := UserStub (u\<lparr>uc_controlMsgList := uc_controlMsgList u\<rparr>)\<rparr>
      = ci\<lparr>ci_status := cs_closed, ci_isAbnormal := abnormal\<rparr>"
    using u(2) by (intro ConnectionInfo.equality) simp_all
  show ?thesis
  proof (cases abnormal)
    case True
    then show ?thesis using u assms(2) msg id
      by (intro exI[of _ "[\<lparr>mi_msg = msg, mi_streamID = int (ci_fd ci)\<rparr>]"])
        (simp add: SetDead_def Let_def on_user_def SendWACloseConnection_def QueueControlData_def)
  next
    case False
    show ?thesis
      by (rule exI[of _ "uc_controlMsgList u"], subst same) (use False u assms(2) in \<open>simp add: SetDead_def Let_def\<close>)
  qed
qed

text \<open>The loop that writes the messages, and what follows it.\<close>

lemma next_write_io:
  obtains w r where "next_write px = (px\<lparr>px_writes := w\<rparr>, r)"
proof (cases "px_writes px")
  case Nil
  then show ?thesis using that[of "px_writes px" Busy] by (simp add: next_write_def)
next
  case (Cons r rs)
  then show ?thesis using that[of rs r] by (simp add: next_write_def)
qed

declare write_loop.simps [simp del]

lemma write_loop_ok:
  assumes "queue_ok ci" "user_conn px ci u"
  shows "\<exists>px' ci' n u' dead. write_loop px ci b = Inr (px', ci', b + of_nat n, dead) \<and> same_conn ci ci' \<and>
    stream ci' = stream ci \<and> queue_ok ci' \<and> completed ci' = completed ci + n \<and> ci_stub ci' = UserStub u' \<and> rx_only u u' \<and>
    io_only px px' \<and> (if dead then ci_status ci' = cs_closed
      else ci_status ci' = ci_status ci \<and> ci_isAbnormal ci' = ci_isAbnormal ci \<and> u' = u \<and>
        g_DeadConnList px' = g_DeadConnList px \<and> g_NumDeadConns px' = g_NumDeadConns px \<and> g_BytesUserTX px' = g_BytesUserTX px)"
  using assms
proof (induction px ci b rule: write_loop.induct)
  case (1 px ci b)
  show ?case
  proof (cases "ci_msgListWrite ci")
    case Nil
    then have w: "write_loop px ci b = Inr (px, ci, b + of_nat 0, False)" by (subst write_loop.simps) simp
    show ?thesis using w 1(2,3) by (intro exI[of _ px] exI[of _ ci] exI[of _ 0] exI[of _ u] exI[of _ False]) (simp add: user_conn_def)
  next
    case (Cons m ms)
    obtain w r where nw: "next_write px = (px\<lparr>px_writes := w\<rparr>, r)" by (rule next_write_io)
    let ?px = "px\<lparr>px_writes := w\<rparr>"
    from ActualWrite_ok[OF 1(2) Cons, of r] obtain ci1 ret where
      a: "ActualWrite ci (mi_msg m) r = Inr (ci1, ret)" "ret \<in> {-1, 0, 1}" "same_conn ci ci1" "ci_stub ci1 = ci_stub ci"
        "ci_status ci1 = ci_status ci" "ci_isAbnormal ci1 = ci_isAbnormal ci" "ret = -1 \<longrightarrow> ci1 = ci"
        "ret = 0 \<longrightarrow> stream ci1 = stream ci \<and> queue_ok ci1 \<and> completed ci1 = completed ci"
        "ret = 1 \<longrightarrow> stream (ci1\<lparr>ci_msgListWrite := ms\<rparr>) = stream ci \<and> queue_ok (ci1\<lparr>ci_msgListWrite := ms\<rparr>) \<and>
           completed (ci1\<lparr>ci_msgListWrite := ms\<rparr>) = completed ci + length (mi_msg m)" by blast
    have io: "io_only px ?px" by (simp add: io_only_def)
    have u: "user_conn ?px ci1 u" using 1(3) a(3-5) by (simp add: user_conn_def same_conn_def)
    have stub: "ci_stub ci1 = UserStub u" using u by (simp add: user_conn_def)
    from a(2) consider "ret = -1" | "ret = 0" | "ret = 1" by blast
    then show ?thesis
    proof cases
      case 1
      then have ci1: "ci1 = ci" using a(7) by simp
      have loop: "write_loop px ci b = rbind (SetDead ?px ci True) (\<lambda>(px2, ci2). Inr (px2, ci2, b + of_nat 0, True))"
        using Cons nw a(1) 1 ci1 by (subst write_loop.simps) simp
      show ?thesis
      proof (cases "ci_status ci = cs_closed")
        case True
        then have "SetDead ?px ci True = Inr (?px, ci)" using u ci1 by (simp add: SetDead_def user_conn_def)
        with True loop io stub ci1 \<open>queue_ok ci\<close> show ?thesis
          by (intro exI[of _ ?px] exI[of _ ci] exI[of _ 0] exI[of _ u] exI[of _ True]) simp
      next
        case False
        from SetDead_ok[OF u, of True] False ci1 obtain l where
          d: "SetDead ?px ci True = Inr (?px\<lparr>g_DeadConnList := g_DeadConnList ?px @ [ci_fd ci], g_NumDeadConns := g_NumDeadConns ?px + 1\<rparr>,
            ci\<lparr>ci_status := cs_closed, ci_isAbnormal := True, ci_stub := UserStub (u\<lparr>uc_controlMsgList := l\<rparr>)\<rparr>)"
          (is "_ = Inr (?px2, ?ci2)") by auto
        have "same_conn ci ?ci2" "io_only px ?px2" by (simp_all add: same_conn_def io_only_def)
        moreover note queue_same[of ?ci2 ci]
        ultimately show ?thesis using loop d \<open>queue_ok ci\<close>
          by (intro exI[of _ ?px2] exI[of _ ?ci2] exI[of _ 0] exI[of _ "u\<lparr>uc_controlMsgList := l\<rparr>"] exI[of _ True])
            (simp add: rx_only_simps)
      qed
    next
      case 2
      then have "write_loop px ci b = Inr (?px, ci1, b + of_nat 0, False)"
        using Cons nw a(1) by (subst write_loop.simps) simp
      with 2 a(3,5,6,8) io stub show ?thesis
        by (intro exI[of _ ?px] exI[of _ ci1] exI[of _ 0] exI[of _ u] exI[of _ False]) simp
    next
      case 3
      let ?ci = "ci1\<lparr>ci_msgListWrite := ms\<rparr>"
      have loop: "write_loop px ci b = write_loop ?px ?ci (b + of_nat (length (mi_msg m)))"
        using Cons nw a(1) 3 by (subst write_loop.simps) simp
      have u2: "user_conn ?px ?ci u" using u by (simp add: user_conn_def)
      have sc: "same_conn ci x" if "same_conn ?ci x" for x using that a(3) by (simp add: same_conn_def)
      from "1.IH"[OF Cons nw[symmetric] refl a(1) refl _ _ _ u2] 3 a(9) obtain px' ci' n u' dead where
        r: "write_loop ?px ?ci (b + of_nat (length (mi_msg m))) = Inr (px', ci', b + of_nat (length (mi_msg m)) + of_nat n, dead)"
          "same_conn ?ci ci'" "stream ci' = stream ?ci" "queue_ok ci'" "completed ci' = completed ?ci + n"
          "ci_stub ci' = UserStub u'" "rx_only u u'" "io_only ?px px'" "if dead then ci_status ci' = cs_closed
            else ci_status ci' = ci_status ?ci \<and> ci_isAbnormal ci' = ci_isAbnormal ?ci \<and> u' = u \<and>
              g_DeadConnList px' = g_DeadConnList ?px \<and> g_NumDeadConns px' = g_NumDeadConns ?px \<and> g_BytesUserTX px' = g_BytesUserTX ?px"
        by (auto split: if_splits)
      have "io_only px px'" using r(8) by (simp add: io_only_def)
      with loop r sc[OF r(2)] 3 a(5,6,9) show ?thesis
        by (intro exI[of _ px'] exI[of _ ci'] exI[of _ "length (mi_msg m) + n"] exI[of _ u'] exI[of _ dead]) (simp add: add.assoc)
    qed
  qed
qed


text \<open>
  The state of a user connection between two calls: the queue of messages is consistent, and the count
  of received bytes is that of the messages written completely.
\<close>

definition user_ok :: "proxy \<Rightarrow> ConnectionInfo \<Rightarrow> UserConnectionInfo \<Rightarrow> bool" where
  "user_ok px ci u \<longleftrightarrow> user_conn px ci u \<and> queue_ok ci \<and> (ci_isAbnormal ci \<longrightarrow> ci_status ci = cs_closed) \<and>
     (ci_status ci \<noteq> cs_closed \<longrightarrow> uc_bytesRX u = of_nat (completed ci))"

text \<open>What a write leaves: the stream is as before, and an acknowledgement is queued for new bytes.\<close>

definition acked_write :: "proxy \<Rightarrow> ConnectionInfo \<Rightarrow> UserConnectionInfo \<Rightarrow> proxy \<Rightarrow> ConnectionInfo \<Rightarrow> UserConnectionInfo \<Rightarrow> bool" where
  "acked_write px ci u px' ci' u' \<longleftrightarrow> same_conn ci ci' \<and> ci_stub ci' = UserStub u' \<and> rx_only u u' \<and> io_only px px' \<and> queue_ok ci' \<and>
     completed ci \<le> completed ci' \<and> (ci_isAbnormal ci' \<longrightarrow> ci_status ci' = cs_closed) \<and>
     (ci_status ci' \<noteq> cs_closed \<longrightarrow> ci_status ci' = ci_status ci \<and> uc_bytesRX u' = of_nat (completed ci') \<and>
        g_DeadConnList px' = g_DeadConnList px \<and> g_NumDeadConns px' = g_NumDeadConns px \<and>
        (if uc_bytesRX u' = uc_bytesRX u then uc_controlMsgList u' = uc_controlMsgList u
         else \<exists>msg. BuildWANameAck (uc_id u) (uc_bytesRX u') = Inr msg \<and>
           uc_controlMsgList u' = uc_controlMsgList u @ [\<lparr>mi_msg = msg, mi_streamID = int (ci_fd ci)\<rparr>]))"

lemma PostWrite_ok:
  assumes "user_conn px ci u" "queue_ok ci" "ci_isAbnormal ci \<longrightarrow> ci_status ci = cs_closed" "n \<noteq> 0"
    and "ci_status ci \<noteq> cs_closed \<longrightarrow> uc_bytesRX u + n = of_nat (completed ci)"
  shows "\<exists>px' ci' u'. PostWrite px ci n ev = Inr (px', ci') \<and> stream ci' = stream ci \<and> acked_write px ci u px' ci' u'"
proof -
  let ?u1 = "u\<lparr>uc_bytesRX := uc_bytesRX u + n\<rparr>"
  have u: "ci_type ci = ct_user" "ci_stub ci = UserStub u" "uc_sip u \<noteq> 0" "uc_sport u \<noteq> 0" "uc_dip u \<noteq> 0" "uc_dport u \<noteq> 0"
    using assms(1) by (simp_all add: user_conn_def)
  have id: "uc_id ?u1 = uc_id u" by (simp add: uc_id_def)
  from build_messages(2)[OF u(3-6)] obtain msg where msg: "BuildWANameAck (uc_id u) (uc_bytesRX u + n) = Inr msg" "msg \<noteq> []" by blast
  let ?u2 = "?u1\<lparr>uc_controlMsgList := uc_controlMsgList u @ [\<lparr>mi_msg = msg, mi_streamID = int (ci_fd ci)\<rparr>]\<rparr>"
  let ?ci2 = "ci\<lparr>ci_stub := UserStub ?u2\<rparr>"
  have ack: "SendWANameAck (ci\<lparr>ci_stub := UserStub ?u1\<rparr>) (uc_bytesRX u + n) = Inr ?ci2"
    using u msg id by (simp add: SendWANameAck_def on_user_def QueueControlData_def)
  note q = queue_same[of ?ci2 ci]
  have n: "0 < n" using assms(4) by (simp add: word_gt_0)
  have uc2: "user_conn px ?ci2 ?u2" using assms(1) by (simp add: user_conn_def)
  have plain: "acked_write px ci u (px\<lparr>g_BytesUserTX := g_BytesUserTX px + n\<rparr>) ?ci2 ?u2"
    using assms(2-5) q msg(1) by (auto simp: acked_write_def same_conn_def rx_only_def io_only_def)
  show ?thesis
  proof (cases "ev \<and> uc_closeBytes u \<noteq> 0 \<and> uc_bytesRX u + n = uc_closeBytes u \<and> ci_status ci \<noteq> cs_closed")
    case True
    from SetDead_ok[OF uc2, of False] True obtain l where
      d: "SetDead px ?ci2 False = Inr (px\<lparr>g_DeadConnList := g_DeadConnList px @ [ci_fd ci], g_NumDeadConns := g_NumDeadConns px + 1\<rparr>,
        ?ci2\<lparr>ci_status := cs_closed, ci_isAbnormal := False, ci_stub := UserStub (?u2\<lparr>uc_controlMsgList := l\<rparr>)\<rparr>)"
      (is "_ = Inr (?px3, ?ci3)") by auto
    let ?px4 = "?px3\<lparr>g_BytesUserTX := g_BytesUserTX px + n\<rparr>"
    have "PostWrite px ci n ev = Inr (?px4, ?ci3)"
      using u n ack d True by (simp add: PostWrite_def on_user_def)
    moreover have "acked_write px ci u ?px4 ?ci3 (?u2\<lparr>uc_controlMsgList := l\<rparr>)"
      using assms(2) queue_same[of ?ci3 ci] by (simp add: acked_write_def same_conn_def rx_only_def io_only_def)
    moreover have "stream ?ci3 = stream ci" by (rule queue_same(2)) simp_all
    ultimately show ?thesis by blast
  next
    case False
    have "SetDead px ?ci2 False = Inr (px, ?ci2)" if "ci_status ci = cs_closed"
      using that uc2 by (simp add: SetDead_def user_conn_def)
    then have "PostWrite px ci n ev = Inr (px\<lparr>g_BytesUserTX := g_BytesUserTX px + n\<rparr>, ?ci2)"
      using u n ack False by (auto simp: PostWrite_def on_user_def)
    with plain q show ?thesis by auto
  qed
qed


lemma acked_write_after:
  assumes "io_only px px1" "same_conn ci ci1" "ci_status ci1 = ci_status ci"
    and "g_DeadConnList px1 = g_DeadConnList px" "g_NumDeadConns px1 = g_NumDeadConns px"
    and "completed ci \<le> completed ci1" "acked_write px1 ci1 u px' ci' u'"
  shows "acked_write px ci u px' ci' u'"
proof -
  have "io_only px px'" using io_only_trans[OF assms(1)] assms(7) by (simp add: acked_write_def)
  moreover have "same_conn ci ci'" using assms(2,7) by (simp add: acked_write_def same_conn_def)
  moreover have "ci_fd ci1 = ci_fd ci" using assms(2) by (simp add: same_conn_def)
  moreover have "completed ci \<le> completed ci'" using assms(6,7) by (simp add: acked_write_def)
  ultimately show ?thesis using assms(3-5,7) unfolding acked_write_def by metis
qed

lemma Write_ok:
  assumes "user_ok px ci u"
  shows "\<exists>px' ci' u'. Write px ci ev = Inr (px', ci') \<and> stream ci' = stream ci \<and> acked_write px ci u px' ci' u'"
proof (cases "ci_isAbnormal ci")
  case True
  then have "Write px ci ev = Inr (px, ci)" using assms by (simp add: Write_def user_ok_def user_conn_def)
  with assms True show ?thesis
    by (intro exI[of _ px] exI[of _ ci] exI[of _ u]) (simp add: acked_write_def user_ok_def user_conn_def)
next
  case False
  have a: "user_conn px ci u" "queue_ok ci" "ci_status ci \<noteq> cs_closed \<longrightarrow> uc_bytesRX u = of_nat (completed ci)"
    using assms by (simp_all add: user_ok_def)
  from write_loop_ok[OF a(2,1), of 0] obtain px1 ci1 n u1 dead where
    w: "write_loop px ci 0 = Inr (px1, ci1, 0 + of_nat n, dead)" "same_conn ci ci1" "stream ci1 = stream ci" "queue_ok ci1"
      "completed ci1 = completed ci + n" "ci_stub ci1 = UserStub u1" "rx_only u u1" "io_only px px1"
      "if dead then ci_status ci1 = cs_closed
       else ci_status ci1 = ci_status ci \<and> ci_isAbnormal ci1 = ci_isAbnormal ci \<and> u1 = u \<and>
         g_DeadConnList px1 = g_DeadConnList px \<and> g_NumDeadConns px1 = g_NumDeadConns px \<and> g_BytesUserTX px1 = g_BytesUserTX px"
    by blast
  have W: "Write px ci ev = (if dead \<or> of_nat n = (0 :: u32) then Inr (px1, ci1) else PostWrite px1 ci1 (of_nat n) ev)"
    using False w(1) by (simp add: Write_def)
  show ?thesis
  proof (cases "dead \<or> of_nat n = (0 :: u32)")
    case True
    then have "acked_write px ci u px1 ci1 u1"
      using w(2,4-9) a(3) False by (auto simp: acked_write_def split: if_splits)
    with True W w(3) show ?thesis by auto
  next
    case ndead: False
    with w(9) have s: "ci_status ci1 = ci_status ci" "\<not> ci_isAbnormal ci1" "u1 = u" "g_DeadConnList px1 = g_DeadConnList px"
      "g_NumDeadConns px1 = g_NumDeadConns px" using False by (auto split: if_splits)
    have u1: "user_conn px1 ci1 u" using a(1) w(2,6) s(1,3,5) io_only_facts(1)[OF w(8)] by (simp add: user_conn_def same_conn_def)
    have rx: "ci_status ci1 \<noteq> cs_closed \<longrightarrow> uc_bytesRX u + of_nat n = of_nat (completed ci1)"
      using a(3) w(5) s(1) by simp
    from PostWrite_ok[OF u1 w(4) _ _ rx, of ev] ndead s(2) obtain px' ci' u' where
      p: "PostWrite px1 ci1 (of_nat n) ev = Inr (px', ci')" "stream ci' = stream ci1" "acked_write px1 ci1 u px' ci' u'" by auto
    with W ndead w(3) acked_write_after[OF w(8,2) s(1,4,5) _ p(3)] w(5) show ?thesis by auto
  qed
qed

lemma SendData_ok:
  assumes "user_ok px ci u" "msg \<noteq> []" "ci_lenWrite ci + int (length msg) < uint (uc_maxWindowSize u * 2)"
  shows "\<exists>px' ci' u'. SendData px ci msg = Inr (px', ci') \<and> stream ci' = stream ci @ msg \<and> acked_write px ci u px' ci' u'"
proof -
  let ?ci = "ci\<lparr>ci_msgListWrite := ci_msgListWrite ci @ [\<lparr>mi_msg = msg, mi_streamID = -1\<rparr>], ci_lenWrite := ci_lenWrite ci + int (length msg)\<rparr>"
  have a: "user_conn px ci u" "queue_ok ci" using assms(1) by (simp_all add: user_ok_def)
  have w: "waiting ?ci = waiting ci @ msg" by (simp add: waiting_def)
  have first: "ci_firstMsgOffset ci \<le> length (waiting ci)" using a(2) by (auto simp: queue_ok_def waiting_def split: list.splits)
  have s: "stream ?ci = stream ci @ msg" using first by (simp add: stream_def w)
  have q: "queue_ok ?ci" using a(2) assms(2) w by (auto simp: queue_ok_def split: list.splits)
  have ok: "user_ok px ?ci u" using assms(1) q by (simp add: user_ok_def user_conn_def completed_def)
  have S: "SendData px ci msg = (if ci_isWritable ci then Write px ?ci False else Inr (px, ?ci))"
    using a(1) assms(2,3) by (simp add: SendData_def SendDataPrivate_def Let_def user_conn_def)
  show ?thesis
  proof (cases "ci_isWritable ci")
    case True
    from Write_ok[OF ok, of False] obtain px' ci' u' where
      "Write px ?ci False = Inr (px', ci')" "stream ci' = stream ?ci" "acked_write px ?ci u px' ci' u'" by blast
    moreover have "acked_write px ci u px' ci' u'"
      by (rule acked_write_after[OF _ _ _ _ _ _ calculation(3)]) (simp_all add: same_conn_def completed_def)
    ultimately show ?thesis using S s True by auto
  next
    case False
    have "acked_write px ci u px ?ci u"
      using ok q by (simp add: acked_write_def user_ok_def user_conn_def same_conn_def completed_def)
    with S s False show ?thesis by auto
  qed
qed

lemma rx_only_facts:
  assumes "rx_only u u'"
  shows "uc_sip u' = uc_sip u" "uc_sport u' = uc_sport u" "uc_dip u' = uc_dip u" "uc_dport u' = uc_dport u"
    "uc_maxWindowSize u' = uc_maxWindowSize u" "uc_reassembleList u' = uc_reassembleList u" "uc_closeBytes u' = uc_closeBytes u"
    "uc_isForward u' = uc_isForward u" "uc_pendingNames u' = uc_pendingNames u" "uc_pendingBytes u' = uc_pendingBytes u"
    "uc_chunkBufferList u' = uc_chunkBufferList u" "uc_numSent u' = uc_numSent u" "uc_dstPxyIdx u' = uc_dstPxyIdx u"
  by (subst assms[unfolded rx_only_def], simp)+

text \<open>A write keeps a connection usable, and what waits does not grow.\<close>

lemma acked_user_ok:
  assumes "user_ok px ci u" "acked_write px ci u px' ci' u'"
  shows "user_ok px' ci' u'"
  using assms rx_only_facts(1-4)[of u u'] io_only_facts(1)[of px px']
  by (auto simp: user_ok_def user_conn_def acked_write_def same_conn_def)

lemma lenWrite_stream: "queue_ok ci \<Longrightarrow> ci_lenWrite ci + int (completed ci) = int (length (stream ci))"
  by (auto simp: queue_ok_def completed_def stream_def waiting_def split: list.splits)

section \<open>Properties\<close>

text \<open>
  Claim C16: sending to a user connection never loses or reorders bytes. Below the limit of twice the
  window, \<open>SendData\<close> does not abort whatever the system answers to \<open>write\<close> (partial writes, a busy
  socket, an error); the stream of the connection, the bytes the system has taken followed by those
  that wait, grows by the message; the queue of messages stays consistent; and when bytes of complete
  messages were written on a connection that stays open, an acknowledgement with the total is queued.
\<close>

theorem SendData_stream:
  assumes "user_ok px ci u" "msg \<noteq> []" "ci_lenWrite ci + int (length msg) < uint (uc_maxWindowSize u * 2)"
  shows "\<exists>px' ci' u'. SendData px ci msg = Inr (px', ci') \<and> stream ci' = stream ci @ msg \<and> user_ok px' ci' u' \<and>
    (ci_status ci' \<noteq> cs_closed \<and> uc_bytesRX u' \<noteq> uc_bytesRX u \<longrightarrow>
       (\<exists>ack. BuildWANameAck (uc_id u) (of_nat (completed ci')) = Inr ack \<and>
          uc_controlMsgList u' = uc_controlMsgList u @ [\<lparr>mi_msg = ack, mi_streamID = int (ci_fd ci)\<rparr>]))"
proof -
  from SendData_ok[OF assms] obtain px' ci' u' where
    s: "SendData px ci msg = Inr (px', ci')" "stream ci' = stream ci @ msg" "acked_write px ci u px' ci' u'" by blast
  from acked_user_ok[OF assms(1) s(3)] s show ?thesis by (auto simp: acked_write_def)
qed

definition demo_user :: UserConnectionInfo where
  "demo_user = (new_user True blank_scanner blank_scanner)\<lparr>uc_sip := 0x0A000001, uc_sport := 1025, uc_dip := 0x0A000002, uc_dport := 80\<rparr>"

definition demo_conn :: "UserConnectionInfo \<Rightarrow> ConnectionInfo" where
  "demo_conn u = \<lparr>ci_fd = 9, ci_connID = 0, ci_type = ct_user, ci_status = cs_active, ci_isAbnormal = False, ci_isWritable = True,
     ci_bufRead = [], ci_lenWrite = 0, ci_msgListWrite = [], ci_firstMsgOffset = 0, ci_stub = UserStub u, ci_out = []\<rparr>"

text \<open>A proxy with one user connection.\<close>

definition demo_proxy :: "cache \<Rightarrow> (ConnectionKey, nat) hashtable \<Rightarrow> ConnectionInfo \<Rightarrow> write_result list \<Rightarrow> proxy" where
  "demo_proxy s cm ci ws = \<lparr>px_cache = s, px_peers = three_peers True True, px_conns = [ci_fd ci \<mapsto> ci],
     px_events = (\<lambda>_. (es_none, es_none)), px_writes = ws, g_ConnectionID = 1, g_ConnMap = cm, g_PseudoConnMap = cm,
     g_UserList = [ci_fd ci], g_DeadConnList = [], g_NumUserConns = 1, g_NumDeadConns = 0, g_NumPeerConns = 0,
     g_NumCacheConns = 0, g_NumDnsConns = 0, g_NumTotUserConns = 1, g_CacheConnections = (\<lambda>_. None), g_NumBlocked = 0,
     g_Hits = 0, g_Misses = 0, g_BytesUserTX = 0, g_BytesUserRX = 0, g_BytesPeerTX = 0, g_BytesPptpTX = 0, g_BytesCacheTX = 0,
     g_BytesDnsTX = 0, g_TryReconstruction = False, g_NewPeekUpdate = False, g_PdNumNameTrees = 0, g_PutMessageList = [],
     g_NumPutMessages = 0, g_CurPutQueueSize = 0, g_TotalPutDiscarded = 0, px_requests = projr CreateChunkRequestTable, px_now = 0,
     px_fds = [], g_BytesPeerRX = 0, g_BytesBlockTX = 0, g_BytesBlockRX = 0, g_NumChunkRequests = 0, g_PdNumChunkRequests = 0,
     g_NumChunkRequestSent = 0, g_NumChunkResponseReceived = 0, g_MissRedirected = 0, g_NumPutTempHits = 0,
     g_NumPutRequestSent = 0, g_NumPutResponseReceived = 0, g_FirstClassRequestList = [], g_SecondClassRequestList = [],
     g_NumPendingFirstTransactions = 0, g_NumPendingSecondTransactions = 0, g_NumCacheRequestSent = 0, g_NumCacheResponseReceived = 0,
     g_PdNumFirstRequests = 0, g_PdNumSecondRequests = 0, g_BytesCacheRX = 0, g_RareMisses = 0, g_NumPeekRequestSent = 0,
     g_NumPeekResponseReceived = 0\<rparr>"

lemma demo_user_ok:
  assumes "uc_sip u = uc_sip demo_user" "uc_sport u = uc_sport demo_user" "uc_dip u = uc_dip demo_user"
    "uc_dport u = uc_dport demo_user" "uc_bytesRX u = 0"
  shows "user_ok (demo_proxy s cm (demo_conn u) ws) (demo_conn u) u"
  using assms by (simp add: user_ok_def user_conn_def queue_ok_def completed_def waiting_def demo_proxy_def demo_conn_def
      demo_user_def MAX_NUM_CI_def)

theorem SendData_stream_witness:
  "\<exists>px' ci'. SendData (demo_proxy (empty_cache 0) (snd (projr (CreateConnectionTables None))) (demo_conn demo_user) [Written 2, Busy]) (demo_conn demo_user) [1, 2, 3] = Inr (px', ci') \<and>
     stream ci' = [1, 2, 3]"
proof -
  have "user_ok (demo_proxy (empty_cache 0) (snd (projr (CreateConnectionTables None))) (demo_conn demo_user) [Written 2, Busy]) (demo_conn demo_user) demo_user"
    by (rule demo_user_ok) (simp_all add: demo_user_def new_user_def)
  from SendData_stream[OF this, of "[1, 2, 3]"] show ?thesis
    by (auto simp: demo_conn_def stream_def waiting_def demo_user_def new_user_def MAX_WINDOW_SIZE_def)
qed

text \<open>
  Claim C34: a user connection that is put in the connection table is found for messages in both
  directions, whatever else the table holds under other keys, and after \<open>RemoveConnection\<close> neither;
  the other entries stay as they are.
\<close>

theorem connection_table_roundtrip:
  assumes "conns_good ht" "ci_type ci = ct_user" "ci_stub ci = UserStub u"
    and "uc_sip u \<noteq> 0" "uc_sport u \<noteq> 0" "uc_dip u \<noteq> 0" "uc_dport u \<noteq> 0"
    and "SearchConnection ht (uc_sip u) (uc_sport u) (uc_dip u) (uc_dport u) = None"
    and "SearchConnection ht (uc_dip u) (uc_dport u) (uc_sip u) (uc_sport u) = None"
  shows "\<exists>ht' ht''. PutConnection ht ci = Inr ht' \<and> conns_good ht' \<and>
    GetDestinationConnection ht' (uc_sip u) (uc_sport u) (uc_dip u) (uc_dport u) = Inr (Some (ci_fd ci)) \<and>
    GetDestinationConnection ht' (uc_dip u) (uc_dport u) (uc_sip u) (uc_sport u) = Inr (Some (ci_fd ci)) \<and>
    RemoveConnection ht' (uc_sip u) (uc_sport u) (uc_dip u) (uc_dport u) = (ht'', True) \<and> conns_good ht'' \<and>
    (\<forall>sip sport dip dport. SearchConnection ht'' sip sport dip dport = SearchConnection ht sip sport dip dport)"
proof -
  let ?k = "uc_key u" and ?ht = "ht_put ht (uc_key u) (ci_fd ci)"
  have k: "?k = \<lparr>key_sip = uc_sip u, key_sport = uc_sport u, key_dip = uc_dip u, key_dport = uc_dport u\<rparr>" by (simp add: uc_key_def)
  have n: "hashtable_search ht ?k = None" using assms(8) by (simp add: SearchConnection_def uc_key_def)
  note p = connection_laws(1,2)[OF assms(1) n, where v = "ci_fd ci"]
  note r = connection_laws(3-5)[OF p(1), of ?k]
  have "RemoveConnection ?ht (uc_sip u) (uc_sport u) (uc_dip u) (uc_dport u) = (fst (hashtable_remove ?ht ?k), True)"
    using r(2) p(2) by (cases "hashtable_remove ?ht ?k") (simp add: RemoveConnection_def k[symmetric])
  moreover have "PutConnection ht ci = Inr ?ht" using assms(2,3) by (simp add: PutConnection_def table_insert_def)
  moreover have "SearchConnection (fst (hashtable_remove ?ht ?k)) sip sport dip dport = SearchConnection ht sip sport dip dport" for sip sport dip dport
    using n by (simp add: SearchConnection_def r(3) p(2))
  ultimately show ?thesis using p r(1) assms(4-9)
    by (auto simp: GetDestinationConnection_def SearchConnection_def k)
qed

theorem connection_table_roundtrip_witness:
  "\<exists>pm cm cm'. CreateConnectionTables None = Inr (pm, cm) \<and> PutConnection cm (demo_conn demo_user) = Inr cm' \<and>
     GetDestinationConnection cm' 0x0A000002 80 0x0A000001 1025 = Inr (Some 9)"
proof -
  from CreateConnectionTables_ok obtain pm cm where c: "CreateConnectionTables None = Inr (pm, cm)" "conns_good cm"
    "\<forall>k. hashtable_search cm k = None" by blast
  from connection_table_roundtrip[OF c(2), of "demo_conn demo_user" demo_user] c(3) obtain cm' where
    "PutConnection cm (demo_conn demo_user) = Inr cm'"
    "GetDestinationConnection cm' (uc_dip demo_user) (uc_dport demo_user) (uc_sip demo_user) (uc_sport demo_user) = Inr (Some (ci_fd (demo_conn demo_user)))"
    by (auto simp: SearchConnection_def demo_conn_def demo_user_def)
  with c(1) show ?thesis by (auto simp: demo_conn_def demo_user_def)
qed

end
