(* ===== verification/Reassemble.thy ===== *)
theory Reassemble
  imports Connection
begin

text \<open>
  The receiving side of a name delivery (waprox/reassemble.c, and \<open>ProcessNameTreeDelivery2\<close>,
  \<open>UpdatePeekResult\<close> and \<open>CheckPeek\<close> of waprox/waprox.c, \<open>QueuePutMessage\<close> of waprox/mrc_tree.c): the
  names of a block are collected, and the block is sent to the user once all its chunks are in the
  temporary cache.

  The build trusts the sender about hits (\<open>_WAPROX_NO_PEEK\<close>), queues ready blocks
  (\<open>_WAPROX_REASSEMBLE_OPTIMIZE\<close>) and stores chunks later (\<open>_WAPROX_LAZY_PUT\<close>). The configuration
  variables are the record \<open>settings\<close>. While a handler fills a new \<open>ReassembleInfo\<close>, its value is
  kept beside the list and written back to the end of the list.
\<close>

section \<open>Data\<close>

record settings =
  st_mrc :: mrc_config
  g_SkipFirstChunk :: bool
  g_ClientChunking :: bool
  g_ServerChunking :: bool
  g_NoCache :: bool
  g_BufferTimeout :: int
  g_PutQueueSize :: int
  g_MemCacheOnly :: bool
  g_MaxPeerConns :: nat
  g_MaxCacheConns :: nat
  g_WanLinkBW :: int
  g_WanLinkRTT :: int
  g_SeekLatency :: int

section \<open>Names\<close>

definition CreateNewReassembleInfo :: "ConnectionInfo \<Rightarrow> UserConnectionInfo \<Rightarrow> u32 \<Rightarrow>
    (UserConnectionInfo \<times> ReassembleInfo) res" where
  "CreateNewReassembleInfo source_ci u seq_no =
     ensure (ci_type source_ci = ct_user)
       (let ri = \<lparr>ri_seq_no = seq_no, ri_numNames = 0, ri_numPeekResolved = 0, ri_getSent = False,
                  ri_source = ci_fd source_ci, ri_nameList = []\<rparr>
        in Inr (u\<lparr>uc_reassembleList := uc_reassembleList u @ [ri]\<rparr>, ri))"

definition GetReassembleInfo :: "ReassembleInfo list \<Rightarrow> u32 \<Rightarrow> ReassembleInfo option" where
  "GetReassembleInfo rl seq_no = find (\<lambda>ri. ri_seq_no ri = seq_no) rl"

text \<open>The names that are freed.\<close>

definition DestroyReassembleInfo :: "ReassembleInfo \<Rightarrow> ChunkNameInfo list res" where
  "DestroyReassembleInfo ri = ensure (ri_nameList ri \<noteq> []) (Inr (ri_nameList ri))"

fun DestroyReassembleList :: "ReassembleInfo list \<Rightarrow> ChunkNameInfo list res" where
  "DestroyReassembleList [] = Inr []"
| "DestroyReassembleList (ri # rl) =
     rbind (DestroyReassembleInfo ri) (\<lambda>fs. rbind (DestroyReassembleList rl) (\<lambda>gs. Inr (fs @ gs)))"

definition AppendChunkName :: "ConnectionInfo \<Rightarrow> UserConnectionInfo \<Rightarrow> ReassembleInfo \<Rightarrow> sha1 \<Rightarrow> u32 \<Rightarrow> bool \<Rightarrow>
    (UserConnectionInfo \<times> ReassembleInfo \<times> ChunkNameInfo) res" where
  "AppendChunkName ci u ri name len isHit =
     ensure (len > 0)
       (ensure (ci_type ci = ct_user)
         (let cni = \<lparr>cni_isHit = isHit, cni_inMemory = False, cni_length = len, cni_peerIdx = -1,
                     cni_isNetwork = False, cni_sha1 = take SHA1_LEN name\<rparr>
          in Inr (u\<lparr>uc_pendingNames := uc_pendingNames u + 1, uc_pendingBytes := uc_pendingBytes u + len\<rparr>,
                  ri\<lparr>ri_nameList := ri_nameList ri @ [cni]\<rparr>, cni)))"

definition UpdatePeekResult :: "proxy \<Rightarrow> UserConnectionInfo \<Rightarrow> ReassembleInfo \<Rightarrow> ChunkNameInfo \<Rightarrow> bool \<Rightarrow> bool \<Rightarrow>
    (proxy \<times> UserConnectionInfo \<times> ReassembleInfo \<times> ChunkNameInfo) res" where
  "UpdatePeekResult px u ri cni isHit hasContent =
     (let cni1 = cni\<lparr>cni_isHit := isHit\<rparr>;
          (px1, u1) =
            (if cni_isHit cni1 \<and> \<not> hasContent
             then (px\<lparr>g_Hits := g_Hits px + 1\<rparr>,
                   u\<lparr>uc_numHits := uc_numHits u + 1, uc_hitBytes := uc_hitBytes u + cni_length cni1\<rparr>)
             else (px\<lparr>g_Misses := g_Misses px + 1\<rparr>,
                   u\<lparr>uc_numMisses := uc_numMisses u + 1, uc_missBytes := uc_missBytes u + cni_length cni1\<rparr>));
          ri1 = ri\<lparr>ri_numPeekResolved := ri_numPeekResolved ri + 1\<rparr>
      in ensure (ri_numPeekResolved ri1 \<le> ri_numNames ri1)
           (Inr (px1\<lparr>g_NewPeekUpdate := True\<rparr>, u1, ri1, cni1)))"

definition CheckPeek :: "UserConnectionInfo \<Rightarrow> ReassembleInfo \<Rightarrow> UserConnectionInfo" where
  "CheckPeek u ri =
     (if ri_numPeekResolved ri = ri_numNames ri
      then u\<lparr>uc_readyList := uc_readyList u @ [ri_seq_no ri]\<rparr> else u)"

text \<open>The body of the loop over the names of a delivery.\<close>

definition recv_name :: "(u32 \<Rightarrow> u32) \<Rightarrow> ConnectionInfo \<Rightarrow> WAOneChunk \<Rightarrow> proxy \<Rightarrow> UserConnectionInfo \<Rightarrow> ReassembleInfo \<Rightarrow>
    (proxy \<times> UserConnectionInfo \<times> ReassembleInfo) res" where
  "recv_name rotl ci ck px u ri =
     rbind (AppendChunkName ci u ri (ck_sha1 ck) (ck_length ck) (ck_hasContent ck)) (\<lambda>(u1, ri1, cni).
       let ri2 = ri1\<lparr>ri_numNames := ri_numNames ri1 + 1\<rparr> in
       rbind (PickPeerToRedirect rotl (px_peers px) (ck_sha1 ck)) (\<lambda>idx.
         if idx = -1 then Inl NiceExit
         else let cni1 = cni\<lparr>cni_peerIdx := idx\<rparr> in
           rbind
             (if ck_hasContent ck then
                rbind (RefPutChunkCallback (px_cache px) (ck_sha1 ck) (ck_content ck)) (\<lambda>c.
                  rbind (UpdatePeekResult (px\<lparr>px_cache := c\<rparr>) u1 ri2 (cni1\<lparr>cni_inMemory := True\<rparr>) True True)
                    (\<lambda>(px2, u2, ri3, cni2).
                      ensure (cni_isHit cni2) (Inr (px2\<lparr>g_TryReconstruction := True\<rparr>, u2, ri3, cni2))))
              else UpdatePeekResult px u1 ri2 cni1 True False)
             (\<lambda>(px2, u2, ri3, cni2).
               Inr (px2, u2, ri3\<lparr>ri_nameList := butlast (ri_nameList ri3) @ [cni2]\<rparr>))))"

fun recv_names :: "(u32 \<Rightarrow> u32) \<Rightarrow> ConnectionInfo \<Rightarrow> nat \<Rightarrow> byte list \<Rightarrow> nat \<Rightarrow> proxy \<Rightarrow> UserConnectionInfo \<Rightarrow> ReassembleInfo \<Rightarrow>
    (proxy \<times> UserConnectionInfo \<times> ReassembleInfo \<times> nat) res" where
  "recv_names rotl ci 0 buffer offset px u ri = Inr (px, u, ri, offset)"
| "recv_names rotl ci (Suc n) buffer offset px u ri =
     (if offset + sizeof_WAOneChunk > length buffer then Inl UndefinedBehaviour
      else let (ck, k) = read_chunk (drop offset buffer) in
        if offset + k > length buffer then Inl UndefinedBehaviour
        else rbind (recv_name rotl ci ck px u ri) (\<lambda>(px1, u1, ri1).
               recv_names rotl ci n buffer (offset + k) px1 u1 ri1))"

definition ProcessNameTreeDelivery2 :: "(u32 \<Rightarrow> u32) \<Rightarrow> proxy \<Rightarrow> byte list \<Rightarrow> (proxy \<times> int) res" where
  "ProcessNameTreeDelivery2 rotl px buffer =
     (if length buffer < sizeof_WANameDelivery then Inl UndefinedBehaviour
      else let tot_length = sint (be32_at buffer 2);
          numTrees = sint (be32_at buffer 19);
          cid = connID_at buffer
      in ensure (tot_length \<le> int (length buffer))
         (ensure (numTrees \<ge> 0)
         (ensure (numTrees = 1)
         (ensure (srcIP cid \<noteq> 0 \<and> srcPort cid \<noteq> 0 \<and> dstIP cid \<noteq> 0 \<and> dstPort cid \<noteq> 0)
           (rbind (GetDestinationConnection (g_ConnMap px) (srcIP cid) (srcPort cid) (dstIP cid) (dstPort cid)) (\<lambda>target.
              case target of
                None \<Rightarrow> Inr (px, tot_length)
              | Some fd \<Rightarrow>
                  (case px_conns px fd of
                     None \<Rightarrow> Inl UndefinedBehaviour
                   | Some target_ci \<Rightarrow>
                       (case ci_stub target_ci of
                          UserStub u \<Rightarrow>
                            rbind (CreateNewReassembleInfo target_ci (u\<lparr>uc_seq_no := uc_seq_no u + 1\<rparr>) (uc_seq_no u)) (\<lambda>(u1, ri).
                              if length buffer < sizeof_WANameDelivery + sizeof_WAOneTree then Inl UndefinedBehaviour
                              else let numNames = sint (be32_at buffer (sizeof_WANameDelivery + 1)) in
                              rbind (recv_names rotl target_ci (nat numNames) buffer (sizeof_WANameDelivery + sizeof_WAOneTree) px u1 ri)
                                (\<lambda>(px1, u2, ri1, offset).
                                  let u3 = u2\<lparr>uc_reassembleList := butlast (uc_reassembleList u2) @ [ri1]\<rparr>;
                                      u4 = CheckPeek u3 ri1;
                                      px2 = px1\<lparr>g_PdNumNameTrees := g_PdNumNameTrees px1 + 1,
                                                px_conns := (px_conns px1)(fd := Some (target_ci\<lparr>ci_stub := UserStub u4\<rparr>))\<rparr>
                                  in ensure (int offset = tot_length) (Inr (px2, tot_length))))
                        | _ \<Rightarrow> Inl UndefinedBehaviour))))))))"

section \<open>Reconstruction\<close>

definition add_ref :: "int \<Rightarrow> cache \<Rightarrow> sha1 \<Rightarrow> cache" where
  "add_ref k s name = s\<lparr>tmp_ht := ht_modify (tmp_ht s) (raw_key name) (\<lambda>v. v\<lparr>ref_count := ref_count v + k\<rparr>)\<rparr>"

text \<open>
  The two loops of \<open>CheckOneChunkTree\<close>: the references of the names are taken one by one, with the
  number taken and the bytes found, and then given back.
\<close>

fun check_names :: "cache \<Rightarrow> ChunkNameInfo list \<Rightarrow> nat \<Rightarrow> nat \<Rightarrow> cache \<times> bool \<times> nat \<times> nat" where
  "check_names s [] numChecked buf_len = (s, True, numChecked, buf_len)"
| "check_names s (walk # ws) numChecked buf_len =
     (case SearchCache s (cni_sha1 walk) of
        None \<Rightarrow> (s, False, numChecked, buf_len)
      | Some v \<Rightarrow>
          let s1 = add_ref (-1) s (cni_sha1 walk) in
          if ref_count v - 1 < 0 then (s1, False, numChecked + 1, buf_len + block_length v)
          else check_names s1 ws (numChecked + 1) (buf_len + block_length v))"

fun restore_names :: "cache \<Rightarrow> ChunkNameInfo list \<Rightarrow> nat \<Rightarrow> (cache \<times> nat) res" where
  "restore_names s [] numChecked = Inr (s, numChecked)"
| "restore_names s (walk # ws) numChecked =
     (if numChecked = 0 then Inr (s, numChecked)
      else case SearchCache s (cni_sha1 walk) of
        None \<Rightarrow> Inl AssertFail
      | Some v \<Rightarrow> ensure (ref_count v + 1 \<ge> 0) (restore_names (add_ref 1 s (cni_sha1 walk)) ws (numChecked - 1)))"

definition CheckOneChunkTree :: "cache \<Rightarrow> ReassembleInfo \<Rightarrow> (cache \<times> nat) res" where
  "CheckOneChunkTree s ri =
     (let (s1, complete, numChecked, buf_len) = check_names s (ri_nameList ri) 0 0 in
      rbind (if numChecked > 0 then restore_names s1 (ri_nameList ri) numChecked else Inr (s1, numChecked))
        (\<lambda>(s2, n). ensure (n = 0) (Inr (s2, if complete then buf_len else 0))))"

fun collect_names :: "cache \<Rightarrow> UserConnectionInfo \<Rightarrow> ChunkNameInfo list \<Rightarrow> byte list \<Rightarrow> (cache \<times> UserConnectionInfo \<times> byte list) res" where
  "collect_names s u [] chunkBuffer = Inr (s, u, chunkBuffer)"
| "collect_names s u (walk # ws) chunkBuffer =
     (case SearchCache s (cni_sha1 walk) of
        None \<Rightarrow> Inl AssertFail
      | Some v \<Rightarrow>
          ensure (block_length v = unat (cni_length walk))
            (rbind (RefFlushChunk s (cni_sha1 walk)) (\<lambda>s1.
               collect_names s1 (u\<lparr>uc_pendingNames := uc_pendingNames u - 1,
                                   uc_pendingBytes := uc_pendingBytes u - of_nat (block_length v)\<rparr>)
                 ws (chunkBuffer @ pBlock v))))"

definition QueuePutMessage :: "settings \<Rightarrow> proxy \<Rightarrow> byte list \<Rightarrow> int \<Rightarrow> u32 \<Rightarrow> ReassembleInfo option \<Rightarrow> proxy res" where
  "QueuePutMessage st px buffer dstPxyId seq_no ri =
     (if g_SkipFirstChunk st \<and> seq_no = 0 then Inr px
      else if (case ri of
                 None \<Rightarrow> False
               | Some r \<Rightarrow> (case ri_nameList r of
                   [] \<Rightarrow> False
                 | cni # _ \<Rightarrow> cni_length cni = of_nat (length buffer) \<and> GetDiskHint (px_cache px) (cni_sha1 cni))) then Inr px
      else if g_CurPutQueueSize px + of_nat (length buffer) > of_int (g_PutQueueSize st * 1024 * 1024)
      then Inr (px\<lparr>g_TotalPutDiscarded := g_TotalPutDiscarded px + of_nat (length buffer)\<rparr>)
      else let px1 = px\<lparr>g_PutMessageList := g_PutMessageList px @ [(buffer, dstPxyId)],
                        g_NumPutMessages := g_NumPutMessages px + 1,
                        g_CurPutQueueSize := g_CurPutQueueSize px + of_nat (length buffer)\<rparr>
        in ensure (g_CurPutQueueSize px1 \<le> of_int (g_PutQueueSize st * 1024 * 1024)) (Inr px1))"

definition ReconstructOneChunkTree :: "settings \<Rightarrow> proxy \<Rightarrow> ConnectionInfo \<Rightarrow> ReassembleInfo \<Rightarrow>
    (proxy \<times> ConnectionInfo \<times> bool) res" where
  "ReconstructOneChunkTree st px target_ci ri =
     (case ci_stub target_ci of
        UserStub u \<Rightarrow>
          ensure (ri_source ri = ci_fd target_ci)
            (if \<not> ri_getSent ri then Inr (px, target_ci, False)
             else if ri_nameList ri = [] then Inr (px, target_ci, False)
             else rbind (CheckOneChunkTree (px_cache px) ri) (\<lambda>(s1, buf_len).
               let px1 = px\<lparr>px_cache := s1\<rparr> in
               if buf_len = 0 then Inr (px1, target_ci, False)
               else ensure (buf_len \<le> MAX_CHUNK_SIZE)
                 (rbind (collect_names (px_cache px1) u (ri_nameList ri) []) (\<lambda>(s2, u2, chunkBuffer).
                    ensure (length chunkBuffer = buf_len)
                      (let px2 = px1\<lparr>px_cache := s2\<rparr>; ci2 = target_ci\<lparr>ci_stub := UserStub u2\<rparr> in
                       rbind (if \<not> g_NoCache st \<and> ((g_ClientChunking st \<and> \<not> uc_isForward u2) \<or> (g_ServerChunking st \<and> uc_isForward u2))
                              then QueuePutMessage st px2 chunkBuffer (uc_dstPxyIdx u2) (uc_seq_no u2) (Some ri)
                              else Inr px2) (\<lambda>px3.
                         rbind (SendData px3 ci2 chunkBuffer) (\<lambda>(px4, ci4). Inr (px4, ci4, True))))))))
      | _ \<Rightarrow> Inl UndefinedBehaviour)"

text \<open>The loop over the blocks, oldest first, until one is not complete.\<close>

fun reconstruct_loop :: "settings \<Rightarrow> proxy \<Rightarrow> ConnectionInfo \<Rightarrow> ReassembleInfo list \<Rightarrow> (proxy \<times> ConnectionInfo) res" where
  "reconstruct_loop st px ci [] = Inr (px, ci)"
| "reconstruct_loop st px ci (ri # rl) =
     rbind (ReconstructOneChunkTree st px ci ri) (\<lambda>(px1, ci1, done).
       if done then
         rbind (on_user ci1 (\<lambda>u. Inr (u\<lparr>uc_reassembleList := rl\<rparr>))) (\<lambda>ci2.
           rbind (DestroyReassembleInfo ri) (\<lambda>_. reconstruct_loop st px1 ci2 rl))
       else Inr (px1, ci1))"

definition ReconstructOriginalData :: "settings \<Rightarrow> proxy \<Rightarrow> ConnectionInfo \<Rightarrow> (proxy \<times> ConnectionInfo) res" where
  "ReconstructOriginalData st px target_ci =
     ensure (ci_type target_ci = ct_user)
       (case ci_stub target_ci of
          UserStub u \<Rightarrow>
            rbind (reconstruct_loop st px target_ci (uc_reassembleList u)) (\<lambda>(px1, ci1).
              case ci_stub ci1 of
                UserStub u1 \<Rightarrow>
                  if uc_closeBytes u1 \<noteq> 0 \<and> uc_bytesRX u1 = uc_closeBytes u1 then SetDead px1 ci1 False else Inr (px1, ci1)
              | _ \<Rightarrow> Inl UndefinedBehaviour)
        | _ \<Rightarrow> Inl UndefinedBehaviour)"

abbreviation names_of :: "ChunkNameInfo list \<Rightarrow> sha1 list" where
  "names_of ws \<equiv> map cni_sha1 ws"

section \<open>Taking and giving back references\<close>

text \<open>
  The temporary cache with \<open>d n\<close> references taken from the chunk named \<open>n\<close>, which may leave a count of
  zero or below.
\<close>

definition tmp_shift :: "cache \<Rightarrow> (sha1 \<Rightarrow> int) \<Rightarrow> cache \<Rightarrow> bool" where
  "tmp_shift s d s' \<longleftrightarrow> good (tmp_ht s') \<and> tmp_only s s' \<and>
     (\<forall>m. SearchCache s' m = map_option (\<lambda>v. v\<lparr>ref_count := ref_count v - d (take SHA1_LEN m)\<rparr>) (SearchCache s m))"

lemma tmp_shift_refl: "tmp_inv s \<Longrightarrow> tmp_shift s (\<lambda>_. 0) s"
  by (simp add: tmp_shift_def tmp_inv_def option.map_ident)

lemma add_ref_shift:
  assumes "tmp_shift s d s1" "SearchCache s n \<noteq> None"
  shows "tmp_shift s (d(take SHA1_LEN n := d (take SHA1_LEN n) - k)) (add_ref k s1 n)"
proof -
  have g: "good (tmp_ht s1)" using assms(1) by (simp add: tmp_shift_def)
  obtain v where v: "SearchCache s1 n = Some v" using assms by (auto simp: tmp_shift_def)
  let ?f = "\<lambda>v. v\<lparr>ref_count := ref_count v + k\<rparr>"
  have look: "SearchCache (add_ref k s1 n) m = (if take SHA1_LEN m = take SHA1_LEN n then Some (?f v) else SearchCache s1 m)" for m
    using chunks.look_modify[OF g, of "raw_key n" ?f "raw_key m"] v by (simp add: add_ref_def SearchCache_def chunk_eq_name)
  have s1: "SearchCache s1 m = map_option (\<lambda>v. v\<lparr>ref_count := ref_count v - d (take SHA1_LEN m)\<rparr>) (SearchCache s m)" for m
    using assms(1) by (simp add: tmp_shift_def)
  have "SearchCache (add_ref k s1 n) m = map_option (\<lambda>v. v\<lparr>ref_count := ref_count v -
      (d(take SHA1_LEN n := d (take SHA1_LEN n) - k)) (take SHA1_LEN m)\<rparr>) (SearchCache s m)" for m
  proof (cases "take SHA1_LEN m = take SHA1_LEN n")
    case True
    have "SearchCache s1 m = SearchCache s1 n" unfolding SearchCache_def by (rule search_name[OF g]) (simp add: True)
    then obtain a where "SearchCache s m = Some a" "v = a\<lparr>ref_count := ref_count a - d (take SHA1_LEN m)\<rparr>"
      using v s1[of m] by auto
    then show ?thesis using True by (simp add: look)
  next
    case False
    then show ?thesis by (simp add: look s1)
  qed
  moreover have "good (tmp_ht (add_ref k s1 n))" using chunks.invar_modify[OF g, of "raw_key n" ?f] by (simp add: add_ref_def)
  moreover have "tmp_only s1 (add_ref k s1 n)" by (simp add: tmp_only_def add_ref_def)
  ultimately show ?thesis using assms(1) tmp_only_trans[of s s1 "add_ref k s1 n"] by (simp add: tmp_shift_def)
qed

text \<open>The number of references a list of names takes.\<close>

definition taken :: "ChunkNameInfo list \<Rightarrow> sha1 \<Rightarrow> int" where
  "taken ws n = int (count (mset (map (take SHA1_LEN) (names_of ws))) n)"

lemma taken_simps [simp]: "taken [] = (\<lambda>_. 0)"
  "taken (w # ws) = (\<lambda>n. taken ws n + (if n = take SHA1_LEN (cni_sha1 w) then 1 else 0))"
  by (auto simp: taken_def fun_eq_iff)

lemma taken_occurs: "taken ws (take SHA1_LEN m) = int (tmp_cache.occurs m (names_of ws))"
  by (simp add: taken_def)

text \<open>The bytes of the chunks of a list of names.\<close>

definition chunk_bytes :: "cache \<Rightarrow> ChunkNameInfo list \<Rightarrow> byte list" where
  "chunk_bytes s ws = concat (map (\<lambda>w. case tmp_content s (cni_sha1 w) of None \<Rightarrow> [] | Some b \<Rightarrow> b) ws)"

lemma check_names_ok:
  assumes "tmp_inv s" "tmp_shift s d s1" "\<forall>m. 0 \<le> d (take SHA1_LEN m)" "\<forall>m. d (take SHA1_LEN m) \<le> int (tmp_refs s m)"
  shows "\<exists>s2 complete k. check_names s1 ws n len = (s2, complete, n + k, len + length (chunk_bytes s (take k ws))) \<and> k \<le> length ws \<and>
    tmp_shift s (\<lambda>m. d m + taken (take k ws) m) s2 \<and> (\<forall>w \<in> set (take k ws). SearchCache s (cni_sha1 w) \<noteq> None) \<and>
    (\<forall>m. d (take SHA1_LEN m) + taken (take k ws) (take SHA1_LEN m) \<le> int (tmp_refs s m) + 1) \<and>
    (complete \<longrightarrow> k = length ws) \<and>
    (complete \<longleftrightarrow> (\<forall>m. d (take SHA1_LEN m) + taken ws (take SHA1_LEN m) \<le> int (tmp_refs s m)))"
  using assms(2-4)
proof (induction ws arbitrary: s1 d n len)
  case Nil
  have "d (take SHA1_LEN m) \<le> int (tmp_refs s m) + 1" for m using Nil(3)[rule_format, of m] by simp
  with Nil show ?case by (auto simp: chunk_bytes_def)
next
  case (Cons w ws)
  have le1: "d (take SHA1_LEN m) \<le> int (tmp_refs s m) + 1" for m using Cons.prems(3)[rule_format, of m] by simp
  let ?n = "cni_sha1 w"
  show ?case
  proof (cases "SearchCache s ?n")
    case None
    then have "SearchCache s1 ?n = None" using Cons.prems(1) by (simp add: tmp_shift_def)
    moreover have "\<not> (d (take SHA1_LEN ?n) + taken (w # ws) (take SHA1_LEN ?n) \<le> int (tmp_refs s ?n))"
      using None Cons.prems(2)[rule_format, of ?n] by (simp add: tmp_refs_def taken_def)
    ultimately show ?thesis using Cons.prems(1) le1
      by (intro exI[of _ s1] exI[of _ False] exI[of _ 0]) (auto simp: chunk_bytes_def)
  next
    case (Some v)
    let ?s1 = "add_ref (-1) s1 ?n" and ?d = "d(take SHA1_LEN ?n := d (take SHA1_LEN ?n) + 1)"
    have v: "SearchCache s1 ?n = Some (v\<lparr>ref_count := ref_count v - d (take SHA1_LEN ?n)\<rparr>)"
      using Cons.prems(1) Some by (simp add: tmp_shift_def)
    have sh: "tmp_shift s ?d ?s1" using add_ref_shift[OF Cons.prems(1), of ?n "-1"] Some by simp
    have inv: "0 < block_length v" "length (pBlock v) = block_length v" "1 \<le> ref_count v" "tmp_refs s ?n = nat (ref_count v)"
      using assms(1) Some by (auto simp: tmp_inv_def tmp_refs_def SearchCache_def)
    have tk: "d m + taken (w # xs) m = ?d m + taken xs m" for m xs by simp
    have cb: "length (chunk_bytes s (w # xs)) = block_length v + length (chunk_bytes s xs)" for xs
      using Some inv(2) by (simp add: chunk_bytes_def tmp_content_def)
    show ?thesis
    proof (cases "ref_count v - d (take SHA1_LEN ?n) - 1 < 0")
      case True
      have "0 \<le> taken ws (take SHA1_LEN ?n)" by (simp add: taken_def)
      then have "\<not> (d (take SHA1_LEN ?n) + taken (w # ws) (take SHA1_LEN ?n) \<le> int (tmp_refs s ?n))"
        using True inv(3,4) by simp
      moreover have "check_names s1 (w # ws) n len = (?s1, False, n + 1, len + length (chunk_bytes s (take 1 (w # ws))))"
        using v True cb[of "[]"] by (simp add: chunk_bytes_def)
      moreover have one: "(\<lambda>m. d m + taken (take 1 (w # ws)) m) = ?d" by (auto simp: fun_eq_iff)
      moreover have "\<forall>m. d (take SHA1_LEN m) + taken (take 1 (w # ws)) (take SHA1_LEN m) \<le> int (tmp_refs s m) + 1"
      proof
        fix m
        have "?d (take SHA1_LEN m) \<le> int (tmp_refs s m) + 1"
          using le1[of m] Cons.prems(3)[rule_format, of m] by (cases "take SHA1_LEN m = take SHA1_LEN ?n") simp_all
        then show "d (take SHA1_LEN m) + taken (take 1 (w # ws)) (take SHA1_LEN m) \<le> int (tmp_refs s m) + 1"
          using fun_cong[OF one, of "take SHA1_LEN m"] by simp
      qed
      ultimately show ?thesis using sh Some
        by (intro exI[of _ ?s1] exI[of _ False] exI[of _ 1] conjI) (simp_all, blast)
    next
      case False
      have d0: "\<forall>m. 0 \<le> ?d (take SHA1_LEN m)" using Cons.prems(2) by simp
      have d1: "\<forall>m. ?d (take SHA1_LEN m) \<le> int (tmp_refs s m)"
      proof
        fix m show "?d (take SHA1_LEN m) \<le> int (tmp_refs s m)"
          using Cons.prems(3)[rule_format, of m] False inv(3,4) tmp_cache.refs_name[OF assms(1), of m ?n]
          by (cases "take SHA1_LEN m = take SHA1_LEN ?n") simp_all
      qed
      obtain s2 complete k where
        IH: "check_names ?s1 ws (n + 1) (len + block_length v) = (s2, complete, n + 1 + k, len + block_length v + length (chunk_bytes s (take k ws)))"
          "k \<le> length ws" "tmp_shift s (\<lambda>m. ?d m + taken (take k ws) m) s2"
          "\<forall>w \<in> set (take k ws). SearchCache s (cni_sha1 w) \<noteq> None"
          "\<forall>m. ?d (take SHA1_LEN m) + taken (take k ws) (take SHA1_LEN m) \<le> int (tmp_refs s m) + 1"
          "complete \<longrightarrow> k = length ws"
          "complete \<longleftrightarrow> (\<forall>m. ?d (take SHA1_LEN m) + taken ws (take SHA1_LEN m) \<le> int (tmp_refs s m))"
        using Cons.IH[OF sh d0 d1, of "n + 1" "len + block_length v"] by blast
      have "check_names s1 (w # ws) n len = (s2, complete, n + Suc k, len + length (chunk_bytes s (take (Suc k) (w # ws))))"
        using v False IH(1) cb[of "take k ws"] by simp
      moreover have "(\<lambda>m. d m + taken (take (Suc k) (w # ws)) m) = (\<lambda>m. ?d m + taken (take k ws) m)"
        using tk by (simp add: fun_eq_iff)
      moreover have "complete \<longleftrightarrow> (\<forall>m. d (take SHA1_LEN m) + taken (w # ws) (take SHA1_LEN m) \<le> int (tmp_refs s m))"
        using IH(7) unfolding tk .
      moreover have "\<forall>m. d (take SHA1_LEN m) + taken (take (Suc k) (w # ws)) (take SHA1_LEN m) \<le> int (tmp_refs s m) + 1"
        unfolding take_Suc_Cons tk by (rule IH(5))
      ultimately show ?thesis using IH(2-4,6) Some
        by (intro exI[of _ s2] exI[of _ complete] exI[of _ "Suc k"]) simp
    qed
  qed
qed


lemma restore_names_ok:
  assumes "tmp_inv s" "tmp_shift s d s1" "k \<le> length ws" "\<forall>w \<in> set (take k ws). SearchCache s (cni_sha1 w) \<noteq> None"
    and "\<forall>m. d (take SHA1_LEN m) \<le> int (tmp_refs s m) + 1"
  shows "\<exists>s2. restore_names s1 ws k = Inr (s2, 0) \<and> tmp_shift s (\<lambda>m. d m - taken (take k ws) m) s2"
  using assms(2-5)
proof (induction ws arbitrary: s1 d k)
  case (Cons w ws)
  let ?n = "cni_sha1 w"
  show ?case
  proof (cases k)
    case (Suc j)
    then have "SearchCache s ?n \<noteq> None" using Cons.prems(3) by simp
    then obtain v where v: "SearchCache s ?n = Some v" by blast
    then have s1: "SearchCache s1 ?n = Some (v\<lparr>ref_count := ref_count v - d (take SHA1_LEN ?n)\<rparr>)"
      using Cons.prems(1) by (simp add: tmp_shift_def)
    have "1 \<le> ref_count v" using assms(1) v by (auto simp: tmp_inv_def SearchCache_def)
    then have ge: "0 \<le> ref_count v - d (take SHA1_LEN ?n) + 1"
      using Cons.prems(4)[rule_format, of ?n] v by (simp add: tmp_refs_def)
    let ?d = "d(take SHA1_LEN ?n := d (take SHA1_LEN ?n) - 1)"
    have sh: "tmp_shift s ?d (add_ref 1 s1 ?n)" using add_ref_shift[OF Cons.prems(1), of ?n 1] v by simp
    have le: "\<forall>m. ?d (take SHA1_LEN m) \<le> int (tmp_refs s m) + 1"
    proof
      fix m show "?d (take SHA1_LEN m) \<le> int (tmp_refs s m) + 1"
        using Cons.prems(4)[rule_format, of m] by (cases "take SHA1_LEN m = take SHA1_LEN ?n") simp_all
    qed
    have "j \<le> length ws" "\<forall>w \<in> set (take j ws). SearchCache s (cni_sha1 w) \<noteq> None" using Cons.prems(2,3) Suc by simp_all
    from Cons.IH[OF sh this le] obtain s2 where
      r: "restore_names (add_ref 1 s1 ?n) ws j = Inr (s2, 0)" "tmp_shift s (\<lambda>m. ?d m - taken (take j ws) m) s2" by blast
    have "(\<lambda>m. d m - taken (take k (w # ws)) m) = (\<lambda>m. ?d m - taken (take j ws) m)" by (simp add: Suc fun_eq_iff)
    with r Suc s1 ge show ?thesis by simp
  qed (use Cons.prems in simp)
qed simp

lemma tmp_shift_zero:
  assumes "tmp_shift s (\<lambda>_. 0) s'" "tmp_inv s"
  shows "tmp_inv s'" "SearchCache s' = SearchCache s" "tmp_only s s'" "tmp_refs s' = tmp_refs s" "tmp_content s' = tmp_content s"
proof -
  show s: "SearchCache s' = SearchCache s" using assms(1) by (simp add: tmp_shift_def fun_eq_iff option.map_ident)
  show "tmp_only s s'" using assms(1) by (simp add: tmp_shift_def)
  show "tmp_refs s' = tmp_refs s" "tmp_content s' = tmp_content s" by (simp_all add: fun_eq_iff tmp_refs_def tmp_content_def s)
  have g: "good (tmp_ht s')" "good (tmp_ht s)" using assms by (simp_all add: tmp_shift_def tmp_inv_def)
  have "hashtable_search (tmp_ht s') k = hashtable_search (tmp_ht s) k" for k
    using search_raw[OF g(1), of k] search_raw[OF g(2), of k] fun_cong[OF s, of "sha1name k"] by (simp add: SearchCache_def)
  then show "tmp_inv s'" using assms(2) g(1) by (simp add: tmp_inv_def)
qed

lemma CheckOneChunkTree_ok:
  assumes "tmp_inv s"
  shows "\<exists>s'. CheckOneChunkTree s ri = Inr (s', if held s (names_of (ri_nameList ri)) then length (chunk_bytes s (ri_nameList ri)) else 0) \<and>
    tmp_inv s' \<and> SearchCache s' = SearchCache s \<and> tmp_only s s'"
proof -
  let ?ws = "ri_nameList ri"
  from check_names_ok[OF assms tmp_shift_refl[OF assms], of ?ws 0 0] obtain s1 complete k where
    c: "check_names s ?ws 0 0 = (s1, complete, k, length (chunk_bytes s (take k ?ws)))" "k \<le> length ?ws"
      "tmp_shift s (taken (take k ?ws)) s1" "\<forall>w \<in> set (take k ?ws). SearchCache s (cni_sha1 w) \<noteq> None"
      "\<forall>m. taken (take k ?ws) (take SHA1_LEN m) \<le> int (tmp_refs s m) + 1"
      "complete \<longrightarrow> k = length ?ws" "complete \<longleftrightarrow> (\<forall>m. taken ?ws (take SHA1_LEN m) \<le> int (tmp_refs s m))" by auto
  have held: "complete \<longleftrightarrow> held s (names_of ?ws)"
    unfolding held_def c(7) taken_occurs by simp
  from restore_names_ok[OF assms c(3,2,4,5)] obtain s2 where
    r: "restore_names s1 ?ws k = Inr (s2, 0)" "tmp_shift s (\<lambda>_. 0) s2" by auto
  show ?thesis
  proof (cases "k = 0")
    case True
    then have "tmp_shift s (\<lambda>_. 0) s1" using c(3) by simp
    note z = tmp_shift_zero[OF this assms]
    show ?thesis using c(1,6) held True z(1-3) by (auto simp: CheckOneChunkTree_def)
  next
    case False
    note z = tmp_shift_zero[OF r(2) assms]
    show ?thesis using c(1,6) held False z(1-3) r(1) by (auto simp: CheckOneChunkTree_def)
  qed
qed

section \<open>Flushing a block\<close>

text \<open>The chunks of a list of names have the announced lengths.\<close>

definition lengths_ok :: "cache \<Rightarrow> ChunkNameInfo list \<Rightarrow> bool" where
  "lengths_ok s ws \<longleftrightarrow> (\<forall>w \<in> set ws. \<forall>b. tmp_content s (cni_sha1 w) = Some b \<longrightarrow> length b = unat (cni_length w))"

text \<open>References dropped from a cache: what has a reference left keeps its content.\<close>

definition dropped :: "cache \<Rightarrow> sha1 list \<Rightarrow> cache \<Rightarrow> bool" where
  "dropped s ns s' \<longleftrightarrow> tmp_inv s' \<and> tmp_only s s' \<and> (\<forall>m. tmp_refs s' m = tmp_refs s m - tmp_cache.occurs m ns) \<and>
     (\<forall>m. tmp_content s' m = (if tmp_cache.occurs m ns < tmp_refs s m then tmp_content s m else None))"

lemma dropped_Nil: "tmp_inv s \<Longrightarrow> dropped s [] s"
  using tmp_cache.content_refs[of s] by (force simp: dropped_def)

lemma dropped_append:
  assumes "dropped s ms s1" "dropped s1 ns s2"
  shows "dropped s (ms @ ns) s2"
proof -
  have "tmp_only s s2" using assms tmp_only_trans by (auto simp: dropped_def)
  moreover have "tmp_refs s2 m = tmp_refs s m - tmp_cache.occurs m (ms @ ns)" for m
    using assms by (simp add: dropped_def)
  moreover have "tmp_content s2 m = (if tmp_cache.occurs m (ms @ ns) < tmp_refs s m then tmp_content s m else None)" for m
    using assms by (auto simp: dropped_def)
  ultimately show ?thesis using assms(2) by (simp add: dropped_def)
qed

lemma RefFlushChunk_dropped:
  assumes "tmp_inv s" "0 < tmp_refs s n"
  shows "\<exists>s'. RefFlushChunk s n = Inr s' \<and> dropped s [n] s'"
proof -
  from tmp_cache.flush_ok[OF assms] obtain s' where s': "RefFlushChunk s n = Inr s'" "tmp_inv s'"
    "\<forall>m. tmp_refs s' m = tmp_refs s m - (if take SHA1_LEN m = take SHA1_LEN n then 1 else 0)"
    "\<forall>m. tmp_content s' m = (if take SHA1_LEN m = take SHA1_LEN n \<and> tmp_refs s n = 1 then None else tmp_content s m)"
    by blast
  have "tmp_content s' m = (if tmp_cache.occurs m [n] < tmp_refs s m then tmp_content s m else None)" for m
    using s'(4) assms(2) tmp_cache.refs_name[OF assms(1), of m n] tmp_cache.content_refs[OF assms(1), of m] by auto
  with s' tmp_only_op(1)[OF s'(1)] show ?thesis by (simp add: dropped_def)
qed

lemma dropped_bytes:
  assumes "dropped s ms s'" "\<forall>w \<in> set ws. tmp_cache.occurs (cni_sha1 w) ms < tmp_refs s (cni_sha1 w)"
  shows "chunk_bytes s' ws = chunk_bytes s ws"
proof -
  have "map (\<lambda>w. case tmp_content s' (cni_sha1 w) of None \<Rightarrow> [] | Some b \<Rightarrow> b) ws =
      map (\<lambda>w. case tmp_content s (cni_sha1 w) of None \<Rightarrow> [] | Some b \<Rightarrow> b) ws"
    using assms by (intro map_cong refl) (simp add: dropped_def)
  then show ?thesis unfolding chunk_bytes_def by (rule arg_cong)
qed

lemma dropped_lengths: "dropped s ms s' \<Longrightarrow> lengths_ok s ws \<Longrightarrow> lengths_ok s' ws"
  by (auto simp: dropped_def lengths_ok_def split: if_splits)

lemma held_occurs: "held s (ms @ ns) \<Longrightarrow> n \<in> set ns \<Longrightarrow> tmp_cache.occurs n ms < tmp_refs s n"
proof -
  assume h: "held s (ms @ ns)" and n: "n \<in> set ns"
  then have "0 < tmp_cache.occurs n ns" by force
  moreover have "tmp_cache.occurs n ms + tmp_cache.occurs n ns \<le> tmp_refs s n" using h[unfolded held_def, rule_format, of n] by simp
  ultimately show ?thesis by linarith
qed

lemma collect_names_ok:
  assumes "tmp_inv s" "held s (names_of ws)" "lengths_ok s ws"
  shows "\<exists>s'. collect_names s u ws buf = Inr (s', u\<lparr>uc_pendingNames := uc_pendingNames u - of_nat (length ws),
      uc_pendingBytes := uc_pendingBytes u - of_nat (length (chunk_bytes s ws))\<rparr>, buf @ chunk_bytes s ws) \<and>
    dropped s (names_of ws) s'"
  using assms
proof (induction ws arbitrary: s u buf)
  case Nil
  then show ?case by (auto simp: chunk_bytes_def dropped_Nil)
next
  case (Cons w ws)
  let ?n = "cni_sha1 w"
  have h: "held s (names_of [w] @ names_of ws)" using Cons.prems(2) by simp
  have r: "0 < tmp_refs s ?n" using held_occurs[of s "[]" "names_of (w # ws)" ?n] Cons.prems(2) by simp
  then obtain v where v: "SearchCache s ?n = Some v" by (auto simp: tmp_refs_def split: option.splits)
  have len: "length (pBlock v) = block_length v" using Cons.prems(1) v by (auto simp: tmp_inv_def SearchCache_def)
  have c: "tmp_content s ?n = Some (pBlock v)" using v by (simp add: tmp_content_def)
  have wl: "block_length v = unat (cni_length w)" using Cons.prems(3) c len by (auto simp: lengths_ok_def)
  from RefFlushChunk_dropped[OF Cons.prems(1) r] obtain s1 where s1: "RefFlushChunk s ?n = Inr s1" "dropped s [?n] s1" by blast
  have t1: "tmp_inv s1" using s1(2) by (simp add: dropped_def)
  have h1: "held s1 (names_of ws)"
    unfolding held_def
  proof
    fix m show "tmp_cache.occurs m (names_of ws) \<le> tmp_refs s1 m"
      using s1(2) Cons.prems(2)[unfolded held_def, rule_format, of m] by (auto simp: dropped_def split: if_splits)
  qed
  have cb: "chunk_bytes s1 ws = chunk_bytes s ws"
    by (rule dropped_bytes[OF s1(2)]) (use held_occurs[OF h] in auto)
  have l1: "lengths_ok s1 ws" using dropped_lengths[OF s1(2), of ws] Cons.prems(3) by (simp add: lengths_ok_def)
  let ?u = "u\<lparr>uc_pendingNames := uc_pendingNames u - 1, uc_pendingBytes := uc_pendingBytes u - of_nat (block_length v)\<rparr>"
  from Cons.IH[OF t1 h1 l1, of ?u "buf @ pBlock v"] obtain s2 where
    s2: "collect_names s1 ?u ws (buf @ pBlock v) = Inr (s2, ?u\<lparr>uc_pendingNames := uc_pendingNames ?u - of_nat (length ws),
      uc_pendingBytes := uc_pendingBytes ?u - of_nat (length (chunk_bytes s1 ws))\<rparr>, (buf @ pBlock v) @ chunk_bytes s1 ws)"
      "dropped s1 (names_of ws) s2" by blast
  have b: "chunk_bytes s (w # ws) = pBlock v @ chunk_bytes s ws" using c by (simp add: chunk_bytes_def)
  have "dropped s (names_of (w # ws)) s2" using dropped_append[OF s1(2) s2(2)] by simp
  moreover have "collect_names s u (w # ws) buf = collect_names s1 ?u ws (buf @ pBlock v)"
    using v wl s1(1) by simp
  ultimately show ?case using s2(1) cb len by (simp add: b diff_diff_eq)
qed

section \<open>Reconstructing blocks\<close>

lemma dropped_same:
  assumes "tmp_inv s'" "tmp_only s s'" "SearchCache s' = SearchCache s"
  shows "dropped s [] s'"
proof -
  have same: "tmp_refs s' m = tmp_refs s m" "tmp_content s' m = tmp_content s m" for m
    using assms(3) by (simp_all add: tmp_refs_def tmp_content_def)
  have "tmp_content s' m = (if 0 < tmp_refs s m then tmp_content s m else None)" for m
    using tmp_cache.content_refs[OF assms(1), of m] same[of m] by auto
  then show ?thesis using assms(1,2) same(1) by (simp add: dropped_def)
qed

lemma dropped_held: "dropped s [] s' \<Longrightarrow> held s' = held s"
  by (simp add: dropped_def held_def fun_eq_iff)

definition block_len :: "ReassembleInfo \<Rightarrow> nat" where
  "block_len ri = sum_list (map (\<lambda>w. unat (cni_length w)) (ri_nameList ri))"

lemma chunk_bytes_length:
  assumes "tmp_inv s" "held s (names_of ws)" "lengths_ok s ws"
  shows "length (chunk_bytes s ws) = sum_list (map (\<lambda>w. unat (cni_length w)) ws)" "ws \<noteq> [] \<Longrightarrow> chunk_bytes s ws \<noteq> []"
proof -
  have c: "\<exists>b. tmp_content s (cni_sha1 w) = Some b \<and> length b = unat (cni_length w) \<and> b \<noteq> []" if "w \<in> set ws" for w
  proof -
    have "0 < tmp_refs s (cni_sha1 w)" using held_occurs[of s "[]" "names_of ws" "cni_sha1 w"] assms(2) that by simp
    then obtain v where v: "SearchCache s (cni_sha1 w) = Some v" by (auto simp: tmp_refs_def split: option.splits)
    then have "pBlock v \<noteq> []" using assms(1) by (fastforce simp: tmp_inv_def SearchCache_def)
    then show ?thesis using v assms(3) that by (auto simp: lengths_ok_def tmp_content_def)
  qed
  then have "\<forall>w \<in> set ws. \<exists>b. tmp_content s (cni_sha1 w) = Some b \<and> length b = unat (cni_length w) \<and> b \<noteq> []" by blast
  then show "length (chunk_bytes s ws) = sum_list (map (\<lambda>w. unat (cni_length w)) ws)"
    by (induction ws) (auto simp: chunk_bytes_def)
  show "chunk_bytes s ws \<noteq> []" if "ws \<noteq> []"
    using c[of "hd ws"] that by (cases ws) (auto simp: chunk_bytes_def)
qed

definition put_only :: "proxy \<Rightarrow> proxy \<Rightarrow> bool" where
  "put_only px px' \<longleftrightarrow> px' = px\<lparr>g_PutMessageList := g_PutMessageList px', g_NumPutMessages := g_NumPutMessages px',
     g_CurPutQueueSize := g_CurPutQueueSize px', g_TotalPutDiscarded := g_TotalPutDiscarded px'\<rparr>"

lemma put_only_refl [simp]: "put_only px px"
  by (simp add: put_only_def)

lemma put_only_facts:
  assumes "put_only px px'"
  shows "px_conns px' = px_conns px" "px_cache px' = px_cache px" "g_NumDeadConns px' = g_NumDeadConns px"
  by (subst assms[unfolded put_only_def], simp)+

lemma QueuePutMessage_ok: "\<exists>px'. QueuePutMessage st px buffer dst seq ri = Inr px' \<and> put_only px px'"
  unfolding QueuePutMessage_def Let_def by (auto simp: put_only_def not_less)

definition ready_block :: "cache \<Rightarrow> ReassembleInfo \<Rightarrow> bool" where
  "ready_block s ri \<longleftrightarrow> ri_getSent ri \<and> ri_nameList ri \<noteq> [] \<and> held s (names_of (ri_nameList ri))"

definition after_block :: "proxy \<Rightarrow> ConnectionInfo \<Rightarrow> UserConnectionInfo \<Rightarrow> sha1 list \<Rightarrow> byte list \<Rightarrow>
    proxy \<Rightarrow> ConnectionInfo \<Rightarrow> UserConnectionInfo \<Rightarrow> bool" where
  "after_block px ci u ns bs px' ci' u' \<longleftrightarrow> user_ok px' ci' u' \<and> same_conn ci ci' \<and> stream ci' = stream ci @ bs \<and>
     completed ci \<le> completed ci' \<and> dropped (px_cache px) ns (px_cache px') \<and> px_conns px' = px_conns px \<and>
     uc_maxWindowSize u' = uc_maxWindowSize u \<and> uc_closeBytes u' = uc_closeBytes u"

lemma ReconstructOneChunkTree_ok:
  assumes "user_ok px ci u" "tmp_inv (px_cache px)" "ri_source ri = ci_fd ci" "lengths_ok (px_cache px) (ri_nameList ri)"
    and "block_len ri \<le> MAX_CHUNK_SIZE" "ci_lenWrite ci + int (block_len ri) < uint (uc_maxWindowSize u * 2)"
  shows "\<exists>px' ci' u'. ReconstructOneChunkTree st px ci ri = Inr (px', ci', ready_block (px_cache px) ri) \<and>
    (if ready_block (px_cache px) ri
     then after_block px ci u (names_of (ri_nameList ri)) (chunk_bytes (px_cache px) (ri_nameList ri)) px' ci' u'
     else after_block px ci u [] [] px' ci' u' \<and> ci' = ci) \<and> uc_reassembleList u' = uc_reassembleList u"
proof -
  let ?s = "px_cache px" and ?ws = "ri_nameList ri"
  have stub: "ci_stub ci = UserStub u" using assms(1) by (simp add: user_ok_def user_conn_def)
  have keep: "after_block px ci u [] [] (px\<lparr>px_cache := s\<rparr>) ci u" if "dropped ?s [] s" for s
    using that assms(1) by (simp add: after_block_def user_ok_def user_conn_def)
  show ?thesis
  proof (cases "ri_getSent ri \<and> ?ws \<noteq> []")
    case False
    then have "ReconstructOneChunkTree st px ci ri = Inr (px\<lparr>px_cache := ?s\<rparr>, ci, False)" "\<not> ready_block ?s ri"
      using stub assms(3) by (auto simp: ReconstructOneChunkTree_def ready_block_def)
    with keep[OF dropped_Nil[OF assms(2)]] show ?thesis by fastforce
  next
    case True
    from CheckOneChunkTree_ok[OF assms(2), of ri] obtain s1 where
      c: "CheckOneChunkTree ?s ri = Inr (s1, if held ?s (names_of ?ws) then length (chunk_bytes ?s ?ws) else 0)"
        "tmp_inv s1" "SearchCache s1 = SearchCache ?s" "tmp_only ?s s1" by blast
    have d1: "dropped ?s [] s1" by (rule dropped_same[OF c(2,4,3)])
    show ?thesis
    proof (cases "held ?s (names_of ?ws)")
      case False
      then have "ReconstructOneChunkTree st px ci ri = Inr (px\<lparr>px_cache := s1\<rparr>, ci, False)" "\<not> ready_block ?s ri"
        using stub assms(3) c(1) True by (auto simp: ReconstructOneChunkTree_def ready_block_def Let_def)
      with keep[OF d1] show ?thesis by fastforce
    next
      case held: True
      let ?bs = "chunk_bytes ?s ?ws"
      note bs = chunk_bytes_length[OF assms(2) held assms(4)]
      have bs1: "chunk_bytes s1 ?ws = ?bs"
        by (simp add: chunk_bytes_def tmp_content_def c(3))
      from collect_names_ok[OF c(2), of ?ws u "[]"] held dropped_held[OF d1] dropped_lengths[OF d1 assms(4)] bs1 obtain s2 where
        s2: "collect_names s1 u ?ws [] = Inr (s2, u\<lparr>uc_pendingNames := uc_pendingNames u - of_nat (length ?ws),
          uc_pendingBytes := uc_pendingBytes u - of_nat (length ?bs)\<rparr>, ?bs)" (is "_ = Inr (_, ?u2, _)")
          "dropped s1 (names_of ?ws) s2" by auto
      have len: "length ?bs \<le> MAX_CHUNK_SIZE" using assms(5) bs(1) by (simp add: block_len_def)
      let ?px2 = "px\<lparr>px_cache := s2\<rparr>" and ?ci2 = "ci\<lparr>ci_stub := UserStub ?u2\<rparr>"
      obtain px3 where
        q: "(if \<not> g_NoCache st \<and> ((g_ClientChunking st \<and> \<not> uc_isForward ?u2) \<or> (g_ServerChunking st \<and> uc_isForward ?u2))
             then QueuePutMessage st ?px2 ?bs (uc_dstPxyIdx ?u2) (uc_seq_no ?u2) (Some ri) else Inr ?px2) = Inr px3"
          and px3: "put_only ?px2 px3"
        using QueuePutMessage_ok[of st ?px2 ?bs "uc_dstPxyIdx ?u2" "uc_seq_no ?u2" "Some ri"] put_only_refl[of ?px2] by metis
      have same3: "px_conns px3 = px_conns px" "px_cache px3 = s2" "g_NumDeadConns px3 = g_NumDeadConns px"
        using put_only_facts[OF px3] by simp_all
      have q2: "queue_ok ?ci2 = queue_ok ci" "stream ?ci2 = stream ci" "completed ?ci2 = completed ci" by (rule queue_same; simp)+
      have ok3: "user_ok px3 ?ci2 ?u2" using assms(1) same3(1,3) q2 by (simp add: user_ok_def user_conn_def)
      have "ci_lenWrite ?ci2 + int (length ?bs) < uint (uc_maxWindowSize ?u2 * 2)" using assms(6) bs(1) by (simp add: block_len_def)
      from SendData_ok[OF ok3 bs(2) this] True obtain px4 ci4 u4 where
        s4: "SendData px3 ?ci2 ?bs = Inr (px4, ci4)" "stream ci4 = stream ?ci2 @ ?bs" "acked_write px3 ?ci2 ?u2 px4 ci4 u4" by blast
      have rx: "rx_only ?u2 u4" "io_only px3 px4" "completed ?ci2 \<le> completed ci4" "same_conn ?ci2 ci4" using s4(3) by (simp_all add: acked_write_def)
      have "dropped ?s (names_of ?ws) s2" using dropped_append[OF d1 s2(2)] by simp
      then have "after_block px ci u (names_of ?ws) ?bs px4 ci4 u4"
        using acked_user_ok[OF ok3 s4(3)] rx(3,4) rx_only_facts[OF rx(1)] io_only_facts(1,2)[OF rx(2)] same3 s4(2) q2
        by (simp add: after_block_def same_conn_def)
      moreover have "ReconstructOneChunkTree st px ci ri = Inr (px4, ci4, True)"
        unfolding ReconstructOneChunkTree_def
        using stub assms(3) True held c(1) s2(1) q s4(1) len bs(2) by (simp add: Let_def)
      moreover have "uc_reassembleList u4 = uc_reassembleList u" using rx_only_facts(6)[OF rx(1)] by simp
      ultimately show ?thesis using True held by (auto simp: ready_block_def)
    qed
  qed
qed

text \<open>
  The blocks that can be delivered: from the oldest on, as long as the references that the earlier
  ones leave are enough.
\<close>

fun ready :: "(sha1 \<Rightarrow> nat) \<Rightarrow> ReassembleInfo list \<Rightarrow> ReassembleInfo list" where
  "ready r [] = []"
| "ready r (ri # rl) =
     (let ns = names_of (ri_nameList ri) in
      if ri_getSent ri \<and> ns \<noteq> [] \<and> (\<forall>n \<in> set ns. tmp_cache.occurs n ns \<le> r n)
      then ri # ready (\<lambda>m. r m - tmp_cache.occurs m ns) rl else [])"

lemma held_members:
  assumes "tmp_inv s"
  shows "held s ns \<longleftrightarrow> (\<forall>n \<in> set ns. tmp_cache.occurs n ns \<le> tmp_refs s n)"
proof
  assume h: "\<forall>n \<in> set ns. tmp_cache.occurs n ns \<le> tmp_refs s n"
  have "tmp_cache.occurs m ns \<le> tmp_refs s m" for m
  proof (cases "take SHA1_LEN m \<in> take SHA1_LEN ` set ns")
    case True
    then obtain n where n: "n \<in> set ns" "take SHA1_LEN m = take SHA1_LEN n" by blast
    then show ?thesis using h tmp_cache.refs_name[OF assms n(2)] by auto
  next
    case False
    then have "tmp_cache.occurs m ns = 0" by (simp add: count_eq_zero_iff)
    then show ?thesis by linarith
  qed
  then show "held s ns" by (simp add: held_def)
qed (simp add: held_def)

lemma ready_cons: "tmp_inv s \<Longrightarrow> ready (tmp_refs s) (ri # rl) =
    (if ready_block s ri then ri # ready (\<lambda>m. tmp_refs s m - tmp_cache.occurs m (names_of (ri_nameList ri))) rl else [])"
  by (simp only: ready.simps Let_def ready_block_def held_members map_is_Nil_conv)

lemma ready_positive: "ri \<in> set (ready r rl) \<Longrightarrow> w \<in> set (ri_nameList ri) \<Longrightarrow> 0 < r (cni_sha1 w)"
proof (induction r rl rule: ready.induct)
  case (2 r x rl)
  let ?ns = "names_of (ri_nameList x)"
  show ?case
  proof (cases "ri = x")
    case True
    then have "tmp_cache.occurs (cni_sha1 w) ?ns \<le> r (cni_sha1 w)" "cni_sha1 w \<in> set ?ns"
      using 2(2,3) by (auto simp: Let_def multiset.map_comp comp_def split: if_splits)
    moreover from this(2) have "0 < tmp_cache.occurs (cni_sha1 w) ?ns" by force
    ultimately show ?thesis by linarith
  next
    case False
    then have c: "ri_getSent x \<and> ?ns \<noteq> [] \<and> (\<forall>n \<in> set ?ns. tmp_cache.occurs n ?ns \<le> r n)"
      "ri \<in> set (ready (\<lambda>m. r m - tmp_cache.occurs m ?ns) rl)"
      using 2(2) by (simp_all only: ready.simps Let_def split: if_splits) simp_all
    from "2.IH"[OF refl c 2(3)] show ?thesis by (simp only: zero_less_diff)
  qed
qed simp

text \<open>The bytes and the names of the blocks that can be delivered.\<close>

definition ready_bytes :: "cache \<Rightarrow> ReassembleInfo list \<Rightarrow> byte list" where
  "ready_bytes s rl = concat (map (\<lambda>ri. chunk_bytes s (ri_nameList ri)) (ready (tmp_refs s) rl))"

definition ready_names :: "cache \<Rightarrow> ReassembleInfo list \<Rightarrow> sha1 list" where
  "ready_names s rl = concat (map (\<lambda>ri. names_of (ri_nameList ri)) (ready (tmp_refs s) rl))"

lemma ready_step:
  assumes "tmp_inv s" "ready_block s ri" "dropped s (names_of (ri_nameList ri)) s1"
  shows "ready (tmp_refs s) (ri # rl) = ri # ready (tmp_refs s1) rl"
    "ready_bytes s (ri # rl) = chunk_bytes s (ri_nameList ri) @ ready_bytes s1 rl"
    "ready_names s (ri # rl) = names_of (ri_nameList ri) @ ready_names s1 rl"
proof -
  have "tmp_refs s1 = (\<lambda>m. tmp_refs s m - tmp_cache.occurs m (names_of (ri_nameList ri)))"
    using assms(3) by (simp add: dropped_def fun_eq_iff)
  then show r: "ready (tmp_refs s) (ri # rl) = ri # ready (tmp_refs s1) rl"
    using ready_cons[OF assms(1)] assms(2) by simp
  show "ready_names s (ri # rl) = names_of (ri_nameList ri) @ ready_names s1 rl"
    unfolding ready_names_def r by (simp only: list.map concat.simps)
  have "chunk_bytes s1 (ri_nameList x) = chunk_bytes s (ri_nameList x)" if "x \<in> set (ready (tmp_refs s1) rl)" for x
  proof (rule dropped_bytes[OF assms(3)], rule ballI)
    fix w assume "w \<in> set (ri_nameList x)"
    from ready_positive[OF that this] show "tmp_cache.occurs (cni_sha1 w) (names_of (ri_nameList ri)) < tmp_refs s (cni_sha1 w)"
      using assms(3) by (simp add: dropped_def)
  qed
  then have "map (\<lambda>ri. chunk_bytes s (ri_nameList ri)) (ready (tmp_refs s1) rl) =
      map (\<lambda>ri. chunk_bytes s1 (ri_nameList ri)) (ready (tmp_refs s1) rl)" by simp
  then show "ready_bytes s (ri # rl) = chunk_bytes s (ri_nameList ri) @ ready_bytes s1 rl"
    unfolding ready_bytes_def r by (simp only: list.map concat.simps)
qed

text \<open>A block that the code can take: of this connection, with correct lengths and not too long.\<close>

definition block_ok :: "cache \<Rightarrow> nat \<Rightarrow> ReassembleInfo \<Rightarrow> bool" where
  "block_ok s fd ri \<longleftrightarrow> ri_source ri = fd \<and> lengths_ok s (ri_nameList ri) \<and> block_len ri \<le> MAX_CHUNK_SIZE"

lemma reconstruct_loop_ok:
  assumes "user_ok px ci u" "tmp_inv (px_cache px)" "uc_reassembleList u = rl" "list_all (block_ok (px_cache px) (ci_fd ci)) rl"
    and "ci_lenWrite ci + int (sum_list (map block_len rl)) < uint (uc_maxWindowSize u * 2)"
  shows "\<exists>px' ci' u'. reconstruct_loop st px ci rl = Inr (px', ci') \<and>
    after_block px ci u (ready_names (px_cache px) rl) (ready_bytes (px_cache px) rl) px' ci' u' \<and>
    uc_reassembleList u' = drop (length (ready (tmp_refs (px_cache px)) rl)) rl"
  using assms
proof (induction rl arbitrary: px ci u)
  case Nil
  then show ?case by (auto simp: after_block_def ready_names_def ready_bytes_def dropped_Nil)
next
  case (Cons ri rl)
  let ?s = "px_cache px" and ?ws = "ri_nameList ri"
  from Cons.prems(4) have b: "ri_source ri = ci_fd ci" "lengths_ok ?s ?ws" "block_len ri \<le> MAX_CHUNK_SIZE"
    "list_all (block_ok ?s (ci_fd ci)) rl" by (auto simp: list_all_iff block_ok_def)
  have "ci_lenWrite ci + int (block_len ri) < uint (uc_maxWindowSize u * 2)" using Cons.prems(5) by simp
  from ReconstructOneChunkTree_ok[OF Cons.prems(1,2) b(1-3) this, of st] obtain px1 ci1 u1 where
    o: "ReconstructOneChunkTree st px ci ri = Inr (px1, ci1, ready_block ?s ri)"
      "if ready_block ?s ri then after_block px ci u (names_of ?ws) (chunk_bytes ?s ?ws) px1 ci1 u1
       else after_block px ci u [] [] px1 ci1 u1 \<and> ci1 = ci" "uc_reassembleList u1 = uc_reassembleList u" by blast
  show ?case
  proof (cases "ready_block ?s ri")
    case False
    then have e: "ready (tmp_refs ?s) (ri # rl) = []" using ready_cons[OF Cons.prems(2)] by simp
    from False o Cons.prems(3) show ?thesis by (simp add: ready_names_def ready_bytes_def e del: ready.simps) blast
  next
    case True
    with o(2) have a: "user_ok px1 ci1 u1" "same_conn ci ci1" "stream ci1 = stream ci @ chunk_bytes ?s ?ws"
      "completed ci \<le> completed ci1" "dropped ?s (names_of ?ws) (px_cache px1)" "px_conns px1 = px_conns px"
      "uc_maxWindowSize u1 = uc_maxWindowSize u" "uc_closeBytes u1 = uc_closeBytes u" by (simp_all add: after_block_def)
    let ?u2 = "u1\<lparr>uc_reassembleList := rl\<rparr>"
    let ?ci2 = "ci1\<lparr>ci_stub := UserStub ?u2\<rparr>"
    have q: "queue_ok ?ci2 = queue_ok ci1" "stream ?ci2 = stream ci1" "completed ?ci2 = completed ci1" by (rule queue_same; simp)+
    have ok2: "user_ok px1 ?ci2 ?u2" using a(1) q by (simp add: user_ok_def user_conn_def)
    have t1: "tmp_inv (px_cache px1)" using a(5) by (simp add: dropped_def)
    have fd: "ci_fd ci1 = ci_fd ci" using a(2) by (simp add: same_conn_def)
    have b1: "list_all (block_ok (px_cache px1) (ci_fd ?ci2)) rl"
      using b(4) dropped_lengths[OF a(5)] fd by (auto simp: list_all_iff block_ok_def)
    have "length (chunk_bytes ?s ?ws) = block_len ri"
      using chunk_bytes_length(1)[OF Cons.prems(2) _ b(2)] True by (simp add: ready_block_def block_len_def)
    then have "ci_lenWrite ?ci2 \<le> ci_lenWrite ci + int (block_len ri)"
      using lenWrite_stream[of ?ci2] lenWrite_stream[of ci] q a(1,3,4) Cons.prems(1) by (simp add: user_ok_def)
    then have w1: "ci_lenWrite ?ci2 + int (sum_list (map block_len rl)) < uint (uc_maxWindowSize ?u2 * 2)"
      using Cons.prems(5) a(7) by simp
    from Cons.IH[OF ok2 t1 _ b1 w1] obtain px' ci' u' where
      i: "reconstruct_loop st px1 ?ci2 rl = Inr (px', ci')"
        "after_block px1 ?ci2 ?u2 (ready_names (px_cache px1) rl) (ready_bytes (px_cache px1) rl) px' ci' u'"
        "uc_reassembleList u' = drop (length (ready (tmp_refs (px_cache px1)) rl)) rl" by auto
    note rs = ready_step[OF Cons.prems(2) True a(5), of rl]
    have stub: "ci_stub ci1 = UserStub u1" using a(1) by (simp add: user_ok_def user_conn_def)
    have "after_block px ci u (ready_names ?s (ri # rl)) (ready_bytes ?s (ri # rl)) px' ci' u'"
      using i(2) a dropped_append[OF a(5)] q unfolding rs(2,3) by (simp add: after_block_def same_conn_def)
    moreover have "reconstruct_loop st px ci (ri # rl) = Inr (px', ci')"
      using o(1) i(1) stub True by (simp add: on_user_def DestroyReassembleInfo_def ready_block_def)
    ultimately show ?thesis using i(3) unfolding rs(1) by auto
  qed
qed

definition reconstructed :: "proxy \<Rightarrow> ConnectionInfo \<Rightarrow> ReassembleInfo list \<Rightarrow> proxy \<Rightarrow> ConnectionInfo \<Rightarrow> UserConnectionInfo \<Rightarrow> bool" where
  "reconstructed px ci rl px' ci' u' \<longleftrightarrow> user_ok px' ci' u' \<and> stream ci' = stream ci @ ready_bytes (px_cache px) rl \<and>
     uc_reassembleList u' = drop (length (ready (tmp_refs (px_cache px)) rl)) rl \<and>
     dropped (px_cache px) (ready_names (px_cache px) rl) (px_cache px') \<and>
     (uc_closeBytes u' \<noteq> 0 \<and> uc_bytesRX u' = uc_closeBytes u' \<longrightarrow> ci_status ci' = cs_closed)"

lemma ReconstructOriginalData_ok:
  assumes "user_ok px ci u" "tmp_inv (px_cache px)" "list_all (block_ok (px_cache px) (ci_fd ci)) (uc_reassembleList u)"
    and "ci_lenWrite ci + int (sum_list (map block_len (uc_reassembleList u))) < uint (uc_maxWindowSize u * 2)"
  shows "\<exists>px' ci' u'. ReconstructOriginalData st px ci = Inr (px', ci') \<and> reconstructed px ci (uc_reassembleList u) px' ci' u'"
proof -
  from reconstruct_loop_ok[OF assms(1,2) refl assms(3,4), of st] obtain px1 ci1 u1 where
    l: "reconstruct_loop st px ci (uc_reassembleList u) = Inr (px1, ci1)"
      "after_block px ci u (ready_names (px_cache px) (uc_reassembleList u)) (ready_bytes (px_cache px) (uc_reassembleList u)) px1 ci1 u1"
      "uc_reassembleList u1 = drop (length (ready (tmp_refs (px_cache px)) (uc_reassembleList u))) (uc_reassembleList u)" by blast
  have u: "ci_type ci = ct_user" "ci_stub ci = UserStub u" using assms(1) by (simp_all add: user_ok_def user_conn_def)
  have ok: "user_ok px1 ci1 u1" using l(2) by (simp add: after_block_def)
  then have u1: "user_conn px1 ci1 u1" "ci_stub ci1 = UserStub u1" by (simp_all add: user_ok_def user_conn_def)
  let ?close = "uc_closeBytes u1 \<noteq> 0 \<and> uc_bytesRX u1 = uc_closeBytes u1"
  have R: "ReconstructOriginalData st px ci = (if ?close then SetDead px1 ci1 False else Inr (px1, ci1))"
    using u l(1) u1(2) by (simp add: ReconstructOriginalData_def)
  show ?thesis
  proof (cases "?close \<and> ci_status ci1 \<noteq> cs_closed")
    case True
    from SetDead_ok[OF u1(1), of False] True obtain ml where
      d: "SetDead px1 ci1 False = Inr (px1\<lparr>g_DeadConnList := g_DeadConnList px1 @ [ci_fd ci1], g_NumDeadConns := g_NumDeadConns px1 + 1\<rparr>,
        ci1\<lparr>ci_status := cs_closed, ci_isAbnormal := False, ci_stub := UserStub (u1\<lparr>uc_controlMsgList := ml\<rparr>)\<rparr>)"
        (is "_ = Inr (?px2, ?ci2)") by blast
    have q: "queue_ok ?ci2 = queue_ok ci1" "stream ?ci2 = stream ci1" by (rule queue_same; simp)+
    have "user_ok ?px2 ?ci2 (u1\<lparr>uc_controlMsgList := ml\<rparr>)" using ok q by (simp add: user_ok_def user_conn_def)
    then have "reconstructed px ci (uc_reassembleList u) ?px2 ?ci2 (u1\<lparr>uc_controlMsgList := ml\<rparr>)"
      using l(2,3) q by (simp add: reconstructed_def after_block_def)
    with R d True show ?thesis by auto
  next
    case False
    have "SetDead px1 ci1 False = Inr (px1, ci1)" if "ci_status ci1 = cs_closed"
      using that u1(1) by (simp add: SetDead_def user_conn_def)
    with R False have "ReconstructOriginalData st px ci = Inr (px1, ci1)" by auto
    moreover have "reconstructed px ci (uc_reassembleList u) px1 ci1 u1"
      using l(2,3) False by (auto simp: reconstructed_def after_block_def)
    ultimately show ?thesis by blast
  qed
qed

section \<open>Receiving names\<close>

text \<open>What receiving names changes of the proxy and of the user data.\<close>

definition recv_only :: "proxy \<Rightarrow> proxy \<Rightarrow> bool" where
  "recv_only px px' \<longleftrightarrow> px' = px\<lparr>px_cache := px_cache px', g_Hits := g_Hits px', g_Misses := g_Misses px',
     g_TryReconstruction := g_TryReconstruction px', g_NewPeekUpdate := g_NewPeekUpdate px'\<rparr>"

lemma recv_only_ex: "recv_only px px' \<longleftrightarrow>
    (\<exists>c h m t n. px' = px\<lparr>px_cache := c, g_Hits := h, g_Misses := m, g_TryReconstruction := t, g_NewPeekUpdate := n\<rparr>)"
  unfolding recv_only_def by (rule iffI, blast) auto

lemma recv_only_trans: "recv_only px1 px2 \<Longrightarrow> recv_only px2 px3 \<Longrightarrow> recv_only px1 px3"
  unfolding recv_only_ex[of px1] recv_only_ex[of px2] by (elim exE) (simp, blast)

definition names_only :: "UserConnectionInfo \<Rightarrow> UserConnectionInfo \<Rightarrow> bool" where
  "names_only u u' \<longleftrightarrow> u' = u\<lparr>uc_pendingNames := uc_pendingNames u', uc_pendingBytes := uc_pendingBytes u',
     uc_numHits := uc_numHits u', uc_hitBytes := uc_hitBytes u', uc_numMisses := uc_numMisses u', uc_missBytes := uc_missBytes u'\<rparr>"

lemma names_only_ex: "names_only u u' \<longleftrightarrow>
    (\<exists>a b c d e f. u' = u\<lparr>uc_pendingNames := a, uc_pendingBytes := b, uc_numHits := c, uc_hitBytes := d, uc_numMisses := e, uc_missBytes := f\<rparr>)"
  unfolding names_only_def by (rule iffI, blast) auto

lemma names_only_trans: "names_only u1 u2 \<Longrightarrow> names_only u2 u3 \<Longrightarrow> names_only u1 u3"
  unfolding names_only_ex[of u1] names_only_ex[of u2] by (elim exE) (simp, blast)

text \<open>The entry a name becomes, and the chunks that come with a list of names.\<close>

definition cni_of :: "WAOneChunk \<Rightarrow> int \<Rightarrow> ChunkNameInfo" where
  "cni_of ck idx = \<lparr>cni_isHit = True, cni_inMemory = ck_hasContent ck, cni_length = ck_length ck, cni_peerIdx = idx,
     cni_isNetwork = False, cni_sha1 = ck_sha1 ck\<rparr>"

definition carried :: "WAOneChunk list \<Rightarrow> (sha1 \<times> byte list) list" where
  "carried cks = map (\<lambda>ck. (ck_sha1 ck, ck_content ck)) (filter ck_hasContent cks)"

abbreviation put_carried :: "WAOneChunk list \<Rightarrow> cache \<Rightarrow> cache res" where
  "put_carried cks \<equiv> rfold (\<lambda>(n, b) s. RefPutChunkCallback s n b) (carried cks)"

definition recv_ok :: "WAOneChunk \<Rightarrow> bool" where
  "recv_ok ck \<longleftrightarrow> ok_chunk ck \<and> 0 < ck_length ck \<and> unat (ck_length ck) \<le> MAX_CHUNK_SIZE"

definition peers_live :: "proxy \<Rightarrow> bool" where
  "peers_live px \<longleftrightarrow> peers_ok (px_peers px) \<and> g_LocalInfo (px_peers px) \<noteq> None \<and> remote (px_peers px) \<noteq> {}"

lemma pick_live:
  assumes "peers_live px"
  obtains i where "PickPeerToRedirect rotl (px_peers px) name = Inr (int i)" "i \<in> remote (px_peers px)"
  using RhrwPickPeer_ok[where p = "px_peers px" and name = name and rotl = rotl] assms
  by (auto simp: peers_live_def PickPeerToRedirect_def)

lemma recv_name_ok:
  assumes "recv_ok ck" "ci_type ci = ct_user" "peers_live px" "tmp_inv (px_cache px)" "ri_numPeekResolved ri = ri_numNames ri"
  shows "\<exists>px' u' i. recv_name rotl ci ck px u ri = Inr (px', u', ri\<lparr>ri_numNames := ri_numNames ri + 1,
      ri_numPeekResolved := ri_numNames ri + 1, ri_nameList := ri_nameList ri @ [cni_of ck (int i)]\<rparr>) \<and>
    i \<in> remote (px_peers px) \<and> recv_only px px' \<and> names_only u u' \<and> put_carried [ck] (px_cache px) = Inr (px_cache px') \<and>
    uc_pendingNames u' = uc_pendingNames u + 1 \<and> uc_pendingBytes u' = uc_pendingBytes u + ck_length ck"
proof -
  obtain i where i: "PickPeerToRedirect rotl (px_peers px) (ck_sha1 ck) = Inr (int i)" "i \<in> remote (px_peers px)"
    using pick_live[OF assms(3)] by blast
  have ck: "length (ck_sha1 ck) = SHA1_LEN" "0 < ck_length ck"
    using assms(1) by (simp_all add: recv_ok_def ok_chunk_def)
  show ?thesis
  proof (cases "ck_hasContent ck")
    case False
    then show ?thesis using i ck assms(2,5)
      by (simp add: recv_name_def AppendChunkName_def UpdatePeekResult_def Let_def cni_of_def recv_only_def names_only_def carried_def)
        blast
  next
    case True
    then have b: "ck_content ck \<noteq> []" "length (ck_content ck) \<le> MAX_CHUNK_SIZE"
      using assms(1) by (auto simp: recv_ok_def ok_chunk_def word_gt_0 unat_eq_zero)
    from tmp_cache.put_ok[OF assms(4) b, of "ck_sha1 ck"] obtain c where "RefPutChunkCallback (px_cache px) (ck_sha1 ck) (ck_content ck) = Inr c" by blast
    with True i ck assms(2,5) show ?thesis
      by (simp add: recv_name_def AppendChunkName_def UpdatePeekResult_def Let_def cni_of_def recv_only_def names_only_def carried_def)
        blast
  qed
qed

lemma put_carried_ok:
  assumes "tmp_inv s" "\<forall>ck \<in> set cks. recv_ok ck"
  shows "\<exists>s'. put_carried cks s = Inr s' \<and> tmp_inv s' \<and> (\<forall>m. tmp_refs s' m = tmp_refs s m + tmp_cache.occurs m (map fst (carried cks))) \<and>
    (\<forall>m. 0 < tmp_refs s m \<longrightarrow> tmp_content s' m = tmp_content s m)"
proof (rule tmp_cache.put_all[OF assms(1)])
  show "\<forall>(n, b) \<in> set (carried cks). b \<noteq> [] \<and> length b \<le> MAX_CHUNK_SIZE"
    using assms(2) by (auto simp: carried_def recv_ok_def ok_chunk_def word_gt_0 unat_eq_zero)
qed

lemma recv_names_ok:
  assumes "\<forall>ck \<in> set cks. recv_ok ck" "ci_type ci = ct_user" "peers_live px" "tmp_inv (px_cache px)"
    and "ri_numPeekResolved ri = ri_numNames ri"
  shows "\<exists>px' u' js. recv_names rotl ci (length cks) (pre @ concat (map enc_chunk cks) @ rest) (length pre) px u ri =
      Inr (px', u', ri\<lparr>ri_numNames := ri_numNames ri + of_nat (length cks), ri_numPeekResolved := ri_numNames ri + of_nat (length cks),
        ri_nameList := ri_nameList ri @ map2 cni_of cks (map int js)\<rparr>, length pre + length (concat (map enc_chunk cks))) \<and>
    length js = length cks \<and> set js \<subseteq> remote (px_peers px) \<and> recv_only px px' \<and> names_only u u' \<and>
    put_carried cks (px_cache px) = Inr (px_cache px') \<and> uc_pendingNames u' = uc_pendingNames u + of_nat (length cks) \<and>
    uc_pendingBytes u' = uc_pendingBytes u + sum_list (map ck_length cks)"
  using assms
proof (induction cks arbitrary: pre px u ri)
  case Nil
  then show ?case by (auto simp: recv_only_def names_only_def carried_def)
next
  case (Cons ck cks)
  then have ck: "recv_ok ck" by simp
  then have okc: "ok_chunk ck" by (simp add: recv_ok_def)
  let ?rest = "concat (map enc_chunk cks) @ rest"
  let ?ri1 = "\<lambda>i. ri\<lparr>ri_numNames := ri_numNames ri + 1, ri_numPeekResolved := ri_numNames ri + 1, ri_nameList := ri_nameList ri @ [cni_of ck (int i)]\<rparr>"
  from recv_name_ok[OF ck Cons.prems(2-5), of rotl u] obtain px1 u1 i where
    o: "recv_name rotl ci ck px u ri = Inr (px1, u1, ?ri1 i)"
      "i \<in> remote (px_peers px)" "recv_only px px1" "names_only u u1" "put_carried [ck] (px_cache px) = Inr (px_cache px1)"
      "uc_pendingNames u1 = uc_pendingNames u + 1" "uc_pendingBytes u1 = uc_pendingBytes u + ck_length ck" by blast
  have peers: "px_peers px1 = px_peers px" using o(3) unfolding recv_only_ex by auto
  have live: "peers_live px1" using Cons.prems(3) peers by (simp add: peers_live_def)
  have inv: "tmp_inv (px_cache px1)" using put_carried_ok[OF Cons.prems(4), of "[ck]"] ck o(5) by auto
  have "\<forall>ck \<in> set cks. recv_ok ck" "ri_numPeekResolved (?ri1 i) = ri_numNames (?ri1 i)" using Cons.prems(1) by simp_all
  from Cons.IH[OF this(1) Cons.prems(2) live inv this(2), of "pre @ enc_chunk ck" u1] obtain px' u' js where
    r: "recv_names rotl ci (length cks) ((pre @ enc_chunk ck) @ ?rest) (length (pre @ enc_chunk ck)) px1 u1 (?ri1 i) =
      Inr (px', u', (?ri1 i)\<lparr>ri_numNames := ri_numNames (?ri1 i) + of_nat (length cks), ri_numPeekResolved := ri_numNames (?ri1 i) + of_nat (length cks),
        ri_nameList := ri_nameList (?ri1 i) @ map2 cni_of cks (map int js)\<rparr>, length (pre @ enc_chunk ck) + length (concat (map enc_chunk cks)))"
      "length js = length cks" "set js \<subseteq> remote (px_peers px1)" "recv_only px1 px'" "names_only u1 u'"
      "put_carried cks (px_cache px1) = Inr (px_cache px')" "uc_pendingNames u' = uc_pendingNames u1 + of_nat (length cks)"
      "uc_pendingBytes u' = uc_pendingBytes u1 + sum_list (map ck_length cks)" by blast
  have dec: "read_chunk (drop (length pre) (pre @ enc_chunk ck @ ?rest)) = (ck, length (enc_chunk ck))"
    using chunk_codec.dec_enc[OF okc, of ?rest] by simp
  have "sizeof_WAOneChunk \<le> length (enc_chunk ck)" using okc by (simp add: enc_chunk_def ok_chunk_def sizeof_defs SHA1_LEN_def)
  then have "recv_names rotl ci (length (ck # cks)) (pre @ concat (map enc_chunk (ck # cks)) @ rest) (length pre) px u ri =
      Inr (px', u', ri\<lparr>ri_numNames := ri_numNames ri + of_nat (length (ck # cks)), ri_numPeekResolved := ri_numNames ri + of_nat (length (ck # cks)),
        ri_nameList := ri_nameList ri @ map2 cni_of (ck # cks) (map int (i # js))\<rparr>, length pre + length (concat (map enc_chunk (ck # cks))))"
    using dec o(1) r(1) by (simp add: add.assoc)
  moreover have cons: "carried (ck # cks) = carried [ck] @ carried cks" by (simp add: carried_def)
  have "put_carried (ck # cks) (px_cache px) = Inr (px_cache px')"
    using o(5) r(6) unfolding cons by simp
  moreover have "length (i # js) = length (ck # cks)" "set (i # js) \<subseteq> remote (px_peers px)" using r(2,3) o(2) peers by simp_all
  moreover have "uc_pendingNames u' = uc_pendingNames u + of_nat (length (ck # cks))"
    "uc_pendingBytes u' = uc_pendingBytes u + sum_list (map ck_length (ck # cks))" using o(6,7) r(7,8) by simp_all
  ultimately show ?case using recv_only_trans[OF o(3) r(4)] names_only_trans[OF o(4) r(5)] by blast
qed

text \<open>A name delivery of the block \<open>psrc\<close> with the candidates \<open>cs\<close>, whose names are those of \<open>pNames\<close>.\<close>

definition delivery :: "ConnectionID \<Rightarrow> byte list \<Rightarrow> OneChunkName list \<Rightarrow> OneCandidate list \<Rightarrow> byte list \<Rightarrow> bool" where
  "delivery cid psrc pNames cs msg \<longleftrightarrow> ok_cid cid \<and> tiled 0 cs \<and>
     (\<forall>c \<in> set cs. ok_candidate pNames psrc c \<and> 0 < ca_length c \<and> ca_length c \<le> MAX_CHUNK_SIZE) \<and> length cs < 2 ^ 31 \<and>
     (\<exists>newmsg_len. BuildWANameTreeDelivery3 cid psrc pNames cs (of_nat (length cs)) newmsg_len = Inr msg) \<and> length msg < 2 ^ 31"

lemma sint_small: "unat (w :: u32) < 2 ^ 31 \<Longrightarrow> sint w = int (unat w)"
proof -
  assume a: "unat w < 2 ^ 31"
  have u: "int (unat w) = uint w" by simp
  then have "uint w < 2 ^ 31" using a by (metis of_nat_less_iff of_nat_numeral of_nat_power)
  moreover have "sint w = signed_take_bit 31 (uint w)" using sint_uint[of w] by simp
  moreover have "- (2 ^ 31) \<le> uint w" by (rule order_trans[of _ 0]) simp_all
  ultimately show ?thesis by (simp only: signed_take_bit_int_eq_self u)
qed

lemma recv_ok_chunk_of:
  assumes "ok_candidate pNames psrc c" "0 < ca_length c" "ca_length c \<le> MAX_CHUNK_SIZE"
  shows "recv_ok (chunk_of pNames psrc c)"
proof -
  have l: "unat (of_nat (ca_length c) :: u32) = ca_length c" using assms(1) by (simp add: ok_candidate_def unat_of_nat_32)
  then have "(0 :: u32) < of_nat (ca_length c)" using assms(2) by (simp add: word_less_nat_alt)
  then show ?thesis using ok_chunk_of[OF assms(1)] assms(3) l by (simp add: recv_ok_def chunk_of_def)
qed

text \<open>What the delivery leaves: one more block, with the names and lengths of the candidates.\<close>

definition block_of :: "ReassembleInfo \<Rightarrow> OneChunkName list \<Rightarrow> OneCandidate list \<Rightarrow> bool" where
  "block_of ri pNames cs \<longleftrightarrow> names_of (ri_nameList ri) = map (\<lambda>c. cn_sha1 (pNames ! ca_index c)) cs \<and>
     map (\<lambda>w. unat (cni_length w)) (ri_nameList ri) = map ca_length cs"

lemma ProcessNameTreeDelivery2_ok:
  assumes "delivery cid psrc pNames cs msg" "peers_live px" "tmp_inv (px_cache px)"
    and "GetDestinationConnection (g_ConnMap px) (srcIP cid) (srcPort cid) (dstIP cid) (dstPort cid) = Inr (Some fd)"
    and "px_conns px fd = Some ci" "ci_type ci = ct_user" "ci_stub ci = UserStub u"
  shows "\<exists>px' u' ri. ProcessNameTreeDelivery2 rotl px (msg @ rest) = Inr (px', int (length msg)) \<and>
    px_conns px' = (px_conns px)(fd := Some (ci\<lparr>ci_stub := UserStub u'\<rparr>)) \<and>
    uc_reassembleList u' = uc_reassembleList u @ [ri] \<and> uc_seq_no u' = uc_seq_no u + 1 \<and>
    uc_readyList u' = uc_readyList u @ [ri_seq_no ri] \<and> ri_seq_no ri = uc_seq_no u \<and> ri_source ri = ci_fd ci \<and>
    \<not> ri_getSent ri \<and> block_of ri pNames cs \<and>
    put_carried (map (chunk_of pNames psrc) cs) (px_cache px) = Inr (px_cache px')"
proof -
  let ?cks = "map (chunk_of pNames psrc) cs"
  from assms(1) obtain newmsg_len where d: "ok_cid cid" "tiled 0 cs" "\<forall>c \<in> set cs. ok_candidate pNames psrc c" "length cs < 2 ^ 31"
    "BuildWANameTreeDelivery3 cid psrc pNames cs (of_nat (length cs)) newmsg_len = Inr msg" "length msg < 2 ^ 31"
    "\<forall>ck \<in> set ?cks. recv_ok ck"
    using recv_ok_chunk_of by (auto simp: delivery_def)
  have "length msg < 2 ^ 32" using d(6) by simp
  note e = name_delivery_entries[OF d(1-3,5) this]
  have tot: "sint (be32_at (msg @ rest) 2) = int (length msg)" using sint_small[of "be32_at (msg @ rest) 2"] e(3)[of rest] d(6) by simp
  have num: "sint (be32_at (msg @ rest) 24) = int (length cs)"
  proof -
    have "unat (of_nat (length cs) :: u32) = length cs" using d(4) by (intro unat_of_nat_32) simp
    then show ?thesis using sint_small[of "of_nat (length cs)"] d(4) unfolding e(5)[of rest] by (simp only:)
  qed
  let ?u1 = "u\<lparr>uc_seq_no := uc_seq_no u + 1\<rparr>"
  let ?ri = "\<lparr>ri_seq_no = uc_seq_no u, ri_numNames = 0, ri_numPeekResolved = 0, ri_getSent = False, ri_source = ci_fd ci, ri_nameList = []\<rparr>"
  let ?u2 = "?u1\<lparr>uc_reassembleList := uc_reassembleList u @ [?ri]\<rparr>"
  have c: "CreateNewReassembleInfo ci ?u1 (uc_seq_no u) = Inr (?u2, ?ri)"
    using assms(6) by (simp add: CreateNewReassembleInfo_def Let_def)
  have buf: "msg @ rest = take 28 msg @ concat (map enc_chunk ?cks) @ rest" "length (take 28 msg) = 28"
    using e(6,7) append_take_drop_id[of 28 msg] by (metis append_assoc, simp)
  have "ri_numPeekResolved ?ri = ri_numNames ?ri" by simp
  from recv_names_ok[OF d(7) assms(6,2,3) this, of rotl "take 28 msg" rest ?u2] obtain px1 u3 js where
    r: "recv_names rotl ci (length cs) (msg @ rest) 28 px ?u2 ?ri = Inr (px1, u3, ?ri\<lparr>ri_numNames := of_nat (length cs),
        ri_numPeekResolved := of_nat (length cs), ri_nameList := map2 cni_of ?cks (map int js)\<rparr>, 28 + length (concat (map enc_chunk ?cks)))"
      "length js = length cs" "recv_only px px1" "names_only ?u2 u3" "put_carried ?cks (px_cache px) = Inr (px_cache px1)"
    unfolding buf(1)[symmetric] buf(2) by auto
  let ?ri2 = "?ri\<lparr>ri_numNames := of_nat (length cs), ri_numPeekResolved := of_nat (length cs), ri_nameList := map2 cni_of ?cks (map int js)\<rparr>"
  have off: "28 + length (concat (map enc_chunk ?cks)) = length msg" using arg_cong[OF e(6), of length] e(7) by simp
  have u3: "uc_reassembleList u3 = uc_reassembleList u @ [?ri]" "uc_seq_no u3 = uc_seq_no u + 1" "uc_readyList u3 = uc_readyList u"
    using r(4) unfolding names_only_ex by auto
  have px1: "px_conns px1 = px_conns px" using r(3) unfolding recv_only_ex by auto
  let ?u4 = "CheckPeek (u3\<lparr>uc_reassembleList := uc_reassembleList u @ [?ri2]\<rparr>) ?ri2"
  let ?px2 = "px1\<lparr>g_PdNumNameTrees := g_PdNumNameTrees px1 + 1, px_conns := (px_conns px1)(fd := Some (ci\<lparr>ci_stub := UserStub ?u4\<rparr>))\<rparr>"
  have nz: "srcIP cid \<noteq> 0" "srcPort cid \<noteq> 0" "dstIP cid \<noteq> 0" "dstPort cid \<noteq> 0" using d(1) by (simp_all add: ok_cid_def)
  have "ProcessNameTreeDelivery2 rotl px (msg @ rest) = Inr (?px2, int (length msg))"
    unfolding ProcessNameTreeDelivery2_def Let_def e(2)[of rest] tot e(4)[of rest] sizeof_defs
    using nz assms(4,5,7) c num r(1) off u3(1) e(7) by simp
  moreover have "block_of ?ri2 pNames cs"
  proof -
    have l: "length ?cks = length (map int js)" using r(2) by simp
    have "unat (ck_length (chunk_of pNames psrc w)) = ca_length w" if "w \<in> set cs" for w
      using d(3) that by (auto simp: chunk_of_def ok_candidate_def unat_of_nat_32)
    then have "map (\<lambda>w. unat (cni_length w)) (map2 cni_of ?cks (map int js)) = map ca_length cs"
      using l by (intro nth_equalityI) (simp_all add: cni_of_def)
    moreover have "names_of (map2 cni_of ?cks (map int js)) = map (\<lambda>c. cn_sha1 (pNames ! ca_index c)) cs"
      using l by (intro nth_equalityI) (simp_all add: cni_of_def chunk_of_def)
    ultimately show ?thesis by (simp add: block_of_def)
  qed
  moreover have "uc_reassembleList ?u4 = uc_reassembleList u @ [?ri2]" "uc_seq_no ?u4 = uc_seq_no u + 1"
    "uc_readyList ?u4 = uc_readyList u @ [ri_seq_no ?ri2]" using u3 by (simp_all add: CheckPeek_def)
  ultimately show ?thesis using r(5) px1
    by (intro exI[of _ ?px2] exI[of _ ?u4] exI[of _ ?ri2]) simp
qed

section \<open>Properties\<close>

text \<open>
  Claim C4: blocks are delivered to the user in order, complete and once. \<open>ReconstructOriginalData\<close>
  passes every assertion and appends to the stream of the connection exactly the blocks of the longest
  prefix of the waiting blocks that are scheduled and whose chunks are all in the temporary cache,
  counting a chunk that several names need as often as it is needed; those blocks leave the list, one
  reference is dropped for each of their names, and the connection is closed when all announced bytes
  have arrived.
\<close>

theorem ReconstructOriginalData_delivers:
  assumes "user_ok px ci u" "tmp_inv (px_cache px)" "list_all (block_ok (px_cache px) (ci_fd ci)) (uc_reassembleList u)"
    and "ci_lenWrite ci + int (sum_list (map block_len (uc_reassembleList u))) < uint (uc_maxWindowSize u * 2)"
  shows "\<exists>px' ci' u' done. done = ready (tmp_refs (px_cache px)) (uc_reassembleList u) \<and>
    ReconstructOriginalData st px ci = Inr (px', ci') \<and> user_ok px' ci' u' \<and>
    stream ci' = stream ci @ concat (map (\<lambda>ri. chunk_bytes (px_cache px) (ri_nameList ri)) done) \<and>
    uc_reassembleList u' = drop (length done) (uc_reassembleList u) \<and> tmp_inv (px_cache px') \<and>
    (\<forall>m. tmp_refs (px_cache px') m = tmp_refs (px_cache px) m -
       tmp_cache.occurs m (concat (map (\<lambda>ri. names_of (ri_nameList ri)) done))) \<and>
    (uc_closeBytes u' \<noteq> 0 \<and> uc_bytesRX u' = uc_closeBytes u' \<longrightarrow> ci_status ci' = cs_closed)"
proof -
  from ReconstructOriginalData_ok[OF assms, of st] obtain px' ci' u' where
    r: "ReconstructOriginalData st px ci = Inr (px', ci')" "reconstructed px ci (uc_reassembleList u) px' ci' u'" by blast
  then show ?thesis
    by (intro exI[of _ px'] exI[of _ ci'] exI[of _ u'] exI[of _ "ready (tmp_refs (px_cache px)) (uc_reassembleList u)"])
      (simp add: reconstructed_def dropped_def ready_names_def ready_bytes_def)
qed

definition demo_settings :: settings where
  "demo_settings = \<lparr>st_mrc = default_config, g_SkipFirstChunk = False, g_ClientChunking = True, g_ServerChunking = True,
     g_NoCache = False, g_BufferTimeout = 500, g_PutQueueSize = 10, g_MemCacheOnly = True, g_MaxPeerConns = 5, g_MaxCacheConns = 3, g_WanLinkBW = 1000,
     g_WanLinkRTT = 1000, g_SeekLatency = 15\<rparr>"

definition demo_waiting :: "u32 \<Rightarrow> ReassembleInfo" where
  "demo_waiting n = \<lparr>ri_seq_no = n, ri_numNames = 1, ri_numPeekResolved = 1, ri_getSent = True, ri_source = 9,
     ri_nameList = [\<lparr>cni_isHit = True, cni_inMemory = True, cni_length = 3, cni_peerIdx = 1, cni_isNetwork = False,
       cni_sha1 = replicate 20 7\<rparr>]\<rparr>"

text \<open>Two blocks need the same chunk, which is there once.\<close>

theorem ReconstructOriginalData_delivers_witness:
  "\<exists>s px' ci' u. RefPutChunkCallback (empty_cache 0) (replicate 20 7) [1, 2, 3] = Inr s \<and>
     u = demo_user\<lparr>uc_reassembleList := [demo_waiting 0, demo_waiting 1]\<rparr> \<and>
     ReconstructOriginalData demo_settings (demo_proxy s (snd (projr (CreateConnectionTables None))) (demo_conn u) [Busy]) (demo_conn u) = Inr (px', ci') \<and>
     stream ci' = [1, 2, 3]"
proof -
  let ?u = "demo_user\<lparr>uc_reassembleList := [demo_waiting 0, demo_waiting 1]\<rparr>" and ?n = "replicate 20 (7 :: byte)"
  have b: "[1, 2, 3 :: byte] \<noteq> []" "length [1, 2, 3 :: byte] \<le> MAX_CHUNK_SIZE" by (simp_all add: MAX_CHUNK_SIZE_def)
  have r0: "tmp_refs (empty_cache 0) m = 0" for m by (simp add: tmp_refs_def empty_cache)
  from tmp_cache.put_ok[OF empty_cache(2) b, of 0 ?n] obtain s where
    s: "RefPutChunkCallback (empty_cache 0) ?n [1, 2, 3] = Inr s" "tmp_inv s" "tmp_refs s ?n = 1" "tmp_content s ?n = Some [1, 2, 3]"
    by (auto simp: r0)
  let ?px = "demo_proxy s (snd (projr (CreateConnectionTables None))) (demo_conn ?u) [Busy]"
  have px: "px_cache ?px = s" by (simp add: demo_proxy_def)
  have ok: "user_ok ?px (demo_conn ?u) ?u" by (rule demo_user_ok) (simp_all add: demo_user_def new_user_def)
  have "ready (tmp_refs s) [demo_waiting 0, demo_waiting 1] = [demo_waiting 0]"
    using s(3) by (simp add: demo_waiting_def)
  with ReconstructOriginalData_delivers[OF ok, of demo_settings] px s show ?thesis
    by (auto simp: demo_waiting_def demo_conn_def block_ok_def lengths_ok_def block_len_def MAX_CHUNK_SIZE_def
        demo_user_def new_user_def MAX_WINDOW_SIZE_def stream_def waiting_def chunk_bytes_def)
qed

text \<open>
  Claim C15: a name delivery for a known connection is turned into one waiting block. For every message
  that \<open>BuildWANameTreeDelivery3\<close> builds from candidates of a block, followed by anything,
  \<open>ProcessNameTreeDelivery2\<close> passes every assertion, consumes exactly the message, and appends one
  block with the names and lengths of the candidates in order, under the next sequence number and
  ready to be scheduled; the chunks that came with the message, and no others, are put in the
  temporary cache.
\<close>

theorem ProcessNameTreeDelivery2_queues_block:
  assumes "delivery cid psrc pNames cs msg" "peers_live px" "tmp_inv (px_cache px)"
    and "GetDestinationConnection (g_ConnMap px) (srcIP cid) (srcPort cid) (dstIP cid) (dstPort cid) = Inr (Some fd)"
    and "px_conns px fd = Some ci" "ci_type ci = ct_user" "ci_stub ci = UserStub u"
  shows "\<exists>px' u' ri. ProcessNameTreeDelivery2 rotl px (msg @ rest) = Inr (px', int (length msg)) \<and>
    px_conns px' = (px_conns px)(fd := Some (ci\<lparr>ci_stub := UserStub u'\<rparr>)) \<and>
    uc_reassembleList u' = uc_reassembleList u @ [ri] \<and> uc_readyList u' = uc_readyList u @ [uc_seq_no u] \<and>
    ri_seq_no ri = uc_seq_no u \<and> uc_seq_no u' = uc_seq_no u + 1 \<and> \<not> ri_getSent ri \<and>
    map cni_sha1 (ri_nameList ri) = map (\<lambda>c. cn_sha1 (pNames ! ca_index c)) cs \<and>
    map (\<lambda>w. unat (cni_length w)) (ri_nameList ri) = map ca_length cs \<and>
    rfold (\<lambda>c s. RefPutChunkCallback s (cn_sha1 (pNames ! ca_index c)) (take (ca_length c) (drop (ca_offset c) psrc)))
      (filter sends_content cs) (px_cache px) = Inr (px_cache px')"
proof -
  have c: "put_carried (map (chunk_of pNames psrc) cs) s =
      rfold (\<lambda>c s. RefPutChunkCallback s (cn_sha1 (pNames ! ca_index c)) (take (ca_length c) (drop (ca_offset c) psrc)))
        (filter sends_content cs) s" for s
    by (induction cs arbitrary: s) (auto simp: carried_def chunk_of_def rbind_def split: sum.splits)
  from ProcessNameTreeDelivery2_ok[OF assms, of rotl rest] obtain px' u' ri where
    "ProcessNameTreeDelivery2 rotl px (msg @ rest) = Inr (px', int (length msg))"
    "px_conns px' = (px_conns px)(fd := Some (ci\<lparr>ci_stub := UserStub u'\<rparr>))"
    "uc_reassembleList u' = uc_reassembleList u @ [ri]" "uc_seq_no u' = uc_seq_no u + 1"
    "uc_readyList u' = uc_readyList u @ [ri_seq_no ri]" "ri_seq_no ri = uc_seq_no u" "\<not> ri_getSent ri" "block_of ri pNames cs"
    "put_carried (map (chunk_of pNames psrc) cs) (px_cache px) = Inr (px_cache px')" by blast
  then show ?thesis by (intro exI[of _ px'] exI[of _ u'] exI[of _ ri]) (simp add: c block_of_def)
qed

theorem ProcessNameTreeDelivery2_queues_block_witness:
  "\<exists>pm cm cm' msg px' u'. CreateConnectionTables None = Inr (pm, cm) \<and> PutConnection cm (demo_conn demo_user) = Inr cm' \<and>
     BuildWANameTreeDelivery3 (uc_id demo_user) (replicate 42 7) [demo_name 1, demo_name 2] demo_candidates 2 52 = Inr msg \<and>
     ProcessNameTreeDelivery2 id (demo_proxy (empty_cache 0) cm' (demo_conn demo_user) []) msg = Inr (px', int (length msg)) \<and>
     px_conns px' 9 = Some (demo_conn u') \<and> map (map cni_sha1 \<circ> ri_nameList) (uc_reassembleList u') = [[replicate 20 1, replicate 20 2]]"
proof -
  let ?u = "demo_user" and ?ci = "demo_conn demo_user" and ?src = "replicate 42 7 :: byte list" and ?ns = "[demo_name 1, demo_name 2]"
  from CreateConnectionTables_ok obtain pm cm where c: "CreateConnectionTables None = Inr (pm, cm)" "conns_good cm"
    "\<forall>k. hashtable_search cm k = None" by blast
  note laws = connection_laws(1,2)[OF c(2) c(3)[rule_format, of "uc_key ?u"], of 9]
  let ?cm = "ht_put cm (uc_key ?u) 9"
  have p: "PutConnection cm ?ci = Inr ?cm" using c(2) by (simp add: PutConnection_def demo_conn_def table_insert_def)
  have g: "GetDestinationConnection ?cm (srcIP (uc_id ?u)) (srcPort (uc_id ?u)) (dstIP (uc_id ?u)) (dstPort (uc_id ?u)) = Inr (Some 9)"
    using laws(2) c(3) by (simp add: GetDestinationConnection_def SearchConnection_def uc_id_def uc_key_def demo_user_def)
  have ok: "ok_cid (uc_id ?u)" "tiled 0 demo_candidates" "\<forall>c \<in> set demo_candidates. ok_candidate ?ns ?src c"
    by (simp_all add: ok_cid_def uc_id_def demo_user_def demo_candidates_def ok_candidate_def demo_name_def SHA1_LEN_def)
  have l: "(of_nat (length demo_candidates) :: u32) = 2" by (simp add: demo_candidates_def)
  have "\<exists>msg. BuildWANameTreeDelivery3 (uc_id ?u) ?src ?ns demo_candidates (of_nat (length demo_candidates)) 52 = Inr msg \<and> length msg < 2 ^ 31"
    using ok(1) demo_wire_length by (simp add: BuildWANameTreeDelivery3_def put_candidates_eq[OF ok(2,3)] control_message_eq)
  then obtain msg where m: "BuildWANameTreeDelivery3 (uc_id ?u) ?src ?ns demo_candidates (of_nat (length demo_candidates)) 52 = Inr msg"
    "length msg < 2 ^ 31" by blast
  have del: "delivery (uc_id ?u) ?src ?ns demo_candidates msg"
    using ok m by (auto simp: delivery_def demo_candidates_def MAX_CHUNK_SIZE_def)
  let ?px = "demo_proxy (empty_cache 0) ?cm ?ci []"
  have px: "peers_live ?px" "tmp_inv (px_cache ?px)" "px_conns ?px 9 = Some ?ci" "ci_type ?ci = ct_user" "ci_stub ?ci = UserStub ?u" "g_ConnMap ?px = ?cm"
    by (simp_all add: peers_live_def demo_proxy_def three_peers three_peers_remote empty_cache demo_conn_def)
  from ProcessNameTreeDelivery2_queues_block[OF del px(1,2) _ px(3-5), of id "[]"] g px(6) obtain px' u' ri where
    "ProcessNameTreeDelivery2 id ?px (msg @ []) = Inr (px', int (length msg))"
    "px_conns px' = (px_conns ?px)(9 := Some (?ci\<lparr>ci_stub := UserStub u'\<rparr>))"
    "uc_reassembleList u' = uc_reassembleList ?u @ [ri]"
    "map cni_sha1 (ri_nameList ri) = map (\<lambda>c. cn_sha1 (?ns ! ca_index c)) demo_candidates" by auto
  with c(1) p m(1) show ?thesis unfolding l
    by (auto simp: demo_conn_def demo_user_def new_user_def demo_candidates_def demo_name_def)
qed

end
