(* ===== verification/Sender.thy ===== *)
theory Sender
  imports Reassemble
begin

text \<open>
  The sending side of a user connection (waprox/waprox.c): \<open>ProcessUserData\<close> cuts what the user sent
  into blocks, each block becomes a name delivery or a raw message, and the window of unacknowledged
  bytes decides when reading stops; \<open>ProcessNameAck\<close> opens the window again.

  \<open>sha\<close> is the digest. The connection is written back by the caller. The branch for the HTTP proxy
  mode looks for the destination with string routines that are not part of the repository; it is the
  argument \<open>http\<close>.
\<close>

section \<open>Operations\<close>

definition MIN_RABIN_BUFSIZE :: nat where "MIN_RABIN_BUFSIZE = 64 * 1024 * 3"

definition AdjustReadBuffer :: "ConnectionInfo \<Rightarrow> int \<Rightarrow> ConnectionInfo res" where
  "AdjustReadBuffer ci num_processed =
     ensure (num_processed \<ge> 0)
       (if num_processed > int (length (ci_bufRead ci)) then Inl UndefinedBehaviour
        else Inr (ci\<lparr>ci_bufRead := drop (nat num_processed) (ci_bufRead ci)\<rparr>))"

text \<open>One block at the start of \<open>psrc\<close>: the message for it and its length.\<close>

definition ProcessOneRabinChunking2 :: "(byte list \<Rightarrow> sha1) \<Rightarrow> settings \<Rightarrow> cache \<Rightarrow> UserConnectionInfo \<Rightarrow> byte list \<Rightarrow>
    (cache \<times> UserConnectionInfo \<times> byte list \<times> nat) res" where
  "ProcessOneRabinChunking2 sha st s u psrc =
     rbind (DoPreMRC (st_mrc st) (uc_rctx u) psrc) (\<lambda>(rctx, pNames, rb_size, pli).
       ensure (length pNames > 0)
       (ensure (rb_size \<le> length psrc)
         (let u1 = u\<lparr>uc_rctx := rctx, uc_numChunks := uc_numChunks u + 1\<rparr> in
          if g_SkipFirstChunk st \<and> uc_numChunks u1 \<le> 1
          then rbind (BuildWARawMessage (uc_id u1) (take rb_size psrc)) (\<lambda>msg. Inr (s, u1, msg, rb_size))
          else
            rbind (MakeTree pli pNames) (\<lambda>tree.
            rbind (ResolveWithHint sha s tree psrc rb_size pli True) (\<lambda>(names, lowLevel).
            ensure (lowLevel < length pli)
              (rbind (GetCandidateList2 (st_mrc st) names pli lowLevel) (\<lambda>(names2, candidateList).
               rbind (GetCandidateMessageLength candidateList) (\<lambda>(newmsg_len, numItems).
               rbind (CreateNewChunkBuffer2 (st_mrc st) s psrc rb_size (uc_bytesTX u1) names2 candidateList (int lowLevel)) (\<lambda>(s1, newChunk).
               let u2 = u1\<lparr>uc_chunkBufferList := uc_chunkBufferList u1 @ [newChunk], uc_numChunkBuffers := uc_numChunkBuffers u1 + 1\<rparr> in
               rbind (BuildWANameTreeDelivery3 (uc_id u2) psrc names2 candidateList (of_nat numItems) newmsg_len) (\<lambda>msg.
                 Inr (s1, u2, msg, rb_size)))))))))))"

text \<open>The first part of the loop body of \<open>ProcessUserData\<close>; \<open>None\<close> when it waits for more data.\<close>

definition user_block :: "(byte list \<Rightarrow> sha1) \<Rightarrow> settings \<Rightarrow> bool \<Rightarrow> cache \<Rightarrow> connectionStatus \<Rightarrow> UserConnectionInfo \<Rightarrow> byte list \<Rightarrow>
    (cache \<times> UserConnectionInfo \<times> byte list \<times> nat) option res" where
  "user_block sha st forceProcess s status u buffer =
     (if (\<not> g_ClientChunking st \<and> uc_isForward u) \<or> (\<not> g_ServerChunking st \<and> \<not> uc_isForward u)
      then rbind (BuildWARawMessage (uc_id u) buffer) (\<lambda>msg. Inr (Some (s, u, msg, length buffer)))
      else if status = cs_active \<and> g_BufferTimeout st > 0 \<and> \<not> forceProcess \<and> length buffer < MIN_RABIN_BUFSIZE
      then Inr None
      else rbind (ProcessOneRabinChunking2 sha st s u buffer) (\<lambda>r. Inr (Some r)))"

lemma rabin_block_pos: "ProcessOneRabinChunking2 sha st s u psrc = Inr (s1, u1, msg, n) \<Longrightarrow> 0 < n \<and> n \<le> length psrc"
  by (auto simp: ProcessOneRabinChunking2_def DoPreMRC_def res_simps Let_def split: if_splits)

lemma user_block_pos: "user_block sha st f s status u buffer = Inr (Some (s1, u1, msg, n)) \<Longrightarrow> 0 < n \<and> n \<le> length buffer"
  using rabin_block_pos
  by (fastforce simp: user_block_def BuildWARawMessage_def res_simps split: if_splits)

text \<open>
  The loop over the blocks: the bytes left, and the number of bytes processed. It stops when the
  window is 80 percent full.
\<close>

function user_loop :: "(byte list \<Rightarrow> sha1) \<Rightarrow> settings \<Rightarrow> bool \<Rightarrow> proxy \<Rightarrow> ConnectionInfo \<Rightarrow> UserConnectionInfo \<Rightarrow> byte list \<Rightarrow> nat \<Rightarrow>
    (proxy \<times> ConnectionInfo \<times> UserConnectionInfo \<times> nat) res" where
  "user_loop sha st forceProcess px ci u buffer num_processed =
     (if buffer = [] then Inr (px, ci, u, num_processed)
      else rbind (user_block sha st forceProcess (px_cache px) (ci_status ci) u buffer) (\<lambda>block.
        case block of
          None \<Rightarrow> Inr (px, ci, u\<lparr>uc_lastCumulativeAck := 0\<rparr>, num_processed)
        | Some (s1, u1, msg, one_process) \<Rightarrow>
            rbind (QueueControlData u1 msg (int (ci_fd ci))) (\<lambda>u2.
              let u3 = u2\<lparr>uc_bytesTX := uc_bytesTX u2 + of_nat one_process, uc_numSent := uc_numSent u2 + of_nat one_process\<rparr>;
                  px1 = px\<lparr>px_cache := s1, g_BytesUserRX := g_BytesUserRX px + of_nat one_process\<rparr>
              in if 5 * unat (uc_numSent u3) > 4 * unat (uc_maxWindowSize u3)
                 then let px2 = px1\<lparr>g_NumBlocked := g_NumBlocked px1 + 1\<rparr>
                   in ensure (g_NumBlocked px2 \<le> of_int (g_NumUserConns px2))
                        (Inr (px2, ci\<lparr>ci_status := cs_block\<rparr>, u3, num_processed + one_process))
                 else user_loop sha st forceProcess px1 ci u3 (drop one_process buffer) (num_processed + one_process))))"
  by pat_completeness auto
termination
proof (relation "measure (\<lambda>(sha, st, f, px, ci, u, buffer, n). length buffer)", goal_cases)
  case (2 sha st f px ci u buffer n x x2 a b c d e g h i)
  then show ?case using user_block_pos by (fastforce simp: diff_less)
qed simp

declare user_loop.simps [simp del]

definition ProcessUserData :: "(byte list \<Rightarrow> sha1) \<Rightarrow> (proxy \<Rightarrow> ConnectionInfo \<Rightarrow> (proxy \<times> ConnectionInfo \<times> nat) res) \<Rightarrow>
    settings \<Rightarrow> proxy \<Rightarrow> ConnectionInfo \<Rightarrow> bool \<Rightarrow> (proxy \<times> ConnectionInfo \<times> nat) res" where
  "ProcessUserData sha http st px ci forceProcess =
     ensure (ci_type ci = ct_user)
       (case ci_stub ci of
          UserStub u \<Rightarrow>
            if uc_isHttpProxy u then http px ci
            else if uc_dip u = 0 \<and> uc_dport u = 0 then Inr (px, ci, 0)
            else if ci_status ci = cs_block then Inr (px, ci, 0)
            else rbind (user_loop sha st forceProcess px ci u (ci_bufRead ci) 0) (\<lambda>(px1, ci1, u1, num_processed).
              let ci2 = ci1\<lparr>ci_stub := UserStub u1\<rparr> in
              if ci_status ci2 = cs_done
              then rbind (SendWACloseConnection ci2 (uc_bytesTX u1 + of_nat (length (ci_bufRead ci2) - num_processed)))
                     (\<lambda>ci3. Inr (px1, ci3\<lparr>ci_status := cs_finsent\<rparr>, num_processed))
              else Inr (px1, ci2, num_processed))
        | _ \<Rightarrow> Inl UndefinedBehaviour)"

text \<open>The user's part of \<open>CloseConnection\<close>.\<close>

definition close_user :: "(byte list \<Rightarrow> sha1) \<Rightarrow> (proxy \<Rightarrow> ConnectionInfo \<Rightarrow> (proxy \<times> ConnectionInfo \<times> nat) res) \<Rightarrow>
    settings \<Rightarrow> proxy \<Rightarrow> ConnectionInfo \<Rightarrow> (proxy \<times> ConnectionInfo) res" where
  "close_user sha http st px ci =
     (if ci_status ci = cs_closed then Inr (px, ci)
      else let ci1 = ci\<lparr>ci_status := cs_done\<rparr> in
        case ci_stub ci1 of
          UserStub u \<Rightarrow>
            if ci_bufRead ci1 \<noteq> [] then
              rbind (ProcessUserData sha http st px ci1 True) (\<lambda>(px2, ci2, n).
                rbind (AdjustReadBuffer ci2 (int n)) (\<lambda>ci3. Inr (px2, ci3)))
            else rbind (SendWACloseConnection ci1 (uc_bytesTX u)) (\<lambda>ci2.
              let ci3 = ci2\<lparr>ci_status := cs_finsent\<rparr> in
              if uc_numSent u > 0 then Inr (px, ci3) else SetDead px ci3 False)
        | _ \<Rightarrow> Inl UndefinedBehaviour)"

definition OpenUserConnection :: "(byte list \<Rightarrow> sha1) \<Rightarrow> (proxy \<Rightarrow> ConnectionInfo \<Rightarrow> (proxy \<times> ConnectionInfo \<times> nat) res) \<Rightarrow>
    settings \<Rightarrow> proxy \<Rightarrow> ConnectionInfo \<Rightarrow> (proxy \<times> ConnectionInfo) res" where
  "OpenUserConnection sha http st px ci =
     ensure (ci_type ci = ct_user)
       (case ci_stub ci of
          UserStub u \<Rightarrow>
            ensure (uc_dip u \<noteq> 0)
            (ensure (uc_dport u \<noteq> 0)
              (rbind (PickDestinationProxy (px_peers px)) (\<lambda>dst.
                 if dst = -1 then Inl NiceExit
                 else if dst < 0 \<or> nat dst \<ge> length (g_PeerInfo (px_peers px)) then Inl UndefinedBehaviour
                 else rbind (GetNextControlFlowID (g_MaxPeerConns st) (px_peers px) (nat dst)) (\<lambda>(p1, flow).
                   let u1 = u\<lparr>uc_dstPxyIdx := dst, uc_nameFlowId := int flow\<rparr>;
                       p2 = update_peer (nat dst) (\<lambda>pi. pi\<lparr>pi_userList := pi_userList pi @ [ci_fd ci], pi_numUsers := pi_numUsers pi + 1\<rparr>) p1
                   in rbind (PutConnection (g_ConnMap px) (ci\<lparr>ci_stub := UserStub u1\<rparr>)) (\<lambda>cm.
                      rbind (BuildWAOpenConnection (uc_id u1)) (\<lambda>msg.
                      rbind (QueueControlData u1 msg (int (ci_fd ci))) (\<lambda>u2.
                      rbind (ProcessUserData sha http st (px\<lparr>px_peers := p2, g_ConnMap := cm\<rparr>) (ci\<lparr>ci_stub := UserStub u2\<rparr>) True)
                        (\<lambda>(px3, ci3, n). rbind (AdjustReadBuffer ci3 (int n)) (\<lambda>ci4. Inr (px3, ci4)))))))))) 
        | _ \<Rightarrow> Inl UndefinedBehaviour)"

text \<open>The handler of an acknowledgement, on the connection it is for.\<close>

definition acknowledge :: "proxy \<Rightarrow> ConnectionInfo \<Rightarrow> u32 \<Rightarrow> (proxy \<times> ConnectionInfo) res" where
  "acknowledge px target_ci ack =
     (case ci_stub target_ci of
        UserStub u \<Rightarrow>
          ensure (uc_lastAcked u \<le> ack)
          (ensure (ack \<le> uc_bytesTX u)
            (let bytesAcked = ack - uc_lastAcked u;
                 u1 = u\<lparr>uc_lastCumulativeAck := uc_lastCumulativeAck u + bytesAcked, uc_numSent := uc_numSent u - bytesAcked,
                        uc_lastAcked := ack\<rparr>;
                 resume = (ci_status target_ci = cs_block \<and> uc_maxWindowSize u1 - uc_numSent u1 \<ge> of_nat (unat (uc_maxWindowSize u1) div 5));
                 ci1 = (if resume then target_ci\<lparr>ci_status := cs_active\<rparr> else target_ci);
                 px1 = (if resume then px\<lparr>g_NumBlocked := g_NumBlocked px - 1\<rparr> else px)
             in rbind (DestroyChunkBufferList (px_cache px1) (uc_chunkBufferList u1) ack True) (\<lambda>(s, rest, numDestroyed).
                  let u2 = u1\<lparr>uc_chunkBufferList := rest, uc_numChunkBuffers := uc_numChunkBuffers u1 - of_nat numDestroyed\<rparr>;
                      ci2 = ci1\<lparr>ci_stub := UserStub u2\<rparr>;
                      px2 = px1\<lparr>px_cache := s\<rparr>
                  in if ci_status ci2 = cs_finsent \<and> uc_numSent u2 = 0 then SetDead px2 ci2 False else Inr (px2, ci2))))
      | _ \<Rightarrow> Inl UndefinedBehaviour)"

section \<open>Blocks and messages\<close>

text \<open>
  A message carries a block: a raw message with its bytes, where those are allowed, or a name delivery
  whose candidates tile the block and carry the digests of their bytes. The source of a name delivery may go on after the
  block.
\<close>

definition named_block :: "(byte list \<Rightarrow> sha1) \<Rightarrow> byte list \<Rightarrow> OneChunkName list \<Rightarrow> OneCandidate list \<Rightarrow> byte list \<Rightarrow> bool" where
  "named_block sha psrc pNames cs block \<longleftrightarrow> block = take (span cs) psrc \<and> span cs \<le> length psrc \<and> span cs \<le> MAX_CHUNK_SIZE \<and>
     (\<forall>c \<in> set cs. cn_sha1 (pNames ! ca_index c) = sha (take (ca_length c) (drop (ca_offset c) psrc)))"

definition names_block :: "(byte list \<Rightarrow> sha1) \<Rightarrow> ConnectionID \<Rightarrow> byte list \<Rightarrow> byte list \<Rightarrow> bool" where
  "names_block sha cid block msg \<longleftrightarrow> (\<exists>psrc pNames cs. delivery cid psrc pNames cs msg \<and> named_block sha psrc pNames cs block)"

definition carries :: "bool \<Rightarrow> (byte list \<Rightarrow> sha1) \<Rightarrow> ConnectionID \<Rightarrow> byte list \<Rightarrow> byte list \<Rightarrow> bool" where
  "carries raw sha cid block msg \<longleftrightarrow> raw \<and> BuildWARawMessage cid block = Inr msg \<and> block \<noteq> [] \<or> names_block sha cid block msg"

text \<open>
  A block that is sent, with what the connection keeps of it until it is acknowledged: nothing of a raw
  block, and one chunk buffer of a named block, which has the position of the block in the stream, its
  length, and the candidates of the message with their names.
\<close>

definition keeps :: "bool \<Rightarrow> (byte list \<Rightarrow> sha1) \<Rightarrow> ConnectionID \<Rightarrow> u32 \<Rightarrow> byte list \<Rightarrow> byte list \<Rightarrow> ChunkBuffer list \<Rightarrow> bool" where
  "keeps raw sha cid seq block msg cbs \<longleftrightarrow> raw \<and> BuildWARawMessage cid block = Inr msg \<and> block \<noteq> [] \<and> cbs = [] \<or>
     (\<exists>psrc pNames cs cb. delivery cid psrc pNames cs msg \<and> named_block sha psrc pNames cs block \<and>
        (\<forall>c \<in> set cs. ca_sha1 c = cn_sha1 (pNames ! ca_index c)) \<and>
        cbs = [cb] \<and> cb_seq_no cb = seq \<and> cb_length cb = of_nat (length block) \<and> cb_chunkList cb = Some cs)"

lemma keeps_carries: "keeps raw sha cid seq block msg cbs \<Longrightarrow> carries raw sha cid block msg"
  by (auto simp: keeps_def carries_def names_block_def)

text \<open>A list of blocks from the position \<open>seq\<close> of the stream on, with their messages and the buffers that are kept.\<close>

fun kept_blocks :: "bool \<Rightarrow> (byte list \<Rightarrow> sha1) \<Rightarrow> ConnectionID \<Rightarrow> u32 \<Rightarrow> byte list list \<Rightarrow> byte list list \<Rightarrow> ChunkBuffer list \<Rightarrow> bool" where
  "kept_blocks raw sha cid seq [] msgs cbs \<longleftrightarrow> msgs = [] \<and> cbs = []"
| "kept_blocks raw sha cid seq (block # blocks) msgs cbs \<longleftrightarrow> (\<exists>msg rest k ks. msgs = msg # rest \<and> cbs = k @ ks \<and>
     keeps raw sha cid seq block msg k \<and> kept_blocks raw sha cid (seq + of_nat (length block)) blocks rest ks)"

lemma kept_blocks_carry: "kept_blocks raw sha cid seq blocks msgs cbs \<Longrightarrow> list_all2 (carries raw sha cid) blocks msgs"
  by (induction blocks arbitrary: seq msgs cbs) (auto dest: keeps_carries)

text \<open>Without raw messages, the buffers cover all the bytes.\<close>

lemma kept_blocks_total:
  "kept_blocks False sha cid seq blocks msgs cbs \<Longrightarrow> sum_list (map cb_length cbs) = of_nat (length (concat blocks))"
  by (induction blocks arbitrary: seq msgs cbs) (auto simp: keeps_def)

text \<open>Whether a connection sends raw messages at all.\<close>

definition raw_mode :: "settings \<Rightarrow> UserConnectionInfo \<Rightarrow> bool" where
  "raw_mode st u \<longleftrightarrow> (\<not> g_ClientChunking st \<and> uc_isForward u) \<or> (\<not> g_ServerChunking st \<and> \<not> uc_isForward u)"

abbreviation may_raw :: "settings \<Rightarrow> UserConnectionInfo \<Rightarrow> bool" where
  "may_raw st u \<equiv> raw_mode st u \<or> g_SkipFirstChunk st"

text \<open>What a block leaves at the end of the list of buffers.\<close>

definition block_kept :: "bool \<Rightarrow> (byte list \<Rightarrow> sha1) \<Rightarrow> UserConnectionInfo \<Rightarrow> UserConnectionInfo \<Rightarrow> byte list \<Rightarrow> byte list \<Rightarrow> bool" where
  "block_kept raw sha u u' block msg \<longleftrightarrow> (\<exists>cbs. uc_chunkBufferList u' = uc_chunkBufferList u @ cbs \<and>
     keeps raw sha (uc_id u) (uc_bytesTX u) block msg cbs)"

text \<open>What a block changes of the user data.\<close>

definition chunk_only :: "UserConnectionInfo \<Rightarrow> UserConnectionInfo \<Rightarrow> bool" where
  "chunk_only u u' \<longleftrightarrow> u' = u\<lparr>uc_rctx := uc_rctx u', uc_numChunks := uc_numChunks u',
     uc_chunkBufferList := uc_chunkBufferList u', uc_numChunkBuffers := uc_numChunkBuffers u'\<rparr>"

lemma chunk_only_facts:
  assumes "chunk_only u u'"
  shows "uc_id u' = uc_id u" "uc_bytesTX u' = uc_bytesTX u" "uc_numSent u' = uc_numSent u" "uc_maxWindowSize u' = uc_maxWindowSize u"
    "uc_controlMsgList u' = uc_controlMsgList u" "uc_lastAcked u' = uc_lastAcked u" "uc_isForward u' = uc_isForward u"
    "uc_sip u' = uc_sip u" "uc_sport u' = uc_sport u" "uc_dip u' = uc_dip u" "uc_dport u' = uc_dport u" "uc_bytesRX u' = uc_bytesRX u" "uc_isHttpProxy u' = uc_isHttpProxy u"
  by (subst assms[unfolded chunk_only_def], simp add: uc_id_def)+

text \<open>The blocks that are not acknowledged: consecutive, up to the last byte sent.\<close>

fun consecutive :: "ChunkBuffer list \<Rightarrow> u32 \<Rightarrow> bool" where
  "consecutive [] end \<longleftrightarrow> True"
| "consecutive (cb # cbl) end \<longleftrightarrow> cb_seq_no cb + cb_length cb = (case cbl of [] \<Rightarrow> end | cb' # _ \<Rightarrow> cb_seq_no cb') \<and> consecutive cbl end"

lemma consecutive_snoc: "consecutive cbl b \<Longrightarrow> cb_seq_no cb = b \<Longrightarrow> cb_seq_no cb + cb_length cb = e \<Longrightarrow> consecutive (cbl @ [cb]) e"
  by (induction cbl b rule: consecutive.induct) (auto split: list.splits)

lemma consecutive_drop: "consecutive cbl b \<Longrightarrow> consecutive (drop n cbl) b"
proof (induction n arbitrary: cbl)
  case (Suc n)
  then show ?case by (cases cbl) (auto split: list.splits)
qed simp

definition buffers_ok :: "(byte list \<Rightarrow> sha1) \<Rightarrow> cache \<Rightarrow> UserConnectionInfo \<Rightarrow> bool" where
  "buffers_ok sha s u \<longleftrightarrow> tmp_inv s \<and> send_inv s \<and> tmp_true sha s \<and> scanner_ok (uc_rctx u) \<and>
     list_all buffer_ok (uc_chunkBufferList u) \<and> held s (buffer_names (uc_chunkBufferList u)) \<and>
     uc_numChunkBuffers u = of_nat (length (uc_chunkBufferList u))"

lemma ok_cid_id: "uc_sip u \<noteq> 0 \<Longrightarrow> uc_sport u \<noteq> 0 \<Longrightarrow> uc_dip u \<noteq> 0 \<Longrightarrow> uc_dport u \<noteq> 0 \<Longrightarrow> ok_cid (uc_id u)"
  by (simp add: ok_cid_def uc_id_def)

lemma raw_message_ok: "ok_cid cid \<Longrightarrow> b \<noteq> [] \<Longrightarrow> \<exists>msg. BuildWARawMessage cid b = Inr msg \<and> msg \<noteq> []"
  by (simp add: BuildWARawMessage_def control_message_eq)

lemma tiled_bounds: "tiled off cs \<Longrightarrow> c \<in> set cs \<Longrightarrow> off \<le> ca_offset c \<and> ca_offset c + ca_length c \<le> off + span cs"
  by (induction cs arbitrary: off) fastforce+

lemma length_le_span: "\<forall>c \<in> set cs. 0 < ca_length c \<Longrightarrow> length cs \<le> span cs"
  by (induction cs) auto

text \<open>The size of a name delivery is at most that of its block and an entry for each byte.\<close>

lemma delivery_size:
  assumes "\<forall>c \<in> set cs. ok_candidate pNames psrc c"
  shows "length (concat (map (enc_chunk \<circ> chunk_of pNames psrc) cs)) \<le> 25 * length cs + span cs"
  using assms
proof (induction cs)
  case (Cons c cs)
  then have c: "ok_candidate pNames psrc c" by simp
  then have "length (enc_chunk (chunk_of pNames psrc c)) \<le> 25 + ca_length c"
    by (auto simp: enc_chunk_def chunk_of_def ok_candidate_def SHA1_LEN_def)
  with Cons show ?case by simp
qed simp

lemma delivery_built:
  assumes "ok_cid cid" "tiled 0 cs" "span cs \<le> length psrc" "span cs \<le> WAPROX_MRC_MAX"
    and "\<forall>c \<in> set cs. 0 < ca_length c \<and> ca_index c < length pNames \<and> length (cn_sha1 (pNames ! ca_index c)) = SHA1_LEN"
  shows "\<exists>n msg. GetCandidateMessageLength cs = Inr (n, length cs) \<and>
    BuildWANameTreeDelivery3 cid psrc pNames cs (of_nat (length cs)) n = Inr msg \<and> msg \<noteq> [] \<and> delivery cid psrc pNames cs msg"
proof -
  have ok: "\<forall>c \<in> set cs. ok_candidate pNames psrc c \<and> 0 < ca_length c \<and> ca_length c \<le> MAX_CHUNK_SIZE"
  proof
    fix c assume c: "c \<in> set cs"
    from tiled_bounds[OF assms(2) c] have "ca_offset c + ca_length c \<le> span cs" by simp
    with assms(3-5) c show "ok_candidate pNames psrc c \<and> 0 < ca_length c \<and> ca_length c \<le> MAX_CHUNK_SIZE"
      by (auto simp: ok_candidate_def WAPROX_MRC_MAX_def MAX_CHUNK_SIZE_def)
  qed
  then have ok': "\<forall>c \<in> set cs. ok_candidate pNames psrc c" by blast
  have "length cs \<le> span cs" by (rule length_le_span) (use assms(5) in blast)
  then have len: "length cs \<le> 131072" "span cs \<le> 131072" using assms(4) by (simp_all add: WAPROX_MRC_MAX_def)
  then have sz: "length (concat (map (enc_chunk \<circ> chunk_of pNames psrc) cs)) \<le> 25 * 131072 + 131072"
    using delivery_size[OF ok'] by linarith
  let ?n = "length (concat (map (enc_chunk \<circ> chunk_of pNames psrc) cs))"
  have g: "GetCandidateMessageLength cs = Inr (?n, length cs)"
    using candidate_lengths_eq[OF assms(2) ok', of 0 0] by (simp add: GetCandidateMessageLength_def)
  let ?body = "[MAGIC_WANAMEDELIVERY] @ be32 1 @ [1] @ be32 (of_nat (length cs)) @ concat (map (enc_chunk \<circ> chunk_of pNames psrc) cs)"
  obtain msg where m: "control_message cid TYPE_WANAMEDELIVERY ?body = Inr msg" "length msg = 18 + length ?body"
    using assms(1) by (simp add: control_message_eq)
  then have b: "BuildWANameTreeDelivery3 cid psrc pNames cs (of_nat (length cs)) ?n = Inr msg"
    by (simp add: BuildWANameTreeDelivery3_def put_candidates_eq[OF assms(2) ok' order_refl])
  have "length ?body \<le> 10 + (25 * 131072 + 131072)" using sz by simp
  then have "length msg \<le> 28 + 26 * 131072" using m(2) by simp
  then have "length msg < 2 ^ 31" by simp
  moreover have "length cs < 2 ^ 31" using len(1) by simp
  ultimately have "delivery cid psrc pNames cs msg" unfolding delivery_def using assms(1,2) ok b by blast
  moreover have "msg \<noteq> []" using m(2) by auto
  ultimately show ?thesis using g b by blast
qed


text \<open>
  A block of the sender. The boundary array of \<open>DoPreMRC\<close> is the only thing that can go wrong, and
  only for a buffer that is longer than the average chunk.
\<close>

lemma ProcessOneRabinChunking2_ok:
  assumes "mrc_config_ok (st_mrc st)" "buffers_ok sha s u" "psrc \<noteq> []" "ok_cid (uc_id u)" "\<forall>b. length (sha b) = SHA1_LEN"
  shows "ProcessOneRabinChunking2 sha st s u psrc = Inl UndefinedBehaviour \<and> g_ChunkSize (st_mrc st) < length psrc \<or>
    (\<exists>s' u' msg n. ProcessOneRabinChunking2 sha st s u psrc = Inr (s', u', msg, n) \<and> 0 < n \<and> n \<le> length psrc \<and>
       n \<le> WAPROX_MRC_MAX \<and> msg \<noteq> [] \<and> block_kept (may_raw st u) sha u u' (take n psrc) msg \<and> tmp_only s s' \<and> chunk_only u u' \<and> buffers_ok sha s' u')"
proof (cases "DoPreMRC (st_mrc st) (uc_rctx u) psrc = Inl UndefinedBehaviour")
  case True
  have sc: "scanner_ok (uc_rctx u)" using assms(2) by (simp add: buffers_ok_def)
  from True mrc_tree_ok[OF assms(1) sc assms(3)] have "g_ChunkSize (st_mrc st) < length psrc" by fastforce
  with True show ?thesis by (simp add: ProcessOneRabinChunking2_def)
next
  case False
  have sc: "scanner_ok (uc_rctx u)" using assms(2) by (simp add: buffers_ok_def)
  from mrc_tree_ok[OF assms(1) sc assms(3)] False obtain c' names rb pli where
    D: "DoPreMRC (st_mrc st) (uc_rctx u) psrc = Inr (c', names, rb, pli)" by blast
  from choose_candidates_ok[OF assms(1) sc assms(3) D, of sha s True] obtain tree resolved low ns cs where
    C: "MakeTree pli names = Inr tree" "ResolveWithHint sha s tree psrc rb pli True = Inr (resolved, low)" "low < length pli"
      "GetCandidateList2 (st_mrc st) resolved pli low = Inr (ns, cs)" "length ns = length names" "0 < length ns"
      "length ns < g_maxNames (st_mrc st)" "\<forall>n \<in> set ns. cn_level n \<le> low \<longrightarrow> cn_isHit n \<or> cn_isSha1Ready n"
      "0 < rb" "rb \<le> length psrc" "rb \<le> WAPROX_MRC_MAX" "scanner_ok c'" "tiled 0 cs" "span cs = rb"
      "\<forall>k \<in> set cs. candidate_ok sha (hint_of s True) psrc ns k" by blast
  let ?u1 = "u\<lparr>uc_rctx := c', uc_numChunks := uc_numChunks u + 1\<rparr>"
  have id1: "uc_id ?u1 = uc_id u" by (simp add: uc_id_def)
  show ?thesis
  proof (cases "g_SkipFirstChunk st \<and> uc_numChunks ?u1 \<le> 1")
    case True
    have ne: "take rb psrc \<noteq> []" using C(9) assms(3) by simp
    obtain msg where m: "BuildWARawMessage (uc_id u) (take rb psrc) = Inr msg" "msg \<noteq> []"
      using raw_message_ok[OF assms(4) ne] by blast
    have "ProcessOneRabinChunking2 sha st s u psrc = Inr (s, ?u1, msg, rb)"
      using D C(5,6,10) True m(1) id1 by (simp add: ProcessOneRabinChunking2_def Let_def)
    moreover have "block_kept (may_raw st u) sha u ?u1 (take rb psrc) msg" using m(1) ne True by (simp add: block_kept_def keeps_def)
    moreover have "chunk_only u ?u1" by (simp add: chunk_only_def)
    moreover have "buffers_ok sha s ?u1" using assms(2) C(12) by (simp add: buffers_ok_def)
    ultimately show ?thesis using C(9-11) m(2) tmp_only_refl by blast
  next
    case skip: False
    have cs: "\<forall>c \<in> set cs. 0 < ca_length c \<and> ca_index c < length ns \<and> length (cn_sha1 (ns ! ca_index c)) = SHA1_LEN"
      "\<forall>c \<in> set cs. 0 < ca_length c \<and> ca_sha1 c = sha (take (ca_length c) (drop (ca_offset c) psrc))"
      "\<forall>c \<in> set cs. cn_sha1 (ns ! ca_index c) = sha (take (ca_length c) (drop (ca_offset c) psrc))"
      "\<forall>c \<in> set cs. ca_sha1 c = cn_sha1 (ns ! ca_index c)"
      using C(15) assms(5) by (auto simp: candidate_ok_def)
    have b: "rb \<le> MAX_CHUNK_SIZE" using C(11) by (simp add: WAPROX_MRC_MAX_def MAX_CHUNK_SIZE_def)
    from delivery_built[OF assms(4) C(13), of psrc ns] cs(1) C(10,11,14) obtain msg n where
      M: "BuildWANameTreeDelivery3 (uc_id u) psrc ns cs (of_nat (length cs)) n = Inr msg" "msg \<noteq> []" "delivery (uc_id u) psrc ns cs msg"
        "GetCandidateMessageLength cs = Inr (n, length cs)" by auto
    have inv: "tmp_inv s" "send_inv s" "tmp_true sha s" "held s (buffer_names (uc_chunkBufferList u))"
      "list_all buffer_ok (uc_chunkBufferList u)" "uc_numChunkBuffers u = of_nat (length (uc_chunkBufferList u))"
      using assms(2) by (simp_all add: buffers_ok_def)
    have lv: "\<forall>n \<in> set ns. int (cn_level n) \<le> int low \<longrightarrow> cn_isHit n \<or> cn_isSha1Ready n" using C(8) by simp
    from CreateNewChunkBuffer2_ok[OF inv(1-4) C(13,14,10) b C(9) cs(2) C(6) less_imp_le[OF C(7)] _ lv, of "uc_bytesTX u"]
    obtain s1 cb where B: "CreateNewChunkBuffer2 (st_mrc st) s psrc rb (uc_bytesTX u) ns cs (int low) = Inr (s1, cb)"
      "tmp_only s s1" "tmp_inv s1" "tmp_true sha s1" "buffer_ok cb" "held s1 (buffer_names (uc_chunkBufferList u) @ buffer_names [cb])"
      "cb_seq_no cb = uc_bytesTX u" "cb_length cb = of_nat rb" "cb_chunkList cb = Some cs"
      by auto
    let ?u2 = "?u1\<lparr>uc_chunkBufferList := uc_chunkBufferList u @ [cb], uc_numChunkBuffers := uc_numChunkBuffers u + 1\<rparr>"
    have id2: "uc_id ?u2 = uc_id u" by (simp add: uc_id_def)
    have "ProcessOneRabinChunking2 sha st s u psrc = Inr (s1, ?u2, msg, rb)"
      using D C(1-6,10) skip M(1,4) B(1) id2 by (auto simp: ProcessOneRabinChunking2_def Let_def)
    moreover have "named_block sha psrc ns cs (take rb psrc)" using cs(3) C(10,14) b by (simp add: named_block_def)
    then have "keeps (may_raw st u) sha (uc_id u) (uc_bytesTX u) (take rb psrc) msg [cb]"
      using M(3) cs(4) B(7-9) C(10) unfolding keeps_def by (intro disjI2 exI[of _ psrc] exI[of _ ns] exI[of _ cs] exI[of _ cb]) simp
    then have "block_kept (may_raw st u) sha u ?u2 (take rb psrc) msg" by (simp add: block_kept_def)
    moreover have "chunk_only u ?u2" by (simp add: chunk_only_def)
    moreover have "buffers_ok sha s1 ?u2"
      using inv B(3-6) C(12) tmp_only_facts[OF B(2)] by (simp add: buffers_ok_def)
    ultimately show ?thesis using C(9-11) M(2) B(2) by blast
  qed
qed


section \<open>The loop over the blocks\<close>

definition waits :: "settings \<Rightarrow> bool \<Rightarrow> connectionStatus \<Rightarrow> bool" where
  "waits st f status \<longleftrightarrow> status = cs_active \<and> g_BufferTimeout st > 0 \<and> \<not> f"

lemma user_block_ok:
  assumes "mrc_config_ok (st_mrc st)" "buffers_ok sha s u" "buffer \<noteq> []" "ok_cid (uc_id u)" "\<forall>b. length (sha b) = SHA1_LEN"
    and "raw_mode st u \<Longrightarrow> length buffer \<le> B" "WAPROX_MRC_MAX \<le> B"
  shows "user_block sha st f s status u buffer = Inl UndefinedBehaviour \<and> g_ChunkSize (st_mrc st) < length buffer \<or>
    user_block sha st f s status u buffer = Inr None \<and> waits st f status \<and> length buffer < MIN_RABIN_BUFSIZE \<or>
    (\<exists>s' u' msg n. user_block sha st f s status u buffer = Inr (Some (s', u', msg, n)) \<and> 0 < n \<and> n \<le> length buffer \<and> n \<le> B \<and>
       msg \<noteq> [] \<and> block_kept (may_raw st u) sha u u' (take n buffer) msg \<and> tmp_only s s' \<and> chunk_only u u' \<and> buffers_ok sha s' u')"
proof (cases "raw_mode st u")
  case True
  obtain msg where m: "BuildWARawMessage (uc_id u) buffer = Inr msg" "msg \<noteq> []"
    using raw_message_ok[OF assms(4,3)] by blast
  then have "block_kept (may_raw st u) sha u u (take (length buffer) buffer) msg" using assms(3) True by (simp add: block_kept_def keeps_def)
  moreover have "user_block sha st f s status u buffer = Inr (Some (s, u, msg, length buffer))"
    using True m(1) by (simp add: user_block_def raw_mode_def)
  moreover have "chunk_only u u" by (simp add: chunk_only_def)
  ultimately show ?thesis using m(2) assms(2,3) assms(6)[OF True] tmp_only_refl by blast
next
  case False
  then have raw: "\<not> ((\<not> g_ClientChunking st \<and> uc_isForward u) \<or> (\<not> g_ServerChunking st \<and> \<not> uc_isForward u))" by (simp add: raw_mode_def)
  show ?thesis
  proof (cases "waits st f status \<and> length buffer < MIN_RABIN_BUFSIZE")
    case True
    then have "user_block sha st f s status u buffer = Inr None"
      unfolding user_block_def waits_def if_not_P[OF raw] by simp
    with True show ?thesis by blast
  next
    case False
    then have "user_block sha st f s status u buffer = rbind (ProcessOneRabinChunking2 sha st s u buffer) (\<lambda>r. Inr (Some r))"
      unfolding user_block_def waits_def if_not_P[OF raw] by auto
    then show ?thesis
      using ProcessOneRabinChunking2_ok[OF assms(1-5)] by (auto intro: order_trans[OF _ assms(7)])
  qed
qed

text \<open>
  What the loop did with the first \<open>n\<close> bytes of \<open>buffer\<close>: it cut them into blocks, queued a message
  that carries each of them, kept the buffers of the named ones, and counted them as sent.
\<close>

definition sent_blocks :: "bool \<Rightarrow> (byte list \<Rightarrow> sha1) \<Rightarrow> ConnectionInfo \<Rightarrow> UserConnectionInfo \<Rightarrow> UserConnectionInfo \<Rightarrow> byte list \<Rightarrow> nat \<Rightarrow> bool" where
  "sent_blocks raw sha ci u u' buffer n \<longleftrightarrow> n \<le> length buffer \<and>
     (\<exists>blocks msgs cbs. concat blocks = take n buffer \<and> list_all2 (carries raw sha (uc_id u)) blocks msgs \<and>
        uc_controlMsgList u' = uc_controlMsgList u @ map (\<lambda>m. \<lparr>mi_msg = m, mi_streamID = int (ci_fd ci)\<rparr>) msgs \<and>
        uc_chunkBufferList u' = uc_chunkBufferList u @ cbs \<and> kept_blocks raw sha (uc_id u) (uc_bytesTX u) blocks msgs cbs) \<and>
     uc_bytesTX u' = uc_bytesTX u + of_nat n \<and> uc_numSent u' = uc_numSent u + of_nat n \<and>
     uc_id u' = uc_id u \<and> uc_maxWindowSize u' = uc_maxWindowSize u \<and> uc_lastAcked u' = uc_lastAcked u \<and> uc_isForward u' = uc_isForward u \<and>
     uc_isHttpProxy u' = uc_isHttpProxy u"

lemma sent_none: "sent_blocks raw sha ci u u buffer 0" "sent_blocks raw sha ci u (u\<lparr>uc_lastCumulativeAck := 0\<rparr>) buffer 0"
  by (auto simp: sent_blocks_def uc_id_def intro!: exI[of _ "[]"])

abbreviation count_sent :: "UserConnectionInfo \<Rightarrow> byte list \<Rightarrow> int \<Rightarrow> nat \<Rightarrow> UserConnectionInfo" where
  "count_sent u msg fd n \<equiv> u\<lparr>uc_controlMsgList := uc_controlMsgList u @ [\<lparr>mi_msg = msg, mi_streamID = fd\<rparr>],
     uc_bytesTX := uc_bytesTX u + of_nat n, uc_numSent := uc_numSent u + of_nat n\<rparr>"

lemma sent_one:
  assumes "chunk_only u v" "block_kept raw sha u v (take n buffer) msg" "n \<le> length buffer"
    and "sent_blocks raw sha ci (count_sent v msg (int (ci_fd ci)) n) u' (drop n buffer) m"
  shows "sent_blocks raw sha ci u u' buffer (n + m)"
proof -
  note f = chunk_only_facts[OF assms(1)]
  have id: "uc_id (count_sent v msg (int (ci_fd ci)) n) = uc_id u" using f(1) by (simp add: uc_id_def)
  from assms(2) obtain k where k: "uc_chunkBufferList v = uc_chunkBufferList u @ k"
    "keeps raw sha (uc_id u) (uc_bytesTX u) (take n buffer) msg k" by (auto simp: block_kept_def)
  from assms(4) obtain blocks msgs cbs where b: "concat blocks = take m (drop n buffer)"
    "uc_controlMsgList u' = uc_controlMsgList u @ map (\<lambda>m. \<lparr>mi_msg = m, mi_streamID = int (ci_fd ci)\<rparr>) (msg # msgs)"
    "uc_chunkBufferList u' = uc_chunkBufferList u @ k @ cbs" "kept_blocks raw sha (uc_id u) (uc_bytesTX u + of_nat n) blocks msgs cbs"
    unfolding sent_blocks_def id using f k(1) by auto
  have "concat (take n buffer # blocks) = take (n + m) buffer" using b(1) by (simp add: take_add)
  moreover have "kept_blocks raw sha (uc_id u) (uc_bytesTX u) (take n buffer # blocks) (msg # msgs) (k @ cbs)"
    using k(2) b(4) assms(3) by auto
  moreover note kept_blocks_carry[OF this]
  ultimately have "\<exists>blocks msgs cbs. concat blocks = take (n + m) buffer \<and> list_all2 (carries raw sha (uc_id u)) blocks msgs \<and>
      uc_controlMsgList u' = uc_controlMsgList u @ map (\<lambda>m. \<lparr>mi_msg = m, mi_streamID = int (ci_fd ci)\<rparr>) msgs \<and>
      uc_chunkBufferList u' = uc_chunkBufferList u @ cbs \<and> kept_blocks raw sha (uc_id u) (uc_bytesTX u) blocks msgs cbs"
    using b(2,3) by blast
  moreover have "n + m \<le> length buffer" using assms(3,4) by (auto simp: sent_blocks_def)
  ultimately show ?thesis using assms(4) unfolding sent_blocks_def id by (simp add: f)
qed


text \<open>How the loop ends: the buffer is used up, the rest waits, or the window is nearly full.\<close>

definition loop_end :: "settings \<Rightarrow> bool \<Rightarrow> proxy \<Rightarrow> ConnectionInfo \<Rightarrow> proxy \<Rightarrow> ConnectionInfo \<Rightarrow> UserConnectionInfo \<Rightarrow> byte list \<Rightarrow> nat \<Rightarrow> bool" where
  "loop_end st f px ci px' ci' u' buffer n \<longleftrightarrow>
     ci' = ci \<and> g_NumBlocked px' = g_NumBlocked px \<and> 5 * unat (uc_numSent u') \<le> 4 * unat (uc_maxWindowSize u') \<and>
       (n = length buffer \<or> waits st f (ci_status ci) \<and> length buffer - n < MIN_RABIN_BUFSIZE) \<or>
     ci' = ci\<lparr>ci_status := cs_block\<rparr> \<and> g_NumBlocked px' = g_NumBlocked px + 1 \<and> 5 * unat (uc_numSent u') > 4 * unat (uc_maxWindowSize u')"

text \<open>What the loop changes of the proxy.\<close>

definition send_only :: "proxy \<Rightarrow> proxy \<Rightarrow> bool" where
  "send_only px px' \<longleftrightarrow> tmp_only (px_cache px) (px_cache px') \<and>
     px' = px\<lparr>px_cache := px_cache px', g_BytesUserRX := g_BytesUserRX px', g_NumBlocked := g_NumBlocked px'\<rparr>"

lemma send_only_facts:
  assumes "send_only px px'"
  shows "px_peers px' = px_peers px" "px_conns px' = px_conns px" "g_ConnMap px' = g_ConnMap px" "g_NumUserConns px' = g_NumUserConns px"
    "g_DeadConnList px' = g_DeadConnList px" "g_NumDeadConns px' = g_NumDeadConns px"
  by (subst assms[unfolded send_only_def, THEN conjunct2], simp)+

lemma send_only_step:
  assumes "send_only (px\<lparr>px_cache := s, g_BytesUserRX := w\<rparr>) px'" "tmp_only (px_cache px) s"
  shows "send_only px px'"
proof -
  have "px' = px\<lparr>px_cache := s, g_BytesUserRX := w\<rparr>\<lparr>px_cache := px_cache px', g_BytesUserRX := g_BytesUserRX px', g_NumBlocked := g_NumBlocked px'\<rparr>"
    using assms(1) by (simp add: send_only_def)
  also have "\<dots> = px\<lparr>px_cache := px_cache px', g_BytesUserRX := g_BytesUserRX px', g_NumBlocked := g_NumBlocked px'\<rparr>" by simp
  finally show ?thesis using assms tmp_only_trans[OF assms(2)] by (simp add: send_only_def)
qed

lemma window_step:
  assumes "5 * unat (a :: u32) \<le> 4 * unat (w :: u32)" "unat w < 2 ^ 31" "n \<le> B" "B < 2 ^ 31"
  shows "unat (a + of_nat n) = unat a + n" "5 * unat (a + of_nat n) \<le> 4 * unat w + 5 * B"
proof -
  have n: "unat (of_nat n :: u32) = n" using assms(3,4) by (simp add: unat_of_nat take_bit_nat_eq_self)
  have "unat a + n < 2 ^ 32" using assms by simp
  then show u: "unat (a + of_nat n) = unat a + n" by (simp add: unat_word_ariths n)
  show "5 * unat (a + of_nat n) \<le> 4 * unat w + 5 * B" using assms(1,3) unfolding u by simp
qed

text \<open>A run of the loop over the first \<open>n\<close> bytes of \<open>buffer\<close>.\<close>

definition ran :: "(byte list \<Rightarrow> sha1) \<Rightarrow> settings \<Rightarrow> bool \<Rightarrow> nat \<Rightarrow> proxy \<Rightarrow> ConnectionInfo \<Rightarrow> UserConnectionInfo \<Rightarrow> byte list \<Rightarrow>
    nat \<Rightarrow> proxy \<Rightarrow> ConnectionInfo \<Rightarrow> UserConnectionInfo \<Rightarrow> bool" where
  "ran sha st f B px ci u buffer n px' ci' u' \<longleftrightarrow> sent_blocks (may_raw st u) sha ci u u' buffer n \<and> buffers_ok sha (px_cache px') u' \<and>
     send_only px px' \<and> loop_end st f px ci px' ci' u' buffer n \<and> 5 * unat (uc_numSent u') \<le> 4 * unat (uc_maxWindowSize u') + 5 * B"

lemma ran_none:
  assumes "buffers_ok sha (px_cache px) u" "5 * unat (uc_numSent u) \<le> 4 * unat (uc_maxWindowSize u)"
  shows "ran sha st f B px ci u [] 0 px ci u"
    "waits st f (ci_status ci) \<Longrightarrow> length buffer < MIN_RABIN_BUFSIZE \<Longrightarrow> ran sha st f B px ci u buffer 0 px ci (u\<lparr>uc_lastCumulativeAck := 0\<rparr>)"
proof -
  have "buffers_ok sha (px_cache px) (u\<lparr>uc_lastCumulativeAck := 0\<rparr>)" using assms(1) by (simp add: buffers_ok_def)
  then show "waits st f (ci_status ci) \<Longrightarrow> length buffer < MIN_RABIN_BUFSIZE \<Longrightarrow> ran sha st f B px ci u buffer 0 px ci (u\<lparr>uc_lastCumulativeAck := 0\<rparr>)"
    using assms(2) sent_none(2) by (simp add: ran_def loop_end_def send_only_def)
qed (use assms sent_none(1) in \<open>simp add: ran_def loop_end_def send_only_def\<close>)

text \<open>A block that the loop sends, with the two ways to go on.\<close>

definition block_sent :: "bool \<Rightarrow> (byte list \<Rightarrow> sha1) \<Rightarrow> proxy \<Rightarrow> UserConnectionInfo \<Rightarrow> byte list \<Rightarrow> cache \<Rightarrow> UserConnectionInfo \<Rightarrow> byte list \<Rightarrow> nat \<Rightarrow> bool" where
  "block_sent raw sha px u buffer s v msg n \<longleftrightarrow> 0 < n \<and> n \<le> length buffer \<and> msg \<noteq> [] \<and> block_kept raw sha u v (take n buffer) msg \<and>
     tmp_only (px_cache px) s \<and> chunk_only u v \<and> buffers_ok sha s v"

lemma block_counted:
  assumes "block_sent raw sha px u buffer s v msg n"
  shows "buffers_ok sha s (count_sent v msg fd n)" "uc_id (count_sent v msg fd n) = uc_id u"
    "raw_mode st (count_sent v msg fd n) = raw_mode st u"
    "uc_maxWindowSize (count_sent v msg fd n) = uc_maxWindowSize u" "uc_numSent (count_sent v msg fd n) = uc_numSent u + of_nat n"
  using assms chunk_only_facts[of u v] by (auto simp: block_sent_def buffers_ok_def uc_id_def raw_mode_def)

lemma ran_block:
  assumes "block_sent (may_raw st u) sha px u buffer s v msg n"
  shows "ran sha st f B (px\<lparr>px_cache := s, g_BytesUserRX := w\<rparr>) ci (count_sent v msg (int (ci_fd ci)) n) (drop n buffer) m px' ci' u' \<Longrightarrow>
      ran sha st f B px ci u buffer (n + m) px' ci' u'"
    "4 * unat (uc_maxWindowSize u) < 5 * unat (uc_numSent u + of_nat n) \<Longrightarrow>
      5 * unat (uc_numSent u + of_nat n) \<le> 4 * unat (uc_maxWindowSize u) + 5 * B \<Longrightarrow>
      ran sha st f B px ci u buffer n (px\<lparr>px_cache := s, g_BytesUserRX := w, g_NumBlocked := g_NumBlocked px + 1\<rparr>) (ci\<lparr>ci_status := cs_block\<rparr>)
        (count_sent v msg (int (ci_fd ci)) n)"
proof -
  have b: "chunk_only u v" "block_kept (may_raw st u) sha u v (take n buffer) msg" "n \<le> length buffer" "tmp_only (px_cache px) s"
    using assms by (simp_all add: block_sent_def)
  assume r: "ran sha st f B (px\<lparr>px_cache := s, g_BytesUserRX := w\<rparr>) ci (count_sent v msg (int (ci_fd ci)) n) (drop n buffer) m px' ci' u'"
  then have "loop_end st f px ci px' ci' u' buffer (n + m)" using b(3) unfolding ran_def loop_end_def by auto
  then show "ran sha st f B px ci u buffer (n + m) px' ci' u'"
    using r sent_one[OF b(1-3)] send_only_step[OF _ b(4)] unfolding ran_def block_counted(3)[OF assms] by blast
next
  have b: "chunk_only u v" "block_kept (may_raw st u) sha u v (take n buffer) msg" "n \<le> length buffer" "tmp_only (px_cache px) s"
    using assms by (simp_all add: block_sent_def)
  assume "4 * unat (uc_maxWindowSize u) < 5 * unat (uc_numSent u + of_nat n)" "5 * unat (uc_numSent u + of_nat n) \<le> 4 * unat (uc_maxWindowSize u) + 5 * B"
  then show "ran sha st f B px ci u buffer n (px\<lparr>px_cache := s, g_BytesUserRX := w, g_NumBlocked := g_NumBlocked px + 1\<rparr>) (ci\<lparr>ci_status := cs_block\<rparr>)
        (count_sent v msg (int (ci_fd ci)) n)"
    using sent_one[OF b(1-3) sent_none(1)] b(4) block_counted[OF assms] by (simp add: ran_def loop_end_def send_only_def)
qed

lemma user_loop_block:
  assumes "user_block sha st f (px_cache px) (ci_status ci) u buffer = Inr (Some (s, v, msg, n))" "buffer \<noteq> []"
    and "block_sent raw sha px u buffer s v msg n" "g_NumBlocked px + 1 \<le> of_int (g_NumUserConns px)"
  shows "user_loop sha st f px ci u buffer k =
      (let px1 = px\<lparr>px_cache := s, g_BytesUserRX := g_BytesUserRX px + of_nat n\<rparr>; u1 = count_sent v msg (int (ci_fd ci)) n
       in if 5 * unat (uc_numSent u1) > 4 * unat (uc_maxWindowSize u1)
       then Inr (px1\<lparr>g_NumBlocked := g_NumBlocked px + 1\<rparr>, ci\<lparr>ci_status := cs_block\<rparr>, u1, k + n)
       else user_loop sha st f px1 ci u1 (drop n buffer) (k + n))"
  using assms by (subst user_loop.simps) (simp add: QueueControlData_def Let_def block_sent_def)

lemma user_loop_ok:
  assumes "mrc_config_ok (st_mrc st)" "\<forall>b. length (sha b) = SHA1_LEN" "WAPROX_MRC_MAX \<le> B" "B < 2 ^ 31"
    and "buffers_ok sha (px_cache px) u" "ok_cid (uc_id u)" "raw_mode st u \<longrightarrow> length buffer \<le> B"
    and "5 * unat (uc_numSent u) \<le> 4 * unat (uc_maxWindowSize u)" "unat (uc_maxWindowSize u) < 2 ^ 31"
    and "g_NumBlocked px + 1 \<le> of_int (g_NumUserConns px)"
  shows "user_loop sha st f px ci u buffer k = Inl UndefinedBehaviour \<and> g_ChunkSize (st_mrc st) < length buffer \<or>
    (\<exists>px' ci' u' n. user_loop sha st f px ci u buffer k = Inr (px', ci', u', k + n) \<and> ran sha st f B px ci u buffer n px' ci' u')"
  using assms(5-10)
proof (induction buffer arbitrary: px u k rule: length_induct)
  case (1 buffer)
  note IH = "1.IH"[rule_format] and pre = "1.prems"
  note block = user_block_ok[OF assms(1) pre(1) _ pre(2) assms(2) pre(3)[rule_format] assms(3), of f "ci_status ci"]
  consider "buffer = []"
    | "buffer \<noteq> []" "user_block sha st f (px_cache px) (ci_status ci) u buffer = Inl UndefinedBehaviour" "g_ChunkSize (st_mrc st) < length buffer"
    | "buffer \<noteq> []" "user_block sha st f (px_cache px) (ci_status ci) u buffer = Inr None" "waits st f (ci_status ci)" "length buffer < MIN_RABIN_BUFSIZE"
    | s v msg n where "buffer \<noteq> []" "user_block sha st f (px_cache px) (ci_status ci) u buffer = Inr (Some (s, v, msg, n))"
        "block_sent (may_raw st u) sha px u buffer s v msg n" "n \<le> B"
    using block unfolding block_sent_def by metis
  then show ?case
  proof cases
    case 1
    then show ?thesis using ran_none(1)[OF pre(1,4)] by (force simp: user_loop.simps)
  next
    case 2
    then show ?thesis by (simp add: user_loop.simps)
  next
    case 3
    then show ?thesis using ran_none(2)[OF pre(1,4) 3(3,4)] by (force simp: user_loop.simps)
  next
    case (4 s v msg n)
    note c = block_counted[OF 4(3)] and w = window_step[OF pre(4,5) 4(4) assms(4)]
    note step = user_loop_block[OF 4(2,1,3) pre(6), of k, unfolded Let_def c]
    show ?thesis
    proof (cases "5 * unat (uc_numSent u + of_nat n) > 4 * unat (uc_maxWindowSize u)")
      case True
      with ran_block(2)[OF 4(3) True w(2)] step show ?thesis by fastforce
    next
      case False
      let ?px1 = "px\<lparr>px_cache := s, g_BytesUserRX := g_BytesUserRX px + of_nat n\<rparr>" and ?u1 = "count_sent v msg (int (ci_fd ci)) n"
      have "length (drop n buffer) < length buffer" using 4(1,3) by (auto simp: block_sent_def)
      moreover have "raw_mode st ?u1 \<longrightarrow> length (drop n buffer) \<le> B" using pre(3) unfolding c by auto
      ultimately have "user_loop sha st f ?px1 ci ?u1 (drop n buffer) (k + n) = Inl UndefinedBehaviour \<and>
          g_ChunkSize (st_mrc st) < length (drop n buffer) \<or>
        (\<exists>px' ci' u' m. user_loop sha st f ?px1 ci ?u1 (drop n buffer) (k + n) = Inr (px', ci', u', k + n + m) \<and>
          ran sha st f B ?px1 ci ?u1 (drop n buffer) m px' ci' u')"
        using IH[of "drop n buffer" ?px1 ?u1 "k + n"] c(1) pre(2,5,6) False unfolding c by simp
      with step False ran_block(1)[OF 4(3)] show ?thesis by (force simp: add.assoc)
    qed
  qed
qed


section \<open>The handlers\<close>

text \<open>A user connection that can send: its data, and what it relies on of the proxy.\<close>

definition sender_ok :: "(byte list \<Rightarrow> sha1) \<Rightarrow> proxy \<Rightarrow> ConnectionInfo \<Rightarrow> UserConnectionInfo \<Rightarrow> bool" where
  "sender_ok sha px ci u \<longleftrightarrow> ci_type ci = ct_user \<and> ci_stub ci = UserStub u \<and> \<not> uc_isHttpProxy u \<and> ok_cid (uc_id u) \<and>
     buffers_ok sha (px_cache px) u \<and> unat (uc_maxWindowSize u) < 2 ^ 31"

text \<open>The window is open, and the counter of blocked connections has room.\<close>

definition open_window :: "proxy \<Rightarrow> UserConnectionInfo \<Rightarrow> bool" where
  "open_window px u \<longleftrightarrow> 5 * unat (uc_numSent u) \<le> 4 * unat (uc_maxWindowSize u) \<and> g_NumBlocked px + 1 \<le> of_int (g_NumUserConns px)"

lemma close_queued:
  assumes "ok_cid (uc_id u)" "ci_stub ci = UserStub u"
  shows "\<exists>msg. BuildWACloseConnection (uc_id u) n = Inr msg \<and> SendWACloseConnection ci n =
    Inr (ci\<lparr>ci_stub := UserStub (u\<lparr>uc_controlMsgList := uc_controlMsgList u @ [\<lparr>mi_msg = msg, mi_streamID = int (ci_fd ci)\<rparr>]\<rparr>)\<rparr>)"
proof -
  have "\<not> (uc_dip u = 0 \<or> uc_dport u = 0)" using assms(1) by (simp add: ok_cid_def uc_id_def)
  moreover from assms(1) obtain msg where "BuildWACloseConnection (uc_id u) n = Inr msg" "msg \<noteq> []"
    by (simp add: BuildWACloseConnection_def control_message_eq)
  ultimately show ?thesis using assms(2) by (simp add: SendWACloseConnection_def on_user_def QueueControlData_def)
qed

lemma ran_frame: "ran sha st f B px ci u buffer n px' ci' u' \<Longrightarrow> ci_type ci' = ci_type ci \<and> ci_fd ci' = ci_fd ci \<and> ci_bufRead ci' = ci_bufRead ci"
  by (auto simp: ran_def loop_end_def)

text \<open>
  How \<open>ProcessUserData\<close> leaves the connection: open, blocked, or closed with a message that carries
  the number of bytes of the whole stream.
\<close>

definition user_end :: "settings \<Rightarrow> bool \<Rightarrow> proxy \<Rightarrow> ConnectionInfo \<Rightarrow> proxy \<Rightarrow> ConnectionInfo \<Rightarrow> UserConnectionInfo \<Rightarrow> nat \<Rightarrow> byte list list \<Rightarrow> bool" where
  "user_end st f px ci px' ci' u' n closing \<longleftrightarrow>
     (if 4 * unat (uc_maxWindowSize u') < 5 * unat (uc_numSent u')
      then ci_status ci' = cs_block \<and> g_NumBlocked px' = g_NumBlocked px + 1 \<and> closing = []
      else g_NumBlocked px' = g_NumBlocked px \<and>
        (n = length (ci_bufRead ci) \<or> waits st f (ci_status ci) \<and> length (ci_bufRead ci) - n < MIN_RABIN_BUFSIZE) \<and>
        (if ci_status ci = cs_done
         then ci_status ci' = cs_finsent \<and> (\<exists>msg. BuildWACloseConnection (uc_id u') (uc_bytesTX u') = Inr msg \<and> closing = [msg])
         else ci_status ci' = ci_status ci \<and> closing = []))"

lemma ProcessUserData_ok:
  assumes "mrc_config_ok (st_mrc st)" "\<forall>b. length (sha b) = SHA1_LEN" "sender_ok sha px ci u" "open_window px u" "ci_status ci \<noteq> cs_block"
    and "WAPROX_MRC_MAX \<le> B" "B < 2 ^ 31" "raw_mode st u \<longrightarrow> length (ci_bufRead ci) \<le> B"
  shows "ProcessUserData sha http st px ci f = Inl UndefinedBehaviour \<and> g_ChunkSize (st_mrc st) < length (ci_bufRead ci) \<or>
    (\<exists>px' ci' v u' n closing. ProcessUserData sha http st px ci f = Inr (px', ci', n) \<and> ci_stub ci' = UserStub u' \<and>
       sent_blocks (may_raw st u) sha ci u v (ci_bufRead ci) n \<and>
       u' = v\<lparr>uc_controlMsgList := uc_controlMsgList v @ map (\<lambda>m. \<lparr>mi_msg = m, mi_streamID = int (ci_fd ci)\<rparr>) closing\<rparr> \<and>
       sender_ok sha px' ci' u' \<and> ci_bufRead ci' = ci_bufRead ci \<and>
       5 * unat (uc_numSent u') \<le> 4 * unat (uc_maxWindowSize u') + 5 * B \<and> user_end st f px ci px' ci' u' n closing)"
proof -
  have s: "ci_type ci = ct_user" "ci_stub ci = UserStub u" "\<not> uc_isHttpProxy u" "ok_cid (uc_id u)" "buffers_ok sha (px_cache px) u"
    "unat (uc_maxWindowSize u) < 2 ^ 31" "uc_dip u \<noteq> 0"
    using assms(3) by (auto simp: sender_ok_def ok_cid_def uc_id_def)
  let ?loop = "user_loop sha st f px ci u (ci_bufRead ci) 0"
  from user_loop_ok[OF assms(1,2,6,7) s(5,4) assms(8) _ s(6), of f ci 0] assms(4) consider
      "?loop = Inl UndefinedBehaviour" "g_ChunkSize (st_mrc st) < length (ci_bufRead ci)"
    | px' ci' v n where "?loop = Inr (px', ci', v, n)" "ran sha st f B px ci u (ci_bufRead ci) n px' ci' v"
    by (auto simp: open_window_def)
  then show ?thesis
  proof cases
    case 1
    then show ?thesis using s assms(5) by (simp add: ProcessUserData_def)
  next
    case (2 px' ci' v n)
    note fr = ran_frame[OF 2(2)]
    have v: "sent_blocks (may_raw st u) sha ci u v (ci_bufRead ci) n" "buffers_ok sha (px_cache px') v" "loop_end st f px ci px' ci' v (ci_bufRead ci) n"
      "5 * unat (uc_numSent v) \<le> 4 * unat (uc_maxWindowSize v) + 5 * B" using 2(2) by (simp_all add: ran_def)
    have k: "uc_id v = uc_id u" "\<not> uc_isHttpProxy v" "unat (uc_maxWindowSize v) < 2 ^ 31" "ok_cid (uc_id v)"
      using v(1) s by (auto simp: sent_blocks_def)
    let ?ci2 = "ci'\<lparr>ci_stub := UserStub v\<rparr>"
    have run: "ProcessUserData sha http st px ci f =
      (if ci_status ci' = cs_done then rbind (SendWACloseConnection ?ci2 (uc_bytesTX v + of_nat (length (ci_bufRead ci) - n)))
         (\<lambda>ci3. Inr (px', ci3\<lparr>ci_status := cs_finsent\<rparr>, n)) else Inr (px', ?ci2, n))"
      using s assms(5) 2(1) fr by (simp add: ProcessUserData_def Let_def)
    show ?thesis
    proof (cases "ci_status ci' = cs_done")
      case False
      have "sender_ok sha px' ?ci2 v" using s(1) fr k v(2) by (simp add: sender_ok_def)
      moreover have "user_end st f px ci px' ?ci2 v n []" using v(3) False by (auto simp: user_end_def loop_end_def)
      ultimately show ?thesis using run False v fr
        by (intro disjI2 exI[of _ px'] exI[of _ ?ci2] exI[of _ v] exI[of _ n] exI[of _ "[]"]) simp
    next
      case True
      then have d: "ci' = ci" "ci_status ci = cs_done" "n = length (ci_bufRead ci)" "g_NumBlocked px' = g_NumBlocked px"
        "\<not> 4 * unat (uc_maxWindowSize v) < 5 * unat (uc_numSent v)"
        using v(3) by (auto simp: loop_end_def waits_def)
      from close_queued[OF k(4), of ?ci2 "uc_bytesTX v"] obtain msg where
        m: "BuildWACloseConnection (uc_id v) (uc_bytesTX v) = Inr msg" "SendWACloseConnection ?ci2 (uc_bytesTX v) =
          Inr (?ci2\<lparr>ci_stub := UserStub (v\<lparr>uc_controlMsgList := uc_controlMsgList v @ [\<lparr>mi_msg = msg, mi_streamID = int (ci_fd ci)\<rparr>]\<rparr>)\<rparr>)"
        using fr by auto
      let ?u' = "v\<lparr>uc_controlMsgList := uc_controlMsgList v @ [\<lparr>mi_msg = msg, mi_streamID = int (ci_fd ci)\<rparr>]\<rparr>"
      let ?ci' = "ci\<lparr>ci_stub := UserStub ?u', ci_status := cs_finsent\<rparr>"
      have id: "uc_id ?u' = uc_id v" by (simp add: uc_id_def)
      have "sender_ok sha px' ?ci' ?u'" using s(1) k v(2) id by (simp add: sender_ok_def buffers_ok_def)
      moreover have "user_end st f px ci px' ?ci' ?u' n [msg]" using d m(1) id by (simp add: user_end_def)
      moreover have "ProcessUserData sha http st px ci f = Inr (px', ?ci', n)" using run True m(2) d by simp
      ultimately show ?thesis using v(1,4)
        by (intro disjI2 exI[of _ px'] exI[of _ ?ci'] exI[of _ v] exI[of _ ?u'] exI[of _ n] exI[of _ "[msg]"]) simp
    qed
  qed
qed


section \<open>Acknowledgements\<close>

text \<open>The window holds exactly the bytes that are sent and not acknowledged.\<close>

definition flow_ok :: "UserConnectionInfo \<Rightarrow> bool" where
  "flow_ok u \<longleftrightarrow> uc_numSent u = uc_bytesTX u - uc_lastAcked u"

lemma sent_flow: "sent_blocks raw sha ci u u' buffer n \<Longrightarrow> flow_ok u \<Longrightarrow> flow_ok u'"
  by (simp add: sent_blocks_def flow_ok_def)

lemma acked_remaining:
  assumes "flow_ok u" "uc_lastAcked u \<le> ack" "ack \<le> uc_bytesTX u"
  shows "uc_numSent u - (ack - uc_lastAcked u) = uc_bytesTX u - ack" "unat (uc_bytesTX u - ack) \<le> unat (uc_numSent u)"
proof -
  show "uc_numSent u - (ack - uc_lastAcked u) = uc_bytesTX u - ack" using assms(1) by (simp add: flow_ok_def)
  have "unat (uc_bytesTX u - ack) = unat (uc_bytesTX u) - unat ack" using assms(3) by (simp add: unat_sub)
  moreover have "unat (uc_numSent u) = unat (uc_bytesTX u) - unat (uc_lastAcked u)"
    using assms unat_sub[of "uc_lastAcked u" "uc_bytesTX u"] by (simp add: flow_ok_def)
  ultimately show "unat (uc_bytesTX u - ack) \<le> unat (uc_numSent u)" using assms(2) by (simp add: word_le_nat_alt diff_le_mono2)
qed

lemma resume_test:
  assumes "unat (n :: u32) \<le> unat (w :: u32)"
  shows "of_nat (unat w div 5) \<le> w - n \<longleftrightarrow> unat n + unat w div 5 \<le> unat w"
proof -
  have "unat (of_nat (unat w div 5) :: u32) = unat w div 5"
    using unsigned_less[of w, where 'a = nat] le_less_trans[OF div_le_dividend] by (simp add: unat_of_nat take_bit_nat_eq_self)
  moreover have "unat (w - n) = unat w - unat n" using assms by (simp add: unat_sub word_le_nat_alt)
  ultimately show ?thesis using assms unfolding word_le_nat_alt by auto
qed

text \<open>The state of a connection after an acknowledgement, before it is found to be complete.\<close>

definition resumes :: "ConnectionInfo \<Rightarrow> UserConnectionInfo \<Rightarrow> u32 \<Rightarrow> bool" where
  "resumes ci u ack \<longleftrightarrow> ci_status ci = cs_block \<and> unat (uc_bytesTX u - ack) + unat (uc_maxWindowSize u) div 5 \<le> unat (uc_maxWindowSize u)"

lemma acknowledge_ok:
  assumes "sender_ok sha px ci u" "flow_ok u" "uc_lastAcked u \<le> ack" "ack \<le> uc_bytesTX u" "unat (uc_numSent u) \<le> unat (uc_maxWindowSize u)"
  shows "\<exists>s u' ci' px'. acknowledge px ci ack = (if ci_status ci = cs_finsent \<and> uc_bytesTX u = ack then SetDead px' ci' False else Inr (px', ci')) \<and>
    px' = px\<lparr>px_cache := s, g_NumBlocked := if resumes ci u ack then g_NumBlocked px - 1 else g_NumBlocked px\<rparr> \<and>
    ci' = ci\<lparr>ci_stub := UserStub u', ci_status := if resumes ci u ack then cs_active else ci_status ci\<rparr> \<and>
    sender_ok sha px' ci' u' \<and> flow_ok u' \<and> uc_lastAcked u' = ack \<and> uc_numSent u' = uc_bytesTX u - ack \<and> uc_bytesTX u' = uc_bytesTX u \<and>
    uc_maxWindowSize u' = uc_maxWindowSize u \<and> uc_controlMsgList u' = uc_controlMsgList u \<and>
    uc_chunkBufferList u' = dropWhile (\<lambda>cb. ack = 0 \<or> cb_seq_no cb + cb_length cb \<le> ack) (uc_chunkBufferList u)"
proof -
  have s: "ci_type ci = ct_user" "ci_stub ci = UserStub u" "\<not> uc_isHttpProxy u" "ok_cid (uc_id u)" "unat (uc_maxWindowSize u) < 2 ^ 31"
    "tmp_inv (px_cache px)" "send_inv (px_cache px)" "list_all buffer_ok (uc_chunkBufferList u)"
    "held (px_cache px) (buffer_names (uc_chunkBufferList u))" "tmp_true sha (px_cache px)"
    "scanner_ok (uc_rctx u)" "uc_numChunkBuffers u = of_nat (length (uc_chunkBufferList u))"
    using assms(1) by (auto simp: sender_ok_def buffers_ok_def)
  let ?k = "length (acked ack (uc_chunkBufferList u))"
  from DestroyChunkBufferList_ok[OF s(6-10), of ack True] obtain c where
    d: "DestroyChunkBufferList (px_cache px) (uc_chunkBufferList u) ack True = Inr (c, drop ?k (uc_chunkBufferList u), ?k)"
      "tmp_inv c" "send_inv c" "tmp_true sha c" "held c (buffer_names (drop ?k (uc_chunkBufferList u)))" by blast
  note a = acked_remaining[OF assms(2-4)]
  have e: "px\<lparr>px_cache := x, g_NumBlocked := g_NumBlocked px\<rparr> = px\<lparr>px_cache := x\<rparr>"
    "ci_status ci = v \<Longrightarrow> ci\<lparr>ci_stub := y, ci_status := v\<rparr> = ci\<lparr>ci_stub := y\<rparr>" for x y v by auto
  have z: "uc_numSent u = ack - uc_lastAcked u \<longleftrightarrow> uc_bytesTX u = ack" using assms(2) by (simp add: flow_ok_def)
  have le: "unat (uc_bytesTX u - ack) \<le> unat (uc_maxWindowSize u)" using a(2) assms(5) by simp
  let ?u' = "u\<lparr>uc_lastCumulativeAck := uc_lastCumulativeAck u + (ack - uc_lastAcked u), uc_numSent := uc_bytesTX u - ack, uc_lastAcked := ack,
    uc_chunkBufferList := drop ?k (uc_chunkBufferList u), uc_numChunkBuffers := uc_numChunkBuffers u - of_nat ?k\<rparr>"
  let ?px' = "px\<lparr>px_cache := c, g_NumBlocked := if resumes ci u ack then g_NumBlocked px - 1 else g_NumBlocked px\<rparr>"
  let ?ci' = "ci\<lparr>ci_stub := UserStub ?u', ci_status := if resumes ci u ack then cs_active else ci_status ci\<rparr>"
  have "acknowledge px ci ack = (if ci_status ci = cs_finsent \<and> uc_bytesTX u = ack then SetDead ?px' ?ci' False else Inr (?px', ?ci'))"
  proof (cases "resumes ci u ack")
    case True
    then have "ci_status ci = cs_block" "of_nat (unat (uc_maxWindowSize u) div 5) \<le> uc_maxWindowSize u - (uc_bytesTX u - ack)"
      by (simp_all add: resumes_def resume_test[OF le])
    then show ?thesis using assms(3,4) s(2) d(1) True by (simp add: acknowledge_def Let_def a(1))
  next
    case False
    then consider "ci_status ci \<noteq> cs_block"
      | "ci_status ci = cs_block" "\<not> of_nat (unat (uc_maxWindowSize u) div 5) \<le> uc_maxWindowSize u - (uc_bytesTX u - ack)"
      by (auto simp: resumes_def resume_test[OF le])
    then show ?thesis
    proof cases
      case 1
      then show ?thesis using assms(3,4) s(2) d(1) False by (simp add: acknowledge_def Let_def a(1) z e)
    next
      case 2
      then show ?thesis using assms(3,4) s(2) d(1) False by (simp add: acknowledge_def Let_def a(1) z e)
    qed
  qed
  moreover have "uc_numChunkBuffers u - of_nat ?k = of_nat (length (drop ?k (uc_chunkBufferList u)))"
    using length_takeWhile_le[of _ "uc_chunkBufferList u"] by (simp add: s(12) of_nat_diff)
  then have "sender_ok sha ?px' ?ci' ?u'"
    using s d by (simp add: sender_ok_def buffers_ok_def uc_id_def list_all_iff) (meson in_set_dropD)
  ultimately show ?thesis
    by (intro exI[of _ c] exI[of _ ?u'] exI[of _ ?ci'] exI[of _ ?px']) (simp add: flow_ok_def dropWhile_eq_drop)
qed

section \<open>Properties\<close>

text \<open>
  Claim C3: what a user sends is put in messages. For an open connection whose window is open,
  \<open>ProcessUserData\<close> passes every assertion: it cuts the first \<open>n\<close> bytes of the read buffer into blocks
  and queues for each of them, in order, one control message that carries it, either raw or as a name
  delivery whose chunks tile the block and are named by the digests of their bytes. It keeps the blocks
  that are not acknowledged: to the list of chunk buffers it appends, in order, one buffer for each
  named block, with the position of the block in the stream, its length and the chunks of its message,
  and nothing else; a raw block is not kept. The counters advance by \<open>n\<close>. It takes the whole buffer unless the rest waits for more data or the window is 80 percent
  full; then the connection is blocked, and the window is exceeded by at most one block. A connection
  that is done ends with a close message that carries the number of bytes of the whole stream. The
  only undefined behaviour is the boundary array of \<open>DoPreMRC\<close>, which is long enough for a buffer up
  to the average chunk size.
\<close>

theorem ProcessUserData_sends:
  assumes "mrc_config_ok (st_mrc st)" "\<forall>b. length (sha b) = SHA1_LEN" "sender_ok sha px ci u" "open_window px u" "ci_status ci \<noteq> cs_block"
    and "WAPROX_MRC_MAX \<le> B" "B < 2 ^ 31" "raw_mode st u \<longrightarrow> length (ci_bufRead ci) \<le> B"
  shows "ProcessUserData sha http st px ci f = Inl UndefinedBehaviour \<and> g_ChunkSize (st_mrc st) < length (ci_bufRead ci) \<or>
    (\<exists>px' ci' u' n blocks msgs cbs closing. ProcessUserData sha http st px ci f = Inr (px', ci', n) \<and> ci_stub ci' = UserStub u' \<and>
       concat blocks = take n (ci_bufRead ci) \<and> n \<le> length (ci_bufRead ci) \<and> list_all2 (carries (may_raw st u) sha (uc_id u)) blocks msgs \<and>
       uc_controlMsgList u' = uc_controlMsgList u @ map (\<lambda>m. \<lparr>mi_msg = m, mi_streamID = int (ci_fd ci)\<rparr>) (msgs @ closing) \<and>
       uc_chunkBufferList u' = uc_chunkBufferList u @ cbs \<and> kept_blocks (may_raw st u) sha (uc_id u) (uc_bytesTX u) blocks msgs cbs \<and>
       uc_bytesTX u' = uc_bytesTX u + of_nat n \<and> uc_numSent u' = uc_numSent u + of_nat n \<and>
       uc_maxWindowSize u' = uc_maxWindowSize u \<and> sender_ok sha px' ci' u' \<and>
       5 * unat (uc_numSent u') \<le> 4 * unat (uc_maxWindowSize u') + 5 * B \<and> user_end st f px ci px' ci' u' n closing)"
proof -
  from ProcessUserData_ok[OF assms, of http f] consider
      "ProcessUserData sha http st px ci f = Inl UndefinedBehaviour" "g_ChunkSize (st_mrc st) < length (ci_bufRead ci)"
    | px' ci' v u' n closing where "ProcessUserData sha http st px ci f = Inr (px', ci', n)" "ci_stub ci' = UserStub u'"
       "sent_blocks (may_raw st u) sha ci u v (ci_bufRead ci) n"
       "u' = v\<lparr>uc_controlMsgList := uc_controlMsgList v @ map (\<lambda>m. \<lparr>mi_msg = m, mi_streamID = int (ci_fd ci)\<rparr>) closing\<rparr>"
       "sender_ok sha px' ci' u'" "5 * unat (uc_numSent u') \<le> 4 * unat (uc_maxWindowSize u') + 5 * B" "user_end st f px ci px' ci' u' n closing"
    by blast
  then show ?thesis
  proof cases
    case 1
    then show ?thesis by blast
  next
    case (2 px' ci' v u' n closing)
    from 2(3) obtain blocks msgs cbs where b: "concat blocks = take n (ci_bufRead ci)" "list_all2 (carries (may_raw st u) sha (uc_id u)) blocks msgs"
      "uc_controlMsgList v = uc_controlMsgList u @ map (\<lambda>m. \<lparr>mi_msg = m, mi_streamID = int (ci_fd ci)\<rparr>) msgs" "n \<le> length (ci_bufRead ci)"
      "uc_bytesTX v = uc_bytesTX u + of_nat n" "uc_numSent v = uc_numSent u + of_nat n"
      "uc_maxWindowSize v = uc_maxWindowSize u" "uc_chunkBufferList v = uc_chunkBufferList u @ cbs"
      "kept_blocks (may_raw st u) sha (uc_id u) (uc_bytesTX u) blocks msgs cbs" unfolding sent_blocks_def by blast
    have u': "uc_controlMsgList u' = uc_controlMsgList u @ map (\<lambda>m. \<lparr>mi_msg = m, mi_streamID = int (ci_fd ci)\<rparr>) (msgs @ closing)"
      "uc_bytesTX u' = uc_bytesTX u + of_nat n" "uc_numSent u' = uc_numSent u + of_nat n"
      "uc_maxWindowSize u' = uc_maxWindowSize u" "uc_chunkBufferList u' = uc_chunkBufferList u @ cbs"
      using b(3,5-8) unfolding 2(4) by simp_all
    show ?thesis using 2(1,2,5-7) b(1,2,4,9) u' by blast
  qed
qed

lemma demo_sender:
  "sender_ok sha (demo_proxy (empty_cache 0) (snd (projr (CreateConnectionTables None))) (demo_conn demo_user) [])
      ((demo_conn demo_user)\<lparr>ci_bufRead := b, ci_status := cs\<rparr>) demo_user"
    "open_window (demo_proxy (empty_cache 0) (snd (projr (CreateConnectionTables None))) (demo_conn demo_user) []) demo_user"
proof -
  have r0: "tmp_refs (empty_cache 0) m = 0" "tmp_content (empty_cache 0) m = None" for m by (simp_all add: tmp_refs_def tmp_content_def empty_cache)
  have "buffers_ok sha (empty_cache 0) demo_user"
    using blank_scanner_ok empty_cache(2,3)[of 0] r0 by (simp add: buffers_ok_def demo_user_def new_user_def tmp_true_def held_def)
  then show "sender_ok sha (demo_proxy (empty_cache 0) (snd (projr (CreateConnectionTables None))) (demo_conn demo_user) [])
      ((demo_conn demo_user)\<lparr>ci_bufRead := b, ci_status := cs\<rparr>) demo_user"
    by (simp add: sender_ok_def demo_proxy_def demo_conn_def demo_user_def new_user_def uc_id_def ok_cid_def MAX_WINDOW_SIZE_def)
  show "open_window (demo_proxy (empty_cache 0) (snd (projr (CreateConnectionTables None))) (demo_conn demo_user) []) demo_user"
    by (simp add: open_window_def demo_proxy_def demo_user_def new_user_def)
qed

text \<open>The user sends three bytes and closes; the three bytes are kept.\<close>

theorem ProcessUserData_sends_witness:
  "\<exists>px' ci' u' blocks msgs closing. ProcessUserData (\<lambda>b. replicate 20 7) (\<lambda>px ci. Inr (px, ci, 0)) demo_settings
      (demo_proxy (empty_cache 0) (snd (projr (CreateConnectionTables None))) (demo_conn demo_user) [])
      ((demo_conn demo_user)\<lparr>ci_bufRead := [1, 2, 3], ci_status := cs_done\<rparr>) True = Inr (px', ci', 3) \<and>
     ci_stub ci' = UserStub u' \<and> ci_status ci' = cs_finsent \<and> concat blocks = [1, 2, 3] \<and>
     list_all2 (carries False (\<lambda>b. replicate 20 7) (uc_id demo_user)) blocks msgs \<and> length closing = 1 \<and>
     map mi_msg (uc_controlMsgList u') = msgs @ closing \<and> uc_bytesTX u' = 3 \<and>
     kept_blocks False (\<lambda>b. replicate 20 7) (uc_id demo_user) 0 blocks msgs (uc_chunkBufferList u') \<and>
     sum_list (map cb_length (uc_chunkBufferList u')) = 3"
proof -
  let ?px = "demo_proxy (empty_cache 0) (snd (projr (CreateConnectionTables None))) (demo_conn demo_user) []"
  let ?ci = "(demo_conn demo_user)\<lparr>ci_bufRead := [1, 2, 3], ci_status := cs_done\<rparr>" and ?sha = "\<lambda>b :: byte list. replicate 20 (7 :: byte)"
  have c: "mrc_config_ok (st_mrc demo_settings)" "\<forall>b. length (?sha b) = SHA1_LEN" "WAPROX_MRC_MAX \<le> 2 ^ 20" "ci_status ?ci \<noteq> cs_block"
    "raw_mode demo_settings demo_user \<longrightarrow> length (ci_bufRead ?ci) \<le> 2 ^ 20" "\<not> g_ChunkSize (st_mrc demo_settings) < length (ci_bufRead ?ci)"
    using default_config_ok by (simp_all add: demo_settings_def SHA1_LEN_def WAPROX_MRC_MAX_def default_config_def)
  from ProcessUserData_sends[OF c(1,2) demo_sender c(4,3) _ c(5), of "\<lambda>px ci. Inr (px, ci, 0)" True] c(6)
  obtain px' ci' u' n blocks msgs cbs closing where r: "ProcessUserData ?sha (\<lambda>px ci. Inr (px, ci, 0)) demo_settings ?px ?ci True = Inr (px', ci', n)"
    "ci_stub ci' = UserStub u'" "concat blocks = take n (ci_bufRead ?ci)" "n \<le> length (ci_bufRead ?ci)" "list_all2 (carries (may_raw demo_settings demo_user) ?sha (uc_id demo_user)) blocks msgs"
    "uc_controlMsgList u' = uc_controlMsgList demo_user @ map (\<lambda>m. \<lparr>mi_msg = m, mi_streamID = int (ci_fd ?ci)\<rparr>) (msgs @ closing)"
    "uc_bytesTX u' = uc_bytesTX demo_user + of_nat n" "uc_numSent u' = uc_numSent demo_user + of_nat n" "uc_maxWindowSize u' = uc_maxWindowSize demo_user"
    "user_end demo_settings True ?px ?ci px' ci' u' n closing" "uc_chunkBufferList u' = uc_chunkBufferList demo_user @ cbs"
    "kept_blocks (may_raw demo_settings demo_user) ?sha (uc_id demo_user) (uc_bytesTX demo_user) blocks msgs cbs"
    by auto
  have z: "uc_controlMsgList demo_user = []" "uc_bytesTX demo_user = 0" "uc_numSent demo_user = 0" "unat (uc_maxWindowSize demo_user) = 62914560"
    "uc_chunkBufferList demo_user = []"
    by (simp_all add: demo_user_def new_user_def MAX_WINDOW_SIZE_def)
  have raw: "may_raw demo_settings demo_user = False" by (simp add: raw_mode_def demo_settings_def demo_user_def new_user_def)
  have "unat (of_nat n :: u32) \<le> 3" using r(4) by (simp add: unat_of_nat take_bit_nat_eq_self)
  then have e: "n = 3" "ci_status ci' = cs_finsent" "\<exists>msg. closing = [msg]"
    using r(10) unfolding user_end_def r(8,9) z by (auto simp: waits_def)
  have k: "kept_blocks False ?sha (uc_id demo_user) 0 blocks msgs (uc_chunkBufferList u')" using r(11,12) unfolding raw z by simp
  have "sum_list (map cb_length (uc_chunkBufferList u')) = 3" using kept_blocks_total[OF k] r(3) e(1) by simp
  moreover have "map mi_msg (uc_controlMsgList u') = msgs @ closing" unfolding r(6) z by (simp add: comp_def)
  ultimately show ?thesis by (intro exI[of _ px'] exI[of _ ci'] exI[of _ u'] exI[of _ blocks] exI[of _ msgs] exI[of _ closing])
      (use r[unfolded raw] e z k in auto)
qed

end
