(* ===== verification/Session.thy ===== *)
theory Session
  imports Sender
begin

text \<open>
  The control messages between proxies and the life of a connection (waprox/waprox.c,
  waprox/connection.c): the handlers of the five kinds of control messages, the loop of
  \<open>ProcessControlData\<close> that reads them from the byte stream of a peer, and what they keep of the kinds
  and states of connections.

  The master set of connections is \<open>px_conns\<close>, which maps a descriptor to the connection; a handler
  writes a connection it changed back with \<open>put_conn\<close>. The descriptors that \<open>MakeConnection\<close> returns
  are the list \<open>px_fds\<close>; the empty list stands for a connection that fails.
\<close>

section \<open>Operations\<close>

definition put_conn :: "ConnectionInfo \<Rightarrow> proxy \<Rightarrow> proxy" where
  "put_conn ci px = px\<lparr>px_conns := (px_conns px)(ci_fd ci := Some ci)\<rparr>"

text \<open>The connection a control message is for.\<close>

definition target_conn :: "proxy \<Rightarrow> ConnectionID \<Rightarrow> ConnectionInfo option res" where
  "target_conn px cid =
     rbind (GetDestinationConnection (g_ConnMap px) (srcIP cid) (srcPort cid) (dstIP cid) (dstPort cid)) (\<lambda>target.
       case target of
         None \<Rightarrow> Inr None
       | Some fd \<Rightarrow> (case px_conns px fd of None \<Rightarrow> Inl UndefinedBehaviour | Some ci \<Rightarrow> Inr (Some ci)))"

definition sizeof_WANameAck :: nat where "sizeof_WANameAck = 23"
definition sizeof_WACloseConnection :: nat where "sizeof_WACloseConnection = 23"
definition sizeof_WAOpenConnection :: nat where "sizeof_WAOpenConnection = 19"
definition sizeof_WARawMessage :: nat where "sizeof_WARawMessage = 23"

lemmas sizeof_session = sizeof_WANameAck_def sizeof_WACloseConnection_def sizeof_WAOpenConnection_def sizeof_WARawMessage_def

definition ProcessNameAck :: "proxy \<Rightarrow> byte list \<Rightarrow> (proxy \<times> int) res" where
  "ProcessNameAck px buffer =
     (if length buffer < sizeof_WANameAck then Inl UndefinedBehaviour
      else let ack = be32_at buffer 19; cid = connID_at buffer
        in ensure (srcIP cid \<noteq> 0 \<and> srcPort cid \<noteq> 0 \<and> dstIP cid \<noteq> 0 \<and> dstPort cid \<noteq> 0)
             (rbind (target_conn px cid) (\<lambda>target.
                case target of
                  None \<Rightarrow> Inr (px, int sizeof_WANameAck)
                | Some target_ci \<Rightarrow>
                    rbind (acknowledge px target_ci ack) (\<lambda>(px1, ci1). Inr (put_conn ci1 px1, int sizeof_WANameAck)))))"

definition ProcessCloseConnection :: "proxy \<Rightarrow> byte list \<Rightarrow> (proxy \<times> int) res" where
  "ProcessCloseConnection px buffer =
     (if length buffer < sizeof_WACloseConnection then Inl UndefinedBehaviour
      else let bytesTX = be32_at buffer 19
        in rbind (target_conn px (connID_at buffer)) (\<lambda>target.
             case target of
               None \<Rightarrow> Inr (px, int sizeof_WACloseConnection)
             | Some target_ci \<Rightarrow>
                 (case ci_stub target_ci of
                    UserStub u \<Rightarrow>
                      rbind (if bytesTX = 0 then SetDead px target_ci True
                             else if uc_bytesRX u = bytesTX then SetDead px target_ci False
                             else Inr (px, target_ci\<lparr>ci_stub := UserStub (u\<lparr>uc_closeBytes := bytesTX\<rparr>)\<rparr>))
                        (\<lambda>(px1, ci1). Inr (put_conn ci1 px1, int sizeof_WACloseConnection))
                  | _ \<Rightarrow> Inl UndefinedBehaviour)))"

definition ProcessRawMessage :: "settings \<Rightarrow> proxy \<Rightarrow> byte list \<Rightarrow> (proxy \<times> int) res" where
  "ProcessRawMessage st px buffer =
     (if length buffer < sizeof_WARawMessage then Inl UndefinedBehaviour
      else let msg_len = sint (be32_at buffer 19); tot_length = sint (be32_at buffer 2)
        in ensure (msg_len > 0)
          (ensure (tot_length \<le> int (length buffer))
            (rbind (target_conn px (connID_at buffer)) (\<lambda>target.
               case target of
                 None \<Rightarrow> Inr (px, tot_length)
               | Some target_ci \<Rightarrow>
                   if sizeof_WARawMessage + nat msg_len > length buffer then Inl UndefinedBehaviour
                   else let data = take (nat msg_len) (drop sizeof_WARawMessage buffer) in
                     rbind (SendData px target_ci data) (\<lambda>(px1, ci1).
                       case ci_stub ci1 of
                         UserStub u \<Rightarrow>
                           let u1 = u\<lparr>uc_missBytes := uc_missBytes u + of_nat (length data)\<rparr> in
                           rbind (if \<not> g_NoCache st \<and> ((g_ClientChunking st \<and> \<not> uc_isForward u1) \<or> (g_ServerChunking st \<and> uc_isForward u1))
                                  then QueuePutMessage st px1 data (uc_dstPxyIdx u1) (uc_seq_no u1) None else Inr px1) (\<lambda>px2.
                             Inr (put_conn (ci1\<lparr>ci_stub := UserStub (u1\<lparr>uc_seq_no := uc_seq_no u1 + 1\<rparr>)\<rparr>) px2, tot_length))
                       | _ \<Rightarrow> Inl UndefinedBehaviour)))))"

definition MakeConnection :: "proxy \<Rightarrow> (proxy \<times> nat option)" where
  "MakeConnection px = (case px_fds px of [] \<Rightarrow> (px, None) | fd # fds \<Rightarrow> (px\<lparr>px_fds := fds\<rparr>, Some fd))"

definition ProcessOpenConnection :: "settings \<Rightarrow> RabinCtx \<Rightarrow> proxy \<Rightarrow> ConnectionInfo \<Rightarrow> byte list \<Rightarrow> (proxy \<times> int) res" where
  "ProcessOpenConnection st zero px ci buffer =
     (let cid = connID_at buffer in
      case ci_stub ci of
        ControlStub nci \<Rightarrow>
          ensure (srcIP cid \<noteq> 0 \<and> srcPort cid \<noteq> 0 \<and> dstIP cid \<noteq> 0 \<and> dstPort cid \<noteq> 0)
          (ensure (SearchConnection (g_ConnMap px) (dstIP cid) (dstPort cid) (srcIP cid) (srcPort cid) = None)
            (case MakeConnection px of
               (px1, None) \<Rightarrow> Inl NiceExit
             | (px1, Some newfd) \<Rightarrow>
                 if newfd = 0 then Inl NiceExit
                 else rbind (CreateNewConnectionInfo px1 newfd ct_user) (\<lambda>(px2, ci2).
                   rbind (CreateUserConnectionInfo (st_mrc st) zero px2 ci2 False) (\<lambda>(px3, ci3).
                     if cc_peerIdx nci < 0 then Inl UndefinedBehaviour
                     else let peer = nat (cc_peerIdx nci) in
                       rbind (GetNextControlFlowID (g_MaxPeerConns st) (px_peers px3) peer) (\<lambda>(p1, flow).
                         rbind (on_user ci3 (\<lambda>u. Inr (u\<lparr>uc_sip := dstIP cid, uc_sport := dstPort cid, uc_dip := srcIP cid, uc_dport := srcPort cid,
                                  uc_dstPxyIdx := cc_peerIdx nci, uc_nameFlowId := int flow\<rparr>))) (\<lambda>ci4.
                           let p2 = update_peer peer (\<lambda>pi. pi\<lparr>pi_userList := pi_userList pi @ [ci_fd ci4], pi_numUsers := pi_numUsers pi + 1\<rparr>) p1 in
                           rbind (PutConnection (g_ConnMap px3) ci4) (\<lambda>cm.
                             Inr (put_conn ci4 (px3\<lparr>px_peers := p2, g_ConnMap := cm\<rparr>), int sizeof_WAOpenConnection))))))))
      | _ \<Rightarrow> Inl UndefinedBehaviour)"

text \<open>The message at the start of the buffer, by its type.\<close>

definition control_message_step :: "(u32 \<Rightarrow> u32) \<Rightarrow> settings \<Rightarrow> RabinCtx \<Rightarrow> byte \<Rightarrow> proxy \<Rightarrow> ConnectionInfo \<Rightarrow> byte list \<Rightarrow> (proxy \<times> int) res" where
  "control_message_step rotl st zero msgType px ci buffer =
     (if msgType = TYPE_WAOPENCONNECTION then ProcessOpenConnection st zero px ci buffer
      else if msgType = TYPE_WANAMEDELIVERY then ProcessNameTreeDelivery2 rotl px buffer
      else if msgType = TYPE_WANAMEACK then ProcessNameAck px buffer
      else if msgType = TYPE_WACLOSECONNECTION then ProcessCloseConnection px buffer
      else if msgType = TYPE_WARAWMESSAGE then ProcessRawMessage st px buffer
      else Inl AssertFail)"

text \<open>
  The loop of \<open>ProcessControlData\<close>: the bytes processed, or \<open>None\<close> when it gives up. A handler that
  claims more bytes than there are would leave a negative length.
\<close>

function control_loop :: "(u32 \<Rightarrow> u32) \<Rightarrow> settings \<Rightarrow> RabinCtx \<Rightarrow> proxy \<Rightarrow> ConnectionInfo \<Rightarrow> byte list \<Rightarrow> nat \<Rightarrow> (proxy \<times> nat option) res" where
  "control_loop rotl st zero px ci buffer num_processed =
     (if buffer = [] then Inr (px, Some num_processed)
      else case VerifyControlHeader buffer of
        NeedMore \<Rightarrow> Inr (px, Some num_processed)
      | Bad \<Rightarrow> Inr (px, None)
      | Valid msgType \<Rightarrow>
          rbind (control_message_step rotl st zero msgType px ci buffer) (\<lambda>(px1, one_process).
            if one_process = 0 then Inr (px1, Some num_processed)
            else if one_process = -1 then Inr (px1, None)
            else if one_process < 0 \<or> one_process > int (length buffer) then Inl UndefinedBehaviour
            else control_loop rotl st zero px1 ci (drop (nat one_process) buffer) (num_processed + nat one_process)))"
  by pat_completeness auto
termination
proof (relation "measure (\<lambda>(rotl, st, zero, px, ci, buffer, n). length buffer)", goal_cases)
  case (2 rotl st zero px ci buffer n ty r px1 one)
  then show ?case by (cases buffer) auto
qed simp

declare control_loop.simps [simp del]

definition ProcessControlData :: "(u32 \<Rightarrow> u32) \<Rightarrow> settings \<Rightarrow> RabinCtx \<Rightarrow> proxy \<Rightarrow> ConnectionInfo \<Rightarrow> byte list \<Rightarrow> (proxy \<times> int) res" where
  "ProcessControlData rotl st zero px ci buffer =
     ensure (ci_type ci = ct_control)
       (rbind (control_loop rotl st zero px ci buffer 0) (\<lambda>(px1, r).
          case r of
            None \<Rightarrow> Inr (px1, -1)
          | Some n \<Rightarrow> Inr (px1\<lparr>g_BytesPeerRX := g_BytesPeerRX px1 + of_nat n\<rparr>, int n)))"

section \<open>Reading from the stream\<close>

text \<open>What a handler reads does not depend on what follows.\<close>

lemma at_append [simp]:
  "i + 4 \<le> length b \<Longrightarrow> be32_at (b @ c) i = be32_at b i"
  "i + 2 \<le> length b \<Longrightarrow> be16_at (b @ c) i = be16_at b i"
  by (auto simp: be32_at_def be16_at_def rd_be32_def rd_be16_def nth_append)

lemma connID_append [simp]: "18 \<le> length b \<Longrightarrow> connID_at (b @ c) = connID_at b"
  by (simp add: connID_at_def)

lemma read_chunk_append:
  assumes "25 \<le> length b" "snd (read_chunk b) \<le> length b"
  shows "read_chunk (b @ c) = read_chunk b"
  using assms by (auto simp: read_chunk_def sizeof_defs Let_def nth_append)

lemma recv_names_append:
  "recv_names rotl ci n b off px u ri = Inr r \<Longrightarrow> recv_names rotl ci n (b @ c) off px u ri = Inr r"
proof (induction n arbitrary: off px u ri)
  case (Suc n)
  obtain ck k where ck: "read_chunk (drop off b) = (ck, k)" by (cases "read_chunk (drop off b)")
  from Suc.prems have len: "off + 25 \<le> length b" "off + k \<le> length b"
    by (auto simp: ck sizeof_defs split: if_splits)
  have "read_chunk (drop off b @ c) = (ck, k)" using read_chunk_append[of "drop off b" c] ck len by simp
  with Suc ck len show ?case by (auto simp: sizeof_defs res_simps)
qed simp

lemma handler_append:
  assumes "18 \<le> length b"
  shows "ProcessNameTreeDelivery2 rotl px b = Inr r \<Longrightarrow> ProcessNameTreeDelivery2 rotl px (b @ c) = Inr r"
    "ProcessNameAck px b = Inr r \<Longrightarrow> ProcessNameAck px (b @ c) = Inr r"
    "ProcessCloseConnection px b = Inr r \<Longrightarrow> ProcessCloseConnection px (b @ c) = Inr r"
    "ProcessRawMessage st px b = Inr r \<Longrightarrow> ProcessRawMessage st px (b @ c) = Inr r"
    "ProcessOpenConnection st zero px ci b = Inr r \<Longrightarrow> ProcessOpenConnection st zero px ci (b @ c) = Inr r"
proof -
  show "ProcessNameAck px b = Inr r \<Longrightarrow> ProcessNameAck px (b @ c) = Inr r"
    using assms by (simp add: ProcessNameAck_def sizeof_session split: if_splits)
  show "ProcessCloseConnection px b = Inr r \<Longrightarrow> ProcessCloseConnection px (b @ c) = Inr r"
    using assms by (simp add: ProcessCloseConnection_def sizeof_session split: if_splits)
  show "ProcessOpenConnection st zero px ci b = Inr r \<Longrightarrow> ProcessOpenConnection st zero px ci (b @ c) = Inr r"
    using assms by (simp add: ProcessOpenConnection_def)
next
  assume a: "ProcessNameTreeDelivery2 rotl px b = Inr r"
  then have len: "23 \<le> length b" by (simp add: ProcessNameTreeDelivery2_def sizeof_defs split: if_splits)
  let ?cid = "connID_at b"
  from a len obtain tgt where g: "sint (be32_at b 2) \<le> int (length b)" "sint (be32_at b 19) = 1"
    "srcIP ?cid \<noteq> 0 \<and> srcPort ?cid \<noteq> 0 \<and> dstIP ?cid \<noteq> 0 \<and> dstPort ?cid \<noteq> 0"
    "GetDestinationConnection (g_ConnMap px) (srcIP ?cid) (srcPort ?cid) (dstIP ?cid) (dstPort ?cid) = Inr tgt"
    by (auto simp: ProcessNameTreeDelivery2_def sizeof_defs Let_def res_simps)
  show "ProcessNameTreeDelivery2 rotl px (b @ c) = Inr r"
  proof (cases tgt)
    case None
    with a g len show ?thesis by (simp add: ProcessNameTreeDelivery2_def sizeof_defs Let_def)
  next
    case (Some fd)
    with a g len obtain ci u where ci: "px_conns px fd = Some ci" "ci_stub ci = UserStub u"
      by (auto simp: ProcessNameTreeDelivery2_def sizeof_defs Let_def split: option.splits stub.splits)
    with a g len Some obtain u1 ri where n: "CreateNewReassembleInfo ci (u\<lparr>uc_seq_no := uc_seq_no u + 1\<rparr>) (uc_seq_no u) = Inr (u1, ri)" "28 \<le> length b"
      by (auto simp: ProcessNameTreeDelivery2_def sizeof_defs Let_def res_simps split: if_splits)
    with a g(1-3) g(4)[unfolded Some] ci obtain px1 u2 ri1 off where
      r1: "recv_names rotl ci (nat (sint (be32_at b 24))) b 28 px u1 ri = Inr (px1, u2, ri1, off)"
      by (auto simp: ProcessNameTreeDelivery2_def sizeof_defs Let_def rbind_eq_Inr)
    have "ProcessNameTreeDelivery2 rotl px (b @ c) = ProcessNameTreeDelivery2 rotl px b"
      using g(1-3) g(4)[unfolded Some] ci n r1 recv_names_append[OF r1, of c]
      by (simp add: ProcessNameTreeDelivery2_def sizeof_defs Let_def)
    with a show ?thesis by simp
  qed
next
  assume a: "ProcessRawMessage st px b = Inr r"
  then obtain tgt where g: "23 \<le> length b" "sint (be32_at b 19) > 0" "sint (be32_at b 2) \<le> int (length b)" "target_conn px (connID_at b) = Inr tgt"
    by (auto simp: ProcessRawMessage_def sizeof_session Let_def res_simps split: if_splits)
  moreover have "23 + nat (sint (be32_at b 19)) \<le> length b" if "tgt \<noteq> None"
    using a g that by (auto simp: ProcessRawMessage_def sizeof_session Let_def split: if_splits)
  ultimately have "ProcessRawMessage st px (b @ c) = ProcessRawMessage st px b"
    by (cases tgt) (simp_all add: ProcessRawMessage_def sizeof_session Let_def)
  with a show "ProcessRawMessage st px (b @ c) = Inr r" by simp
qed


lemma verify_append:
  assumes "VerifyControlHeader b = Valid ty"
  shows "VerifyControlHeader (b @ c) = Valid ty" "18 \<le> length b" "ty \<in> set control_types"
proof -
  have l: "18 \<le> length b" "unat (be32_at b 2) \<le> length b"
    using assms by (auto simp: VerifyControlHeader_def sizeof_defs split: if_splits)
  then show "18 \<le> length b" by simp
  have "(b @ c) ! 0 = b ! 0" "(b @ c) ! 1 = b ! 1" using l(1) by (auto simp: nth_append)
  then show "VerifyControlHeader (b @ c) = Valid ty"
    using assms l by (auto simp: VerifyControlHeader_def sizeof_defs split: if_splits)
  show "ty \<in> set control_types" using assms by (auto simp: VerifyControlHeader_def control_types_def split: if_splits)
qed

lemma step_append:
  assumes "VerifyControlHeader b = Valid ty" "control_message_step rotl st zero ty px ci b = Inr r"
  shows "control_message_step rotl st zero ty px ci (b @ c) = Inr r"
  using assms(2) handler_append[OF verify_append(2)[OF assms(1)]] unfolding control_message_step_def by presburger

lemma control_loop_valid:
  assumes "VerifyControlHeader b = Valid ty" "control_message_step rotl st zero ty px ci b = Inr (px1, int one)" "0 < one" "one \<le> length b"
  shows "control_loop rotl st zero px ci b k = control_loop rotl st zero px1 ci (drop one b) (k + one)"
  using assms by (subst control_loop.simps) auto

text \<open>How a successful run begins: it stops, or one message is handled and the rest follows.\<close>

lemma control_loop_cases:
  assumes "control_loop rotl st zero px ci b k = Inr (px', Some n)"
  obtains "n = k" "b = [] \<or> VerifyControlHeader b = NeedMore" "px' = px"
    | ty where "n = k" "VerifyControlHeader b = Valid ty" "control_message_step rotl st zero ty px ci b = Inr (px', 0)"
    | ty px1 one where "VerifyControlHeader b = Valid ty" "control_message_step rotl st zero ty px ci b = Inr (px1, int one)" "0 < one" "one \<le> length b"
        "control_loop rotl st zero px1 ci (drop one b) (k + one) = Inr (px', Some n)"
proof (cases "b = [] \<or> VerifyControlHeader b = NeedMore")
  case True
  then have "n = k \<and> px' = px" using assms by (auto simp: control_loop.simps[of rotl st zero px ci b k] split: if_splits)
  with True that(1) show ?thesis by blast
next
  case False
  with assms obtain ty where ty: "b \<noteq> []" "VerifyControlHeader b = Valid ty"
    by (cases "VerifyControlHeader b") (auto simp: control_loop.simps[of rotl st zero px ci b k])
  with assms obtain px1 one where s: "control_message_step rotl st zero ty px ci b = Inr (px1, one)"
    by (auto simp: control_loop.simps[of rotl st zero px ci b k] rbind_eq_Inr)
  note r = assms[unfolded control_loop.simps[of rotl st zero px ci b k] if_not_P[OF ty(1)] ty(2) verified.case s rbind_simps prod.case]
  show ?thesis
  proof (cases "one = 0")
    case True
    with r have "n = k" "px' = px1" by simp_all
    with True ty s that(2) show ?thesis by blast
  next
    case False
    with r have "0 < one" "one \<le> int (length b)" "control_loop rotl st zero px1 ci (drop (nat one) b) (k + nat one) = Inr (px', Some n)"
      by (simp_all split: if_splits)
    with that(3)[of ty px1 "nat one"] ty s show ?thesis by simp
  qed
qed

lemma control_loop_bounds: "control_loop rotl st zero px ci b k = Inr (px', Some n) \<Longrightarrow> k \<le> n \<and> n \<le> k + length b"
proof (induction b arbitrary: px k rule: length_induct)
  case (1 b)
  from "1.prems" show ?case
  proof (cases rule: control_loop_cases)
    case (3 ty px1 one)
    have "length (drop one b) < length b" using 3(3,4) by simp
    with 3 "1.IH" have "k + one \<le> n \<and> n \<le> k + one + length (drop one b)" by blast
    with 3(4) show ?thesis by simp
  qed simp_all
qed

lemma control_loop_append:
  assumes "control_loop rotl st zero px ci b k = Inr (px', Some n)"
    and "drop (n - k) b = [] \<or> VerifyControlHeader (drop (n - k) b) = NeedMore"
  shows "control_loop rotl st zero px ci (b @ c) k = control_loop rotl st zero px' ci (drop (n - k) b @ c) n"
  using assms
proof (induction b arbitrary: px k rule: length_induct)
  case (1 b)
  from "1.prems"(1) show ?case
  proof (cases rule: control_loop_cases)
    case 1
    then show ?thesis by simp
  next
    case (2 ty)
    then have "VerifyControlHeader b = NeedMore \<or> b = []" using "1.prems"(2) by auto
    with 2 verify_append(2)[OF 2(2)] show ?thesis by auto
  next
    case (3 ty px1 one)
    have d: "drop (n - (k + one)) (drop one b) = drop (n - k) b"
      using control_loop_bounds[OF 3(5)] by (simp add: add.commute)
    have "control_loop rotl st zero px ci (b @ c) k = control_loop rotl st zero px1 ci (drop one b @ c) (k + one)"
      using control_loop_valid[OF verify_append(1)[OF 3(1)] step_append[OF 3(1,2)] 3(3), of c k] 3(4) by simp
    also have "\<dots> = control_loop rotl st zero px' ci (drop (n - (k + one)) (drop one b) @ c) n"
      using "1.IH"[rule_format, OF _ 3(5)] 3(3,4) "1.prems"(2) unfolding d by simp
    finally show ?thesis unfolding d .
  qed
qed

section \<open>Types of connections\<close>

text \<open>
  The stub of a connection has the type of the connection, the master set is indexed by the
  descriptor, and the connection table leads to connections of users only.
\<close>

definition typed :: "ConnectionInfo \<Rightarrow> bool" where
  "typed ci \<longleftrightarrow> (case ci_type ci of
     ct_user \<Rightarrow> (case ci_stub ci of UserStub _ \<Rightarrow> True | _ \<Rightarrow> False)
   | ct_control \<Rightarrow> (case ci_stub ci of ControlStub _ \<Rightarrow> True | _ \<Rightarrow> False)
   | ct_chunk \<Rightarrow> (case ci_stub ci of ChunkStub _ \<Rightarrow> True | _ \<Rightarrow> False)
   | ct_cache \<Rightarrow> (case ci_stub ci of CacheStub _ \<Rightarrow> True | _ \<Rightarrow> False)
   | ct_dns \<Rightarrow> (case ci_stub ci of DnsStub \<Rightarrow> True | _ \<Rightarrow> False)
   | _ \<Rightarrow> True)"

definition conns_typed :: "proxy \<Rightarrow> bool" where
  "conns_typed px \<longleftrightarrow> conns_good (g_ConnMap px) \<and> (\<forall>fd ci. px_conns px fd = Some ci \<longrightarrow> ci_fd ci = fd \<and> typed ci) \<and>
     (\<forall>k fd. hashtable_search (g_ConnMap px) k = Some fd \<longrightarrow> (\<exists>ci. px_conns px fd = Some ci \<and> ci_type ci = ct_user))"

definition keeps_conns :: "proxy \<Rightarrow> proxy \<Rightarrow> bool" where
  "keeps_conns px px' \<longleftrightarrow> px_conns px' = px_conns px \<and> g_ConnMap px' = g_ConnMap px \<and> px_peers px' = px_peers px"

definition retyped :: "ConnectionInfo \<Rightarrow> ConnectionInfo \<Rightarrow> bool" where
  "retyped ci ci' \<longleftrightarrow> ci_fd ci' = ci_fd ci \<and> ci_type ci' = ci_type ci \<and> (typed ci \<longrightarrow> typed ci')"

lemma keeps_retyped_trans:
  "keeps_conns px px1 \<Longrightarrow> keeps_conns px1 px2 \<Longrightarrow> keeps_conns px px2" "retyped ci ci1 \<Longrightarrow> retyped ci1 ci2 \<Longrightarrow> retyped ci ci2"
  "keeps_conns px px" "retyped ci ci"
  by (auto simp: keeps_conns_def retyped_def)

lemma retyped_user: "ci_stub ci = UserStub u \<Longrightarrow> ci_stub ci' = UserStub u' \<Longrightarrow> ci_fd ci' = ci_fd ci \<Longrightarrow> ci_type ci' = ci_type ci \<Longrightarrow> retyped ci ci'"
  by (auto simp: retyped_def typed_def split: connectionType.splits)

lemma retyped_same: "ci_stub ci' = ci_stub ci \<Longrightarrow> ci_fd ci' = ci_fd ci \<Longrightarrow> ci_type ci' = ci_type ci \<Longrightarrow> retyped ci ci'"
  by (simp only: retyped_def typed_def simp_thms)

lemma on_user_typed: "on_user ci f = Inr ci' \<Longrightarrow> retyped ci ci'"
  by (auto simp: on_user_def res_simps split: stub.splits intro: retyped_user)

lemma close_typed: "SendWACloseConnection ci n = Inr ci' \<Longrightarrow> retyped ci ci'" "SendWANameAck ci n = Inr ci' \<Longrightarrow> retyped ci ci'"
  by (auto simp: SendWACloseConnection_def SendWANameAck_def ensure_eq_Inr intro: on_user_typed)

lemma SetDead_typed:
  assumes "SetDead px ci abnormal = Inr (px', ci')"
  shows "keeps_conns px px' \<and> retyped ci ci'"
proof (cases "ci_status ci = cs_closed")
  case True
  with assms show ?thesis by (simp add: SetDead_def ensure_eq_Inr keeps_retyped_trans)
next
  case False
  let ?ci1 = "ci\<lparr>ci_status := cs_closed, ci_isAbnormal := abnormal\<rparr>"
  have r1: "retyped ci ?ci1" by (rule retyped_same) simp_all
  from assms False have px: "px' = px\<lparr>g_DeadConnList := g_DeadConnList px @ [ci_fd ci], g_NumDeadConns := g_NumDeadConns px + 1\<rparr>"
    and ci: "(if ci_type ci = ct_user \<and> abnormal then rbind (on_user ?ci1 (\<lambda>u. Inr (u\<lparr>uc_controlMsgList := []\<rparr>))) (\<lambda>ci2. SendWACloseConnection ci2 0)
      else Inr ?ci1) = Inr ci'"
    by (simp_all add: SetDead_def ensure_eq_Inr rbind_eq_Inr Let_def)
  have "retyped ?ci1 ci'"
    using ci by (auto simp: rbind_eq_Inr keeps_retyped_trans(4) split: if_splits intro: keeps_retyped_trans(2) on_user_typed close_typed)
  with px r1 show ?thesis by (simp add: keeps_conns_def keeps_retyped_trans(2)[OF r1])
qed

lemma ActualWrite_typed: "ActualWrite ci b r = Inr (ci', n) \<Longrightarrow> retyped ci ci'"
  by (rule retyped_same; auto simp: ActualWrite_def Let_def ensure_eq_Inr split: write_result.splits if_splits)

lemma next_write_keeps: "next_write px = (px', r) \<Longrightarrow> keeps_conns px px'"
  by (auto simp: next_write_def keeps_conns_def split: list.splits)

lemma write_loop_typed:
  "write_loop px ci n = Inr (px', ci', n', dead) \<Longrightarrow> keeps_conns px px' \<and> retyped ci ci'"
proof (induction px ci n rule: write_loop.induct)
  case (1 px ci n)
  show ?case
  proof (cases "ci_msgListWrite ci")
    case Nil
    with "1.prems" show ?thesis by (simp add: write_loop.simps[of px ci n] keeps_retyped_trans)
  next
    case (Cons walk rest)
    obtain px1 r where nw: "next_write px = (px1, r)" by (cases "next_write px")
    note k = next_write_keeps[OF nw]
    from "1.prems" Cons nw obtain ci1 ret where aw: "ActualWrite ci (mi_msg walk) r = Inr (ci1, ret)"
      by (auto simp: write_loop.simps[of px ci n] rbind_eq_Inr)
    note a = ActualWrite_typed[OF aw]
    consider "ret = -1" | "ret = 0" | "ret \<noteq> -1" "ret \<noteq> 0" by blast
    then show ?thesis
    proof cases
      case 1
      with "1.prems" Cons nw aw obtain px2 ci2 where "SetDead px1 ci1 True = Inr (px2, ci2)" "px' = px2" "ci' = ci2"
        by (auto simp: write_loop.simps[of px ci n] rbind_eq_Inr)
      with SetDead_typed k a show ?thesis by (blast intro: keeps_retyped_trans)
    next
      case 2
      with "1.prems" Cons nw aw k a show ?thesis by (simp add: write_loop.simps[of px ci n])
    next
      case 3
      with "1.prems" Cons nw aw
      have "write_loop px1 (ci1\<lparr>ci_msgListWrite := rest\<rparr>) (n + of_nat (length (mi_msg walk))) = Inr (px', ci', n', dead)"
        by (simp add: write_loop.simps[of px ci n])
      with "1.IH"[OF Cons nw[symmetric] refl aw refl 3] have "keeps_conns px1 px' \<and> retyped (ci1\<lparr>ci_msgListWrite := rest\<rparr>) ci'" by simp
      moreover have "retyped ci1 (ci1\<lparr>ci_msgListWrite := rest\<rparr>)" by (rule retyped_same) simp_all
      ultimately show ?thesis using k a by (blast intro: keeps_retyped_trans)
    qed
  qed
qed

lemma PostWrite_typed:
  assumes "PostWrite px ci n ev = Inr (px', ci')"
  shows "keeps_conns px px' \<and> retyped ci ci'"
proof (cases "ci_type ci = ct_user")
  case True
  with assms obtain ci1 where c1: "on_user ci (\<lambda>u. Inr (u\<lparr>uc_bytesRX := uc_bytesRX u + n\<rparr>)) = Inr ci1"
    by (auto simp: PostWrite_def ensure_eq_Inr rbind_eq_Inr)
  then obtain u1 where u1: "ci_stub ci1 = UserStub u1" by (auto simp: on_user_def split: stub.splits)
  from assms True c1 u1 obtain ci2 where c2: "SendWANameAck ci1 (uc_bytesRX u1) = Inr ci2"
    by (auto simp: PostWrite_def ensure_eq_Inr rbind_eq_Inr)
  from assms True c1 u1 c2 obtain px3 ci3 where
    p: "(if ev \<and> uc_closeBytes u1 \<noteq> 0 \<and> uc_bytesRX u1 = uc_closeBytes u1 then SetDead px ci2 False else Inr (px, ci2)) = Inr (px3, ci3)"
      "px' = px3\<lparr>g_BytesUserTX := g_BytesUserTX px3 + n\<rparr>" "ci' = ci3"
    by (auto simp: PostWrite_def ensure_eq_Inr rbind_eq_Inr)
  have "keeps_conns px px3 \<and> retyped ci2 ci3" using p(1) SetDead_typed by (auto simp: keeps_retyped_trans split: if_splits)
  with p(2,3) on_user_typed[OF c1] close_typed(2)[OF c2] show ?thesis
    by (auto simp: keeps_conns_def intro: keeps_retyped_trans)
next
  case False
  with assms show ?thesis
    by (auto simp: PostWrite_def ensure_eq_Inr keeps_conns_def keeps_retyped_trans(4) split: connectionType.splits)
qed

lemma SendDataPrivate_typed:
  assumes "SendDataPrivate px ci msg sid = Inr (px', ci')"
  shows "keeps_conns px px' \<and> retyped ci ci'"
proof -
  let ?ci3 = "ci\<lparr>ci_msgListWrite := ci_msgListWrite ci @ [\<lparr>mi_msg = msg, mi_streamID = sid\<rparr>], ci_lenWrite := ci_lenWrite ci + int (length msg)\<rparr>"
  have r: "retyped ci ?ci3" by (rule retyped_same) simp_all
  from assms have "(if ci_isWritable ci then Write px ?ci3 False else Inr (px, ?ci3)) = Inr (px', ci')"
    by (auto simp: SendDataPrivate_def Let_def ensure_eq_Inr rbind_eq_Inr split: stub.splits if_splits)
  moreover have "keeps_conns px px' \<and> retyped ?ci3 ci'" if W: "Write px ?ci3 False = Inr (px', ci')"
  proof (cases "ci_type ?ci3 = ct_user \<and> ci_isAbnormal ?ci3")
    case True
    with W show ?thesis by (simp add: Write_def ensure_eq_Inr keeps_retyped_trans)
  next
    case False
    with W obtain px1 ci1 n dead where w: "write_loop px ?ci3 0 = Inr (px1, ci1, n, dead)"
      "(px', ci') = (px1, ci1) \<or> PostWrite px1 ci1 n False = Inr (px', ci')"
      by (auto simp: Write_def rbind_eq_Inr split: if_splits)
    with write_loop_typed[OF w(1)] PostWrite_typed[of px1 ci1 n False px' ci'] show ?thesis by (auto intro: keeps_retyped_trans)
  qed
  ultimately show ?thesis using r by (auto simp: keeps_retyped_trans(3) split: if_splits intro: keeps_retyped_trans(2))
qed


lemma SendData_typed: "SendData px ci msg = Inr (px', ci') \<Longrightarrow> keeps_conns px px' \<and> retyped ci ci'"
  unfolding SendData_def by (rule SendDataPrivate_typed)

lemma acknowledge_typed:
  assumes "acknowledge px ci ack = Inr (px', ci')"
  shows "keeps_conns px px' \<and> retyped ci ci'"
proof -
  obtain u where u: "ci_stub ci = UserStub u" using assms by (auto simp: acknowledge_def split: stub.splits)
  then obtain s cbl k where d: "DestroyChunkBufferList (px_cache px) (uc_chunkBufferList u) ack True = Inr (s, cbl, k)"
    using assms by (auto simp: acknowledge_def Let_def ensure_eq_Inr rbind_eq_Inr split: if_splits)
  let ?n = "uc_numSent u - (ack - uc_lastAcked u)"
  let ?resume = "ci_status ci = cs_block \<and> uc_maxWindowSize u - ?n \<ge> of_nat (unat (uc_maxWindowSize u) div 5)"
  let ?px2 = "(if ?resume then px\<lparr>g_NumBlocked := g_NumBlocked px - 1\<rparr> else px)\<lparr>px_cache := s\<rparr>"
  let ?u2 = "u\<lparr>uc_lastCumulativeAck := uc_lastCumulativeAck u + (ack - uc_lastAcked u), uc_numSent := ?n, uc_lastAcked := ack,
    uc_chunkBufferList := cbl, uc_numChunkBuffers := uc_numChunkBuffers u - of_nat k\<rparr>"
  let ?ci2 = "(if ?resume then ci\<lparr>ci_status := cs_active\<rparr> else ci)\<lparr>ci_stub := UserStub ?u2\<rparr>"
  have "Inr (px', ci') = (if ci_status ?ci2 = cs_finsent \<and> ?n = 0 then SetDead ?px2 ?ci2 False else Inr (?px2, ?ci2))"
    using assms u d by (simp add: acknowledge_def Let_def ensure_eq_Inr if_distrib[of px_cache] cong: if_cong)
  then have p: "(px', ci') = (?px2, ?ci2) \<or> SetDead ?px2 ?ci2 False = Inr (px', ci')" by (metis sum.inject(2))
  have "keeps_conns px ?px2" by (simp add: keeps_conns_def)
  moreover have "retyped ci ?ci2" by (rule retyped_user[OF u]) simp_all
  ultimately show ?thesis using p SetDead_typed[of ?px2 ?ci2 False px' ci'] by (auto intro: keeps_retyped_trans)
qed

text \<open>Writing a connection back.\<close>

lemma put_conn_typed:
  assumes "conns_typed px" "px_conns px fd = Some ci" "keeps_conns px px'" "retyped ci ci'"
  shows "conns_typed (put_conn ci' px')"
proof -
  have ci: "ci_fd ci = fd" "typed ci" using assms(1,2) by (simp_all add: conns_typed_def)
  then have ci': "ci_fd ci' = fd" "typed ci'" "ci_type ci' = ci_type ci" using assms(4) by (simp_all add: retyped_def)
  have m: "g_ConnMap (put_conn ci' px') = g_ConnMap px" "px_conns (put_conn ci' px') = (px_conns px)(fd := Some ci')"
    using assms(3) ci'(1) by (simp_all add: put_conn_def keeps_conns_def)
  have "\<exists>c. ((px_conns px)(fd := Some ci')) f = Some c \<and> ci_type c = ct_user" if "hashtable_search (g_ConnMap px) k = Some f" for k f
    using assms(1,2) that ci'(3) unfolding conns_typed_def by (metis fun_upd_apply option.inject)
  then show ?thesis unfolding conns_typed_def m using assms(1) ci' by (auto simp: conns_typed_def)
qed

lemma target_conn_some:
  assumes "target_conn px cid = Inr (Some ci)" "conns_typed px"
  shows "px_conns px (ci_fd ci) = Some ci" "ci_type ci = ct_user"
proof -
  from assms(1) obtain k fd where k: "hashtable_search (g_ConnMap px) k = Some fd" "px_conns px fd = Some ci"
    by (auto simp: target_conn_def GetDestinationConnection_def SearchConnection_def rbind_eq_Inr ensure_eq_Inr split: option.splits)
  with assms(2) show "px_conns px (ci_fd ci) = Some ci" "ci_type ci = ct_user" by (fastforce simp: conns_typed_def)+
qed

lemma NameAck_typed: "ProcessNameAck px b = Inr (px', n) \<Longrightarrow> conns_typed px \<Longrightarrow> conns_typed px'"
  by (auto simp: ProcessNameAck_def Let_def ensure_eq_Inr rbind_eq_Inr split: if_splits option.splits
      dest!: acknowledge_typed intro: put_conn_typed target_conn_some)

lemma Close_typed:
  assumes "ProcessCloseConnection px b = Inr (px', n)" "conns_typed px"
  shows "conns_typed px'"
proof -
  from assms(1) obtain tgt where t: "target_conn px (connID_at b) = Inr tgt"
    by (auto simp: ProcessCloseConnection_def Let_def rbind_eq_Inr split: if_splits)
  show ?thesis
  proof (cases tgt)
    case None
    with assms t show ?thesis by (auto simp: ProcessCloseConnection_def Let_def split: if_splits)
  next
    case (Some ci)
    with assms(1) t obtain u where u: "ci_stub ci = UserStub u"
      by (auto simp: ProcessCloseConnection_def Let_def split: if_splits stub.splits)
    have r: "retyped ci (ci\<lparr>ci_stub := UserStub (u\<lparr>uc_closeBytes := w\<rparr>)\<rparr>)" for w by (rule retyped_user[OF u]) simp_all
    from assms(1) t Some u obtain px1 ci1 where p: "px' = put_conn ci1 px1" "keeps_conns px px1" "retyped ci ci1"
      using SetDead_typed r keeps_retyped_trans(3)
      by (auto simp: ProcessCloseConnection_def Let_def rbind_eq_Inr split: if_splits)
    show ?thesis unfolding p(1) by (rule put_conn_typed[OF assms(2) target_conn_some(1)[OF t[unfolded Some] assms(2)] p(2,3)])
  qed
qed

lemma QueuePutMessage_keeps: "QueuePutMessage st px b i n ri = Inr px' \<Longrightarrow> keeps_conns px px'"
  by (auto simp: QueuePutMessage_def Let_def ensure_eq_Inr keeps_conns_def split: if_splits)

lemma Raw_typed:
  assumes "ProcessRawMessage st px b = Inr (px', n)" "conns_typed px"
  shows "conns_typed px'"
proof -
  from assms(1) obtain tgt where t: "target_conn px (connID_at b) = Inr tgt" "\<not> length b < sizeof_WARawMessage"
    by (auto simp: ProcessRawMessage_def Let_def rbind_eq_Inr ensure_eq_Inr split: if_splits)
  show ?thesis
  proof (cases tgt)
    case None
    with assms t show ?thesis by (simp add: ProcessRawMessage_def Let_def ensure_eq_Inr)
  next
    case (Some ci)
    let ?data = "take (nat (sint (be32_at b 19))) (drop sizeof_WARawMessage b)"
    from assms(1) t Some obtain px1 ci1 where s: "SendData px ci ?data = Inr (px1, ci1)"
      by (auto simp: ProcessRawMessage_def Let_def rbind_eq_Inr ensure_eq_Inr split: if_splits)
    with assms(1) t Some obtain u where u: "ci_stub ci1 = UserStub u"
      by (auto simp: ProcessRawMessage_def Let_def ensure_eq_Inr split: if_splits stub.splits)
    from assms(1) t Some s u obtain px2 u2 where p: "px' = put_conn (ci1\<lparr>ci_stub := UserStub u2\<rparr>) px2" "keeps_conns px1 px2"
      using QueuePutMessage_keeps keeps_retyped_trans(3)
      by (auto simp: ProcessRawMessage_def Let_def rbind_eq_Inr ensure_eq_Inr split: if_splits)
    have r: "retyped ci1 (ci1\<lparr>ci_stub := UserStub u2\<rparr>)" by (rule retyped_user[OF u]) simp_all
    from SendData_typed[OF s] p(2) r have k: "keeps_conns px px2" "retyped ci (ci1\<lparr>ci_stub := UserStub u2\<rparr>)"
      by (blast intro: keeps_retyped_trans)+
    show ?thesis unfolding p(1) by (rule put_conn_typed[OF assms(2) target_conn_some(1)[OF t(1)[unfolded Some] assms(2)] k])
  qed
qed

lemma recv_name_keeps: "recv_name rotl ci ck px u ri = Inr (px', u', ri') \<Longrightarrow> keeps_conns px px'"
  by (auto simp: recv_name_def UpdatePeekResult_def Let_def rbind_eq_Inr ensure_eq_Inr keeps_conns_def split: if_splits)

lemma recv_names_keeps: "recv_names rotl ci n b off px u ri = Inr (px', u', ri', off') \<Longrightarrow> keeps_conns px px'"
proof (induction n arbitrary: off px u ri)
  case 0
  then show ?case by (simp add: keeps_retyped_trans)
next
  case (Suc n)
  obtain ck k where ck: "read_chunk (drop off b) = (ck, k)" by (cases "read_chunk (drop off b)")
  with Suc.prems obtain px1 u1 ri1 where r: "recv_name rotl ci ck px u ri = Inr (px1, u1, ri1)"
    "recv_names rotl ci n b (off + k) px1 u1 ri1 = Inr (px', u', ri', off')"
    by (auto simp: rbind_eq_Inr split: if_splits)
  from recv_name_keeps[OF r(1)] Suc.IH[OF r(2)] show ?case by (rule keeps_retyped_trans)
qed

lemma NameTree_shape:
  assumes "ProcessNameTreeDelivery2 rotl px b = Inr (px', n)"
  obtains "px' = px"
    | fd ci u u' px1 where "px_conns px fd = Some ci" "ci_stub ci = UserStub u" "keeps_conns px px1"
        "px' = px1\<lparr>px_conns := (px_conns px1)(fd := Some (ci\<lparr>ci_stub := UserStub u'\<rparr>))\<rparr>"
proof -
  let ?cid = "connID_at b"
  from assms obtain tgt where len: "\<not> length b < sizeof_WANameDelivery"
    and g: "GetDestinationConnection (g_ConnMap px) (srcIP ?cid) (srcPort ?cid) (dstIP ?cid) (dstPort ?cid) = Inr tgt"
    by (auto simp: ProcessNameTreeDelivery2_def Let_def ensure_eq_Inr rbind_eq_Inr split: if_splits)
  show ?thesis
  proof (cases tgt)
    case None
    with assms g len that(1) show ?thesis by (auto simp: ProcessNameTreeDelivery2_def Let_def ensure_eq_Inr)
  next
    case (Some fd)
    with assms g len obtain ci u where ci: "px_conns px fd = Some ci" "ci_stub ci = UserStub u"
      by (auto simp: ProcessNameTreeDelivery2_def Let_def ensure_eq_Inr split: option.splits stub.splits)
    with assms g len Some obtain u1 ri where c: "CreateNewReassembleInfo ci (u\<lparr>uc_seq_no := uc_seq_no u + 1\<rparr>) (uc_seq_no u) = Inr (u1, ri)"
      "\<not> length b < sizeof_WANameDelivery + sizeof_WAOneTree"
      by (auto simp: ProcessNameTreeDelivery2_def Let_def ensure_eq_Inr rbind_eq_Inr split: if_splits)
    with assms g len Some ci obtain m off px1 u2 ri1 off' u4 where
      r: "recv_names rotl ci m b off px u1 ri = Inr (px1, u2, ri1, off')"
        "px' = px1\<lparr>g_PdNumNameTrees := g_PdNumNameTrees px1 + 1, px_conns := (px_conns px1)(fd := Some (ci\<lparr>ci_stub := UserStub u4\<rparr>))\<rparr>"
      by (auto simp: ProcessNameTreeDelivery2_def Let_def ensure_eq_Inr rbind_eq_Inr)
    have "keeps_conns px (px1\<lparr>g_PdNumNameTrees := g_PdNumNameTrees px1 + 1\<rparr>)"
      using recv_names_keeps[OF r(1)] by (simp add: keeps_conns_def)
    from that(2)[OF ci this] r(2) show ?thesis by simp
  qed
qed


lemma NameTree_typed:
  assumes "ProcessNameTreeDelivery2 rotl px b = Inr (px', n)" "conns_typed px"
  shows "conns_typed px'"
  using assms(1)
proof (cases rule: NameTree_shape)
  case (2 fd ci u u' px1)
  have "ci_fd ci = fd" using assms(2) 2(1) by (simp add: conns_typed_def)
  then have "px' = put_conn (ci\<lparr>ci_stub := UserStub u'\<rparr>) px1" using 2(4) by (simp add: put_conn_def)
  moreover have "retyped ci (ci\<lparr>ci_stub := UserStub u'\<rparr>)" by (rule retyped_user[OF 2(2)]) simp_all
  ultimately show ?thesis using put_conn_typed[OF assms(2) 2(1,3)] by simp
qed (use assms(2) in simp)

lemma NameTree_keeps: "ProcessNameTreeDelivery2 rotl px b = Inr (px', n) \<Longrightarrow> g_ConnMap px' = g_ConnMap px \<and> px_peers px' = px_peers px"
  by (erule NameTree_shape) (simp_all add: keeps_conns_def)

lemma new_connection:
  assumes "CreateNewConnectionInfo px fd ty = Inr (px2, ci2)" "CreateUserConnectionInfo cfg zero px2 ci2 fwd = Inr (px3, ci3)"
  shows "px_conns px fd = None" "px_conns px3 = (px_conns px)(fd := Some ci2)" "g_ConnMap px3 = g_ConnMap px"
    "ci_fd ci3 = fd" "ci_type ci3 = ct_user" "\<exists>u. ci_stub ci3 = UserStub u"
  using assms by (auto simp: CreateNewConnectionInfo_def CreateUserConnectionInfo_def Let_def ensure_eq_Inr rbind_eq_Inr split: if_splits)

lemma Open_typed:
  assumes "ProcessOpenConnection st zero px ci b = Inr (px', n)" "conns_typed px"
  shows "conns_typed px'"
proof -
  let ?cid = "connID_at b"
  from assms(1) obtain nci where nci: "ci_stub ci = ControlStub nci" by (auto simp: ProcessOpenConnection_def Let_def split: stub.splits)
  with assms(1) obtain px1 fd where mk: "MakeConnection px = (px1, Some fd)"
    and free: "SearchConnection (g_ConnMap px) (dstIP ?cid) (dstPort ?cid) (srcIP ?cid) (srcPort ?cid) = None"
    by (auto simp: ProcessOpenConnection_def Let_def ensure_eq_Inr split: prod.splits option.splits)
  from mk have k1: "px_conns px1 = px_conns px" "g_ConnMap px1 = g_ConnMap px" by (auto simp: MakeConnection_def split: list.splits)
  from assms(1) nci mk obtain px2 ci2 px3 ci3 where new: "CreateNewConnectionInfo px1 fd ct_user = Inr (px2, ci2)"
    "CreateUserConnectionInfo (st_mrc st) zero px2 ci2 False = Inr (px3, ci3)"
    by (auto simp: ProcessOpenConnection_def Let_def ensure_eq_Inr rbind_eq_Inr split: if_splits)
  note c = new_connection[OF new]
  then obtain u where u: "ci_stub ci3 = UserStub u" by blast
  let ?k = "\<lparr>key_sip = dstIP ?cid, key_sport = dstPort ?cid, key_dip = srcIP ?cid, key_dport = srcPort ?cid\<rparr>"
  from assms(1) nci mk new u obtain p2 u4 where
    p: "px' = put_conn (ci3\<lparr>ci_stub := UserStub u4\<rparr>) (px3\<lparr>px_peers := p2, g_ConnMap := ht_put (g_ConnMap px) ?k fd\<rparr>)"
    using c(3,4,5) k1(2)
    by (auto simp: ProcessOpenConnection_def Let_def ensure_eq_Inr rbind_eq_Inr on_user_def PutConnection_def uc_key_def split: if_splits)
  have good: "conns_good (g_ConnMap px)" using assms(2) by (simp add: conns_typed_def)
  have none: "hashtable_search (g_ConnMap px) ?k = None" using free by (simp add: SearchConnection_def)
  note laws = connection_laws(1,2)[OF good none, of fd]
  have m: "px_conns px' = (px_conns px)(fd := Some (ci3\<lparr>ci_stub := UserStub u4\<rparr>))" "g_ConnMap px' = ht_put (g_ConnMap px) ?k fd"
    using c(2,4) k1(1) by (simp_all add: p put_conn_def)
  have new_ok: "ci_fd (ci3\<lparr>ci_stub := UserStub u4\<rparr>) = fd" "typed (ci3\<lparr>ci_stub := UserStub u4\<rparr>)" "ci_type (ci3\<lparr>ci_stub := UserStub u4\<rparr>) = ct_user"
    using c(4,5) by (simp_all add: typed_def)
  have "px_conns px fd = None" using c(1) k1(1) by simp
  then show ?thesis
    using assms(2) new_ok laws unfolding conns_typed_def m by (auto split: if_splits)
qed

lemma step_typed:
  assumes "control_message_step rotl st zero ty px ci b = Inr (px', n)" "conns_typed px"
  shows "conns_typed px'"
  using assms Open_typed NameTree_typed NameAck_typed Close_typed Raw_typed
  by (auto simp: control_message_step_def split: if_splits)

lemma control_loop_typed:
  assumes "control_loop rotl st zero px ci b k = Inr (px', r)" "conns_typed px"
  shows "conns_typed px'"
  using assms
proof (induction b arbitrary: px k rule: length_induct)
  case (1 b)
  show ?case
  proof (cases "VerifyControlHeader b")
    case (Valid ty)
    then have ne: "b \<noteq> []" using verify_append(2)[OF Valid] by auto
    with "1.prems"(1) Valid obtain px1 one where s: "control_message_step rotl st zero ty px ci b = Inr (px1, one)"
      by (auto simp: control_loop.simps[of rotl st zero px ci b k] rbind_eq_Inr)
    have t: "conns_typed px1" by (rule step_typed[OF s "1.prems"(2)])
    note run = "1.prems"(1)[unfolded control_loop.simps[of rotl st zero px ci b k] if_not_P[OF ne] Valid verified.case s rbind_simps prod.case]
    show ?thesis
    proof (cases "0 < one")
      case False
      with run t show ?thesis by (auto split: if_splits)
    next
      case True
      with run have "control_loop rotl st zero px1 ci (drop (nat one) b) (k + nat one) = Inr (px', r)" by (simp split: if_splits)
      moreover have "length (drop (nat one) b) < length b" using True ne by (cases b) auto
      ultimately show ?thesis using "1.IH" t by blast
    qed
  qed (use "1.prems" in \<open>auto simp: control_loop.simps[of rotl st zero px ci b k] split: if_splits\<close>)
qed


section \<open>Properties\<close>

text \<open>
  Claim C9: how the bytes of a peer are cut into reads does not matter. When the loop of
  \<open>ProcessControlData\<close> has handled the complete messages of a buffer and waits for the rest of the last
  one, going on with the bytes that come later, appended to the rest, gives the state and the count
  that the whole buffer would have given in one call. This holds for every handler and for arbitrary
  bytes.
\<close>

theorem control_stream_segments:
  assumes "control_loop rotl st zero px ci b k = Inr (px', Some n)"
    and "drop (n - k) b = [] \<or> VerifyControlHeader (drop (n - k) b) = NeedMore"
  shows "k \<le> n \<and> n - k \<le> length b \<and>
    control_loop rotl st zero px ci (b @ c) k = control_loop rotl st zero px' ci (drop (n - k) b @ c) n"
  using control_loop_append[OF assms] control_loop_bounds[OF assms(1)] by auto

definition demo_peer_conn :: ConnectionInfo where
  "demo_peer_conn = (demo_conn demo_user)\<lparr>ci_fd := 5, ci_type := ct_control, ci_stub := ControlStub \<lparr>cc_peerIdx = 0, cc_flowIdx = 0\<rparr>\<rparr>"

text \<open>An acknowledgement for a connection that is gone is consumed and changes nothing.\<close>

lemma stray_ack:
  assumes "BuildWANameAck cid a = Inr msg" "target_conn px cid = Inr None"
  shows "VerifyControlHeader (msg @ rest) = Valid TYPE_WANAMEACK" "length msg = 23" "ProcessNameAck px (msg @ rest) = Inr (px, 23)"
proof -
  have m: "control_message cid TYPE_WANAMEACK ([MAGIC_WANAMEACK] @ be32 a) = Inr msg" using assms(1) by (simp add: BuildWANameAck_def)
  have ok: "ok_cid cid" using m by (auto simp: control_message_eq split: if_splits)
  have l: "length msg = 23" using m ok by (auto simp: control_message_eq)
  then have l': "length msg < 2 ^ 32" by simp
  note p = control_message_props[OF m l']
  show "length msg = 23" by (rule l)
  show "VerifyControlHeader (msg @ rest) = Valid TYPE_WANAMEACK" by (rule verify_control[OF m l']) (simp add: control_types_def)
  show "ProcessNameAck px (msg @ rest) = Inr (px, 23)"
    using ok l p(3)[of rest] assms(2) by (simp add: ProcessNameAck_def sizeof_session ok_cid_def)
qed

lemma stray_loop:
  assumes "BuildWANameAck cid a = Inr msg" "target_conn px cid = Inr None"
  shows "control_loop rotl st zero px ci (msg @ rest) k = control_loop rotl st zero px ci rest (k + 23)"
  using control_loop_valid[OF stray_ack(1)[OF assms], of rotl st zero px ci rest px 23 k] stray_ack(2,3)[OF assms]
  by (simp add: control_message_step_def TYPE_WANAMEACK_def TYPE_WAOPENCONNECTION_def TYPE_WANAMEDELIVERY_def)

abbreviation demo_px :: proxy where
  "demo_px \<equiv> demo_proxy (empty_cache 0) (snd (projr (CreateConnectionTables None))) (demo_conn demo_user) []"

lemma demo_stray:
  shows "\<exists>msg. BuildWANameAck demo_cid 5 = Inr msg" "target_conn demo_px demo_cid = Inr None" "conns_typed demo_px"
proof -
  show "\<exists>msg. BuildWANameAck demo_cid 5 = Inr msg" by (simp add: BuildWANameAck_def control_message_eq ok_cid_def demo_cid_def)
  from CreateConnectionTables_ok obtain pm cm where c: "CreateConnectionTables None = Inr (pm, cm)" "conns_good cm" "\<forall>k. hashtable_search cm k = None" by blast
  then show "target_conn demo_px demo_cid = Inr None"
    by (simp add: target_conn_def GetDestinationConnection_def SearchConnection_def demo_proxy_def demo_cid_def)
  show "conns_typed demo_px" using c by (simp add: conns_typed_def demo_proxy_def demo_conn_def typed_def)
qed

theorem control_stream_segments_witness:
  "\<exists>msg. BuildWANameAck demo_cid 5 = Inr msg \<and>
     control_loop id demo_settings blank_scanner demo_px demo_peer_conn (take 30 (msg @ msg) @ drop 30 (msg @ msg)) 0 = Inr (demo_px, Some 46)"
proof -
  let ?loop = "control_loop id demo_settings blank_scanner demo_px demo_peer_conn"
  obtain msg where m: "BuildWANameAck demo_cid 5 = Inr msg" using demo_stray(1) by blast
  note l = stray_ack(2)[OF m demo_stray(2)] and step = stray_loop[OF m demo_stray(2)]
  have short: "VerifyControlHeader (take 7 msg) = NeedMore" using l by (simp add: VerifyControlHeader_def sizeof_defs)
  have cut: "take 30 (msg @ msg) = msg @ take 7 msg" "drop 30 (msg @ msg) = drop 7 msg" using l by simp_all
  have stop: "?loop (take 7 msg) 23 = Inr (demo_px, Some 23)" "?loop [] 46 = Inr (demo_px, Some 46)"
    using short by (simp_all add: control_loop.simps)
  have "?loop (msg @ take 7 msg) 0 = Inr (demo_px, Some 23)" using step[of id demo_settings blank_scanner demo_peer_conn "take 7 msg" 0] stop(1) by simp
  from control_stream_segments[OF this, of "drop 7 msg"] short l
  have "?loop (take 30 (msg @ msg) @ drop 30 (msg @ msg)) 0 = ?loop (msg @ []) 23" unfolding cut by simp
  also have "\<dots> = Inr (demo_px, Some 46)" unfolding step using stop(2) by simp
  finally show ?thesis using m by blast
qed

text \<open>
  Claim C29: no bytes of a peer can break the types of the connections. Whatever control messages are
  processed, every entry of the master set stays under its own descriptor with data of its own kind,
  and the connection table leads to existing connections of users only; so a handler never takes the
  data of one kind of connection for that of another.
\<close>

theorem control_data_typed:
  assumes "ProcessControlData rotl st zero px ci buffer = Inr (px', n)" "conns_typed px"
  shows "conns_typed px'"
proof -
  from assms(1) obtain px1 r where "control_loop rotl st zero px ci buffer 0 = Inr (px1, r)"
    "px' = px1 \<or> (\<exists>w. px' = px1\<lparr>g_BytesPeerRX := w\<rparr>)"
    by (auto simp: ProcessControlData_def ensure_eq_Inr rbind_eq_Inr split: option.splits)
  with control_loop_typed[OF _ assms(2)] show ?thesis by (fastforce simp: conns_typed_def)
qed


theorem control_data_typed_witness:
  "\<exists>msg px'. BuildWANameAck demo_cid 5 = Inr msg \<and>
     ProcessControlData id demo_settings blank_scanner demo_px demo_peer_conn msg = Inr (px', 23) \<and> conns_typed px'"
proof -
  obtain msg where m: "BuildWANameAck demo_cid 5 = Inr msg" using demo_stray(1) by blast
  have "control_loop id demo_settings blank_scanner demo_px demo_peer_conn (msg @ []) 0 = Inr (demo_px, Some 23)"
    unfolding stray_loop[OF m demo_stray(2)] by (simp add: control_loop.simps)
  then have "ProcessControlData id demo_settings blank_scanner demo_px demo_peer_conn msg =
      Inr (demo_px\<lparr>g_BytesPeerRX := g_BytesPeerRX demo_px + 23\<rparr>, 23)"
    by (simp add: ProcessControlData_def demo_peer_conn_def)
  with control_data_typed[OF this demo_stray(3)] m show ?thesis by blast
qed

text \<open>
  Claim C10: an acknowledgement opens the window and releases what it covers. For a connection whose
  window counts exactly the bytes that are sent and not acknowledged, \<open>ProcessNameAck\<close> on a message of
  \<open>BuildWANameAck\<close> for a position between the last acknowledgement and the bytes sent passes every
  assertion: the window then holds exactly the bytes after that position, the buffers of blocks up to
  it are released, and the connection that is found under the descriptor stays able to send. A blocked
  connection reads again exactly when a fifth of the window is free, in particular when nothing is
  outstanding; a connection that has sent its close message dies when everything is acknowledged.
\<close>

theorem ProcessNameAck_window:
  assumes "conns_typed px" "target_conn px cid = Inr (Some ci)" "BuildWANameAck cid ack = Inr msg"
    and "sender_ok sha px ci u" "flow_ok u" "uc_lastAcked u \<le> ack" "ack \<le> uc_bytesTX u" "unat (uc_numSent u) \<le> unat (uc_maxWindowSize u)"
    and "g_NumDeadConns px + 1 < int MAX_NUM_CI"
  shows "\<exists>px' ci' u'. ProcessNameAck px (msg @ rest) = Inr (px', 23) \<and> px_conns px' (ci_fd ci) = Some ci' \<and> sender_ok sha px' ci' u' \<and>
    flow_ok u' \<and> uc_lastAcked u' = ack \<and> uc_bytesTX u' = uc_bytesTX u \<and> unat (uc_numSent u') = unat (uc_bytesTX u) - unat ack \<and>
    uc_chunkBufferList u' = dropWhile (\<lambda>cb. ack = 0 \<or> cb_seq_no cb + cb_length cb \<le> ack) (uc_chunkBufferList u) \<and>
    (if ci_status ci = cs_block \<and> unat (uc_numSent u') + unat (uc_maxWindowSize u) div 5 \<le> unat (uc_maxWindowSize u)
     then ci_status ci' = cs_active \<and> g_NumBlocked px' = g_NumBlocked px - 1
     else ci_status ci' = (if ci_status ci = cs_finsent \<and> uc_bytesTX u = ack then cs_closed else ci_status ci) \<and> g_NumBlocked px' = g_NumBlocked px)"
proof -
  have m: "control_message cid TYPE_WANAMEACK ([MAGIC_WANAMEACK] @ be32 ack) = Inr msg" using assms(3) by (simp add: BuildWANameAck_def)
  have ok: "ok_cid cid" using m by (auto simp: control_message_eq split: if_splits)
  have l: "length msg = 23" using m ok by (auto simp: control_message_eq)
  then have l': "length msg < 2 ^ 32" by simp
  note p = control_message_props[OF m l']
  have ack: "be32_at (msg @ rest) 19 = ack" using m ok by (auto simp: control_message_eq be32_at_def)
  from acknowledge_ok[OF assms(4-8)] obtain s u1 ci1 px1 where
    a: "acknowledge px ci ack = (if ci_status ci = cs_finsent \<and> uc_bytesTX u = ack then SetDead px1 ci1 False else Inr (px1, ci1))"
      "px1 = px\<lparr>px_cache := s, g_NumBlocked := if resumes ci u ack then g_NumBlocked px - 1 else g_NumBlocked px\<rparr>"
      "ci1 = ci\<lparr>ci_stub := UserStub u1, ci_status := if resumes ci u ack then cs_active else ci_status ci\<rparr>"
      "sender_ok sha px1 ci1 u1" "flow_ok u1" "uc_lastAcked u1 = ack" "uc_numSent u1 = uc_bytesTX u - ack" "uc_bytesTX u1 = uc_bytesTX u"
      "uc_chunkBufferList u1 = dropWhile (\<lambda>cb. ack = 0 \<or> cb_seq_no cb + cb_length cb \<le> ack) (uc_chunkBufferList u)"
    by blast
  have num: "unat (uc_numSent u1) = unat (uc_bytesTX u) - unat ack" unfolding a(7) using assms(7) by (simp add: unat_sub)
  have res: "resumes ci u ack \<longleftrightarrow> ci_status ci = cs_block \<and> unat (uc_numSent u1) + unat (uc_maxWindowSize u) div 5 \<le> unat (uc_maxWindowSize u)"
    unfolding resumes_def a(7) ..
  have run: "ProcessNameAck px (msg @ rest) = rbind (acknowledge px ci ack) (\<lambda>(px1, ci1). Inr (put_conn ci1 px1, 23))"
    using ok l p(3)[of rest] assms(2) ack by (simp add: ProcessNameAck_def sizeof_session ok_cid_def)
  have put: "sender_ok sha (put_conn c px2) c u1" if "sender_ok sha px2 c u1" for c px2
    using that by (simp add: sender_ok_def put_conn_def)
  show ?thesis
  proof (cases "ci_status ci = cs_finsent \<and> uc_bytesTX u = ack")
    case True
    then have nr: "\<not> resumes ci u ack" by (simp add: resumes_def)
    have here: "px_conns px (ci_fd ci) \<noteq> None" using target_conn_some(1)[OF assms(2,1)] by simp
    let ?px2 = "px1\<lparr>g_DeadConnList := g_DeadConnList px @ [ci_fd ci], g_NumDeadConns := g_NumDeadConns px + 1\<rparr>"
    let ?ci2 = "ci1\<lparr>ci_status := cs_closed, ci_isAbnormal := False\<rparr>"
    have d: "SetDead px1 ci1 False = Inr (?px2, ?ci2)"
      using here nr True assms(9) a(2,3) by (simp add: SetDead_def)
    have "sender_ok sha ?px2 ?ci2 u1" using a(4) by (simp add: sender_ok_def)
    from put[OF this] show ?thesis
      using run a(1) d True num nr a(2,3,5,6,8,9) res
      by (intro exI[of _ "put_conn ?ci2 ?px2"] exI[of _ ?ci2] exI[of _ u1]) (simp add: put_conn_def)
  next
    case False
    then show ?thesis
      using put[OF a(4)] run a(1,5,6,8,9) num res
      by (intro exI[of _ "put_conn ci1 px1"] exI[of _ ci1] exI[of _ u1]) (auto simp: put_conn_def a(2,3))
  qed
qed


text \<open>A blocked connection with three bytes outstanding, all of which are acknowledged.\<close>

definition demo_blocked :: ConnectionInfo where
  "demo_blocked = (demo_conn (demo_user\<lparr>uc_bytesTX := 3, uc_numSent := 3\<rparr>))\<lparr>ci_status := cs_block\<rparr>"

lemma demo_registered:
  assumes "ci_type ci = ct_user" "ci_stub ci = UserStub u" "ci_fd ci = 9" "uc_id u = uc_id demo_user"
  shows "\<exists>cm cm'. CreateConnectionTables None = Inr (cm, cm) \<and> PutConnection cm ci = Inr cm' \<and>
    conns_typed (demo_proxy s cm' ci ws) \<and> target_conn (demo_proxy s cm' ci ws) (uc_id demo_user) = Inr (Some ci)"
proof -
  from CreateConnectionTables_ok obtain pm cm where c: "CreateConnectionTables None = Inr (pm, cm)" "conns_good cm" "\<forall>k. hashtable_search cm k = None" by blast
  have same: "pm = cm" using c(1) by (auto simp: CreateConnectionTables_def split: option.splits)
  have key: "uc_key u = uc_key demo_user" using assms(4) by (simp add: uc_key_def uc_id_def)
  note laws = connection_laws(1,2)[OF c(2), of "uc_key demo_user" 9] 
  have p: "PutConnection cm ci = Inr (ht_put cm (uc_key demo_user) 9)" using assms key by (simp add: PutConnection_def)
  have "conns_typed (demo_proxy s (ht_put cm (uc_key demo_user) 9) ci ws)"
    using laws c(3) assms by (auto simp: conns_typed_def demo_proxy_def typed_def split: if_splits)
  moreover have "target_conn (demo_proxy s (ht_put cm (uc_key demo_user) 9) ci ws) (uc_id demo_user) = Inr (Some ci)"
    using laws(2) c(3) assms(3)
    by (simp add: target_conn_def GetDestinationConnection_def SearchConnection_def demo_proxy_def uc_id_def uc_key_def demo_user_def new_user_def)
  ultimately show ?thesis using c(1) same p by blast
qed

theorem ProcessNameAck_window_witness:
  "\<exists>cm cm' msg px' ci'. CreateConnectionTables None = Inr (cm, cm) \<and> PutConnection cm demo_blocked = Inr cm' \<and>
     BuildWANameAck (uc_id demo_user) 3 = Inr msg \<and>
     ProcessNameAck ((demo_proxy (empty_cache 0) cm' demo_blocked [])\<lparr>g_NumBlocked := 1\<rparr>) msg = Inr (px', 23) \<and>
     px_conns px' 9 = Some ci' \<and> ci_status ci' = cs_active \<and> g_NumBlocked px' = 0"
proof -
  let ?u = "demo_user\<lparr>uc_bytesTX := 3, uc_numSent := 3\<rparr>"
  have b: "ci_type demo_blocked = ct_user" "ci_stub demo_blocked = UserStub ?u" "ci_fd demo_blocked = 9" "uc_id ?u = uc_id demo_user"
    "ci_status demo_blocked = cs_block" by (simp_all add: demo_blocked_def demo_conn_def uc_id_def)
  from demo_registered[OF b(1-4), of "empty_cache 0" "[]"] obtain cm cm' where r: "CreateConnectionTables None = Inr (cm, cm)"
    "PutConnection cm demo_blocked = Inr cm'" "conns_typed (demo_proxy (empty_cache 0) cm' demo_blocked [])"
    "target_conn (demo_proxy (empty_cache 0) cm' demo_blocked []) (uc_id demo_user) = Inr (Some demo_blocked)" by blast
  let ?px = "(demo_proxy (empty_cache 0) cm' demo_blocked [])\<lparr>g_NumBlocked := 1\<rparr>"
  have t: "conns_typed ?px" "target_conn ?px (uc_id demo_user) = Inr (Some demo_blocked)"
    using r(3,4) by (simp_all add: conns_typed_def target_conn_def cong: option.case_cong)
  obtain msg where m: "BuildWANameAck (uc_id demo_user) 3 = Inr msg"
    by (simp add: BuildWANameAck_def control_message_eq ok_cid_def uc_id_def demo_user_def)
  have s: "sender_ok (\<lambda>b. replicate 20 7) ?px demo_blocked ?u"
    using demo_sender(1)[where sha = "\<lambda>b. replicate 20 7" and cs = cs_block] b by (simp add: sender_ok_def buffers_ok_def demo_proxy_def)
  have u: "flow_ok ?u" "uc_lastAcked ?u = 0" "uc_maxWindowSize ?u = 62914560"
    by (simp_all add: flow_ok_def demo_user_def new_user_def MAX_WINDOW_SIZE_def)
  from ProcessNameAck_window[OF t m s u(1), of "[]"] u b show ?thesis
    using r(1,2) m by (auto simp: MAX_NUM_CI_def demo_proxy_def)
qed

end
