(* ===== verification/Schedule.thy ===== *)
theory Schedule
  imports Session
begin

text \<open>
  The output side of the proxy (waprox/waprox.c, waprox/connection.c): the connections to the other
  proxies are opened on demand, \<open>ScheduleNameDelivery\<close> moves the control messages of the users to them
  in rounds, and connections that are dead are removed once their messages are gone.

  The loop of \<open>ScheduleNameDelivery\<close> over the rounds of a peer has fuel; the result \<open>None\<close> stands for a
  loop that goes on. The removal of a connection to the disk cache is the argument \<open>cache_conn\<close>.
\<close>

section \<open>Operations\<close>

text \<open>An entry of an array of connections; the array has \<open>MAX_PER_PEER_CONNS\<close> entries.\<close>

definition ci_slot :: "nat option list \<Rightarrow> nat \<Rightarrow> nat option res" where
  "ci_slot cis i = (if i < length cis then Inr (cis ! i) else Inl UndefinedBehaviour)"

text \<open>One connection to a peer, in the slot \<open>i\<close> of its kind.\<close>

definition connect_name :: "nat \<Rightarrow> nat \<Rightarrow> proxy \<Rightarrow> proxy res" where
  "connect_name peerIdx i px =
     rbind (ci_slot (pi_nameCI (g_PeerInfo (px_peers px) ! peerIdx)) i) (\<lambda>slot.
      if slot \<noteq> None then Inr px
      else case MakeConnection px of
        (px1, None) \<Rightarrow> Inl NiceExit
      | (px1, Some peerfd) \<Rightarrow>
          rbind (CreateNewConnectionInfo px1 peerfd ct_control) (\<lambda>(px2, ci2).
          rbind (CreateControlConnectionInfo px2 ci2) (\<lambda>(px3, ci3).
            Inr (put_conn (ci3\<lparr>ci_stub := ControlStub \<lparr>cc_peerIdx = int peerIdx, cc_flowIdx = int i\<rparr>\<rparr>)
              (px3\<lparr>px_peers := update_peer peerIdx (\<lambda>pi. pi\<lparr>pi_nameCI := (pi_nameCI pi)[i := Some peerfd]\<rparr>) (px_peers px3)\<rparr>)))))"

definition connect_chunk :: "nat \<Rightarrow> nat \<Rightarrow> proxy \<Rightarrow> proxy res" where
  "connect_chunk peerIdx i px =
     rbind (ci_slot (pi_chunkCI (g_PeerInfo (px_peers px) ! peerIdx)) i) (\<lambda>slot.
      if slot \<noteq> None then Inr px
      else case MakeConnection px of
        (px1, None) \<Rightarrow> Inl NiceExit
      | (px1, Some peerfd) \<Rightarrow>
          rbind (CreateNewConnectionInfo px1 peerfd ct_chunk) (\<lambda>(px2, ci2).
          rbind (CreateChunkConnectionInfo px2 ci2) (\<lambda>(px3, ci3).
            Inr (put_conn (ci3\<lparr>ci_stub := ChunkStub \<lparr>cc_peerIdx = int peerIdx, cc_flowIdx = int i\<rparr>\<rparr>)
              (px3\<lparr>px_peers := update_peer peerIdx (\<lambda>pi. pi\<lparr>pi_chunkCI := (pi_chunkCI pi)[i := Some peerfd]\<rparr>) (px_peers px3)\<rparr>)))))"

text \<open>The message is sent on the connection \<open>slot\<close>, and the peer counts as alive.\<close>

definition send_to_peer :: "proxy \<Rightarrow> nat \<Rightarrow> nat option \<Rightarrow> byte list \<Rightarrow> int \<Rightarrow> proxy res" where
  "send_to_peer px peer slot msg streamID =
     (case slot of
        None \<Rightarrow> Inl UndefinedBehaviour
      | Some fd \<Rightarrow>
          (case px_conns px fd of
             None \<Rightarrow> Inl UndefinedBehaviour
           | Some ci \<Rightarrow>
               rbind (SendDataPrivate px ci msg streamID) (\<lambda>(px1, ci1).
               rbind (UpdatePeerLiveness (px_now px1) peer (px_peers px1)) (\<lambda>p. Inr ((put_conn ci1 px1)\<lparr>px_peers := p\<rparr>)))))"

definition WriteToNamePeer :: "settings \<Rightarrow> proxy \<Rightarrow> int \<Rightarrow> int \<Rightarrow> byte list \<Rightarrow> int \<Rightarrow> proxy res" where
  "WriteToNamePeer st px peerIdx flowId msg streamID =
     (case g_LocalInfo (px_peers px) of
        None \<Rightarrow> Inl UndefinedBehaviour
      | Some local \<Rightarrow>
          ensure (peerIdx \<noteq> int local)
          (ensure (peerIdx \<noteq> -1)
          (ensure (0 \<le> flowId \<and> flowId < int (g_MaxPeerConns st))
          (ensure (length msg > 0)
            (if peerIdx < 0 \<or> nat peerIdx \<ge> length (g_PeerInfo (px_peers px)) then Inl UndefinedBehaviour
             else let peer = nat peerIdx in
               rbind (ci_slot (pi_nameCI (g_PeerInfo (px_peers px) ! peer)) 0) (\<lambda>first.
               rbind (if first = None then rfold (connect_name peer) [0..<g_MaxPeerConns st] px else Inr px) (\<lambda>px1.
               rbind (ci_slot (pi_nameCI (g_PeerInfo (px_peers px1) ! peer)) (nat flowId)) (\<lambda>slot.
                 send_to_peer px1 peer slot msg streamID))))))))"

definition WriteToChunkPeer :: "settings \<Rightarrow> proxy \<Rightarrow> int \<Rightarrow> byte list \<Rightarrow> int \<Rightarrow> proxy res" where
  "WriteToChunkPeer st px peerIdx msg streamID =
     ensure (peerIdx \<noteq> -1)
     (ensure (length msg > 0)
       (if peerIdx < 0 \<or> nat peerIdx \<ge> length (g_PeerInfo (px_peers px)) then Inl UndefinedBehaviour
        else let peer = nat peerIdx in
          rbind (ci_slot (pi_chunkCI (g_PeerInfo (px_peers px) ! peer)) 0) (\<lambda>first.
          rbind (if first = None then rfold (connect_chunk peer) [0..<g_MaxPeerConns st] px else Inr px) (\<lambda>px1.
          rbind (GetNextChunkFlowID (g_MaxPeerConns st) (px_peers px1) peer) (\<lambda>(p, flowID).
          rbind (ci_slot (pi_chunkCI (g_PeerInfo p ! peer)) flowID) (\<lambda>slot.
            send_to_peer (px1\<lparr>px_peers := p\<rparr>) peer slot msg streamID))))))"

text \<open>
  One round over the users of a peer: the messages sent so far, and whether every user was found
  without a message.
\<close>

fun schedule_round :: "settings \<Rightarrow> u32 \<Rightarrow> nat list \<Rightarrow> proxy \<Rightarrow> nat \<Rightarrow> nat \<Rightarrow> (proxy \<times> nat \<times> bool) res" where
  "schedule_round st numUsers [] px numFinished numMessages = Inr (px, numMessages, False)"
| "schedule_round st numUsers (fd # fds) px numFinished numMessages =
     (case px_conns px fd of
        None \<Rightarrow> Inl UndefinedBehaviour
      | Some ci \<Rightarrow>
          ensure (ci_type ci = ct_user)
            (case ci_stub ci of
               UserStub u \<Rightarrow>
                 (case uc_controlMsgList u of
                    [] \<Rightarrow> if unat numUsers = numFinished + 1 then Inr (px, numMessages, True)
                          else schedule_round st numUsers fds px (numFinished + 1) numMessages
                  | mi # mis \<Rightarrow>
                      let px1 = put_conn (ci\<lparr>ci_stub := UserStub (u\<lparr>uc_controlMsgList := mis\<rparr>)\<rparr>) px in
                      rbind (WriteToNamePeer st px1 (uc_dstPxyIdx u) (uc_nameFlowId u) (mi_msg mi) (int (ci_fd ci))) (\<lambda>px2.
                        schedule_round st numUsers fds px2 numFinished (numMessages + 1)))
             | _ \<Rightarrow> Inl UndefinedBehaviour))"

fun schedule_peer :: "nat \<Rightarrow> settings \<Rightarrow> nat \<Rightarrow> proxy \<Rightarrow> nat \<Rightarrow> (proxy \<times> nat) option res" where
  "schedule_peer 0 st i px numMessages = Inr None"
| "schedule_peer (Suc fuel) st i px numMessages =
     (let pi = g_PeerInfo (px_peers px) ! i in
      rbind (schedule_round st (pi_numUsers pi) (pi_userList pi) px 0 numMessages) (\<lambda>(px1, n1, stop).
        if stop then Inr (Some (px1, n1)) else schedule_peer fuel st i px1 n1))"

text \<open>The messages that wait in the queues of the users of a peer.\<close>

definition queue_of :: "proxy \<Rightarrow> nat \<Rightarrow> byte list list" where
  "queue_of px fd = (case px_conns px fd of Some ci \<Rightarrow>
     (case ci_stub ci of UserStub u \<Rightarrow> map mi_msg (uc_controlMsgList u) | _ \<Rightarrow> []) | None \<Rightarrow> [])"

definition pending :: "proxy \<Rightarrow> nat list \<Rightarrow> nat" where
  "pending px fds = sum_list (map (\<lambda>fd. length (queue_of px fd)) fds)"

text \<open>Each round but the last sends a message, so one more round than there are messages is enough.\<close>

fun schedule_peers :: "settings \<Rightarrow> nat list \<Rightarrow> proxy \<Rightarrow> nat \<Rightarrow> (proxy \<times> nat) option res" where
  "schedule_peers st [] px numMessages = Inr (Some (px, numMessages))"
| "schedule_peers st (i # ps) px numMessages =
     (if pi_numUsers (g_PeerInfo (px_peers px) ! i) = 0 then schedule_peers st ps px numMessages
      else rbind (schedule_peer (Suc (pending px (pi_userList (g_PeerInfo (px_peers px) ! i)))) st i px numMessages) (\<lambda>r.
        case r of None \<Rightarrow> Inr None | Some (px1, n1) \<Rightarrow> schedule_peers st ps px1 n1))"

definition ScheduleNameDelivery :: "settings \<Rightarrow> proxy \<Rightarrow> (proxy \<times> nat) option res" where
  "ScheduleNameDelivery st px = schedule_peers st [0..<length (g_PeerInfo (px_peers px))] px 0"

definition DestroyUserConnectionInfo :: "proxy \<Rightarrow> ConnectionInfo \<Rightarrow> proxy res" where
  "DestroyUserConnectionInfo px ci =
     ensure (ci_type ci = ct_user)
       (case ci_stub ci of
          UserStub u \<Rightarrow>
            let px1 = px\<lparr>g_ConnMap := fst (RemoveConnection (g_ConnMap px) (uc_sip u) (uc_sport u) (uc_dip u) (uc_dport u)),
                         g_PseudoConnMap := fst (RemoveConnection (g_PseudoConnMap px) (uc_sip u) (uc_sport u) (uc_dip u) (uc_dport u))\<rparr>
            in rbind (DestroyReassembleList (uc_reassembleList u)) (\<lambda>freed.
               rbind (DestroyChunkBufferList (px_cache px1) (uc_chunkBufferList u) 0 (\<not> ci_isAbnormal ci)) (\<lambda>(s, rest, numDestroyed).
                 ensure (uc_numChunkBuffers u - of_nat numDestroyed = 0)
                   (let px2 = px1\<lparr>px_cache := s, g_UserList := remove1 (ci_fd ci) (g_UserList px1), g_NumUserConns := g_NumUserConns px1 - 1\<rparr>
                    in ensure (g_NumUserConns px2 \<ge> 0)
                      (rbind (if uc_dstPxyIdx u \<noteq> -1 then
                                if uc_dstPxyIdx u < 0 \<or> nat (uc_dstPxyIdx u) \<ge> length (g_PeerInfo (px_peers px2)) then Inl UndefinedBehaviour
                                else Inr (px2\<lparr>px_peers := update_peer (nat (uc_dstPxyIdx u))
                                       (\<lambda>pi. pi\<lparr>pi_userList := remove1 (ci_fd ci) (pi_userList pi), pi_numUsers := pi_numUsers pi - 1\<rparr>) (px_peers px2)\<rparr>)
                              else Inr px2) (\<lambda>px3.
                         ensure (uc_controlMsgList u = [])
                           (Inr (if ci_status ci = cs_block then px3\<lparr>g_NumBlocked := g_NumBlocked px3 - 1\<rparr> else px3)))))))
        | _ \<Rightarrow> Inl UndefinedBehaviour)"

definition DestroyConnectionInfo :: "(proxy \<Rightarrow> ConnectionInfo \<Rightarrow> proxy res) \<Rightarrow> proxy \<Rightarrow> ConnectionInfo \<Rightarrow> proxy res" where
  "DestroyConnectionInfo cache_conn px ci =
     rbind (case ci_type ci of
              ct_user \<Rightarrow> DestroyUserConnectionInfo px ci
            | ct_control \<Rightarrow> DestroyControlConnectionInfo px ci
            | ct_chunk \<Rightarrow> DestroyChunkConnectionInfo px ci
            | ct_cache \<Rightarrow> cache_conn px ci
            | _ \<Rightarrow> Inl NiceExit) (\<lambda>px1.
       ensure (px_conns px1 (ci_fd ci) \<noteq> None)
         (Inr (px1\<lparr>px_conns := (px_conns px1)(ci_fd ci := None), px_events := (px_events px1)(ci_fd ci := (es_none, es_none))\<rparr>)))"

text \<open>A dead connection whose control messages have been sent.\<close>

definition removable :: "proxy \<Rightarrow> nat \<Rightarrow> bool res" where
  "removable px fd =
     (case px_conns px fd of
        None \<Rightarrow> Inl UndefinedBehaviour
      | Some ci \<Rightarrow>
          if ci_type ci = ct_user \<and> (case ci_stub ci of UserStub u \<Rightarrow> uc_controlMsgList u \<noteq> [] | _ \<Rightarrow> False) then Inr False
          else ensure (ci_status ci = cs_closed) (Inr True))"

fun to_destroy :: "proxy \<Rightarrow> nat list \<Rightarrow> nat list res" where
  "to_destroy px [] = Inr []"
| "to_destroy px (fd # fds) = rbind (removable px fd) (\<lambda>r. rbind (to_destroy px fds) (\<lambda>ds. Inr (if r then fd # ds else ds)))"

definition destroy_dead :: "(proxy \<Rightarrow> ConnectionInfo \<Rightarrow> proxy res) \<Rightarrow> nat \<Rightarrow> proxy \<Rightarrow> proxy res" where
  "destroy_dead cache_conn fd px =
     (case px_conns px fd of
        None \<Rightarrow> Inl UndefinedBehaviour
      | Some ci \<Rightarrow> rbind (DestroyConnectionInfo cache_conn px ci) (\<lambda>px1.
          let px2 = px1\<lparr>g_NumDeadConns := g_NumDeadConns px1 - 1\<rparr> in ensure (g_NumDeadConns px2 \<ge> 0) (Inr px2)))"

definition CleanUpClosedConnections :: "(proxy \<Rightarrow> ConnectionInfo \<Rightarrow> proxy res) \<Rightarrow> proxy \<Rightarrow> (proxy \<times> nat) res" where
  "CleanUpClosedConnections cache_conn px =
     rbind (to_destroy px (g_DeadConnList px)) (\<lambda>toDestroy.
       ensure (length toDestroy < MAX_NUM_CI)
         (rbind (rfold (destroy_dead cache_conn) toDestroy
             (px\<lparr>g_DeadConnList := filter (\<lambda>fd. fd \<notin> set toDestroy) (g_DeadConnList px)\<rparr>)) (\<lambda>px1.
           Inr (px1, length toDestroy))))"

section \<open>Moving messages\<close>

text \<open>
  The specification of the scheduler: messages leave the queues of the users one by one, always the
  oldest of a queue. The log of a run records them in order.
\<close>

inductive moves :: "(nat \<Rightarrow> byte list list) \<Rightarrow> (nat \<times> byte list) list \<Rightarrow> (nat \<Rightarrow> byte list list) \<Rightarrow> bool" where
  moves_none: "moves q [] q"
| moves_one: "q u = m # ms \<Longrightarrow> moves (q(u := ms)) log q' \<Longrightarrow> moves q ((u, m) # log) q'"

inductive_cases moves_NilE [elim!]: "moves q [] q'"
inductive_cases moves_ConsE [elim!]: "moves q ((u, m) # log) q'"

inductive_simps moves_simps: "moves q [] q'" "moves q ((u, m) # log) q'"

lemma moves_trans: "moves q log q' \<Longrightarrow> moves q' log' q'' \<Longrightarrow> moves q (log @ log') q''"
  by (induction rule: moves.induct) (auto intro: moves.intros)

abbreviation sent_by :: "nat \<Rightarrow> (nat \<times> byte list) list \<Rightarrow> byte list list" where
  "sent_by u log \<equiv> map snd (filter (\<lambda>e. fst e = u) log)"

text \<open>The messages of a user are sent in the order of its queue, none is lost and none is made up.\<close>

lemma moves_order: "moves q log q' \<Longrightarrow> q u = sent_by u log @ q' u"
  by (induction rule: moves.induct) (auto split: if_splits)

section \<open>Writing to a connection between proxies\<close>

lemma SetDead_queue:
  assumes "SetDead px ci a = Inr (px', ci')"
  shows "stream ci' = stream ci" "queue_ok ci' = queue_ok ci" "ci_type ci \<noteq> ct_user \<Longrightarrow> ci_stub ci' = ci_stub ci"
proof -
  have "ci_msgListWrite ci' = ci_msgListWrite ci \<and> ci_lenWrite ci' = ci_lenWrite ci \<and> ci_firstMsgOffset ci' = ci_firstMsgOffset ci \<and>
      ci_out ci' = ci_out ci \<and> (ci_type ci \<noteq> ct_user \<longrightarrow> ci_stub ci' = ci_stub ci)"
    using assms by (auto simp: SetDead_def Let_def ensure_eq_Inr rbind_eq_Inr on_user_def SendWACloseConnection_def split: if_splits stub.splits)
  then show "stream ci' = stream ci" "queue_ok ci' = queue_ok ci" "ci_type ci \<noteq> ct_user \<Longrightarrow> ci_stub ci' = ci_stub ci"
    using queue_same[of ci' ci] by blast+
qed

lemma SetDead_fail: "ci_type ci \<noteq> ct_user \<Longrightarrow> SetDead px ci a = Inl e \<Longrightarrow> e = AssertFail"
  by (auto simp: SetDead_def Let_def ensure_eq_Inl split: if_splits)

lemma write_loop_peer:
  assumes "queue_ok ci" "ci_type ci \<noteq> ct_user"
  shows "(\<forall>e. write_loop px ci n = Inl e \<longrightarrow> e = AssertFail) \<and>
    (\<forall>px' ci' n' dead. write_loop px ci n = Inr (px', ci', n', dead) \<longrightarrow>
       stream ci' = stream ci \<and> queue_ok ci' \<and> ci_stub ci' = ci_stub ci)"
  using assms
proof (induction px ci n rule: write_loop.induct)
  case (1 px ci n)
  show ?case
  proof (cases "ci_msgListWrite ci")
    case Nil
    then show ?thesis using "1.prems" by (simp add: write_loop.simps[of px ci n])
  next
    case (Cons m ms)
    obtain px1 r where nw: "next_write px = (px1, r)" by (cases "next_write px")
    from ActualWrite_ok[OF "1.prems"(1) Cons, of r] obtain ci1 ret where
      a: "ActualWrite ci (mi_msg m) r = Inr (ci1, ret)" "ret \<in> {-1, 0, 1}" "same_conn ci ci1" "ci_stub ci1 = ci_stub ci" "ret = -1 \<longrightarrow> ci1 = ci"
        "ret = 0 \<longrightarrow> stream ci1 = stream ci \<and> queue_ok ci1"
        "ret = 1 \<longrightarrow> stream (ci1\<lparr>ci_msgListWrite := ms\<rparr>) = stream ci \<and> queue_ok (ci1\<lparr>ci_msgListWrite := ms\<rparr>)" by blast
    have t: "ci_type ci1 \<noteq> ct_user" using a(3) "1.prems"(2) by (simp add: same_conn_def)
    from a(2) consider "ret = -1" | "ret = 0" | "ret = 1" by blast
    then show ?thesis
    proof cases
      case 1
      then have "write_loop px ci n = rbind (SetDead px1 ci True) (\<lambda>(px2, ci2). Inr (px2, ci2, n, True))"
        using Cons nw a(1,5) by (simp add: write_loop.simps[of px ci n])
      then show ?thesis using SetDead_queue SetDead_fail "1.prems" by (auto simp: rbind_eq_Inr rbind_eq_Inl)
    next
      case 2
      then have "write_loop px ci n = Inr (px1, ci1, n, False)" using Cons nw a(1) by (simp add: write_loop.simps[of px ci n])
      with 2 a(4,6) show ?thesis by simp
    next
      case 3
      then have loop: "write_loop px ci n = write_loop px1 (ci1\<lparr>ci_msgListWrite := ms\<rparr>) (n + of_nat (length (mi_msg m)))"
        using Cons nw a(1) by (simp add: write_loop.simps[of px ci n])
      have "queue_ok (ci1\<lparr>ci_msgListWrite := ms\<rparr>)" "ci_type (ci1\<lparr>ci_msgListWrite := ms\<rparr>) \<noteq> ct_user" using 3 a(7) t by simp_all
      from "1.IH"[OF Cons nw[symmetric] refl a(1) refl _ _ this] 3 show ?thesis unfolding loop using a(4,7) by simp
    qed
  qed
qed

lemma SendDataPrivate_peer:
  assumes "queue_ok ci" "ci_type ci = ct_control" "msg \<noteq> []"
  shows "(\<forall>e. SendDataPrivate px ci msg sid = Inl e \<longrightarrow> e = AssertFail) \<and>
    (\<forall>px' ci'. SendDataPrivate px ci msg sid = Inr (px', ci') \<longrightarrow> stream ci' = stream ci @ msg \<and> queue_ok ci' \<and> ci_stub ci' = ci_stub ci)"
proof -
  let ?ci = "ci\<lparr>ci_msgListWrite := ci_msgListWrite ci @ [\<lparr>mi_msg = msg, mi_streamID = sid\<rparr>], ci_lenWrite := ci_lenWrite ci + int (length msg)\<rparr>"
  have w: "waiting ?ci = waiting ci @ msg" by (simp add: waiting_def)
  have first: "ci_firstMsgOffset ci \<le> length (waiting ci)" using assms(1) by (auto simp: queue_ok_def waiting_def split: list.splits)
  have s: "stream ?ci = stream ci @ msg" using first by (simp add: stream_def w)
  have q: "queue_ok ?ci" using assms(1,3) w by (auto simp: queue_ok_def split: list.splits)
  have t: "ci_type ?ci \<noteq> ct_user" using assms(2) by simp
  have S: "SendDataPrivate px ci msg sid = (if ci_isWritable ci then Write px ?ci False else Inr (px, ?ci))"
    using assms(2,3) by (simp add: SendDataPrivate_def Let_def)
  have W: "Write px ?ci False = rbind (write_loop px ?ci 0) (\<lambda>(px1, ci1, bytesSent, dead).
      if dead \<or> bytesSent = 0 then Inr (px1, ci1) else PostWrite px1 ci1 bytesSent False)" using assms(2) by (simp add: Write_def)
  have P: "PostWrite px1 ci1 n ev = Inr (px1\<lparr>g_BytesPeerTX := g_BytesPeerTX px1 + n\<rparr>, ci1)" if "n \<noteq> 0" "ci_type ci1 = ct_control" for px1 ci1 n ev
    using that by (simp add: PostWrite_def word_gt_0)
  have ty: "ci_type ci1 = ct_control" if "write_loop px ?ci 0 = Inr (px1, ci1, n, dead)" for px1 ci1 n dead
    using write_loop_typed[OF that] assms(2) by (simp add: retyped_def)
  show ?thesis
  proof (cases "ci_isWritable ci")
    case True
    show ?thesis
      using write_loop_peer[OF q t, of px 0] True s P ty unfolding S W by (auto simp: rbind_eq_Inr rbind_eq_Inl split: if_splits)
  next
    case False
    then show ?thesis using S s q by simp
  qed
qed

text \<open>What a message to a peer leaves alone of the tables of peers.\<close>

definition same_links :: "peer_table \<Rightarrow> peer_table \<Rightarrow> bool" where
  "same_links p p' \<longleftrightarrow> g_LocalInfo p' = g_LocalInfo p \<and>
     map (\<lambda>pi. (pi_nameCI pi, pi_userList pi, pi_numUsers pi)) (g_PeerInfo p') = map (\<lambda>pi. (pi_nameCI pi, pi_userList pi, pi_numUsers pi)) (g_PeerInfo p)"

lemma same_links_facts:
  assumes "same_links p p'"
  shows "length (g_PeerInfo p') = length (g_PeerInfo p)" "g_LocalInfo p' = g_LocalInfo p"
    "i < length (g_PeerInfo p) \<Longrightarrow> pi_nameCI (g_PeerInfo p' ! i) = pi_nameCI (g_PeerInfo p ! i) \<and>
       pi_userList (g_PeerInfo p' ! i) = pi_userList (g_PeerInfo p ! i) \<and> pi_numUsers (g_PeerInfo p' ! i) = pi_numUsers (g_PeerInfo p ! i)"
proof -
  have m: "map (\<lambda>pi. (pi_nameCI pi, pi_userList pi, pi_numUsers pi)) (g_PeerInfo p') = map (\<lambda>pi. (pi_nameCI pi, pi_userList pi, pi_numUsers pi)) (g_PeerInfo p)"
    using assms by (simp add: same_links_def)
  from arg_cong[OF m, of length] show l: "length (g_PeerInfo p') = length (g_PeerInfo p)" by simp
  show "g_LocalInfo p' = g_LocalInfo p" using assms by (simp add: same_links_def)
  show "pi_nameCI (g_PeerInfo p' ! i) = pi_nameCI (g_PeerInfo p ! i) \<and>
       pi_userList (g_PeerInfo p' ! i) = pi_userList (g_PeerInfo p ! i) \<and> pi_numUsers (g_PeerInfo p' ! i) = pi_numUsers (g_PeerInfo p ! i)"
    if "i < length (g_PeerInfo p)" using arg_cong[OF m, of "\<lambda>l. l ! i"] l that by simp
qed

lemma same_links_trans: "same_links p p' \<Longrightarrow> same_links p' p'' \<Longrightarrow> same_links p p''" "same_links p p"
  by (simp_all add: same_links_def)

lemma same_links_update:
  assumes "\<And>pi. pi_nameCI (f pi) = pi_nameCI pi \<and> pi_userList (f pi) = pi_userList pi \<and> pi_numUsers (f pi) = pi_numUsers pi"
  shows "same_links p (update_peer i f p)"
proof -
  have "map (\<lambda>pi. (pi_nameCI pi, pi_userList pi, pi_numUsers pi)) ((g_PeerInfo p)[i := f (g_PeerInfo p ! i)]) =
      map (\<lambda>pi. (pi_nameCI pi, pi_userList pi, pi_numUsers pi)) (g_PeerInfo p)"
  proof (rule nth_equalityI, goal_cases)
    case (2 j)
    then show ?case by (cases "i = j") (simp_all add: assms)
  qed simp
  then show ?thesis by (simp add: same_links_def update_peer_def)
qed

lemma UpdatePeerLiveness_peer:
  assumes "i < length (g_PeerInfo p)"
  shows "(\<forall>e. UpdatePeerLiveness now i p = Inl e \<longrightarrow> e = AssertFail) \<and> (\<forall>p'. UpdatePeerLiveness now i p = Inr p' \<longrightarrow> same_links p p')"
proof -
  let ?q = "(update_peer i (\<lambda>pi. pi\<lparr>pi_isAlive := True\<rparr>) p)\<lparr>g_NumLivePeers := g_NumLivePeers p + 1\<rparr>"
  have "same_links p (update_peer i (\<lambda>pi. pi\<lparr>pi_isAlive := True\<rparr>) p)" by (rule same_links_update) simp
  then have 1: "same_links p ?q" by (simp add: same_links_def)
  have 2: "same_links q (update_peer i (\<lambda>pi. pi\<lparr>pi_lastPingTime := now\<rparr>) q)" for q by (rule same_links_update) simp
  show ?thesis using assms 2[of p] same_links_trans(1)[OF 1 2]
    by (auto simp: UpdatePeerLiveness_def Let_def rbind_eq_Inl rbind_eq_Inr ensure_eq_Inl ensure_eq_Inr)
qed


text \<open>
  The connection that carries the messages of a user, and the bytes given to a connection. The slot of
  the flow is used once the first connection of the peer exists, and is inside the array.
\<close>

definition route :: "peer_table \<Rightarrow> UserConnectionInfo \<Rightarrow> nat option" where
  "route p u = (if 0 \<le> uc_dstPxyIdx u \<and> nat (uc_dstPxyIdx u) < length (g_PeerInfo p) \<and>
       pi_nameCI (g_PeerInfo p ! nat (uc_dstPxyIdx u)) ! 0 \<noteq> None \<and>
       nat (uc_nameFlowId u) < length (pi_nameCI (g_PeerInfo p ! nat (uc_dstPxyIdx u)))
     then pi_nameCI (g_PeerInfo p ! nat (uc_dstPxyIdx u)) ! nat (uc_nameFlowId u) else None)"

definition user_route :: "proxy \<Rightarrow> nat \<Rightarrow> nat option" where
  "user_route px fd = (case px_conns px fd of Some ci \<Rightarrow>
     (case ci_stub ci of UserStub u \<Rightarrow> route (px_peers px) u | _ \<Rightarrow> None) | None \<Rightarrow> None)"

definition out :: "proxy \<Rightarrow> nat \<Rightarrow> byte list" where
  "out px c = (case px_conns px c of Some ci \<Rightarrow> stream ci | None \<Rightarrow> [])"

definition kinds :: "proxy \<Rightarrow> nat \<Rightarrow> connectionType option" where
  "kinds px fd = map_option ci_type (px_conns px fd)"

text \<open>
  The state the scheduler works on: the queues are consistent, no queued message is empty, and every
  user with messages has a control connection to its peer.
\<close>

definition sched_ok :: "proxy \<Rightarrow> bool" where
  "sched_ok px \<longleftrightarrow> conns_typed px \<and> g_LocalInfo (px_peers px) \<noteq> None \<and> (\<forall>fd ci. px_conns px fd = Some ci \<longrightarrow> queue_ok ci) \<and>
     (\<forall>fd. queue_of px fd \<noteq> [] \<longrightarrow> (\<exists>c cc. user_route px fd = Some c \<and> px_conns px c = Some cc \<and> ci_type cc = ct_control) \<and> [] \<notin> set (queue_of px fd))"

lemma route_same: "same_links p p' \<Longrightarrow> route p' u = route p u"
  using same_links_facts(1)[of p p'] same_links_facts(3)[of p p' "nat (uc_dstPxyIdx u)"] by (auto simp: route_def)

text \<open>One message of a user, from its queue to the control connection.\<close>

definition take_message :: "ConnectionInfo \<Rightarrow> UserConnectionInfo \<Rightarrow> MessageInfo list \<Rightarrow> ConnectionInfo" where
  "take_message ci u mis = ci\<lparr>ci_stub := UserStub (u\<lparr>uc_controlMsgList := mis\<rparr>)\<rparr>"

text \<open>The two connections that a message changes.\<close>

lemma message_state:
  assumes "sched_ok px" "px_conns px fd = Some ci" "ci_stub ci = UserStub u" "uc_controlMsgList u = mi # mis"
    and "user_route px fd = Some c" "px_conns px c = Some cc" "c \<noteq> fd"
    and "conns_typed px'" "px_conns px' = (px_conns px)(fd := Some (take_message ci u mis), c := Some cc')" "same_links (px_peers px) (px_peers px')"
    and "stream cc' = stream cc @ msg" "queue_ok cc'" "ci_stub cc' = ci_stub cc" "ci_type cc' = ci_type cc"
  shows "sched_ok px' \<and> queue_of px' = (queue_of px)(fd := map mi_msg mis) \<and> user_route px' = user_route px \<and> kinds px' = kinds px \<and>
    out px' = (out px)(c := out px c @ msg)"
proof -
  have kinds: "kinds px' = kinds px" using assms(2,6,14) by (auto simp: kinds_def fun_eq_iff assms(9) take_message_def)
  note same = route_same[OF assms(10)]
  have q: "queue_of px' = (queue_of px)(fd := map mi_msg mis)"
    using assms(2,3,6,7,13) by (auto simp: queue_of_def fun_eq_iff assms(9) take_message_def)
  have rt: "user_route px' = user_route px"
  proof
    fix f
    have "route p (u\<lparr>uc_controlMsgList := mis\<rparr>) = route p u" for p by (auto simp: route_def)
    then show "user_route px' f = user_route px f"
      using assms(2,3,6,7,13) same by (cases "f = fd"; cases "f = c") (simp_all add: user_route_def assms(9) take_message_def cong: option.case_cong stub.case_cong)
  qed
  have out: "out px' = (out px)(c := out px c @ msg)"
    using assms(2,6,7,11) queue_same(2)[of "take_message ci u mis" ci] by (auto simp: out_def fun_eq_iff assms(9) take_message_def)
  have ok: "queue_ok (take_message ci u mis)"
    using assms(1,2) queue_same(1)[of "take_message ci u mis" ci] by (auto simp: sched_ok_def take_message_def)
  have ctl: "\<exists>cc. px_conns px' k = Some cc \<and> ci_type cc = ct_control" if "px_conns px k = Some x" "ci_type x = ct_control" for k x
    using that assms(2,6,14) by (cases "k = c"; cases "k = fd") (auto simp: assms(9) take_message_def)
  have "queue_of px fd = mi_msg mi # map mi_msg mis" using assms(2-4) by (simp add: queue_of_def)
  then have sub: "queue_of px' f \<noteq> [] \<Longrightarrow> queue_of px f \<noteq> [] \<and> set (queue_of px' f) \<subseteq> set (queue_of px f)" for f by (auto simp: q split: if_splits)
  have "sched_ok px'"
    unfolding sched_ok_def
  proof (intro conjI allI impI)
    show "conns_typed px'" by (rule assms(8))
    show "g_LocalInfo (px_peers px') \<noteq> None" using assms(1) same_links_facts(2)[OF assms(10)] by (simp add: sched_ok_def)
    show "queue_ok x" if "px_conns px' f = Some x" for f x
      using that assms(1,12) ok by (auto simp: assms(9) sched_ok_def split: if_splits)
    show "\<exists>c cc. user_route px' f = Some c \<and> px_conns px' c = Some cc \<and> ci_type cc = ct_control" if "queue_of px' f \<noteq> []" for f
      using sub[OF that] assms(1) ctl unfolding rt sched_ok_def by blast
    show "[] \<notin> set (queue_of px' f)" if "queue_of px' f \<noteq> []" for f
      using sub[OF that] assms(1) unfolding sched_ok_def by blast
  qed
  with q rt out kinds show ?thesis by blast
qed

lemma message_sent:
  assumes "sched_ok px" "px_conns px fd = Some ci" "ci_type ci = ct_user" "ci_stub ci = UserStub u" "uc_controlMsgList u = mi # mis"
  shows "(\<forall>e. WriteToNamePeer st (put_conn (take_message ci u mis) px) (uc_dstPxyIdx u) (uc_nameFlowId u) (mi_msg mi) sid = Inl e \<longrightarrow> e = AssertFail) \<and>
    (\<forall>px'. WriteToNamePeer st (put_conn (take_message ci u mis) px) (uc_dstPxyIdx u) (uc_nameFlowId u) (mi_msg mi) sid = Inr px' \<longrightarrow>
       sched_ok px' \<and> queue_of px' = (queue_of px)(fd := map mi_msg mis) \<and> user_route px' = user_route px \<and> kinds px' = kinds px \<and>
       same_links (px_peers px) (px_peers px') \<and> (\<exists>c. user_route px fd = Some c \<and> out px' = (out px)(c := out px c @ mi_msg mi)))"
proof -
  let ?ci1 = "take_message ci u mis" and ?px1 = "put_conn (take_message ci u mis) px"
  have typed: "conns_typed px" using assms(1) by (simp add: sched_ok_def)
  have fd: "ci_fd ci = fd" using typed assms(2) by (simp add: conns_typed_def)
  have q: "queue_of px fd = mi_msg mi # map mi_msg mis" using assms(2,4,5) by (simp add: queue_of_def)
  then obtain c cc where c: "user_route px fd = Some c" "px_conns px c = Some cc" "ci_type cc = ct_control" and ne: "mi_msg mi \<noteq> []"
    using assms(1) unfolding sched_ok_def by (metis list.distinct(1) list.set_intros(1))
  have r: "route (px_peers px) u = Some c" using c(1) assms(2,4) by (simp add: user_route_def)
  then have pr: "0 \<le> uc_dstPxyIdx u" "nat (uc_dstPxyIdx u) < length (g_PeerInfo (px_peers px))"
    "pi_nameCI (g_PeerInfo (px_peers px) ! nat (uc_dstPxyIdx u)) ! 0 \<noteq> None"
    "pi_nameCI (g_PeerInfo (px_peers px) ! nat (uc_dstPxyIdx u)) ! nat (uc_nameFlowId u) = Some c"
    "nat (uc_nameFlowId u) < length (pi_nameCI (g_PeerInfo (px_peers px) ! nat (uc_dstPxyIdx u)))"
    by (auto simp: route_def split: if_splits)
  have cfd: "c \<noteq> fd" using assms(2,3) c(2,3) by auto
  have px1: "px_conns ?px1 = (px_conns px)(fd := Some ?ci1)" "px_peers ?px1 = px_peers px"
    using fd by (simp_all add: put_conn_def take_message_def)
  obtain l where l: "g_LocalInfo (px_peers px) = Some l" using assms(1) by (auto simp: sched_ok_def)
  have qc: "queue_ok cc" using assms(1) c(2) by (auto simp: sched_ok_def)
  have run: "WriteToNamePeer st ?px1 (uc_dstPxyIdx u) (uc_nameFlowId u) (mi_msg mi) sid =
    ensure (uc_dstPxyIdx u \<noteq> int l) (ensure (0 \<le> uc_nameFlowId u \<and> uc_nameFlowId u < int (g_MaxPeerConns st))
      (rbind (SendDataPrivate ?px1 cc (mi_msg mi) sid) (\<lambda>(px2, cc2).
        rbind (UpdatePeerLiveness (px_now px2) (nat (uc_dstPxyIdx u)) (px_peers px2)) (\<lambda>p. Inr ((put_conn cc2 px2)\<lparr>px_peers := p\<rparr>)))))"
  proof -
    obtain y where "pi_nameCI (g_PeerInfo (px_peers px) ! nat (uc_dstPxyIdx u)) ! 0 = Some y" using pr(3) by blast
    moreover have "0 < length (pi_nameCI (g_PeerInfo (px_peers px) ! nat (uc_dstPxyIdx u)))" using pr(5) by linarith
    ultimately show ?thesis using pr px1 l ne cfd c(2) by (simp add: WriteToNamePeer_def send_to_peer_def ci_slot_def Let_def)
  qed
  note S = SendDataPrivate_peer[OF qc c(3) ne, of ?px1 sid]
  show ?thesis
  proof (intro conjI allI impI)
    fix e assume "WriteToNamePeer st ?px1 (uc_dstPxyIdx u) (uc_nameFlowId u) (mi_msg mi) sid = Inl e"
    then show "e = AssertFail"
      using S UpdatePeerLiveness_peer pr(2) SendDataPrivate_typed px1(2) unfolding run
      by (auto simp: rbind_eq_Inl ensure_eq_Inl keeps_conns_def)
  next
    fix px' assume "WriteToNamePeer st ?px1 (uc_dstPxyIdx u) (uc_nameFlowId u) (mi_msg mi) sid = Inr px'"
    then obtain px2 cc2 p where w: "SendDataPrivate ?px1 cc (mi_msg mi) sid = Inr (px2, cc2)"
      "UpdatePeerLiveness (px_now px2) (nat (uc_dstPxyIdx u)) (px_peers px2) = Inr p" "px' = (put_conn cc2 px2)\<lparr>px_peers := p\<rparr>"
      unfolding run by (auto simp: rbind_eq_Inr ensure_eq_Inr)
    note k = SendDataPrivate_typed[OF w(1)]
    then have px2: "px_conns px2 = (px_conns px)(fd := Some ?ci1)" "px_peers px2 = px_peers px" "ci_type cc2 = ci_type cc" "ci_fd cc2 = ci_fd cc"
      using px1 by (simp_all add: keeps_conns_def retyped_def)
    have peers: "same_links (px_peers px) (px_peers px')" using UpdatePeerLiveness_peer[of "nat (uc_dstPxyIdx u)" "px_peers px2" "px_now px2"] w(2,3) pr(2) px2(2) by simp
    have "retyped ci ?ci1" by (rule retyped_user[OF assms(4)]) (simp_all add: take_message_def)
    then have t1: "conns_typed ?px1" by (rule put_conn_typed[OF typed assms(2) keeps_retyped_trans(3)])
    have "px_conns ?px1 c = Some cc" using px1(1) cfd c(2) by simp
    from put_conn_typed[OF t1 this] k have "conns_typed (put_conn cc2 px2)" by blast
    then have t2: "conns_typed px'" by (simp add: w(3) conns_typed_def)
    have "ci_fd cc = c" using typed c(2) by (simp add: conns_typed_def)
    then have conns: "px_conns px' = (px_conns px)(fd := Some ?ci1, c := Some cc2)" using px2(1,4) by (simp add: w(3) put_conn_def)
    have m: "stream cc2 = stream cc @ mi_msg mi" "queue_ok cc2" "ci_stub cc2 = ci_stub cc" using S w(1) by blast+
    note st = message_state[OF assms(1,2,4,5) c(1,2) cfd t2 conns peers m px2(3)]
    show "sched_ok px'" "queue_of px' = (queue_of px)(fd := map mi_msg mis)" "user_route px' = user_route px" "kinds px' = kinds px" using st by blast+
    show "same_links (px_peers px) (px_peers px')" by (rule peers)
    show "\<exists>c. user_route px fd = Some c \<and> out px' = (out px)(c := out px c @ mi_msg mi)" using st c(1) by blast
  qed
qed


section \<open>Rounds\<close>

text \<open>
  A part of a run of the scheduler refines the specification: it moves the messages of its log from the
  queues of the users in \<open>us\<close> to their connections.
\<close>

definition delivers :: "nat set \<Rightarrow> proxy \<Rightarrow> (nat \<times> byte list) list \<Rightarrow> proxy \<Rightarrow> bool" where
  "delivers us px log px' \<longleftrightarrow> sched_ok px' \<and> moves (queue_of px) log (queue_of px') \<and> fst ` set log \<subseteq> us \<and> user_route px' = user_route px \<and>
     kinds px' = kinds px \<and> same_links (px_peers px) (px_peers px') \<and>
     (\<forall>c. out px' c = out px c @ concat (map snd (filter (\<lambda>e. user_route px (fst e) = Some c) log)))"

lemma delivers_none: "sched_ok px \<Longrightarrow> delivers us px [] px"
  by (simp add: delivers_def moves_none same_links_trans)

lemma delivers_trans:
  assumes "delivers us px log px1" "delivers us px1 log' px2"
  shows "delivers us px (log @ log') px2"
  using assms moves_trans[of "queue_of px" log "queue_of px1" log' "queue_of px2"] same_links_trans(1)[of "px_peers px" "px_peers px1" "px_peers px2"]
  by (auto simp: delivers_def)

lemma message_delivered:
  assumes "sched_ok px" "px_conns px fd = Some ci" "ci_type ci = ct_user" "ci_stub ci = UserStub u" "uc_controlMsgList u = mi # mis" "fd \<in> us"
    and "WriteToNamePeer st (put_conn (take_message ci u mis) px) (uc_dstPxyIdx u) (uc_nameFlowId u) (mi_msg mi) sid = Inr px'"
  shows "delivers us px [(fd, mi_msg mi)] px'"
proof -
  from message_sent[OF assms(1-5), of st sid] assms(7) obtain c where m: "sched_ok px'" "queue_of px' = (queue_of px)(fd := map mi_msg mis)"
    "user_route px' = user_route px" "same_links (px_peers px) (px_peers px')" "user_route px fd = Some c" "out px' = (out px)(c := out px c @ mi_msg mi)"
    "kinds px' = kinds px" by blast
  have "queue_of px fd = mi_msg mi # map mi_msg mis" using assms(2,4,5) by (simp add: queue_of_def)
  then have "moves (queue_of px) [(fd, mi_msg mi)] (queue_of px')" unfolding m(2) by (blast intro: moves.intros)
  with m assms(6) show ?thesis by (auto simp: delivers_def)
qed

text \<open>A round: it stops only when every user was found without a message, and otherwise moves one.\<close>

lemma schedule_round_ok:
  assumes "sched_ok px" "\<forall>fd \<in> set fds. kinds px fd = Some ct_user" "f + length fds \<le> unat N"
  shows "schedule_round st N fds px f n = Inl AssertFail \<or>
    (\<exists>px' log stop. schedule_round st N fds px f n = Inr (px', n + length log, stop) \<and> delivers (set fds) px log px' \<and>
       (if stop then f + length fds = unat N \<and> log = [] \<and> px' = px \<and> (\<forall>fd \<in> set fds. queue_of px fd = [])
        else fds \<noteq> [] \<and> f + length fds = unat N \<longrightarrow> log \<noteq> []))"
  using assms
proof (induction fds arbitrary: px f n)
  case Nil
  then show ?case using delivers_none[OF Nil.prems(1), of "{}"] by (intro disjI2 exI[of _ px] exI[of _ "[]"] exI[of _ False]) simp
next
  case (Cons fd fds)
  from Cons.prems(2) obtain ci where ci: "px_conns px fd = Some ci" "ci_type ci = ct_user" by (auto simp: kinds_def)
  moreover have "typed ci" using Cons.prems(1) ci(1) by (simp add: sched_ok_def conns_typed_def)
  ultimately obtain u where u: "ci_stub ci = UserStub u" by (auto simp: typed_def split: stub.splits)
  show ?case
  proof (cases "uc_controlMsgList u")
    case Nil
    then have q: "queue_of px fd = []" using ci u by (simp add: queue_of_def)
    show ?thesis
    proof (cases "unat N = f + 1")
      case True
      then have "fds = []" using Cons.prems(3) by simp
      then have "schedule_round st N (fd # fds) px f n = Inr (px, n + length [], True)" using ci u Nil True by simp
      with q \<open>fds = []\<close> True delivers_none[OF Cons.prems(1), of "{fd}"] show ?thesis
        by (intro disjI2 exI[of _ px] exI[of _ "[]"] exI[of _ True]) simp
    next
      case False
      then have r: "schedule_round st N (fd # fds) px f n = schedule_round st N fds px (f + 1) n" using ci u Nil by simp
      from Cons.IH[OF Cons.prems(1), of "f + 1" n] Cons.prems(2,3) consider "schedule_round st N fds px (f + 1) n = Inl AssertFail"
        | px' log stop where "schedule_round st N fds px (f + 1) n = Inr (px', n + length log, stop)" "delivers (set fds) px log px'"
          "if stop then f + 1 + length fds = unat N \<and> log = [] \<and> px' = px \<and> (\<forall>fd \<in> set fds. queue_of px fd = []) else fds \<noteq> [] \<and> f + 1 + length fds = unat N \<longrightarrow> log \<noteq> []"
        by auto
      then show ?thesis
      proof cases
        case (2 px' log stop)
        have "delivers (set (fd # fds)) px log px'" using 2(2) by (auto simp: delivers_def)
        moreover have "log \<noteq> []" if "\<not> stop" "f + length (fd # fds) = unat N"
          using that 2(3) False by (cases fds) auto
        ultimately show ?thesis using 2 q unfolding r by (intro disjI2 exI[of _ px'] exI[of _ log] exI[of _ stop]) auto
      qed (use r in simp)
    qed
  next
    case (Cons mi mis)
    let ?w = "WriteToNamePeer st (put_conn (take_message ci u mis) px) (uc_dstPxyIdx u) (uc_nameFlowId u) (mi_msg mi) (int (ci_fd ci))"
    have r: "schedule_round st N (fd # fds) px f n = rbind ?w (\<lambda>px2. schedule_round st N fds px2 f (n + 1))"
      using ci u Cons by (simp add: take_message_def)
    show ?thesis
    proof (cases ?w)
      case (Inl e)
      with message_sent[OF \<open>sched_ok px\<close> ci u Cons] have "e = AssertFail" by blast
      with Inl r show ?thesis by simp
    next
      case (Inr px2)
      have d: "delivers (set (fd # fds)) px [(fd, mi_msg mi)] px2" by (rule message_delivered[OF \<open>sched_ok px\<close> ci u Cons _ Inr]) simp
      have s2: "sched_ok px2" "\<forall>fd \<in> set fds. kinds px2 fd = Some ct_user" "f + length fds \<le> unat N"
        using d Cons.prems(2,3) by (auto simp: delivers_def)
      from Cons.IH[OF s2, of "n + 1"] consider "schedule_round st N fds px2 f (n + 1) = Inl AssertFail"
        | px' log stop where "schedule_round st N fds px2 f (n + 1) = Inr (px', n + 1 + length log, stop)" "delivers (set fds) px2 log px'"
          "stop \<longrightarrow> f + length fds = unat N" by (auto split: if_splits)
      then show ?thesis
      proof cases
        case (2 px' log stop)
        have "delivers (set (fd # fds)) px2 log px'" using 2(2) by (auto simp: delivers_def)
        from delivers_trans[OF d this] have "delivers (set (fd # fds)) px ((fd, mi_msg mi) # log) px'" by simp
        moreover have "\<not> stop" using 2(3) Cons.prems(3) by auto
        ultimately show ?thesis using 2(1) Inr unfolding r
          by (intro disjI2 exI[of _ px'] exI[of _ "(fd, mi_msg mi) # log"] exI[of _ False]) simp
      qed (use r Inr in simp)
    qed
  qed
qed

text \<open>Moving a message makes the queues shorter.\<close>

lemma pending_moves:
  assumes "moves q log q'" "fst ` set log \<subseteq> set fds"
  shows "sum_list (map (\<lambda>fd. length (q' fd)) fds) + length log \<le> sum_list (map (\<lambda>fd. length (q fd)) fds)"
  using assms
proof (induction rule: moves.induct)
  case (moves_one q u m ms log q')
  have le: "sum_list (map (\<lambda>fd. length ((q(u := ms)) fd)) fds) + (if u \<in> set fds then 1 else 0) \<le> sum_list (map (\<lambda>fd. length (q fd)) fds)" for fds
    by (induction fds) (auto simp: moves_one.hyps(1))
  with moves_one.IH moves_one.prems le[of fds] show ?case by auto
qed simp

lemma schedule_peer_ok:
  assumes "sched_ok px" "i < length (g_PeerInfo (px_peers px))" "users = pi_userList (g_PeerInfo (px_peers px) ! i)"
    and "\<forall>fd \<in> set users. kinds px fd = Some ct_user" "unat (pi_numUsers (g_PeerInfo (px_peers px) ! i)) = length users" "users \<noteq> []"
    and "pending px users < fuel"
  shows "schedule_peer fuel st i px n = Inl AssertFail \<or>
    (\<exists>px' log. schedule_peer fuel st i px n = Inr (Some (px', n + length log)) \<and> delivers (set users) px log px' \<and> (\<forall>fd \<in> set users. queue_of px' fd = []))"
  using assms
proof (induction fuel arbitrary: px n)
  case (Suc fuel)
  let ?N = "pi_numUsers (g_PeerInfo (px_peers px) ! i)"
  have le: "0 + length users \<le> unat ?N" using Suc.prems(5) by simp
  from schedule_round_ok[OF Suc.prems(1,4) le, of st n] consider "schedule_round st ?N users px 0 n = Inl AssertFail"
    | px1 log stop where "schedule_round st ?N users px 0 n = Inr (px1, n + length log, stop)" "delivers (set users) px log px1"
       "if stop then 0 + length users = unat ?N \<and> log = [] \<and> px1 = px \<and> (\<forall>fd \<in> set users. queue_of px fd = [])
        else users \<noteq> [] \<and> 0 + length users = unat ?N \<longrightarrow> log \<noteq> []" by blast
  then show ?case
  proof cases
    case 1
    then show ?thesis using Suc.prems(3) by simp
  next
    case (2 px1 log stop)
    show ?thesis
    proof (cases stop)
      case True
      then show ?thesis using 2 Suc.prems(3) by auto
    next
      case False
      then have ne: "log \<noteq> []" using 2(3) Suc.prems(5,6) by simp
      have run: "schedule_peer (Suc fuel) st i px n = schedule_peer fuel st i px1 (n + length log)" using 2(1) False Suc.prems(3) by simp
      have d: "sched_ok px1" "same_links (px_peers px) (px_peers px1)" "kinds px1 = kinds px" "moves (queue_of px) log (queue_of px1)" "fst ` set log \<subseteq> set users"
        using 2(2) by (simp_all add: delivers_def)
      note sp = same_links_facts[OF d(2)]
      have "pending px1 users < fuel" using pending_moves[OF d(4,5)] ne Suc.prems(7) by (cases log) (auto simp: pending_def)
      from Suc.IH[OF d(1) _ _ _ _ Suc.prems(6) this, of "n + length log"] sp Suc.prems(2-5) d(3)
      consider "schedule_peer fuel st i px1 (n + length log) = Inl AssertFail"
        | px' log' where "schedule_peer fuel st i px1 (n + length log) = Inr (Some (px', n + length log + length log'))" "delivers (set users) px1 log' px'"
          "\<forall>fd \<in> set users. queue_of px' fd = []" by auto
      then show ?thesis
      proof cases
        case 1
        then show ?thesis using run by simp
      next
        case (2 px' log')
        with run delivers_trans[OF \<open>delivers (set users) px log px1\<close> 2(2)] show ?thesis
          by (intro disjI2 exI[of _ px'] exI[of _ "log @ log'"]) simp
      qed
    qed
  qed
qed simp


text \<open>The lists of users of the peers.\<close>

definition users_ok :: "proxy \<Rightarrow> bool" where
  "users_ok px \<longleftrightarrow> (\<forall>i < length (g_PeerInfo (px_peers px)). let pi = g_PeerInfo (px_peers px) ! i in
     unat (pi_numUsers pi) = length (pi_userList pi) \<and> (\<forall>fd \<in> set (pi_userList pi). kinds px fd = Some ct_user))"

lemma delivers_users:
  assumes "delivers us px log px'"
  shows "users_ok px' = users_ok px" "queue_of px fd = [] \<Longrightarrow> queue_of px' fd = []"
proof -
  have d: "same_links (px_peers px) (px_peers px')" "kinds px' = kinds px" "moves (queue_of px) log (queue_of px')" using assms by (simp_all add: delivers_def)
  show "users_ok px' = users_ok px" using same_links_facts[OF d(1)] d(2) by (simp add: users_ok_def Let_def)
  show "queue_of px fd = [] \<Longrightarrow> queue_of px' fd = []" using moves_order[OF d(3), of fd] by simp
qed

lemma schedule_peers_ok:
  assumes "sched_ok px" "users_ok px" "set ps \<subseteq> {..<length (g_PeerInfo (px_peers px))}"
  shows "schedule_peers st ps px n = Inl AssertFail \<or>
    (\<exists>px' log. schedule_peers st ps px n = Inr (Some (px', n + length log)) \<and> delivers UNIV px log px' \<and>
       (\<forall>i \<in> set ps. \<forall>fd \<in> set (pi_userList (g_PeerInfo (px_peers px) ! i)). queue_of px' fd = []))"
  using assms
proof (induction ps arbitrary: px n)
  case Nil
  then show ?case using delivers_none[OF Nil.prems(1)] by (intro disjI2 exI[of _ px] exI[of _ "[]"]) simp
next
  case (Cons i ps)
  let ?pi = "g_PeerInfo (px_peers px) ! i"
  have i: "i < length (g_PeerInfo (px_peers px))" using Cons.prems(3) by simp
  then have u: "unat (pi_numUsers ?pi) = length (pi_userList ?pi)" "\<forall>fd \<in> set (pi_userList ?pi). kinds px fd = Some ct_user"
    using Cons.prems(2) by (auto simp: users_ok_def Let_def)
  have "\<exists>r. (if pi_numUsers ?pi = 0 then Inr (Some (px, n)) else schedule_peer (Suc (pending px (pi_userList ?pi))) st i px n) = r \<and>
      schedule_peers st (i # ps) px n = rbind r (\<lambda>r. case r of None \<Rightarrow> Inr None | Some (px1, n1) \<Rightarrow> schedule_peers st ps px1 n1) \<and>
      (r = Inl AssertFail \<or> (\<exists>px1 log. r = Inr (Some (px1, n + length log)) \<and> delivers UNIV px log px1 \<and> (\<forall>fd \<in> set (pi_userList ?pi). queue_of px1 fd = [])))"
  proof (cases "pi_numUsers ?pi = 0")
    case True
    then show ?thesis using u(1) delivers_none[OF Cons.prems(1)] by (auto intro!: exI[of _ px] exI[of _ "[]"])
  next
    case False
    then have "pi_userList ?pi \<noteq> []" using u(1) by (auto simp: unat_eq_0)
    from schedule_peer_ok[OF Cons.prems(1) i refl u(2,1) this lessI, of st n] show ?thesis
      using False by (auto simp: delivers_def)
  qed
  then consider "schedule_peers st (i # ps) px n = Inl AssertFail"
    | px1 log where "schedule_peers st (i # ps) px n = schedule_peers st ps px1 (n + length log)" "delivers UNIV px log px1" "\<forall>fd \<in> set (pi_userList ?pi). queue_of px1 fd = []"
    by auto
  then show ?case
  proof cases
    case (2 px1 log)
    have d: "sched_ok px1" "same_links (px_peers px) (px_peers px1)" using 2(2) by (simp_all add: delivers_def)
    note sp = same_links_facts[OF d(2)]
    have "users_ok px1" using delivers_users(1)[OF 2(2)] Cons.prems(2) by simp
    from Cons.IH[OF d(1) this, of "n + length log"] Cons.prems(3) sp(1) consider
        "schedule_peers st ps px1 (n + length log) = Inl AssertFail"
      | px' log' where "schedule_peers st ps px1 (n + length log) = Inr (Some (px', n + length log + length log'))" "delivers UNIV px1 log' px'"
        "\<forall>j \<in> set ps. \<forall>fd \<in> set (pi_userList (g_PeerInfo (px_peers px1) ! j)). queue_of px' fd = []" by auto
    then show ?thesis
    proof cases
      case (2 px' log')
      have "\<forall>fd \<in> set (pi_userList ?pi). queue_of px' fd = []"
        using delivers_users(2)[OF 2(2)] \<open>\<forall>fd \<in> set (pi_userList ?pi). queue_of px1 fd = []\<close> by blast
      moreover have "\<forall>j \<in> set ps. \<forall>fd \<in> set (pi_userList (g_PeerInfo (px_peers px) ! j)). queue_of px' fd = []"
        using 2(3) sp(3) Cons.prems(3) by (auto simp: subset_iff)
      moreover note delivers_trans[OF \<open>delivers UNIV px log px1\<close> 2(2)]
      ultimately show ?thesis using 2(1) \<open>schedule_peers st (i # ps) px n = schedule_peers st ps px1 (n + length log)\<close>
        by (intro disjI2 exI[of _ px'] exI[of _ "log @ log'"]) auto
    qed (use \<open>schedule_peers st (i # ps) px n = schedule_peers st ps px1 (n + length log)\<close> in simp)
  qed simp
qed

section \<open>Properties\<close>

text \<open>
  Claim C8: the scheduler empties the queues of the users. When the users with messages are connected
  to their peers, \<open>ScheduleNameDelivery\<close> ends, with no failure other than an assertion: its rounds are a
  run of the specification \<open>moves\<close>, after which every user of every peer has an empty queue. The number
  returned is that of the messages moved; the messages of a user are moved in the order of its queue,
  none is lost or repeated; and each connection between proxies has received exactly the messages
  routed to it, in the order of the log, and nothing else.
\<close>

theorem ScheduleNameDelivery_drains:
  assumes "sched_ok px" "users_ok px"
  shows "ScheduleNameDelivery st px = Inl AssertFail \<or>
    (\<exists>px' log. ScheduleNameDelivery st px = Inr (Some (px', length log)) \<and> moves (queue_of px) log (queue_of px') \<and>
       (\<forall>i < length (g_PeerInfo (px_peers px)). \<forall>fd \<in> set (pi_userList (g_PeerInfo (px_peers px) ! i)).
          queue_of px' fd = [] \<and> sent_by fd log = queue_of px fd) \<and>
       (\<forall>c. out px' c = out px c @ concat (map snd (filter (\<lambda>e. user_route px (fst e) = Some c) log))) \<and> sched_ok px' \<and> users_ok px')"
proof -
  let ?ps = "[0..<length (g_PeerInfo (px_peers px))]"
  have "set ?ps \<subseteq> {..<length (g_PeerInfo (px_peers px))}" by auto
  from schedule_peers_ok[OF assms this, of st 0] consider "ScheduleNameDelivery st px = Inl AssertFail"
    | px' log where "ScheduleNameDelivery st px = Inr (Some (px', length log))" "delivers UNIV px log px'"
      "\<forall>i < length (g_PeerInfo (px_peers px)). \<forall>fd \<in> set (pi_userList (g_PeerInfo (px_peers px) ! i)). queue_of px' fd = []"
    unfolding ScheduleNameDelivery_def by fastforce
  then show ?thesis
  proof cases
    case (2 px' log)
    have m: "moves (queue_of px) log (queue_of px')" "sched_ok px'" using 2(2) by (simp_all add: delivers_def)
    have "sent_by fd log = queue_of px fd" if "queue_of px' fd = []" for fd using moves_order[OF m(1), of fd] that by simp
    with 2 m delivers_users(1)[OF 2(2)] assms(2) show ?thesis
      by (intro disjI2 exI[of _ px'] exI[of _ log]) (auto simp: delivers_def)
  qed simp
qed


text \<open>A user with two messages and one control connection to its peer.\<close>

definition demo_schedule :: proxy where
  "demo_schedule = (demo_proxy (empty_cache 0) (snd (projr (CreateConnectionTables None))) (demo_conn demo_user) [])
     \<lparr>px_conns := [9 \<mapsto> demo_conn (demo_user\<lparr>uc_dstPxyIdx := 0, uc_nameFlowId := 0,
        uc_controlMsgList := [\<lparr>mi_msg = [1, 2], mi_streamID = 9\<rparr>, \<lparr>mi_msg = [3], mi_streamID = 9\<rparr>]\<rparr>), 5 \<mapsto> demo_peer_conn],
      px_peers := (three_peers True True)\<lparr>g_PeerInfo := [blank_peer\<lparr>pi_nameCI := Some 5 # replicate 9 None, pi_userList := [9], pi_numUsers := 1, pi_isAlive := True\<rparr>],
        g_LocalInfo := Some 1\<rparr>\<rparr>"

lemma demo_schedule_ok: "sched_ok demo_schedule" "users_ok demo_schedule"
proof -
  have c: "px_conns demo_schedule fd = Some ci \<Longrightarrow> (fd = 9 \<or> fd = 5) \<and> ci_fd ci = fd \<and> typed ci \<and> queue_ok ci" for fd ci
    by (auto simp: demo_schedule_def demo_conn_def demo_peer_conn_def typed_def queue_ok_def waiting_def split: if_splits)
  have q: "queue_of demo_schedule fd = (if fd = 9 then [[1, 2], [3]] else [])" for fd
    by (simp add: queue_of_def demo_schedule_def demo_conn_def demo_peer_conn_def)
  have r: "user_route demo_schedule 9 = Some 5" "px_conns demo_schedule 5 = Some demo_peer_conn" "ci_type demo_peer_conn = ct_control"
    by (simp_all add: user_route_def route_def demo_schedule_def demo_conn_def demo_peer_conn_def)
  from CreateConnectionTables_ok have t: "conns_good (g_ConnMap demo_schedule)" "hashtable_search (g_ConnMap demo_schedule) k = None" for k
    by (auto simp: demo_schedule_def demo_proxy_def)
  have "conns_typed demo_schedule" using t c by (auto simp: conns_typed_def)
  moreover have "g_LocalInfo (px_peers demo_schedule) \<noteq> None" by (simp add: demo_schedule_def)
  ultimately show "sched_ok demo_schedule" using c q r unfolding sched_ok_def by auto
  show "users_ok demo_schedule" by (simp add: users_ok_def kinds_def demo_schedule_def demo_conn_def blank_peer_def)
qed

lemma demo_schedule_runs: "\<exists>r. ScheduleNameDelivery demo_settings demo_schedule = Inr r"
proof -
  have p: "pending demo_schedule [9] = Suc (Suc 0)"
    by (simp add: pending_def queue_of_def demo_schedule_def demo_conn_def)
  have d: "pi_userList (g_PeerInfo (px_peers demo_schedule) ! 0) = [9]" "pi_numUsers (g_PeerInfo (px_peers demo_schedule) ! 0) = 1"
    "[0..<length (g_PeerInfo (px_peers demo_schedule))] = [0]" by (simp_all add: demo_schedule_def)
  show ?thesis unfolding ScheduleNameDelivery_def d(3)
    by (simp add: d p Let_def)
      (simp add: demo_schedule_def demo_conn_def demo_peer_conn_def WriteToNamePeer_def send_to_peer_def ci_slot_def SendDataPrivate_def Write_def Let_def
        write_loop.simps next_write_def ActualWrite_def UpdatePeerLiveness_def put_conn_def update_peer_def demo_settings_def demo_proxy_def)
qed

theorem ScheduleNameDelivery_drains_witness:
  "\<exists>px'. ScheduleNameDelivery demo_settings demo_schedule = Inr (Some (px', 2)) \<and> queue_of px' 9 = [] \<and> out px' 5 = [1, 2, 3]"
proof -
  have q: "queue_of demo_schedule 9 = [[1, 2], [3]]" "user_route demo_schedule fd = Some 5 \<longleftrightarrow> fd = 9" "out demo_schedule 5 = []" for fd
    by (auto simp: queue_of_def user_route_def route_def out_def demo_schedule_def demo_conn_def demo_peer_conn_def stream_def waiting_def)
  from ScheduleNameDelivery_drains[OF demo_schedule_ok, of demo_settings] demo_schedule_runs obtain px' log where
    r: "ScheduleNameDelivery demo_settings demo_schedule = Inr (Some (px', length log))" "queue_of px' 9 = []" "sent_by 9 log = [[1, 2], [3]]"
      "out px' 5 = concat (sent_by 9 log)" "moves (queue_of demo_schedule) log (queue_of px')"
    using q by (auto simp: demo_schedule_def)
  have "fst e = 9" if "e \<in> set log" for e
  proof (rule ccontr)
    assume "fst e \<noteq> 9"
    then have "queue_of demo_schedule (fst e) = []" by (simp add: queue_of_def demo_schedule_def demo_conn_def demo_peer_conn_def)
    then have "sent_by (fst e) log = []" using moves_order[OF r(5), of "fst e"] by simp
    with that show False by (auto simp: filter_empty_conv)
  qed
  then have "filter (\<lambda>e. fst e = 9) log = log" by (simp add: filter_id_conv)
  with arg_cong[OF r(3), of length] have "length log = 2" by simp
  with r show ?thesis by simp
qed

end
