(* ===== verification/Disk.thy ===== *)
theory Disk
  imports Schedule
begin

text \<open>
  The disk cache (waprox/disk.c, and \<open>DestroyCacheConnectionInfo\<close> of waprox/connection.c): requests to
  the HashCache server wait in two queues, look-ups before stores, until one of the connections to the
  server is idle.

  The requests are HTTP messages, so a message is the ASCII image of its text. The array
  \<open>g_CacheConnections\<close> has \<open>MAX_CACHE_CONNS\<close> entries; a configuration that asks for more reads beyond it.
\<close>

section \<open>Text\<close>

definition ascii :: "string \<Rightarrow> byte list" where
  "ascii s = map of_char s"

definition hex_digit :: "nat \<Rightarrow> byte" where
  "hex_digit n = (if n < 10 then of_nat (48 + n) else of_nat (87 + n))"

definition SHA1Str :: "sha1 \<Rightarrow> byte list" where
  "SHA1Str digest = concat (map (\<lambda>b. [hex_digit (unat b div 16), hex_digit (unat b mod 16)]) (take SHA1_LEN digest))"

text \<open>The conversion \<open>%d\<close>.\<close>

fun digits :: "nat \<Rightarrow> byte list" where
  "digits n = (if n < 10 then [of_nat (48 + n)] else digits (n div 10) @ [of_nat (48 + n mod 10)])"

declare digits.simps [simp del]

definition decimal :: "int \<Rightarrow> byte list" where
  "decimal i = (if i < 0 then 45 # digits (nat (- i)) else digits (nat i))"

definition crlf :: "byte list" where "crlf = [13, 10]"

section \<open>Operations\<close>

definition GetHCMethodName :: "hcMethod \<Rightarrow> string" where
  "GetHCMethodName method = (case method of hc_put \<Rightarrow> ''PUT'' | hc_get \<Rightarrow> ''GET'' | hc_peek \<Rightarrow> ''PEEK'')"

definition MAX_PUT_DISK_QUEUE :: int where "MAX_PUT_DISK_QUEUE = 1024"

text \<open>\<open>MakeLoopbackConnection\<close> takes the next descriptor, like \<open>MakeConnection\<close>.\<close>

definition MakeNewCacheConnection :: "nat \<Rightarrow> proxy \<Rightarrow> proxy res" where
  "MakeNewCacheConnection i px =
     (case MakeConnection px of
        (px1, None) \<Rightarrow> Inl NiceExit
      | (px1, Some fd) \<Rightarrow>
          if i \<ge> MAX_CACHE_CONNS then Inl UndefinedBehaviour
          else rbind (CreateNewConnectionInfo px1 fd ct_cache) (\<lambda>(px2, ci2).
            let px3 = px2\<lparr>g_CacheConnections := (g_CacheConnections px2)(i := Some fd)\<rparr>
            in rbind (CreateCacheConnectionInfo px3 ci2 i) (\<lambda>(px4, ci4). Inr (put_conn ci4 px4))))"

text \<open>The loop of \<open>GetIdleCacheConn\<close> over the connections.\<close>

fun find_idle :: "proxy \<Rightarrow> nat list \<Rightarrow> ConnectionInfo option res" where
  "find_idle px [] = Inr None"
| "find_idle px (i # slots) =
     (if i \<ge> MAX_CACHE_CONNS then Inl UndefinedBehaviour
      else case g_CacheConnections px i of
        None \<Rightarrow> find_idle px slots
      | Some fd \<Rightarrow>
          (case px_conns px fd of
             None \<Rightarrow> Inl UndefinedBehaviour
           | Some ci \<Rightarrow>
               (case ci_stub ci of
                  CacheStub cci \<Rightarrow> if ca_pCurTrans cci = None then Inr (Some ci) else find_idle px slots
                | _ \<Rightarrow> Inl UndefinedBehaviour)))"

definition GetIdleCacheConn :: "settings \<Rightarrow> proxy \<Rightarrow> ConnectionInfo option res" where
  "GetIdleCacheConn st px = find_idle px [0..<g_MaxCacheConns st]"

definition PutDone :: "cache \<Rightarrow> sha1 \<Rightarrow> cache res" where
  "PutDone s name = (case GetTempDiskCache s name of None \<Rightarrow> Inr s | Some _ \<Rightarrow> DeleteTempDiskCache s name)"

text \<open>The text of a request.\<close>

definition request_line :: "hcMethod \<Rightarrow> sha1 \<Rightarrow> byte list" where
  "request_line method name =
     ascii ''WAPROX-'' @ ascii (GetHCMethodName method) @ ascii '' http://waprox-'' @ SHA1Str name @ ascii '' HTTP/1.1'' @ crlf"

definition cache_request :: "CacheTransactionInfo \<Rightarrow> byte list res" where
  "cache_request cci =
     (case ti_method cci of
        hc_put \<Rightarrow>
          ensure (ti_chunkLen cci > 0)
            (case ti_pChunk cci of
               None \<Rightarrow> Inl AssertFail
             | Some chunk \<Rightarrow>
                 if ti_chunkLen cci > int (length chunk) then Inl UndefinedBehaviour
                 else Inr (request_line hc_put (ti_sha1 cci) @ ascii ''Content-Length: '' @ decimal (ti_chunkLen cci) @ crlf @ crlf @
                        take (nat (ti_chunkLen cci)) chunk))
      | hc_get \<Rightarrow> ensure (ti_pChunk cci = None) (Inr (request_line hc_get (ti_sha1 cci) @ crlf))
      | hc_peek \<Rightarrow> Inr (request_line hc_peek (ti_sha1 cci) @ crlf))"

definition IssueCacheRequest :: "proxy \<Rightarrow> ConnectionInfo \<Rightarrow> CacheTransactionInfo \<Rightarrow> (proxy \<times> ConnectionInfo) res" where
  "IssueCacheRequest px ci cci =
     ensure (ci_type ci = ct_cache)
       (case ci_stub ci of
          CacheStub cache_conn \<Rightarrow>
            ensure (ca_pCurTrans cache_conn = None)
              (let cache_conn1 = cache_conn\<lparr>ca_pCurTrans := Some cci\<rparr> in
               rbind (cache_request cci) (\<lambda>request.
               rbind (SendData (px\<lparr>g_NumCacheRequestSent := g_NumCacheRequestSent px + 1\<rparr>) (ci\<lparr>ci_stub := CacheStub cache_conn1\<rparr>) request)
                 (\<lambda>(px2, ci2). Inr (px2, ci2\<lparr>ci_stub := CacheStub (cache_conn1\<lparr>ca_lastAccessTime := px_now px2\<rparr>)\<rparr>))))
        | _ \<Rightarrow> Inl UndefinedBehaviour)"

definition ScheduleCacheRequest :: "proxy \<Rightarrow> CacheTransactionInfo \<Rightarrow> bool \<Rightarrow> proxy" where
  "ScheduleCacheRequest px cache_info addTail =
     (if ti_method cache_info = hc_get \<or> ti_method cache_info = hc_peek
      then px\<lparr>g_FirstClassRequestList :=
                (if addTail then g_FirstClassRequestList px @ [cache_info] else cache_info # g_FirstClassRequestList px),
              g_NumPendingFirstTransactions := g_NumPendingFirstTransactions px + 1\<rparr>
      else px\<lparr>g_SecondClassRequestList := g_SecondClassRequestList px @ [cache_info],
              g_NumPendingSecondTransactions := g_NumPendingSecondTransactions px + 1\<rparr>)"

text \<open>
  The two loops of \<open>IssuePendingCacheRequests\<close>. A loop walks its queue until no connection is idle,
  with the bookkeeping \<open>tally\<close> after each request; the requests it issued are removed afterwards, so
  what is left of the queue is what the walk did not reach.
\<close>

definition count_first :: "proxy \<Rightarrow> proxy res" where
  "count_first px =
     (let px1 = px\<lparr>g_NumPendingFirstTransactions := g_NumPendingFirstTransactions px - 1, g_PdNumFirstRequests := g_PdNumFirstRequests px + 1\<rparr>
      in ensure (g_NumPendingFirstTransactions px1 \<ge> 0) (Inr px1))"

definition count_second :: "proxy \<Rightarrow> proxy res" where
  "count_second px =
     (let px1 = px\<lparr>g_NumPendingSecondTransactions := g_NumPendingSecondTransactions px - 1, g_PdNumSecondRequests := g_PdNumSecondRequests px + 1\<rparr>
      in ensure (g_NumPendingSecondTransactions px1 \<ge> 0) (Inr px1))"

fun issue_list :: "settings \<Rightarrow> (proxy \<Rightarrow> proxy res) \<Rightarrow> CacheTransactionInfo list \<Rightarrow> proxy \<Rightarrow> (proxy \<times> CacheTransactionInfo list) res" where
  "issue_list st tally [] px = Inr (px, [])"
| "issue_list st tally (walk # list) px =
     rbind (GetIdleCacheConn st px) (\<lambda>idle.
       case idle of
         None \<Rightarrow> Inr (px, walk # list)
       | Some ci \<Rightarrow>
           rbind (IssueCacheRequest px ci walk) (\<lambda>(px1, ci1).
           rbind (tally (put_conn ci1 px1)) (\<lambda>px2. issue_list st tally list px2)))"

definition IssuePendingCacheRequests :: "settings \<Rightarrow> proxy \<Rightarrow> proxy res" where
  "IssuePendingCacheRequests st px =
     rbind (issue_list st count_first (g_FirstClassRequestList px) px) (\<lambda>(px1, first).
     rbind (issue_list st count_second (g_SecondClassRequestList px1) (px1\<lparr>g_FirstClassRequestList := first\<rparr>)) (\<lambda>(px2, second).
       Inr (px2\<lparr>g_SecondClassRequestList := second\<rparr>)))"

definition no_cid :: ConnectionID where
  "no_cid = \<lparr>srcIP = 0, srcPort = 0, dstIP = 0, dstPort = 0\<rparr>"

text \<open>The identification of a transaction without a source is not set and not read.\<close>

definition CreateCacheTransactionInfo :: "hcMethod \<Rightarrow> processState \<Rightarrow> int \<Rightarrow> sha1 \<Rightarrow> int \<Rightarrow> byte list option \<Rightarrow> ConnectionInfo option \<Rightarrow> opaque \<Rightarrow>
    CacheTransactionInfo res" where
  "CreateCacheTransactionInfo method ps dstPxyId name chunkLen pChunk sci pOpaque =
     rbind (case sci of
              None \<Rightarrow> Inr no_cid
            | Some ci \<Rightarrow>
                if ci_type ci = ct_user then
                  ensure (ps = ps_nameTreeDelivery)
                    (case ci_stub ci of
                       UserStub u \<Rightarrow> Inr \<lparr>srcIP = uc_dip u, srcPort = uc_dport u, dstIP = uc_sip u, dstPort = uc_sport u\<rparr>
                     | _ \<Rightarrow> Inl UndefinedBehaviour)
                else ensure (ps = ps_bodyRequest \<or> ps = ps_peekRequest) (Inr no_cid)) (\<lambda>cid.
     rbind (case pChunk of
              None \<Rightarrow> Inr None
            | Some chunk \<Rightarrow> ensure (chunkLen > 0)
                (if chunkLen > int (length chunk) then Inl UndefinedBehaviour else Inr (Some (take (nat chunkLen) chunk)))) (\<lambda>chunk.
       Inr \<lparr>ti_cid = cid, ti_sourceCI = map_option ci_fd sci, ti_sha1 = take SHA1_LEN name, ti_chunkLen = chunkLen, ti_pChunk = chunk,
            ti_dstPxyId = dstPxyId, ti_method = method, ti_ps = ps, ti_opaque = pOpaque\<rparr>))"

definition SendCacheRequest :: "settings \<Rightarrow> proxy \<Rightarrow> hcMethod \<Rightarrow> processState \<Rightarrow> sha1 \<Rightarrow> int \<Rightarrow> byte list option \<Rightarrow> int \<Rightarrow> ConnectionInfo option \<Rightarrow>
    opaque \<Rightarrow> proxy res" where
  "SendCacheRequest st px method ps name len pChunk dstPxyId sci pOpaque =
     rbind (CreateCacheTransactionInfo method ps dstPxyId name len pChunk sci pOpaque) (\<lambda>cache_info.
       IssuePendingCacheRequests st (ScheduleCacheRequest px cache_info True))"

definition PutDisk :: "settings \<Rightarrow> proxy \<Rightarrow> sha1 \<Rightarrow> byte list \<Rightarrow> proxy res" where
  "PutDisk st px digest buffer =
     (if GetTempDiskCache (px_cache px) digest \<noteq> None then Inr px
      else if g_NumPendingSecondTransactions px > MAX_PUT_DISK_QUEUE
      then Inr (px\<lparr>g_TotalPutDiscarded := g_TotalPutDiscarded px + of_nat (length buffer)\<rparr>)
      else rbind (PutTempDiskCache (px_cache px) digest buffer) (\<lambda>s.
        SendCacheRequest st (px\<lparr>px_cache := s\<rparr>) hc_put ps_none digest (int (length buffer)) (Some buffer) (-1) None NoOpaque))"

definition DestroyCacheConnectionInfo :: "settings \<Rightarrow> proxy \<Rightarrow> ConnectionInfo \<Rightarrow> proxy res" where
  "DestroyCacheConnectionInfo st px ci =
     ensure (ci_type ci = ct_cache)
       (case ci_stub ci of
          CacheStub cci \<Rightarrow>
            let px1 = px\<lparr>g_CacheConnections := (g_CacheConnections px)(ca_cacheConnIdx cci := None), g_NumCacheConns := g_NumCacheConns px - 1\<rparr>
            in ensure (g_NumCacheConns px1 \<ge> 0)
                 (case ca_pCurTrans cci of
                    Some t \<Rightarrow> IssuePendingCacheRequests st (ScheduleCacheRequest px1 t False)
                  | None \<Rightarrow> IssuePendingCacheRequests st px1)
        | _ \<Rightarrow> Inl UndefinedBehaviour)"

text \<open>The periodic check: a missing connection is made, an idle one is kept alive.\<close>

definition check_slot :: "settings \<Rightarrow> nat \<Rightarrow> proxy \<Rightarrow> proxy res" where
  "check_slot st i px =
     (if i \<ge> MAX_CACHE_CONNS then Inl UndefinedBehaviour
      else case g_CacheConnections px i of
        Some fd \<Rightarrow>
          if g_NumPendingFirstTransactions px + g_NumPendingSecondTransactions px \<ge> int (g_MaxCacheConns st) * 10 then Inr px
          else (case px_conns px fd of
            None \<Rightarrow> Inl UndefinedBehaviour
          | Some ci \<Rightarrow>
              (case ci_stub ci of
                 CacheStub cci \<Rightarrow>
                   if px_now px - ca_lastAccessTime cci \<ge> 15
                   then SendCacheRequest st px hc_get ps_keepalive (ascii ''KeepAliveDummyChunk'' @ [0]) 0 None (-1) None NoOpaque
                   else Inr px
               | _ \<Rightarrow> Inl UndefinedBehaviour))
      | None \<Rightarrow> MakeNewCacheConnection i px)"

definition CheckDiskCacheConnections :: "settings \<Rightarrow> proxy \<Rightarrow> proxy res" where
  "CheckDiskCacheConnections st px = (if g_MemCacheOnly st then Inr px else rfold (check_slot st) [0..<g_MaxCacheConns st] px)"

definition destroy_slot :: "settings \<Rightarrow> nat \<Rightarrow> proxy \<Rightarrow> proxy res" where
  "destroy_slot st i px =
     (if i \<ge> MAX_CACHE_CONNS then Inl UndefinedBehaviour
      else case g_CacheConnections px i of
        None \<Rightarrow> Inl UndefinedBehaviour
      | Some fd \<Rightarrow>
          (case px_conns px fd of
             None \<Rightarrow> Inl UndefinedBehaviour
           | Some ci \<Rightarrow>
               rbind (DestroyConnectionInfo (DestroyCacheConnectionInfo st) px ci) (\<lambda>px1.
                 Inr (px1\<lparr>g_CacheConnections := (g_CacheConnections px1)(i := None)\<rparr>))))"

definition DestroyCacheConnections :: "settings \<Rightarrow> proxy \<Rightarrow> proxy res" where
  "DestroyCacheConnections st px = rfold (destroy_slot st) [0..<g_MaxCacheConns st] px"

section \<open>Writing to a connection that is not a user's\<close>

definition net_only :: "proxy \<Rightarrow> proxy \<Rightarrow> bool" where
  "net_only px px' \<longleftrightarrow> px' = px\<lparr>px_writes := px_writes px', g_DeadConnList := g_DeadConnList px', g_NumDeadConns := g_NumDeadConns px',
     g_BytesPeerTX := g_BytesPeerTX px', g_BytesPptpTX := g_BytesPptpTX px', g_BytesCacheTX := g_BytesCacheTX px', g_BytesDnsTX := g_BytesDnsTX px'\<rparr>"

lemma net_only_ex: "net_only px px' \<longleftrightarrow> (\<exists>w d n b1 b2 b3 b4. px' = px\<lparr>px_writes := w, g_DeadConnList := d, g_NumDeadConns := n,
    g_BytesPeerTX := b1, g_BytesPptpTX := b2, g_BytesCacheTX := b3, g_BytesDnsTX := b4\<rparr>)"
  unfolding net_only_def by (rule iffI, blast) auto

lemma net_only_trans: "net_only px1 px2 \<Longrightarrow> net_only px2 px3 \<Longrightarrow> net_only px1 px3"
  unfolding net_only_ex[of px1] net_only_ex[of px2] by (elim exE) (simp, blast)

lemma net_only_simps [simp]:
  "net_only px px" "net_only px (px\<lparr>px_writes := w\<rparr>)" "net_only px (px\<lparr>g_DeadConnList := d, g_NumDeadConns := n\<rparr>)"
  "net_only px (px\<lparr>g_BytesPeerTX := b\<rparr>)" "net_only px (px\<lparr>g_BytesPptpTX := b\<rparr>)" "net_only px (px\<lparr>g_BytesCacheTX := b\<rparr>)"
  "net_only px (px\<lparr>g_BytesDnsTX := b\<rparr>)"
  by (simp_all add: net_only_def)

lemma SetDead_net:
  assumes "ci_type ci \<noteq> ct_user" "px_conns px (ci_fd ci) \<noteq> None" "g_NumDeadConns px + 1 < int MAX_NUM_CI"
  shows "\<exists>px' ci'. SetDead px ci a = Inr (px', ci') \<and> net_only px px' \<and> g_NumDeadConns px' \<le> g_NumDeadConns px + 1 \<and> same_conn ci ci' \<and>
    ci_stub ci' = ci_stub ci \<and> stream ci' = stream ci \<and> queue_ok ci' = queue_ok ci"
proof (cases "ci_status ci = cs_closed")
  case True
  then show ?thesis using assms(2) by (auto simp: SetDead_def)
next
  case False
  let ?ci = "ci\<lparr>ci_status := cs_closed, ci_isAbnormal := a\<rparr>"
  have "stream ?ci = stream ci" "queue_ok ?ci = queue_ok ci" by (rule queue_same; simp)+
  with False show ?thesis using assms by (auto simp: SetDead_def Let_def same_conn_def)
qed

lemma write_loop_net:
  assumes "queue_ok ci" "ci_type ci \<noteq> ct_user" "px_conns px (ci_fd ci) \<noteq> None" "g_NumDeadConns px + 1 < int MAX_NUM_CI"
  shows "\<exists>px' ci' n' dead. write_loop px ci n = Inr (px', ci', n', dead) \<and> net_only px px' \<and> g_NumDeadConns px' \<le> g_NumDeadConns px + 1 \<and>
    same_conn ci ci' \<and> ci_stub ci' = ci_stub ci \<and> stream ci' = stream ci \<and> queue_ok ci'"
  using assms
proof (induction px ci n rule: write_loop.induct)
  case (1 px ci n)
  show ?case
  proof (cases "ci_msgListWrite ci")
    case Nil
    then show ?thesis using "1.prems" by (auto simp: write_loop.simps[of px ci n])
  next
    case (Cons m ms)
    obtain w r where nw: "next_write px = (px\<lparr>px_writes := w\<rparr>, r)" by (rule next_write_io)
    let ?px = "px\<lparr>px_writes := w\<rparr>"
    from ActualWrite_ok[OF "1.prems"(1) Cons, of r] obtain ci1 ret where
      a: "ActualWrite ci (mi_msg m) r = Inr (ci1, ret)" "ret \<in> {-1, 0, 1}" "same_conn ci ci1" "ci_stub ci1 = ci_stub ci" "ret = -1 \<longrightarrow> ci1 = ci"
        "ret = 0 \<longrightarrow> stream ci1 = stream ci \<and> queue_ok ci1"
        "ret = 1 \<longrightarrow> stream (ci1\<lparr>ci_msgListWrite := ms\<rparr>) = stream ci \<and> queue_ok (ci1\<lparr>ci_msgListWrite := ms\<rparr>)" by blast
    from a(2) consider "ret = -1" | "ret = 0" | "ret = 1" by blast
    then show ?thesis
    proof cases
      case 1
      from SetDead_net[of ci ?px True] "1.prems" obtain px2 ci2 where d: "SetDead ?px ci True = Inr (px2, ci2)" "net_only ?px px2"
        "g_NumDeadConns px2 \<le> g_NumDeadConns px + 1" "same_conn ci ci2" "ci_stub ci2 = ci_stub ci" "stream ci2 = stream ci" "queue_ok ci2" by auto
      have "write_loop px ci n = Inr (px2, ci2, n, True)" using 1 Cons nw a(1,5) d(1) by (simp add: write_loop.simps[of px ci n])
      then show ?thesis using d net_only_trans[of px ?px px2] by auto
    next
      case 2
      then have "write_loop px ci n = Inr (?px, ci1, n, False)" using Cons nw a(1) by (simp add: write_loop.simps[of px ci n])
      with 2 a(3,4,6) show ?thesis by auto
    next
      case 3
      let ?ci1 = "ci1\<lparr>ci_msgListWrite := ms\<rparr>"
      have loop: "write_loop px ci n = write_loop ?px ?ci1 (n + of_nat (length (mi_msg m)))"
        using 3 Cons nw a(1) by (simp add: write_loop.simps[of px ci n])
      have p: "queue_ok ?ci1" "ci_type ?ci1 \<noteq> ct_user" "px_conns ?px (ci_fd ?ci1) \<noteq> None" "g_NumDeadConns ?px + 1 < int MAX_NUM_CI"
        using 3 a(3,7) "1.prems" by (simp_all add: same_conn_def)
      from "1.IH"[OF Cons nw[symmetric] refl a(1) refl _ _ p] 3 obtain px' ci' n' dead where
        i: "write_loop ?px ?ci1 (n + of_nat (length (mi_msg m))) = Inr (px', ci', n', dead)" "net_only ?px px'"
          "g_NumDeadConns px' \<le> g_NumDeadConns px + 1" "same_conn ?ci1 ci'" "ci_stub ci' = ci_stub ?ci1" "stream ci' = stream ?ci1" "queue_ok ci'" by auto
      show ?thesis unfolding loop using i a(3,4,7) 3 net_only_trans[of px ?px px'] by (auto simp: same_conn_def)
    qed
  qed
qed

lemma SendDataPrivate_net:
  assumes "queue_ok ci" "ci_type ci \<noteq> ct_user" "px_conns px (ci_fd ci) \<noteq> None" "g_NumDeadConns px + 1 < int MAX_NUM_CI" "msg \<noteq> []"
  shows "\<exists>px' ci'. SendDataPrivate px ci msg sid = Inr (px', ci') \<and> net_only px px' \<and> g_NumDeadConns px' \<le> g_NumDeadConns px + 1 \<and>
    same_conn ci ci' \<and> ci_stub ci' = ci_stub ci \<and> stream ci' = stream ci @ msg \<and> queue_ok ci'"
proof -
  let ?ci = "ci\<lparr>ci_msgListWrite := ci_msgListWrite ci @ [\<lparr>mi_msg = msg, mi_streamID = sid\<rparr>], ci_lenWrite := ci_lenWrite ci + int (length msg)\<rparr>"
  have w: "waiting ?ci = waiting ci @ msg" by (simp add: waiting_def)
  have first: "ci_firstMsgOffset ci \<le> length (waiting ci)" using assms(1) by (auto simp: queue_ok_def waiting_def split: list.splits)
  have s: "stream ?ci = stream ci @ msg" using first by (simp add: stream_def w)
  have q: "queue_ok ?ci" using assms(1,5) w by (auto simp: queue_ok_def split: list.splits)
  have S: "SendDataPrivate px ci msg sid = (if ci_isWritable ci then Write px ?ci False else Inr (px, ?ci))"
    using assms(2,5) by (simp add: SendDataPrivate_def Let_def)
  show ?thesis
  proof (cases "ci_isWritable ci")
    case True
    from write_loop_net[of ?ci px 0] q assms obtain px1 ci1 n dead where
      l: "write_loop px ?ci 0 = Inr (px1, ci1, n, dead)" "net_only px px1" "g_NumDeadConns px1 \<le> g_NumDeadConns px + 1" "same_conn ?ci ci1"
        "ci_stub ci1 = ci_stub ci" "stream ci1 = stream ?ci" "queue_ok ci1" by auto
    have "\<exists>px2. PostWrite px1 ci1 n False = Inr (px2, ci1) \<and> net_only px1 px2 \<and> g_NumDeadConns px2 = g_NumDeadConns px1" if "n \<noteq> 0"
      using that l(4) assms(2) by (cases "ci_type ci1") (auto simp: PostWrite_def word_gt_0 same_conn_def)
    moreover have "Write px ?ci False = (if dead \<or> n = 0 then Inr (px1, ci1) else PostWrite px1 ci1 n False)"
      using assms(2) l(1) by (simp add: Write_def)
    ultimately obtain px2 where "Write px ?ci False = Inr (px2, ci1)" "net_only px1 px2" "g_NumDeadConns px2 = g_NumDeadConns px1"
      by (cases "dead \<or> n = 0") auto
    then show ?thesis using S True l s net_only_trans[of px px1 px2] by (auto simp: same_conn_def)
  next
    case False
    then show ?thesis using S s q by (auto simp: same_conn_def)
  qed
qed

section \<open>The connections to the server\<close>

text \<open>The connection in a slot, its transaction, and the slots without one.\<close>

definition conn_at :: "proxy \<Rightarrow> nat \<Rightarrow> ConnectionInfo option" where
  "conn_at px i = (case g_CacheConnections px i of None \<Rightarrow> None | Some fd \<Rightarrow> px_conns px fd)"

definition trans_of :: "ConnectionInfo \<Rightarrow> CacheTransactionInfo option" where
  "trans_of ci = (case ci_stub ci of CacheStub cci \<Rightarrow> ca_pCurTrans cci | _ \<Rightarrow> None)"

definition slot_idle :: "proxy \<Rightarrow> nat \<Rightarrow> bool" where
  "slot_idle px i = (case conn_at px i of None \<Rightarrow> False | Some ci \<Rightarrow> trans_of ci = None)"

definition idle_slots :: "settings \<Rightarrow> proxy \<Rightarrow> nat list" where
  "idle_slots st px = filter (slot_idle px) [0..<g_MaxCacheConns st]"

definition slot_ok :: "proxy \<Rightarrow> nat \<Rightarrow> nat \<Rightarrow> bool" where
  "slot_ok px i fd \<longleftrightarrow> (\<exists>ci cci. px_conns px fd = Some ci \<and> ci_fd ci = fd \<and> ci_type ci = ct_cache \<and> ci_stub ci = CacheStub cci \<and>
     ca_cacheConnIdx cci = i \<and> queue_ok ci)"

definition slots_ok :: "settings \<Rightarrow> proxy \<Rightarrow> bool" where
  "slots_ok st px \<longleftrightarrow> g_MaxCacheConns st \<le> MAX_CACHE_CONNS \<and>
     (\<forall>i < g_MaxCacheConns st. \<forall>fd. g_CacheConnections px i = Some fd \<longrightarrow> slot_ok px i fd)"

lemma slots_distinct:
  assumes "slots_ok st px" "i < g_MaxCacheConns st" "j < g_MaxCacheConns st" "g_CacheConnections px i = Some fd" "g_CacheConnections px j = Some fd"
  shows "i = j"
proof -
  have "slot_ok px i fd" "slot_ok px j fd" using assms by (simp_all add: slots_ok_def)
  then show ?thesis by (auto simp: slot_ok_def)
qed

lemma find_idle_ok:
  assumes "slots_ok st px" "\<forall>i \<in> set slots. i < g_MaxCacheConns st"
  shows "find_idle px slots = Inr (case filter (slot_idle px) slots of [] \<Rightarrow> None | i # _ \<Rightarrow> conn_at px i)"
  using assms(2)
proof (induction slots)
  case (Cons i slots)
  have i: "i < g_MaxCacheConns st" "\<not> i \<ge> MAX_CACHE_CONNS" using Cons.prems assms(1) by (auto simp: slots_ok_def)
  have IH: "find_idle px slots = Inr (case filter (slot_idle px) slots of [] \<Rightarrow> None | i # _ \<Rightarrow> conn_at px i)" using Cons by simp
  show ?case
  proof (cases "g_CacheConnections px i")
    case None
    then have "\<not> slot_idle px i" by (simp add: slot_idle_def conn_at_def)
    with None show ?thesis using IH i by simp
  next
    case (Some fd)
    with assms(1) i(1) have "slot_ok px i fd" by (simp add: slots_ok_def)
    then obtain ci cci where "px_conns px fd = Some ci" "ci_stub ci = CacheStub cci" by (auto simp: slot_ok_def)
    with Some have "conn_at px i = Some ci" "slot_idle px i = (ca_pCurTrans cci = None)" by (simp_all add: slot_idle_def conn_at_def trans_of_def)
    with Some i IH \<open>px_conns px fd = Some ci\<close> \<open>ci_stub ci = CacheStub cci\<close> show ?thesis by simp
  qed
qed simp

text \<open>A transaction that can be issued.\<close>

definition trans_ok :: "CacheTransactionInfo \<Rightarrow> bool" where
  "trans_ok t \<longleftrightarrow> (case ti_method t of
     hc_put \<Rightarrow> (\<exists>chunk. ti_pChunk t = Some chunk \<and> ti_chunkLen t = int (length chunk) \<and> chunk \<noteq> [])
   | hc_get \<Rightarrow> ti_pChunk t = None
   | hc_peek \<Rightarrow> True)"

lemma cache_request_ok: "trans_ok t \<Longrightarrow> \<exists>request. cache_request t = Inr request \<and> request \<noteq> []"
  by (cases "ti_method t") (auto simp: trans_ok_def cache_request_def request_line_def crlf_def)

text \<open>What a request to the server changes besides the queues.\<close>

definition cache_io :: "proxy \<Rightarrow> proxy \<Rightarrow> bool" where
  "cache_io px px' \<longleftrightarrow> px' = px\<lparr>px_conns := px_conns px', px_writes := px_writes px', g_DeadConnList := g_DeadConnList px', g_NumDeadConns := g_NumDeadConns px',
     g_BytesPeerTX := g_BytesPeerTX px', g_BytesPptpTX := g_BytesPptpTX px', g_BytesCacheTX := g_BytesCacheTX px', g_BytesDnsTX := g_BytesDnsTX px',
     g_NumCacheRequestSent := g_NumCacheRequestSent px', g_NumPendingFirstTransactions := g_NumPendingFirstTransactions px',
     g_NumPendingSecondTransactions := g_NumPendingSecondTransactions px', g_PdNumFirstRequests := g_PdNumFirstRequests px',
     g_PdNumSecondRequests := g_PdNumSecondRequests px'\<rparr>"

lemma cache_io_ex: "cache_io px px' \<longleftrightarrow> (\<exists>c w d n b1 b2 b3 b4 r p1 p2 q1 q2. px' = px\<lparr>px_conns := c, px_writes := w, g_DeadConnList := d, g_NumDeadConns := n,
    g_BytesPeerTX := b1, g_BytesPptpTX := b2, g_BytesCacheTX := b3, g_BytesDnsTX := b4, g_NumCacheRequestSent := r, g_NumPendingFirstTransactions := p1,
    g_NumPendingSecondTransactions := p2, g_PdNumFirstRequests := q1, g_PdNumSecondRequests := q2\<rparr>)"
  unfolding cache_io_def by (rule iffI, blast) auto

lemma cache_io_trans: "cache_io px1 px2 \<Longrightarrow> cache_io px2 px3 \<Longrightarrow> cache_io px1 px3"
  unfolding cache_io_ex[of px1] cache_io_ex[of px2] by (elim exE) (simp, blast)

lemma cache_io_refl [simp]: "cache_io px px"
  by (simp add: cache_io_def)

lemma cache_io_net: "net_only px px' \<Longrightarrow> cache_io px px'"
  unfolding net_only_ex by (auto simp: cache_io_def)

lemma cache_io_facts:
  assumes "cache_io px px'"
  shows "g_CacheConnections px' = g_CacheConnections px" "g_FirstClassRequestList px' = g_FirstClassRequestList px"
    "g_SecondClassRequestList px' = g_SecondClassRequestList px" "px_cache px' = px_cache px" "px_peers px' = px_peers px" "px_requests px' = px_requests px"
  using assms unfolding cache_io_ex by auto

text \<open>One request on the first idle connection.\<close>

definition issued :: "settings \<Rightarrow> proxy \<Rightarrow> proxy \<Rightarrow> nat \<Rightarrow> CacheTransactionInfo \<Rightarrow> bool" where
  "issued st px px' i t \<longleftrightarrow> (\<exists>ci ci' request. conn_at px i = Some ci \<and> conn_at px' i = Some ci' \<and> trans_of ci' = Some t \<and>
     cache_request t = Inr request \<and> stream ci' = stream ci @ request)"

lemma conn_at_other:
  assumes "slots_ok st px" "i < g_MaxCacheConns st" "j < g_MaxCacheConns st" "i \<noteq> j" "g_CacheConnections px i = Some fd"
    and "g_CacheConnections px' = g_CacheConnections px" "px_conns px' = (px_conns px)(fd := c)"
  shows "conn_at px' j = conn_at px j"
proof -
  have "g_CacheConnections px j \<noteq> Some fd" using slots_distinct[OF assms(1-3,5)] assms(4) by blast
  then show ?thesis using assms(6,7) by (auto simp: conn_at_def split: option.splits)
qed

lemma issue_step:
  assumes "slots_ok st px" "idle_slots st px = i # more_slots" "trans_ok t" "g_NumDeadConns px + 1 < int MAX_NUM_CI"
  shows "\<exists>ci px1 ci1. GetIdleCacheConn st px = Inr (Some ci) \<and> IssueCacheRequest px ci t = Inr (px1, ci1) \<and>
    (let px' = put_conn ci1 px1 in slots_ok st px' \<and> cache_io px px' \<and> issued st px px' i t \<and> idle_slots st px' = more_slots \<and>
       (\<forall>j < g_MaxCacheConns st. j \<noteq> i \<longrightarrow> conn_at px' j = conn_at px j) \<and>
       g_NumDeadConns px' \<le> g_NumDeadConns px + 1 \<and> g_NumPendingFirstTransactions px' = g_NumPendingFirstTransactions px \<and>
       g_NumPendingSecondTransactions px' = g_NumPendingSecondTransactions px)"
proof -
  have "i \<in> set (idle_slots st px)" using assms(2) by simp
  then have i: "i < g_MaxCacheConns st" "slot_idle px i" by (auto simp: idle_slots_def)
  then obtain fd where fd: "g_CacheConnections px i = Some fd" by (auto simp: slot_idle_def conn_at_def split: option.splits)
  with assms(1) i(1) have "slot_ok px i fd" by (simp add: slots_ok_def)
  then obtain ci cci where ci: "px_conns px fd = Some ci" "ci_fd ci = fd" "ci_type ci = ct_cache" "ci_stub ci = CacheStub cci"
    "ca_cacheConnIdx cci = i" "queue_ok ci" unfolding slot_ok_def by blast
  have at: "conn_at px i = Some ci" "ca_pCurTrans cci = None" using i(2) fd ci by (simp_all add: slot_idle_def conn_at_def trans_of_def)
  have "GetIdleCacheConn st px = Inr (Some ci)"
    using find_idle_ok[OF assms(1), of "[0..<g_MaxCacheConns st]"] assms(2) at(1) by (simp add: GetIdleCacheConn_def idle_slots_def)
  moreover
  obtain request where rq: "cache_request t = Inr request" "request \<noteq> []" using cache_request_ok[OF assms(3)] by blast
  let ?cci = "cci\<lparr>ca_pCurTrans := Some t\<rparr>"
  let ?ci = "ci\<lparr>ci_stub := CacheStub ?cci\<rparr>" and ?px = "px\<lparr>g_NumCacheRequestSent := g_NumCacheRequestSent px + 1\<rparr>"
  have q: "queue_ok ?ci" "stream ?ci = stream ci" using ci(6) queue_same[of ?ci ci] by simp_all
  from SendDataPrivate_net[of ?ci ?px request "-1"] q(1) ci rq(2) assms(4) obtain px1 ci1 where
    s: "SendData ?px ?ci request = Inr (px1, ci1)" "net_only ?px px1" "g_NumDeadConns px1 \<le> g_NumDeadConns px + 1" "same_conn ?ci ci1"
      "stream ci1 = stream ci @ request" "queue_ok ci1" by (auto simp: SendData_def q(2))
  let ?ci2 = "ci1\<lparr>ci_stub := CacheStub (?cci\<lparr>ca_lastAccessTime := px_now px1\<rparr>)\<rparr>"
  have r: "IssueCacheRequest px ci t = Inr (px1, ?ci2)" using ci at(2) rq(1) s(1) by (simp add: IssueCacheRequest_def)
  let ?px' = "put_conn ?ci2 px1"
  have c2: "ci_fd ?ci2 = fd" "ci_type ?ci2 = ct_cache" "queue_ok ?ci2" "stream ?ci2 = stream ci @ request" "trans_of ?ci2 = Some t"
    using s(4,5,6) ci queue_same[of ?ci2 ci1] by (simp_all add: same_conn_def trans_of_def)
  have k: "g_CacheConnections ?px' = g_CacheConnections px" "px_conns ?px' = (px_conns px)(fd := Some ?ci2)"
    "g_NumPendingFirstTransactions ?px' = g_NumPendingFirstTransactions px" "g_NumPendingSecondTransactions ?px' = g_NumPendingSecondTransactions px"
    "g_NumDeadConns ?px' = g_NumDeadConns px1"
    using s(2) c2(1) unfolding net_only_ex by (auto simp: put_conn_def)
  have io: "cache_io px ?px'" using s(2) unfolding net_only_ex by (auto simp: cache_io_def put_conn_def)
  have others: "\<forall>j < g_MaxCacheConns st. j \<noteq> i \<longrightarrow> conn_at ?px' j = conn_at px j"
    using conn_at_other[OF assms(1) i(1) _ _ fd k(1,2)] by blast
  have at': "conn_at ?px' i = Some ?ci2" using fd k(1,2) by (simp add: conn_at_def)
  have "slots_ok st ?px'" unfolding slots_ok_def
  proof (intro conjI allI impI)
    show "g_MaxCacheConns st \<le> MAX_CACHE_CONNS" using assms(1) by (simp add: slots_ok_def)
    fix j fd' assume j: "j < g_MaxCacheConns st" "g_CacheConnections ?px' j = Some fd'"
    show "slot_ok ?px' j fd'"
    proof (cases "j = i")
      case True
      then have "fd' = fd" using j(2) fd k(1) by simp
      with True c2 ci(5) k(2) show ?thesis by (simp add: slot_ok_def)
    next
      case False
      have "fd' \<noteq> fd" using slots_distinct[OF assms(1) i(1) j(1) fd] False j(2) k(1) by auto
      moreover have "slot_ok px j fd'" using assms(1) j k(1) by (simp add: slots_ok_def)
      ultimately show ?thesis using k(2) by (simp add: slot_ok_def)
    qed
  qed
  moreover have "idle_slots st ?px' = more_slots"
  proof -
    have "\<not> slot_idle ?px' i" using at' c2(5) by (simp add: slot_idle_def)
    then have "filter (slot_idle ?px') [0..<g_MaxCacheConns st] = filter (\<lambda>j. j \<noteq> i) (filter (slot_idle px) [0..<g_MaxCacheConns st])"
      using others by (auto simp: slot_idle_def intro!: filter_cong)
    moreover have "i \<notin> set more_slots" using assms(2) distinct_filter[of "[0..<g_MaxCacheConns st]" "slot_idle px"] by (simp add: idle_slots_def)
    moreover have "filter (\<lambda>j. j \<noteq> i) (i # more_slots) = more_slots" if "i \<notin> set more_slots" using that by (auto simp: filter_id_conv)
    ultimately show ?thesis using assms(2) unfolding idle_slots_def by metis
  qed
  moreover have "issued st px ?px' i t" using at(1) at' c2(4,5) rq(1) by (simp add: issued_def)
  ultimately show ?thesis using r io others s(3) k(3-5) by (auto simp: Let_def)
qed

text \<open>
  A loop over a queue: the requests go, in order, to the idle connections, in order. The bookkeeping of
  a loop counts the queue down and touches nothing else that matters.
\<close>

definition tallies :: "(proxy \<Rightarrow> proxy res) \<Rightarrow> (proxy \<Rightarrow> int) \<Rightarrow> (proxy \<Rightarrow> int) \<Rightarrow> bool" where
  "tallies tally left other \<longleftrightarrow> (\<forall>px. left px > 0 \<longrightarrow> (\<exists>px'. tally px = Inr px' \<and> cache_io px px' \<and> px_conns px' = px_conns px \<and>
     g_NumDeadConns px' = g_NumDeadConns px \<and> left px' = left px - 1 \<and> other px' = other px))"

definition assigned :: "settings \<Rightarrow> proxy \<Rightarrow> proxy \<Rightarrow> nat list \<Rightarrow> CacheTransactionInfo list \<Rightarrow> bool" where
  "assigned st px px' slots ts \<longleftrightarrow> list_all2 (issued st px px') slots ts \<and>
     (\<forall>j < g_MaxCacheConns st. j \<notin> set slots \<longrightarrow> conn_at px' j = conn_at px j)"

lemma slots_ok_same:
  assumes "px_conns px' = px_conns px" "g_CacheConnections px' = g_CacheConnections px"
  shows "slots_ok st px' = slots_ok st px" "conn_at px' = conn_at px" "idle_slots st px' = idle_slots st px"
proof -
  show c: "conn_at px' = conn_at px" by (rule ext) (simp add: conn_at_def assms split: option.split)
  show "slots_ok st px' = slots_ok st px" using assms by (simp add: slots_ok_def slot_ok_def)
  show "idle_slots st px' = idle_slots st px" using c by (simp add: idle_slots_def slot_idle_def cong: filter_cong)
qed

lemma assigned_Cons:
  assumes "issued st px px1 i t" "\<forall>j < g_MaxCacheConns st. j \<noteq> i \<longrightarrow> conn_at px1 j = conn_at px j"
    and "assigned st px1 px2 slots ts" "i \<notin> set slots" "i < g_MaxCacheConns st" "\<forall>j \<in> set slots. j < g_MaxCacheConns st"
  shows "assigned st px px2 (i # slots) (t # ts)"
proof -
  have "conn_at px2 i = conn_at px1 i" using assms(3-5) by (simp add: assigned_def)
  then have "issued st px px2 i t" using assms(1) by (simp add: issued_def)
  moreover have "list_all2 (issued st px px2) slots ts"
  proof (rule list_all2_mono[of "\<lambda>j t. j \<in> set slots \<and> issued st px1 px2 j t"])
    show "list_all2 (\<lambda>j t. j \<in> set slots \<and> issued st px1 px2 j t) slots ts"
      using assms(3) by (auto simp: assigned_def list_all2_conv_all_nth)
    fix j u assume "j \<in> set slots \<and> issued st px1 px2 j u"
    moreover from this have "conn_at px1 j = conn_at px j" using assms(2,4,6) by metis
    ultimately show "issued st px px2 j u" by (simp add: issued_def)
  qed
  ultimately show ?thesis using assms(2,3) by (simp add: assigned_def)
qed

lemma idle_slots_props: "distinct (idle_slots st px)" "\<forall>j \<in> set (idle_slots st px). j < g_MaxCacheConns st"
  by (auto simp: idle_slots_def)

lemma issue_list_ok:
  assumes "slots_ok st px" "\<forall>t \<in> set ts. trans_ok t" "tallies tally left other" "left px = int (length ts)"
    and "\<And>px px'. cache_io px px' \<Longrightarrow> g_NumPendingFirstTransactions px' = g_NumPendingFirstTransactions px \<Longrightarrow>
      g_NumPendingSecondTransactions px' = g_NumPendingSecondTransactions px \<Longrightarrow> left px' = left px \<and> other px' = other px"
    and "g_NumDeadConns px + int (length (idle_slots st px)) < int MAX_NUM_CI"
  shows "\<exists>px'. issue_list st tally ts px = Inr (px', drop (length (idle_slots st px)) ts) \<and> slots_ok st px' \<and> cache_io px px' \<and>
    assigned st px px' (take (length ts) (idle_slots st px)) (take (length (idle_slots st px)) ts) \<and>
    idle_slots st px' = drop (length ts) (idle_slots st px) \<and> left px' = int (length (drop (length (idle_slots st px)) ts)) \<and> other px' = other px \<and>
    g_NumDeadConns px' \<le> g_NumDeadConns px + int (length (take (length ts) (idle_slots st px)))"
  using assms(1,2,4,6)
proof (induction ts arbitrary: px)
  case Nil
  then show ?case by (simp add: assigned_def)
next
  case (Cons t ts)
  show ?case
  proof (cases "idle_slots st px")
    case Nil
    then have "find_idle px [0..<g_MaxCacheConns st] = Inr None"
      using find_idle_ok[OF Cons.prems(1), of "[0..<g_MaxCacheConns st]"] by (simp add: idle_slots_def)
    with Nil Cons.prems show ?thesis by (simp add: GetIdleCacheConn_def assigned_def)
  next
    case (Cons i slots)
    have room: "g_NumDeadConns px + 1 < int MAX_NUM_CI" using Cons.prems(4) Cons by simp
    have tok: "trans_ok t" using Cons.prems(2) by simp
    from issue_step[OF Cons.prems(1) Cons tok room, unfolded Let_def] obtain ci px0 ci1 where
      o: "GetIdleCacheConn st px = Inr (Some ci)" "IssueCacheRequest px ci t = Inr (px0, ci1)" and
      st: "slots_ok st (put_conn ci1 px0)" "cache_io px (put_conn ci1 px0)" "issued st px (put_conn ci1 px0) i t"
        "idle_slots st (put_conn ci1 px0) = slots" "\<forall>j < g_MaxCacheConns st. j \<noteq> i \<longrightarrow> conn_at (put_conn ci1 px0) j = conn_at px j"
        "g_NumDeadConns (put_conn ci1 px0) \<le> g_NumDeadConns px + 1"
        "g_NumPendingFirstTransactions (put_conn ci1 px0) = g_NumPendingFirstTransactions px"
        "g_NumPendingSecondTransactions (put_conn ci1 px0) = g_NumPendingSecondTransactions px" by blast
    let ?px1 = "put_conn ci1 px0"
    have pend: "left ?px1 = int (length ts) + 1" using assms(5)[OF st(2,7,8)] Cons.prems(3) by simp
    then obtain px2 where t2: "tally ?px1 = Inr px2" "cache_io ?px1 px2" "px_conns px2 = px_conns ?px1" "g_NumDeadConns px2 = g_NumDeadConns ?px1"
      "left px2 = int (length ts)" "other px2 = other px" using assms(5)[OF st(2,7,8)] assms(3) by (force simp: tallies_def)
    note same = slots_ok_same[OF t2(3) cache_io_facts(1)[OF t2(2)]]
    have p: "slots_ok st px2" "\<forall>t \<in> set ts. trans_ok t" "g_NumDeadConns px2 + int (length (idle_slots st px2)) < int MAX_NUM_CI"
      using same st(1,4,6) Cons.prems(2,4) Cons t2(4) by simp_all
    from Cons.IH[OF p(1,2) t2(5) p(3)] obtain px' where
      i: "issue_list st tally ts px2 = Inr (px', drop (length slots) ts)" "slots_ok st px'" "cache_io px2 px'"
        "assigned st px2 px' (take (length ts) slots) (take (length slots) ts)" "idle_slots st px' = drop (length ts) slots"
        "left px' = int (length (drop (length slots) ts))" "other px' = other px2" "g_NumDeadConns px' \<le> g_NumDeadConns px2 + int (length (take (length ts) slots))"
      unfolding same(3) st(4) by blast
    have "i \<notin> set slots" "i < g_MaxCacheConns st" "\<forall>j \<in> set slots. j < g_MaxCacheConns st" using idle_slots_props[of st px] Cons by simp_all
    moreover have "issued st px px2 i t" using st(3) same(2) by (simp add: issued_def)
    ultimately have "assigned st px px' (i # take (length ts) slots) (t # take (length slots) ts)"
      using st(5) by (intro assigned_Cons[OF _ _ i(4)]) (auto simp: same(2) dest: in_set_takeD)
    moreover have "cache_io px px'" using st(2) t2(2) i(3) cache_io_trans by blast
    ultimately show ?thesis using Cons o t2(1,4,6) st(6) i by simp
  qed
qed

section \<open>Properties\<close>

text \<open>The invariant of the queues.\<close>

definition disk_ok :: "settings \<Rightarrow> proxy \<Rightarrow> bool" where
  "disk_ok st px \<longleftrightarrow> slots_ok st px \<and>
     (\<forall>t \<in> set (g_FirstClassRequestList px). trans_ok t \<and> ti_method t \<noteq> hc_put) \<and>
     (\<forall>t \<in> set (g_SecondClassRequestList px). trans_ok t \<and> ti_method t = hc_put) \<and>
     g_NumPendingFirstTransactions px = int (length (g_FirstClassRequestList px)) \<and>
     g_NumPendingSecondTransactions px = int (length (g_SecondClassRequestList px))"

lemma tallies_both:
  "tallies count_first g_NumPendingFirstTransactions g_NumPendingSecondTransactions"
  "tallies count_second g_NumPendingSecondTransactions g_NumPendingFirstTransactions"
  by (simp_all add: tallies_def count_first_def count_second_def Let_def cache_io_def)

lemma assigned_append:
  assumes "assigned st px px1 xs ts" "assigned st px1 px2 ys us" "set xs \<inter> set ys = {}" "\<forall>j \<in> set xs \<union> set ys. j < g_MaxCacheConns st"
  shows "assigned st px px2 (xs @ ys) (ts @ us)"
proof -
  have "list_all2 (issued st px px2) xs ts"
  proof (rule list_all2_mono[of "\<lambda>j t. j \<in> set xs \<and> issued st px px1 j t"])
    show "list_all2 (\<lambda>j t. j \<in> set xs \<and> issued st px px1 j t) xs ts" using assms(1) by (auto simp: assigned_def list_all2_conv_all_nth)
    fix j u assume j: "j \<in> set xs \<and> issued st px px1 j u"
    then have "conn_at px2 j = conn_at px1 j" using assms(2-4) by (auto simp: assigned_def)
    with j show "issued st px px2 j u" by (simp add: issued_def)
  qed
  moreover have "list_all2 (issued st px px2) ys us"
  proof (rule list_all2_mono[of "\<lambda>j t. j \<in> set ys \<and> issued st px1 px2 j t"])
    show "list_all2 (\<lambda>j t. j \<in> set ys \<and> issued st px1 px2 j t) ys us" using assms(2) by (auto simp: assigned_def list_all2_conv_all_nth)
    fix j u assume j: "j \<in> set ys \<and> issued st px1 px2 j u"
    then have "conn_at px1 j = conn_at px j" using assms(1,3,4) by (auto simp: assigned_def)
    with j show "issued st px px2 j u" by (simp add: issued_def)
  qed
  ultimately show ?thesis using assms(1,2) by (auto simp: assigned_def intro: list_all2_appendI)
qed

lemma assigned_list_cong:
  assumes "px_conns px' = px_conns px" "g_CacheConnections px' = g_CacheConnections px" "px_conns py' = px_conns py" "g_CacheConnections py' = g_CacheConnections py"
  shows "assigned st px' py' xs ts = assigned st px py xs ts"
  using slots_ok_same(2)[OF assms(1,2)] slots_ok_same(2)[OF assms(3,4)] by (simp add: assigned_def issued_def[abs_def])

lemma IssuePending_ok:
  assumes "disk_ok st px" "g_NumDeadConns px + int (length (idle_slots st px)) < int MAX_NUM_CI"
  shows "\<exists>px'. IssuePendingCacheRequests st px = Inr px' \<and> disk_ok st px' \<and>
    g_FirstClassRequestList px' = drop (length (idle_slots st px)) (g_FirstClassRequestList px) \<and>
    g_SecondClassRequestList px' = drop (length (idle_slots st px) - length (g_FirstClassRequestList px)) (g_SecondClassRequestList px) \<and>
    assigned st px px' (take (length (g_FirstClassRequestList px @ g_SecondClassRequestList px)) (idle_slots st px))
      (take (length (idle_slots st px)) (g_FirstClassRequestList px @ g_SecondClassRequestList px)) \<and>
    idle_slots st px' = drop (length (g_FirstClassRequestList px @ g_SecondClassRequestList px)) (idle_slots st px) \<and>
    px_cache px' = px_cache px \<and> px_peers px' = px_peers px \<and> px_requests px' = px_requests px"
proof -
  let ?S = "idle_slots st px" and ?F = "g_FirstClassRequestList px" and ?G = "g_SecondClassRequestList px"
  have d: "slots_ok st px" "\<forall>t \<in> set ?F. trans_ok t" "\<forall>t \<in> set ?G. trans_ok t" "g_NumPendingFirstTransactions px = int (length ?F)"
    "g_NumPendingSecondTransactions px = int (length ?G)" using assms(1) by (auto simp: disk_ok_def)
  from issue_list_ok[OF d(1,2) tallies_both(1) d(4) _ assms(2)] obtain px1 where
    a: "issue_list st count_first ?F px = Inr (px1, drop (length ?S) ?F)" "slots_ok st px1" "cache_io px px1"
      "assigned st px px1 (take (length ?F) ?S) (take (length ?S) ?F)" "idle_slots st px1 = drop (length ?F) ?S"
      "g_NumPendingFirstTransactions px1 = int (length (drop (length ?S) ?F))" "g_NumPendingSecondTransactions px1 = int (length ?G)"
      "g_NumDeadConns px1 \<le> g_NumDeadConns px + int (length (take (length ?F) ?S))" using d(5) by auto
  note ka = cache_io_facts[OF a(3)]
  let ?px1 = "px1\<lparr>g_FirstClassRequestList := drop (length ?S) ?F\<rparr>"
  have same: "px_conns ?px1 = px_conns px1" "g_CacheConnections ?px1 = g_CacheConnections px1" by simp_all
  have b0: "slots_ok st ?px1" "g_NumPendingSecondTransactions ?px1 = int (length ?G)" "idle_slots st ?px1 = drop (length ?F) ?S"
    using a(2,5,7) slots_ok_same[OF same] by simp_all
  have room: "g_NumDeadConns ?px1 + int (length (idle_slots st ?px1)) < int MAX_NUM_CI"
    using a(8) assms(2) unfolding b0(3) by (simp add: min_def split: if_splits)
  from issue_list_ok[OF b0(1) d(3) tallies_both(2) b0(2) _ room, unfolded b0(3)] obtain px2 where
    b: "issue_list st count_second ?G ?px1 = Inr (px2, drop (length ?S - length ?F) ?G)" "slots_ok st px2" "cache_io ?px1 px2"
      "assigned st ?px1 px2 (take (length ?G) (drop (length ?F) ?S)) (take (length ?S - length ?F) ?G)"
      "idle_slots st px2 = drop (length ?G) (drop (length ?F) ?S)" "g_NumPendingSecondTransactions px2 = int (length (drop (length ?S - length ?F) ?G))"
      "g_NumPendingFirstTransactions px2 = int (length (drop (length ?S) ?F))" using a(6) by auto
  note kb = cache_io_facts[OF b(3)]
  let ?px2 = "px2\<lparr>g_SecondClassRequestList := drop (length ?S - length ?F) ?G\<rparr>"
  have same2: "px_conns ?px2 = px_conns px2" "g_CacheConnections ?px2 = g_CacheConnections px2" by simp_all
  have run: "IssuePendingCacheRequests st px = Inr ?px2"
    using a(1) b(1) ka(3) by (simp add: IssuePendingCacheRequests_def)
  have "assigned st px1 ?px2 (take (length ?G) (drop (length ?F) ?S)) (take (length ?S - length ?F) ?G)"
    using b(4) assigned_list_cong[OF same(1,2) same2] by (simp add: assigned_list_cong[OF same refl refl] assigned_list_cong[OF refl refl same2])
  moreover have "set (take (length ?F) ?S) \<inter> set (take (length ?G) (drop (length ?F) ?S)) = {}"
    using idle_slots_props(1)[of st px] by (metis append_take_drop_id distinct_append disjoint_iff in_set_takeD)
  moreover have "\<forall>j \<in> set (take (length ?F) ?S) \<union> set (take (length ?G) (drop (length ?F) ?S)). j < g_MaxCacheConns st"
    using idle_slots_props(2)[of st px] by (auto dest: in_set_takeD in_set_dropD)
  ultimately have "assigned st px ?px2 (take (length ?F) ?S @ take (length ?G) (drop (length ?F) ?S)) (take (length ?S) ?F @ take (length ?S - length ?F) ?G)"
    by (rule assigned_append[OF a(4)])
  then have as: "assigned st px ?px2 (take (length (?F @ ?G)) ?S) (take (length ?S) (?F @ ?G))" by (simp add: take_add)
  have "disk_ok st ?px2"
    using assms(1) b(2,6,7) kb(2) slots_ok_same[OF same2] by (auto simp: disk_ok_def dest: in_set_dropD)
  with run as b(5) kb ka slots_ok_same(3)[OF same2] show ?thesis by (simp add: add.commute)
qed

text \<open>
  Claim C28: requests to the disk cache go out by priority and in order. Take the invariant of the queues
  and count the idle connections. \<open>IssuePendingCacheRequests\<close> passes every assertion, keeps the
  invariant, and gives the k-th idle connection the k-th request of the look-ups followed by the
  stores: the connection holds the transaction and the text of the request is appended to what it
  sends. The other connections are left alone, the queues lose exactly the requests that were issued,
  and afterwards a request waits only if no connection is idle.
\<close>

theorem IssuePendingCacheRequests_priority:
  assumes "disk_ok st px" "idle = idle_slots st px" "queue = g_FirstClassRequestList px @ g_SecondClassRequestList px"
    and "g_NumDeadConns px + int (length idle) < int MAX_NUM_CI"
  shows "\<exists>px'. IssuePendingCacheRequests st px = Inr px' \<and> disk_ok st px' \<and>
    (\<forall>k < min (length idle) (length queue). \<exists>ci ci' request. conn_at px (idle ! k) = Some ci \<and> conn_at px' (idle ! k) = Some ci' \<and>
       trans_of ci' = Some (queue ! k) \<and> cache_request (queue ! k) = Inr request \<and> stream ci' = stream ci @ request) \<and>
    (\<forall>j < g_MaxCacheConns st. j \<notin> set (take (length queue) idle) \<longrightarrow> conn_at px' j = conn_at px j) \<and>
    g_FirstClassRequestList px' @ g_SecondClassRequestList px' = drop (length idle) queue \<and>
    (g_FirstClassRequestList px' @ g_SecondClassRequestList px' \<noteq> [] \<longrightarrow> idle_slots st px' = [])"
proof -
  from IssuePending_ok[OF assms(1)] assms(2-4) obtain px' where
    p: "IssuePendingCacheRequests st px = Inr px'" "disk_ok st px'" "g_FirstClassRequestList px' = drop (length idle) (g_FirstClassRequestList px)"
      "g_SecondClassRequestList px' = drop (length idle - length (g_FirstClassRequestList px)) (g_SecondClassRequestList px)"
      "assigned st px px' (take (length queue) idle) (take (length idle) queue)" "idle_slots st px' = drop (length queue) idle" by auto
  have q: "g_FirstClassRequestList px' @ g_SecondClassRequestList px' = drop (length idle) queue" using p(3,4) assms(3) by simp
  moreover have "issued st px px' (idle ! k) (queue ! k)" if "k < min (length idle) (length queue)" for k
    using p(5) that by (auto simp: assigned_def list_all2_conv_all_nth)
  then have "\<forall>k < min (length idle) (length queue). \<exists>ci ci' request. conn_at px (idle ! k) = Some ci \<and> conn_at px' (idle ! k) = Some ci' \<and>
       trans_of ci' = Some (queue ! k) \<and> cache_request (queue ! k) = Inr request \<and> stream ci' = stream ci @ request"
    by (auto simp: issued_def)
  moreover have "drop (length queue) idle = []" if "drop (length idle) queue \<noteq> []" using that by simp
  ultimately show ?thesis using p(1,2,5,6) unfolding assigned_def by (intro exI[of _ px'] conjI) simp_all
qed

definition demo_get :: CacheTransactionInfo where
  "demo_get = \<lparr>ti_cid = no_cid, ti_sourceCI = None, ti_sha1 = replicate 20 7, ti_chunkLen = 3, ti_pChunk = None, ti_dstPxyId = -1,
     ti_method = hc_get, ti_ps = ps_keepalive, ti_opaque = NoOpaque\<rparr>"

definition demo_put :: CacheTransactionInfo where
  "demo_put = demo_get\<lparr>ti_pChunk := Some [1, 2, 3], ti_method := hc_put, ti_ps := ps_none\<rparr>"

definition demo_cache_conn :: ConnectionInfo where
  "demo_cache_conn = (demo_conn demo_user)\<lparr>ci_type := ct_cache, ci_isWritable := False,
     ci_stub := CacheStub \<lparr>ca_pCurTrans = None, ca_cacheConnIdx = 1, ca_lastAccessTime = 0\<rparr>\<rparr>"

text \<open>One connection, in the second slot, and a look-up and a store that wait.\<close>

definition demo_disk :: proxy where
  "demo_disk = (demo_proxy (empty_cache 0) (snd (projr (CreateConnectionTables None))) demo_cache_conn [])\<lparr>
     g_CacheConnections := [1 \<mapsto> 9], g_FirstClassRequestList := [demo_get], g_SecondClassRequestList := [demo_put],
     g_NumPendingFirstTransactions := 1, g_NumPendingSecondTransactions := 1\<rparr>"

lemma demo_disk_ok: "disk_ok demo_settings demo_disk" "idle_slots demo_settings demo_disk = [1]" "g_NumDeadConns demo_disk = 0"
proof -
  have "queue_ok demo_cache_conn" by (simp add: queue_ok_def demo_cache_conn_def demo_conn_def waiting_def)
  then have "slot_ok demo_disk 1 9"
    by (simp add: slot_ok_def demo_disk_def demo_proxy_def) (simp add: demo_cache_conn_def demo_conn_def)
  moreover have "g_CacheConnections demo_disk = [1 \<mapsto> 9]" by (simp add: demo_disk_def)
  ultimately have "slots_ok demo_settings demo_disk" by (auto simp: slots_ok_def demo_settings_def MAX_CACHE_CONNS_def split: if_splits)
  then show "disk_ok demo_settings demo_disk"
    by (simp add: disk_ok_def demo_disk_def demo_get_def demo_put_def trans_ok_def)
  have "slot_idle demo_disk i = (i = 1)" for i
    by (simp add: slot_idle_def conn_at_def trans_of_def demo_disk_def demo_proxy_def demo_cache_conn_def demo_conn_def)
  then show "idle_slots demo_settings demo_disk = [1]" by (simp add: idle_slots_def demo_settings_def upt_rec)
  show "g_NumDeadConns demo_disk = 0" by (simp add: demo_disk_def demo_proxy_def)
qed

theorem IssuePendingCacheRequests_priority_witness:
  "\<exists>px' ci'. IssuePendingCacheRequests demo_settings demo_disk = Inr px' \<and> g_FirstClassRequestList px' @ g_SecondClassRequestList px' = [demo_put] \<and>
     conn_at px' 1 = Some ci' \<and> trans_of ci' = Some demo_get \<and>
     stream ci' = request_line hc_get (replicate 20 7) @ crlf"
proof -
  have q: "g_FirstClassRequestList demo_disk @ g_SecondClassRequestList demo_disk = [demo_get, demo_put]" by (simp add: demo_disk_def)
  have at: "conn_at demo_disk 1 = Some demo_cache_conn"
    by (simp add: conn_at_def demo_disk_def demo_proxy_def) (simp add: demo_cache_conn_def demo_conn_def)
  have r: "cache_request demo_get = Inr (request_line hc_get (replicate 20 7) @ crlf)"
    by (simp add: cache_request_def demo_get_def)
  have s: "stream demo_cache_conn = []" by (simp add: stream_def waiting_def demo_cache_conn_def demo_conn_def)
  from IssuePendingCacheRequests_priority[OF demo_disk_ok(1) demo_disk_ok(2)[symmetric] q[symmetric]] demo_disk_ok(3)
  show ?thesis using at r s by (auto simp: MAX_NUM_CI_def)
qed

end
