(* ===== verification/Ils.thy ===== *)
theory Ils
  imports Complex_Main "HOL-Library.Log_Nat" Disk
begin

text \<open>
  Intelligent load shedding (waprox/ils.c): the chunks of the blocks that are ready are sorted into a
  queue for the disk of each peer and one for the network; as long as a disk is slower than the
  network, its smallest chunk is moved to the network; then the requests are sent in the original
  order.

  A queue holds references to chunk names, which live in the waiting blocks of the connections; a
  reference names the connection, the block and the position, and carries the length of the chunk.
  Latencies are \<open>float\<close> values: \<open>fl p\<close> rounds a rational number to \<open>p\<close> bits, ties to even (24 bits for a
  \<open>float\<close>, 53 for a \<open>double\<close>; all values are in the normal range). \<open>_WAPROX_ILS_NOHISTORY\<close> is defined in the
  build, so that pending requests do not count. \<open>qsort\<close> of the C library is an argument: it permutes the
  array and leaves it in the order of the comparison function, with equal elements in any order.
\<close>

section \<open>Floating point numbers\<close>

definition half_even :: "rat \<Rightarrow> int" where
  "half_even x = (let f = \<lfloor>x\<rfloor>; r = x - of_int f in
     if r < 1 / 2 then f else if r > 1 / 2 then f + 1 else if even f then f else f + 1)"

definition fl_exp :: "nat \<Rightarrow> rat \<Rightarrow> int" where
  "fl_exp p x = (let (a, b) = quotient_of x; e = bitlen a - bitlen b - int p
     in if x \<ge> 2 powi (e + int p) then e + 1 else e)"

definition fl :: "nat \<Rightarrow> rat \<Rightarrow> rat" where
  "fl p x =
     (if x = 0 then 0
      else let e = fl_exp p \<bar>x\<bar> in sgn x * of_int (half_even (\<bar>x\<bar> / 2 powi e)) * 2 powi e)"

section \<open>Data\<close>

definition MAX_ILS_QUEUE :: nat where "MAX_ILS_QUEUE = 65536"

record ChunkRef =
  cr_fd :: nat
  cr_seq :: u32
  cr_pos :: nat
  cr_length :: u32

record ILSQueue =
  iq_q :: "ChunkRef list"
  iq_totBytes :: u32
  iq_latency :: rat

datatype ChunkRequestType = cr_local | cr_peer | cr_origin

text \<open>The static queues; the disk queues are allocated once, for the peers known then.\<close>

record ils =
  diskQueue :: "ILSQueue list option"
  networkQueue :: ILSQueue
  sendQueue :: ILSQueue

text \<open>The block and the name a reference points to, and a change of them.\<close>

definition ref_block :: "proxy \<Rightarrow> nat \<Rightarrow> u32 \<Rightarrow> ReassembleInfo option" where
  "ref_block px fd seq = (case px_conns px fd of
     Some ci \<Rightarrow> (case ci_stub ci of UserStub u \<Rightarrow> GetReassembleInfo (uc_reassembleList u) seq | _ \<Rightarrow> None)
   | None \<Rightarrow> None)"

definition get_cni :: "proxy \<Rightarrow> ChunkRef \<Rightarrow> ChunkNameInfo option" where
  "get_cni px r = (case ref_block px (cr_fd r) (cr_seq r) of
     Some ri \<Rightarrow> if cr_pos r < length (ri_nameList ri) then Some (ri_nameList ri ! cr_pos r) else None
   | None \<Rightarrow> None)"

definition on_block :: "u32 \<Rightarrow> (ReassembleInfo \<Rightarrow> ReassembleInfo) \<Rightarrow> UserConnectionInfo \<Rightarrow> UserConnectionInfo" where
  "on_block seq f u = u\<lparr>uc_reassembleList := map (\<lambda>ri. if ri_seq_no ri = seq then f ri else ri) (uc_reassembleList u)\<rparr>"

definition change_user :: "nat \<Rightarrow> (UserConnectionInfo \<Rightarrow> UserConnectionInfo) \<Rightarrow> proxy \<Rightarrow> proxy" where
  "change_user fd f px = (case px_conns px fd of
     Some ci \<Rightarrow> (case ci_stub ci of
        UserStub u \<Rightarrow> px\<lparr>px_conns := (px_conns px)(fd := Some (ci\<lparr>ci_stub := UserStub (f u)\<rparr>))\<rparr> | _ \<Rightarrow> px)
   | None \<Rightarrow> px)"

definition set_name :: "nat \<Rightarrow> (ChunkNameInfo \<Rightarrow> ChunkNameInfo) \<Rightarrow> ReassembleInfo \<Rightarrow> ReassembleInfo" where
  "set_name pos f ri = ri\<lparr>ri_nameList := (ri_nameList ri)[pos := f (ri_nameList ri ! pos)]\<rparr>"

definition set_network :: "bool \<Rightarrow> ChunkRef \<Rightarrow> proxy \<Rightarrow> proxy" where
  "set_network b r = change_user (cr_fd r) (on_block (cr_seq r) (set_name (cr_pos r) (\<lambda>cni. cni\<lparr>cni_isNetwork := b\<rparr>)))"

section \<open>Queues\<close>

definition ILSReset :: "ILSQueue \<Rightarrow> ILSQueue" where
  "ILSReset queue = queue\<lparr>iq_q := [], iq_totBytes := 0, iq_latency := 0\<rparr>"

definition ILSEnqueue :: "ILSQueue \<Rightarrow> ChunkRef \<Rightarrow> nat \<Rightarrow> ILSQueue res" where
  "ILSEnqueue queue cni overhead =
     ensure (length (iq_q queue) + 1 < MAX_ILS_QUEUE)
       (Inr (queue\<lparr>iq_q := iq_q queue @ [cni], iq_totBytes := iq_totBytes queue + (cr_length cni + of_nat overhead)\<rparr>))"

definition ILSDequeue :: "ILSQueue \<Rightarrow> ILSQueue \<times> ChunkRef option" where
  "ILSDequeue queue =
     (if iq_q queue = [] then (queue, None)
      else (queue\<lparr>iq_q := butlast (iq_q queue), iq_totBytes := iq_totBytes queue - cr_length (last (iq_q queue))\<rparr>,
            Some (last (iq_q queue))))"

definition ILSUpdateDiskLatency :: "settings \<Rightarrow> ILSQueue \<Rightarrow> ILSQueue" where
  "ILSUpdateDiskLatency st queue =
     queue\<lparr>iq_latency := fl 24 (of_int (uint (of_int (g_SeekLatency st) * of_nat (length (iq_q queue)) :: u32)))\<rparr>"

definition ILSUpdateNetworkLatency :: "settings \<Rightarrow> ILSQueue \<Rightarrow> ILSQueue res" where
  "ILSUpdateNetworkLatency st queue =
     ensure (g_WanLinkBW st > 0)
       (let latency = fl 24 (fl 53 (of_int (uint (iq_totBytes queue)) * 8 / of_int (g_WanLinkBW st)))
        in Inr (queue\<lparr>iq_latency := fl 24 (latency + fl 24 (of_int (g_WanLinkRTT st)))\<rparr>))"

text \<open>\<open>numPeers\<close> is \<open>g_NumPeers\<close>; the reset writes beyond the disk queues when peers were added since.\<close>

definition InitILS :: "nat \<Rightarrow> ils \<Rightarrow> ils res" where
  "InitILS numPeers q =
     (let ds = (case diskQueue q of None \<Rightarrow> replicate numPeers \<lparr>iq_q = [], iq_totBytes = 0, iq_latency = 0\<rparr> | Some ds \<Rightarrow> ds)
      in if numPeers > length ds then Inl UndefinedBehaviour
         else Inr \<lparr>diskQueue = Some (map ILSReset (take numPeers ds) @ drop numPeers ds),
                   networkQueue = ILSReset (networkQueue q), sendQueue = ILSReset (sendQueue q)\<rparr>)"

text \<open>\<open>CompareChunkSizes\<close> orders by falling length.\<close>

definition CompareChunkSizes :: "ChunkRef \<Rightarrow> ChunkRef \<Rightarrow> int" where
  "CompareChunkSizes a b =
     (if sint (cr_length a) < sint (cr_length b) then 1 else if sint (cr_length a) > sint (cr_length b) then -1 else 0)"

definition sort_queue :: "(ChunkRef list \<Rightarrow> ChunkRef list) \<Rightarrow> ILSQueue \<Rightarrow> ILSQueue" where
  "sort_queue qsort queue = queue\<lparr>iq_q := qsort (iq_q queue)\<rparr>"

text \<open>What \<open>qsort\<close> with \<open>CompareChunkSizes\<close> promises; a stable sort keeps it.\<close>

definition qsort_ok :: "(ChunkRef list \<Rightarrow> ChunkRef list) \<Rightarrow> bool" where
  "qsort_ok qsort \<longleftrightarrow> (\<forall>xs. mset (qsort xs) = mset xs \<and> sorted_wrt (\<lambda>a b. CompareChunkSizes a b \<le> 0) (qsort xs))"

lemma sort_key_qsort_ok: "qsort_ok (sort_key (\<lambda>r. - sint (cr_length r)))"
proof -
  have "sorted_wrt (\<lambda>a b. - sint (cr_length a) \<le> - sint (cr_length b)) (sort_key (\<lambda>r. - sint (cr_length r)) xs)" for xs
    using sorted_sort_key[of "\<lambda>r. - sint (cr_length r)" xs] by (simp add: sorted_map)
  then have "sorted_wrt (\<lambda>a b. CompareChunkSizes a b \<le> 0) (sort_key (\<lambda>r. - sint (cr_length r)) xs)" for xs
    by (rule sorted_wrt_mono_rel[rotated]) (auto simp: CompareChunkSizes_def)
  then show ?thesis by (simp add: qsort_ok_def)
qed

text \<open>The front of a sorted queue has the largest chunks.\<close>

lemma sorted_front_largest:
  assumes "qsort_ok qsort" "ys = take k (qsort xs)" "r \<in> set ys" "m \<in># mset xs - mset ys"
  shows "sint (cr_length m) \<le> sint (cr_length r)"
proof -
  have "mset xs = mset ys + mset (drop k (qsort xs))"
    using assms(1,2) unfolding qsort_ok_def by (metis append_take_drop_id mset_append)
  then have m: "m \<in> set (drop k (qsort xs))" using assms(4) by simp
  have "sorted_wrt (\<lambda>a b. CompareChunkSizes a b \<le> 0) (take k (qsort xs) @ drop k (qsort xs))" using assms(1) by (simp add: qsort_ok_def)
  then have "CompareChunkSizes r m \<le> 0" using assms(2,3) m by (simp only: sorted_wrt_append)
  then show ?thesis by (simp add: CompareChunkSizes_def split: if_splits)
qed

section \<open>The schedule\<close>

text \<open>The disk queue with the greatest latency, the first of equals.\<close>

fun max_disk :: "ILSQueue list \<Rightarrow> nat \<Rightarrow> rat \<Rightarrow> nat \<Rightarrow> rat \<times> nat" where
  "max_disk [] i maxLatency maxPeer = (maxLatency, maxPeer)"
| "max_disk (d # ds) i maxLatency maxPeer =
     (if iq_latency d > maxLatency then max_disk ds (i + 1) (iq_latency d) i else max_disk ds (i + 1) maxLatency maxPeer)"

text \<open>The flag and the counters of a chunk that is moved to the network.\<close>

definition mark_moved :: "ChunkRef \<Rightarrow> proxy \<Rightarrow> proxy res" where
  "mark_moved r px =
     (case get_cni px r of
        None \<Rightarrow> Inl UndefinedBehaviour
      | Some cni \<Rightarrow>
          ensure (\<not> cni_isNetwork cni)
            (Inr (change_user (cr_fd r) (\<lambda>u. u\<lparr>uc_numMoves := uc_numMoves u + 1, uc_moveBytes := uc_moveBytes u + cr_length r\<rparr>)
              (set_network True r px))))"

lemma dequeue_less: "ILSDequeue q = (q', Some r) \<Longrightarrow> length (iq_q q') < length (iq_q q)"
  by (auto simp: ILSDequeue_def split: if_splits)

lemma sum_list_update_less:
  fixes xs :: "nat list"
  assumes "i < length xs" "y < xs ! i"
  shows "sum_list (xs[i := y]) < sum_list xs"
  using assms by (induction xs arbitrary: i) (auto split: nat.splits)

function balance :: "settings \<Rightarrow> proxy \<Rightarrow> ILSQueue list \<Rightarrow> ILSQueue \<Rightarrow> nat \<Rightarrow> (proxy \<times> ILSQueue list \<times> ILSQueue \<times> nat) res" where
  "balance st px ds nq numMove =
     (let (maxLatency, maxPeer) = max_disk ds 0 (-1) 0 in
      if maxLatency \<le> iq_latency nq then Inr (px, ds, nq, numMove)
      else if maxPeer \<ge> length ds then Inl UndefinedBehaviour
      else case ILSDequeue (ds ! maxPeer) of
        (d, None) \<Rightarrow> Inr (px, ds, nq, numMove)
      | (d, Some cni) \<Rightarrow>
          rbind (ILSEnqueue nq cni PerChunkResponseOverhead) (\<lambda>nq1.
          rbind (mark_moved cni px) (\<lambda>px1.
          rbind (ILSUpdateNetworkLatency st nq1) (\<lambda>nq2.
            balance st px1 (ds[maxPeer := ILSUpdateDiskLatency st d]) nq2 (numMove + 1)))))"
  by pat_completeness auto
termination
proof (relation "measure (\<lambda>(st, px, ds, nq, n). sum_list (map (length \<circ> iq_q) ds))", goal_cases)
  case (2 st px ds nq n lp ml mp d r cni nq1 px1 nq2)
  then have "ILSDequeue (ds ! mp) = (d, Some cni)" "mp < length ds" by simp_all
  then have "length (iq_q d) < length (iq_q (ds ! mp))" "mp < length ds" using dequeue_less by auto
  then have "sum_list ((map (length \<circ> iq_q) ds)[mp := length (iq_q d)]) < sum_list (map (length \<circ> iq_q) ds)"
    by (intro sum_list_update_less) simp_all
  then show ?case by (simp add: map_update ILSUpdateDiskLatency_def)
qed simp

declare balance.simps [simp del]

definition FindBestSchedule :: "(ChunkRef list \<Rightarrow> ChunkRef list) \<Rightarrow> settings \<Rightarrow> nat \<Rightarrow> proxy \<Rightarrow> ils \<Rightarrow> (proxy \<times> ils \<times> nat) res" where
  "FindBestSchedule qsort st numPeers px q =
     (case diskQueue q of
        None \<Rightarrow> Inl UndefinedBehaviour
      | Some all \<Rightarrow>
          if numPeers > length all then Inl UndefinedBehaviour
          else let ds = map (ILSUpdateDiskLatency st \<circ> sort_queue qsort) (take numPeers all) in
            rbind (ILSUpdateNetworkLatency st (sort_queue qsort (networkQueue q))) (\<lambda>nq.
            rbind (balance st px ds nq 0) (\<lambda>(px1, ds1, nq1, numMove).
              Inr (px1, q\<lparr>diskQueue := Some (ds1 @ drop numPeers all), networkQueue := nq1\<rparr>, numMove))))"

section \<open>Filling the queues\<close>

text \<open>One name of a ready block.\<close>

definition populate_name :: "nat \<Rightarrow> u32 \<Rightarrow> nat \<Rightarrow> proxy \<times> ils \<times> nat \<Rightarrow> (proxy \<times> ils \<times> nat) res" where
  "populate_name fd seq pos s =
     (case s of (px, q, n) \<Rightarrow>
       case ref_block px fd seq of
         None \<Rightarrow> Inl UndefinedBehaviour
       | Some ri \<Rightarrow>
           if pos \<ge> length (ri_nameList ri) then Inl UndefinedBehaviour
           else let cni = ri_nameList ri ! pos;
                    r = \<lparr>cr_fd = fd, cr_seq = seq, cr_pos = pos, cr_length = cni_length cni\<rparr>
             in if cni_inMemory cni then Inr (px, q, n)
                else ensure (cni_peerIdx cni \<noteq> -1)
                  (rbind (if cni_isHit cni then
                            (case diskQueue q of
                               None \<Rightarrow> Inl UndefinedBehaviour
                             | Some ds \<Rightarrow>
                                 if cni_peerIdx cni < 0 \<or> nat (cni_peerIdx cni) \<ge> length ds then Inl UndefinedBehaviour
                                 else rbind (ILSEnqueue (ds ! nat (cni_peerIdx cni)) r 0) (\<lambda>d.
                                   Inr (set_network False r px, q\<lparr>diskQueue := Some (ds[nat (cni_peerIdx cni) := d])\<rparr>)))
                          else rbind (ILSEnqueue (networkQueue q) r PerChunkResponseOverhead) (\<lambda>nq.
                            Inr (set_network True r px, q\<lparr>networkQueue := nq\<rparr>))) (\<lambda>(px1, q1).
                   rbind (ILSEnqueue (sendQueue q1) r 0) (\<lambda>sq. Inr (px1, q1\<lparr>sendQueue := sq\<rparr>, n + 1)))))"

text \<open>One ready block.\<close>

definition populate_block :: "nat \<Rightarrow> u32 \<Rightarrow> proxy \<times> ils \<times> nat \<Rightarrow> (proxy \<times> ils \<times> nat) res" where
  "populate_block fd seq s =
     (case s of (px, q, n) \<Rightarrow>
       case ref_block px fd seq of
         None \<Rightarrow> Inl UndefinedBehaviour
       | Some ri \<Rightarrow>
           ensure (ri_numPeekResolved ri = ri_numNames ri)
           (ensure (\<not> ri_getSent ri)
             (rfold (populate_name fd seq) [0..<length (ri_nameList ri)]
               (change_user fd (on_block seq (\<lambda>ri. ri\<lparr>ri_getSent := True\<rparr>)) px, q, n))))"

definition check_ready :: "nat \<Rightarrow> u32 \<Rightarrow> proxy \<Rightarrow> proxy res" where
  "check_ready fd seq px =
     (case ref_block px fd seq of
        None \<Rightarrow> Inl UndefinedBehaviour
      | Some ri \<Rightarrow> ensure (ri_numPeekResolved ri = ri_numNames ri) (ensure (ri_getSent ri) (Inr px)))"

definition populate_user :: "nat \<Rightarrow> proxy \<times> ils \<times> nat \<Rightarrow> (proxy \<times> ils \<times> nat) res" where
  "populate_user fd s =
     (case s of (px, q, n) \<Rightarrow>
       case px_conns px fd of
         None \<Rightarrow> Inl UndefinedBehaviour
       | Some ci \<Rightarrow>
           (case ci_stub ci of
              UserStub u \<Rightarrow>
                if ci_status ci = cs_closed then Inr (px, q, n)
                else rbind (rfold (populate_block fd) (uc_readyList u) (px, q, n)) (\<lambda>(px1, q1, n1).
                  rbind (rfold (check_ready fd) (uc_readyList u) px1) (\<lambda>px2.
                    Inr (change_user fd (\<lambda>u. u\<lparr>uc_readyList := []\<rparr>) px2, q1, n1)))
            | _ \<Rightarrow> Inl UndefinedBehaviour))"

definition PopulateILSQueue :: "proxy \<Rightarrow> ils \<Rightarrow> (proxy \<times> ils \<times> nat) res" where
  "PopulateILSQueue px q = rfold populate_user (g_UserList px) (px, q, 0)"

section \<open>Sending the requests\<close>

definition to_local :: "(PeerInfo \<Rightarrow> PeerInfo) \<Rightarrow> proxy \<Rightarrow> proxy res" where
  "to_local f px = (case g_LocalInfo (px_peers px) of
     None \<Rightarrow> Inl UndefinedBehaviour | Some i \<Rightarrow> Inr (px\<lparr>px_peers := update_peer i f (px_peers px)\<rparr>))"

definition SendRemoteChunkRequest :: "settings \<Rightarrow> proxy \<Rightarrow> ConnectionInfo \<Rightarrow> ChunkNameInfo \<Rightarrow> int \<Rightarrow> bool \<Rightarrow> proxy res" where
  "SendRemoteChunkRequest st px ci cni peerIdx isNetwork =
     ensure (ci_type ci = ct_user)
       (case (ci_stub ci, g_LocalInfo (px_peers px)) of
          (UserStub u, Some local) \<Rightarrow>
            ensure (peerIdx \<noteq> int local)
              (if peerIdx < 0 \<or> nat peerIdx \<ge> length (g_PeerInfo (px_peers px)) then Inl UndefinedBehaviour
               else let peer = nat peerIdx;
                        request = BuildWABodyRequest (pi_netAddr (g_PeerInfo (px_peers px) ! peer)) (cni_sha1 cni) (cni_length cni);
                        px1 = px\<lparr>g_NumChunkRequestSent := g_NumChunkRequestSent px + 1,
                                 px_peers := update_peer peer (\<lambda>pi. pi\<lparr>pi_numRedirected := pi_numRedirected pi + 1,
                                   pi_bytesRedirected := pi_bytesRedirected pi + cni_length cni\<rparr>) (px_peers px)\<rparr>
                 in rbind (WriteToChunkPeer st px1 peerIdx request (int (ci_fd ci))) (\<lambda>px2.
                    rbind (PutChunkRequest (px_requests px2) (px_peers px2) (cni_sha1 cni)
                        \<lparr>srcIP = uc_dip u, srcPort = uc_dport u, dstIP = uc_sip u, dstPort = uc_sport u\<rparr> False
                        (pi_netAddr (g_PeerInfo (px_peers px2) ! peer)) (cni_length cni) peerIdx isNetwork) (\<lambda>(r, p).
                      Inr (px2\<lparr>px_requests := r, px_peers := p\<rparr>))))
        | _ \<Rightarrow> Inl UndefinedBehaviour)"

definition SendLocalChunkRequest :: "settings \<Rightarrow> proxy \<Rightarrow> ConnectionInfo \<Rightarrow> ChunkNameInfo \<Rightarrow> int \<Rightarrow> proxy res" where
  "SendLocalChunkRequest st px ci cni dstPxyIdx =
     ensure (ci_type ci = ct_user)
       (let load = (\<lambda>px v.
              rbind (RefPutChunkCallback (px_cache px) (cni_sha1 cni) (take (block_length v) (pBlock v))) (\<lambda>s.
              rbind (to_local (\<lambda>pi. pi\<lparr>pi_numRedirected := pi_numRedirected pi + 1, pi_bytesRedirected := pi_bytesRedirected pi + cni_length cni\<rparr>)
                  (px\<lparr>px_cache := s\<rparr>)) (\<lambda>px1.
                Inr (px1\<lparr>g_TryReconstruction := True\<rparr>))))
        in case GetTempDiskCache (px_cache px) (cni_sha1 cni) of
             Some v \<Rightarrow> load (px\<lparr>g_NumPutTempHits := g_NumPutTempHits px + 1\<rparr>) v
           | None \<Rightarrow>
               if g_MemCacheOnly st then
                 (case GetMemory (px_cache px) (cni_sha1 cni) of
                    None \<Rightarrow> ensure (dstPxyIdx \<noteq> -1) (SendRemoteChunkRequest st px ci cni dstPxyIdx True)
                  | Some v \<Rightarrow> load px v)
               else
                 (case ci_stub ci of
                    UserStub u \<Rightarrow>
                      rbind (SendCacheRequest st px hc_get ps_nameTreeDelivery (cni_sha1 cni) (sint (cni_length cni)) None
                          (uc_dstPxyIdx u) (Some ci) NoOpaque)
                        (to_local (\<lambda>pi. pi\<lparr>pi_diskPendingChunks := pi_diskPendingChunks pi + 1\<rparr>))
                  | _ \<Rightarrow> Inl UndefinedBehaviour))"

definition SendChunkRequest :: "settings \<Rightarrow> proxy \<Rightarrow> ChunkRef \<Rightarrow> bool \<Rightarrow> (proxy \<times> ChunkRequestType) res" where
  "SendChunkRequest st px r forceNetwork =
     (case (px_conns px (cr_fd r), ref_block px (cr_fd r) (cr_seq r), get_cni px r) of
        (Some ci, Some ri, Some cni) \<Rightarrow>
          ensure (ci_type ci = ct_user)
            (case ci_stub ci of
               UserStub u \<Rightarrow>
                 ensure (ri_getSent ri)
                 (ensure (cni_peerIdx cni \<noteq> -1)
                   (if forceNetwork then
                      rbind (SendRemoteChunkRequest st px ci cni (uc_dstPxyIdx u) True) (\<lambda>px1. Inr (px1, cr_origin))
                    else if cni_peerIdx cni < 0 \<or> nat (cni_peerIdx cni) \<ge> length (g_PeerInfo (px_peers px)) then Inl UndefinedBehaviour
                    else if pi_isLocalHost (g_PeerInfo (px_peers px) ! nat (cni_peerIdx cni)) \<or> cni_peerIdx cni = uc_dstPxyIdx u then
                      rbind (SendLocalChunkRequest st px ci cni (uc_dstPxyIdx u)) (\<lambda>px1. Inr (px1, cr_local))
                    else rbind (SendRemoteChunkRequest st px ci cni (cni_peerIdx cni) False) (\<lambda>px1. Inr (px1, cr_peer))))
             | _ \<Rightarrow> Inl UndefinedBehaviour)
      | _ \<Rightarrow> Inl UndefinedBehaviour)"

text \<open>The loop over the send queue.\<close>

definition send_request :: "settings \<Rightarrow> ChunkRef \<Rightarrow> proxy \<Rightarrow> proxy res" where
  "send_request st r px =
     (case get_cni px r of
        None \<Rightarrow> Inl UndefinedBehaviour
      | Some cni \<Rightarrow> rbind (SendChunkRequest st px r (cni_isNetwork cni)) (\<lambda>(px1, cr). Inr px1))"

definition IntelligentLoadShedding :: "(ChunkRef list \<Rightarrow> ChunkRef list) \<Rightarrow> settings \<Rightarrow> proxy \<Rightarrow> ils \<Rightarrow> (proxy \<times> ils \<times> nat) res" where
  "IntelligentLoadShedding qsort st px q =
     (if \<not> g_NewPeekUpdate px then Inr (px, q, 0)
      else let numPeers = length (g_PeerInfo (px_peers px)) in
        rbind (InitILS numPeers q) (\<lambda>q1.
        rbind (PopulateILSQueue (px\<lparr>g_NewPeekUpdate := False\<rparr>) q1) (\<lambda>(px2, q2, numChunksScheduled).
        rbind (if numChunksScheduled > 0
               then rbind (FindBestSchedule qsort st numPeers px2 q2) (\<lambda>(px3, q3, numMove). Inr (px3, q3)) else Inr (px2, q2)) (\<lambda>(px3, q3).
          ensure (length (iq_q (sendQueue q3)) = numChunksScheduled)
            (rbind (rfold (send_request st) (iq_q (sendQueue q3)) px3) (\<lambda>px4. Inr (px4, q3, numChunksScheduled)))))))"

section \<open>Rounding\<close>

lemma half_even_nonneg: "0 \<le> x \<Longrightarrow> 0 \<le> half_even x"
  by (simp add: half_even_def Let_def)

lemma fl_nonneg: "0 \<le> x \<Longrightarrow> 0 \<le> fl p x"
  using half_even_nonneg[of "\<bar>x\<bar> / 2 powi fl_exp p \<bar>x\<bar>"] by (simp add: fl_def Let_def sgn_if zero_le_power_int)

lemma fl_zero [simp]: "fl p 0 = 0"
  by (simp add: fl_def)

definition disk_lat :: "settings \<Rightarrow> nat \<Rightarrow> rat" where
  "disk_lat st n = fl 24 (of_int (uint (of_int (g_SeekLatency st) * of_nat n :: u32)))"

definition net_lat :: "settings \<Rightarrow> u32 \<Rightarrow> rat" where
  "net_lat st tot = fl 24 (fl 24 (fl 53 (of_int (uint tot) * 8 / of_int (g_WanLinkBW st))) + fl 24 (of_int (g_WanLinkRTT st)))"

lemma net_lat_nonneg:
  assumes "0 < g_WanLinkBW st" "0 \<le> g_WanLinkRTT st"
  shows "0 \<le> net_lat st tot"
proof -
  have "0 \<le> rat_of_int (uint tot) * 8 / rat_of_int (g_WanLinkBW st)"
    using assms(1) by (intro divide_nonneg_nonneg mult_nonneg_nonneg) (simp only: of_int_0_le_iff unsigned_greater_eq, simp_all)
  moreover have "0 \<le> rat_of_int (g_WanLinkRTT st)" using assms(2) by simp
  ultimately show ?thesis unfolding net_lat_def by (intro fl_nonneg add_nonneg_nonneg)
qed

lemma disk_lat_zero [simp]: "disk_lat st 0 = 0"
  by (simp add: disk_lat_def)

section \<open>Names\<close>

text \<open>Where a reference points to, and the references that can still be moved.\<close>

definition loc :: "ChunkRef \<Rightarrow> nat \<times> u32 \<times> nat" where
  "loc r = (cr_fd r, cr_seq r, cr_pos r)"

definition movable :: "proxy \<Rightarrow> ChunkRef list \<Rightarrow> bool" where
  "movable px rs \<longleftrightarrow> distinct (map loc rs) \<and> (\<forall>r \<in> set rs. \<exists>cni. get_cni px r = Some cni \<and> \<not> cni_isNetwork cni)"

lemma get_cni_loc: "loc r = loc r' \<Longrightarrow> get_cni px r = get_cni px r'"
  by (simp add: get_cni_def loc_def split: option.split)

lemma find_map_block:
  assumes "\<And>ri. ri_seq_no (f ri) = ri_seq_no ri"
  shows "GetReassembleInfo (map (\<lambda>ri. if ri_seq_no ri = s then f ri else ri) rl) s' =
    map_option (\<lambda>ri. if s' = s then f ri else ri) (GetReassembleInfo rl s')"
  unfolding GetReassembleInfo_def by (induction rl) (auto simp: assms)

lemma ref_block_change:
  assumes "\<And>u. uc_reassembleList (f u) = uc_reassembleList u"
  shows "ref_block (change_user fd f px) = ref_block px"
  by (auto simp: ref_block_def change_user_def fun_eq_iff assms split: option.splits stub.splits)

lemma ref_block_on:
  assumes "\<And>ri. ri_seq_no (f ri) = ri_seq_no ri"
  shows "ref_block (change_user fd (on_block s f) px) fd' s' =
    (if fd' = fd \<and> s' = s then map_option f (ref_block px fd s) else ref_block px fd' s')"
  using find_map_block[of f s _ s', OF assms]
  by (auto simp: ref_block_def change_user_def on_block_def option.map_ident split: option.splits stub.splits)

lemma get_set_network:
  "get_cni (set_network b r px) r' =
     (if loc r' = loc r then map_option (\<lambda>cni. cni\<lparr>cni_isNetwork := b\<rparr>) (get_cni px r) else get_cni px r')"
  unfolding get_cni_def set_network_def
  by (subst ref_block_on) (auto simp: set_name_def loc_def split: option.splits)

lemma get_change:
  "(\<And>u. uc_reassembleList (f u) = uc_reassembleList u) \<Longrightarrow> get_cni (change_user fd f px) = get_cni px"
  by (auto simp: get_cni_def ref_block_change fun_eq_iff)

lemma mark_moved_ok:
  assumes "get_cni px r = Some cni" "\<not> cni_isNetwork cni"
  shows "\<exists>px'. mark_moved r px = Inr px' \<and>
    (\<forall>r'. get_cni px' r' = (if loc r' = loc r then Some (cni\<lparr>cni_isNetwork := True\<rparr>) else get_cni px r'))"
  using assms by (simp add: mark_moved_def get_change get_set_network)

section \<open>Balance\<close>

lemma max_disk_ok:
  "max_disk ds i m p = (M, P) \<Longrightarrow> m \<le> M \<and> (\<forall>d \<in> set ds. iq_latency d \<le> M) \<and>
     (M = m \<and> P = p \<or> m < M \<and> i \<le> P \<and> P < i + length ds \<and> iq_latency (ds ! (P - i)) = M \<and> (\<forall>j < P - i. iq_latency (ds ! j) < M))"
proof (induction ds arbitrary: i m p)
  case (Cons d ds)
  show ?case
  proof (cases "iq_latency d > m")
    case True
    with Cons.prems Cons.IH[of "i + 1" "iq_latency d" i] show ?thesis by (auto simp: nth_Cons')
  next
    case False
    with Cons.prems Cons.IH[of "i + 1" m p] show ?thesis by (auto simp: nth_Cons')
  qed
qed simp

definition lat_ok :: "settings \<Rightarrow> ILSQueue list \<Rightarrow> ILSQueue \<Rightarrow> bool" where
  "lat_ok st ds nq \<longleftrightarrow> (\<forall>d \<in> set ds. iq_latency d = disk_lat st (length (iq_q d))) \<and> iq_latency nq = net_lat st (iq_totBytes nq)"

text \<open>
  The specification of load shedding, on the queues of the disks and the bytes on the network. As long
  as some disk is slower than the network, the last chunk of the queue of the slowest disk, the first of
  equals, goes to the network.
\<close>

definition slowest :: "settings \<Rightarrow> ChunkRef list list \<Rightarrow> nat \<Rightarrow> bool" where
  "slowest st qs i \<longleftrightarrow> i < length qs \<and> (\<forall>xs \<in> set qs. disk_lat st (length xs) \<le> disk_lat st (length (qs ! i))) \<and>
     (\<forall>j < i. disk_lat st (length (qs ! j)) < disk_lat st (length (qs ! i)))"

abbreviation net_bytes :: "ChunkRef \<Rightarrow> u32" where
  "net_bytes r \<equiv> cr_length r + of_nat PerChunkResponseOverhead"

inductive sheds :: "settings \<Rightarrow> ChunkRef list list \<Rightarrow> u32 \<Rightarrow> ChunkRef list \<Rightarrow> ChunkRef list list \<Rightarrow> u32 \<Rightarrow> bool" for st where
  shed_none: "\<forall>xs \<in> set qs. disk_lat st (length xs) \<le> net_lat st tot \<Longrightarrow> sheds st qs tot [] qs tot"
| shed_one: "slowest st qs i \<Longrightarrow> net_lat st tot < disk_lat st (length (qs ! i)) \<Longrightarrow> qs ! i = xs @ [r] \<Longrightarrow>
    sheds st (qs[i := xs]) (tot + net_bytes r) moved qs' tot' \<Longrightarrow> sheds st qs tot (r # moved) qs' tot'"

inductive_cases sheds_noneE: "sheds st qs tot [] qs' tot'"

definition flagged :: "proxy \<Rightarrow> proxy \<Rightarrow> ChunkRef list \<Rightarrow> bool" where
  "flagged px px' moved \<longleftrightarrow>
     (\<forall>r. get_cni px' r = (if loc r \<in> set (map loc moved) then map_option (\<lambda>cni. cni\<lparr>cni_isNetwork := True\<rparr>) (get_cni px r) else get_cni px r))"

lemma mset_concat_update:
  assumes "i < length xss" "xss ! i = xs @ [x]"
  shows "mset (concat xss) = add_mset x (mset (concat (xss[i := xs])))"
  using assms by (induction xss arbitrary: i) (auto split: nat.splits)

text \<open>
  What follows from the specification: no disk is slower than the network in the end, each disk keeps the
  front of its queue, nothing is lost or doubled, and without the last move some disk would be slower
  than the network.
\<close>

lemma sheds_balances: "sheds st qs tot moved qs' tot' \<Longrightarrow> \<forall>xs \<in> set qs'. disk_lat st (length xs) \<le> net_lat st tot'"
  by (induction rule: sheds.induct)

lemma sheds_conserves: "sheds st qs tot moved qs' tot' \<Longrightarrow> mset (concat qs) = mset (concat qs') + mset moved"
  by (induction rule: sheds.induct) (auto simp: slowest_def mset_concat_update)

lemma sheds_fronts: "sheds st qs tot moved qs' tot' \<Longrightarrow> length qs' = length qs \<and> (\<forall>j < length qs. \<exists>k. qs' ! j = take k (qs ! j))"
proof (induction rule: sheds.induct)
  case (shed_none qs tot)
  have "\<exists>k. qs ! j = take k (qs ! j)" for j by (rule exI[of _ "length (qs ! j)"]) simp
  then show ?case by blast
next
  case (shed_one qs i tot xs r moved qs' tot')
  have "\<exists>k. qs' ! j = take k (qs ! j)" if j: "j < length qs" for j
  proof (cases "j = i")
    case True
    with shed_one.IH j obtain k where "qs' ! j = take k xs" by auto
    then have "qs' ! j = take (min k (length xs)) (qs ! j)" using True shed_one.hyps(3) by (simp add: min_def)
    then show ?thesis by blast
  next
    case False
    then have "qs[i := xs] ! j = qs ! j" by simp
    then show ?thesis using shed_one.IH j by (metis length_list_update)
  qed
  then show ?case using shed_one.IH by simp
qed

lemma sheds_last_needed:
  "sheds st qs tot moved qs' tot' \<Longrightarrow> moved \<noteq> [] \<Longrightarrow> \<exists>xs \<in> set qs'. net_lat st (tot' - net_bytes (last moved)) < disk_lat st (length xs + 1)"
proof (induction rule: sheds.induct)
  case (shed_one qs i tot xs r moved qs' tot')
  show ?case
  proof (cases "moved = []")
    case True
    then have e: "qs' = qs[i := xs]" "tot' = tot + net_bytes r" using shed_one.hyps(4) by (auto elim: sheds_noneE)
    have "xs \<in> set qs'" using shed_one.hyps(1) unfolding e(1) by (auto simp: slowest_def intro: set_update_memI)
    then show ?thesis using shed_one.hyps(2,3) True unfolding e(2) by auto
  next
    case False
    then show ?thesis using shed_one.IH by simp
  qed
qed simp

lemma balance_ok:
  assumes "lat_ok st ds nq" "movable px (concat (map iq_q ds))" "length (iq_q nq) + length (concat (map iq_q ds)) < MAX_ILS_QUEUE"
    and "0 < g_WanLinkBW st" "0 \<le> g_WanLinkRTT st"
  shows "\<exists>px' ds' nq' moved. balance st px ds nq n = Inr (px', ds', nq', n + length moved) \<and> lat_ok st ds' nq' \<and>
    sheds st (map iq_q ds) (iq_totBytes nq) moved (map iq_q ds') (iq_totBytes nq') \<and> iq_q nq' = iq_q nq @ moved \<and> flagged px px' moved"
  using assms(1-3)
proof (induction "sum_list (map (length \<circ> iq_q) ds)" arbitrary: px ds nq n rule: less_induct)
  case less
  obtain M P where m: "max_disk ds 0 (-1) 0 = (M, P)" by fastforce
  note mo = max_disk_ok[OF m]
  have nl: "iq_latency nq = net_lat st (iq_totBytes nq)" "0 \<le> iq_latency nq"
    using less.prems(1) net_lat_nonneg[OF assms(4,5)] by (simp_all add: lat_ok_def)
  show ?case
  proof (cases "M \<le> iq_latency nq")
    case True
    then have "balance st px ds nq n = Inr (px, ds, nq, n)" using m by (simp add: balance.simps[of st px ds nq n])
    moreover have "sheds st (map iq_q ds) (iq_totBytes nq) [] (map iq_q ds) (iq_totBytes nq)"
      using True mo less.prems(1) by (intro sheds.shed_none) (fastforce simp: lat_ok_def)
    ultimately show ?thesis using less.prems(1) by (intro exI[of _ px] exI[of _ ds] exI[of _ nq] exI[of _ "[]"]) (simp add: flagged_def)
  next
    case False
    then have P: "P < length ds" "iq_latency (ds ! P) = M" "\<forall>j < P. iq_latency (ds ! j) < M" using mo nl(2) by auto
    have slow: "slowest st (map iq_q ds) P" using P mo less.prems(1) by (fastforce simp: slowest_def lat_ok_def)
    have lat: "iq_latency (ds ! P) = disk_lat st (length (iq_q (ds ! P)))" using less.prems(1) P(1) by (simp add: lat_ok_def)
    have "iq_q (ds ! P) \<noteq> []" using False P(2) nl(2) lat by auto
    then obtain xs r where q: "iq_q (ds ! P) = xs @ [r]" by (metis rev_exhaust)
    let ?d = "(ds ! P)\<lparr>iq_q := xs, iq_totBytes := iq_totBytes (ds ! P) - cr_length r\<rparr>"
    let ?nq1 = "nq\<lparr>iq_q := iq_q nq @ [r], iq_totBytes := iq_totBytes nq + (cr_length r + of_nat PerChunkResponseOverhead)\<rparr>"
    let ?nq2 = "?nq1\<lparr>iq_latency := net_lat st (iq_totBytes ?nq1)\<rparr>"
    let ?ds = "ds[P := ILSUpdateDiskLatency st ?d]"
    have dq: "ILSDequeue (ds ! P) = (?d, Some r)" using q by (simp add: ILSDequeue_def)
    have qs: "map iq_q ?ds = (map iq_q ds)[P := xs]" by (simp add: map_update ILSUpdateDiskLatency_def)
    have ms: "mset (concat (map iq_q ds)) = add_mset r (mset (concat (map iq_q ?ds)))"
      unfolding qs using P(1) q by (intro mset_concat_update) simp_all
    then have size: "length (concat (map iq_q ds)) = Suc (length (concat (map iq_q ?ds)))" by (metis size_add_mset size_mset)
    have eq: "ILSEnqueue nq r PerChunkResponseOverhead = Inr ?nq1" using less.prems(3) size by (simp add: ILSEnqueue_def)
    have set: "set (concat (map iq_q ds)) = insert r (set (concat (map iq_q ?ds)))" using ms by (metis set_mset_add_mset_insert set_mset_mset)
    have dist: "loc r \<notin> loc ` set (concat (map iq_q ?ds))" "distinct (map loc (concat (map iq_q ?ds)))"
    proof -
      have "mset (map loc (concat (map iq_q ds))) = add_mset (loc r) (mset (map loc (concat (map iq_q ?ds))))" using ms by simp
      then have "distinct (loc r # map loc (concat (map iq_q ?ds)))"
        using less.prems(2) unfolding movable_def by (metis mset.simps(2) mset_eq_imp_distinct_iff)
      then show "loc r \<notin> loc ` set (concat (map iq_q ?ds))" "distinct (map loc (concat (map iq_q ?ds)))" by simp_all
    qed
    from less.prems(2) set obtain cni where c: "get_cni px r = Some cni" "\<not> cni_isNetwork cni" unfolding movable_def by blast
    from mark_moved_ok[OF c] obtain px1 where mk: "mark_moved r px = Inr px1"
      "\<forall>r'. get_cni px1 r' = (if loc r' = loc r then Some (cni\<lparr>cni_isNetwork := True\<rparr>) else get_cni px r')" by blast
    have ul: "ILSUpdateNetworkLatency st ?nq1 = Inr ?nq2" using assms(4) by (simp add: ILSUpdateNetworkLatency_def net_lat_def Let_def)
    have run: "balance st px ds nq n = balance st px1 ?ds ?nq2 (n + 1)"
      using False m P(1) dq eq mk(1) ul by (simp add: balance.simps[of st px ds nq n])
    have smaller: "sum_list (map (length \<circ> iq_q) ?ds) < sum_list (map (length \<circ> iq_q) ds)"
      using size by (simp add: length_concat flip: map_map)
    have lo: "lat_ok st ?ds ?nq2"
      using less.prems(1) by (auto simp: lat_ok_def ILSUpdateDiskLatency_def disk_lat_def dest!: set_update_subset_insert[THEN subsetD])
    have mv: "movable px1 (concat (map iq_q ?ds))" unfolding movable_def
    proof (intro conjI ballI)
      fix r' assume r': "r' \<in> set (concat (map iq_q ?ds))"
      then have "loc r' \<noteq> loc r" using dist(1) by (metis imageI)
      then show "\<exists>cni. get_cni px1 r' = Some cni \<and> \<not> cni_isNetwork cni" using mk(2) less.prems(2) set r' unfolding movable_def by auto
    qed (rule dist(2))
    have rm: "length (iq_q ?nq2) + length (concat (map iq_q ?ds)) < MAX_ILS_QUEUE" using less.prems(3) size by simp
    from less.hyps[OF smaller lo mv rm, of "n + 1"] obtain px' ds' nq' moved where
      i: "balance st px1 ?ds ?nq2 (n + 1) = Inr (px', ds', nq', n + 1 + length moved)" "lat_ok st ds' nq'"
        "sheds st (map iq_q ?ds) (iq_totBytes ?nq2) moved (map iq_q ds') (iq_totBytes nq')" "iq_q nq' = iq_q ?nq2 @ moved" "flagged px1 px' moved" by blast
    have "net_lat st (iq_totBytes nq) < disk_lat st (length (map iq_q ds ! P))" using False P(1,2) lat nl(1) by simp
    then have "sheds st (map iq_q ds) (iq_totBytes nq) (r # moved) (map iq_q ds') (iq_totBytes nq')"
      using i(3) P(1) q unfolding qs by (intro sheds.shed_one[OF slow]) simp_all
    moreover have "\<forall>r'. loc r' = loc r \<longrightarrow> get_cni px r' = Some cni" using c(1) get_cni_loc by metis
    then have "flagged px px' (r # moved)" using i(5) mk(2) by (auto simp: flagged_def)
    ultimately show ?thesis unfolding run using i(1,2,4) by (intro exI[of _ px'] exI[of _ ds'] exI[of _ nq'] exI[of _ "r # moved"]) simp
  qed
qed

section \<open>Properties\<close>

text \<open>
  Claim C14: load shedding balances the disks against the network. Take queues whose disk chunks are names
  of waiting blocks that are not marked for the network yet, with room on the network queue, and any
  \<open>qsort\<close> that sorts. \<open>FindBestSchedule\<close> ends and passes every assertion. It refines the specification
  \<open>sheds\<close>: each chunk it moves is taken from the disk that is the slowest at that moment, which is
  slower than the network. Afterwards no disk has a greater latency than the network, by the code's own
  float arithmetic. Each disk keeps the largest of its chunks, none of them smaller than one it lost;
  the others are appended to the network queue, and together they are the chunks that were queued.
  Exactly the moved names are marked for the network. Nothing is moved in vain: without the last move
  some disk would be slower than the network.
\<close>

theorem FindBestSchedule_balances:
  assumes "qsort_ok qsort" "diskQueue q = Some ds" "movable px (concat (map iq_q ds))"
    and "length (iq_q (networkQueue q)) + length (concat (map iq_q ds)) < MAX_ILS_QUEUE" "0 < g_WanLinkBW st" "0 \<le> g_WanLinkRTT st"
  shows "\<exists>px' q' ds' moved. FindBestSchedule qsort st (length ds) px q = Inr (px', q', length moved) \<and> diskQueue q' = Some ds' \<and> sendQueue q' = sendQueue q \<and>
    sheds st (map (qsort \<circ> iq_q) ds) (iq_totBytes (networkQueue q)) moved (map iq_q ds') (iq_totBytes (networkQueue q')) \<and>
    (\<forall>d \<in> set ds'. iq_latency d \<le> iq_latency (networkQueue q')) \<and>
    (\<forall>i < length ds. \<exists>k. iq_q (ds' ! i) = take k (qsort (iq_q (ds ! i)))) \<and> length ds' = length ds \<and>
    (\<forall>i < length ds. \<forall>r \<in> set (iq_q (ds' ! i)). \<forall>m \<in># mset (iq_q (ds ! i)) - mset (iq_q (ds' ! i)). sint (cr_length m) \<le> sint (cr_length r)) \<and>
    iq_q (networkQueue q') = qsort (iq_q (networkQueue q)) @ moved \<and>
    mset (concat (map iq_q ds)) = mset (concat (map iq_q ds')) + mset moved \<and>
    (\<forall>r. get_cni px' r = (if loc r \<in> set (map loc moved) then map_option (\<lambda>cni. cni\<lparr>cni_isNetwork := True\<rparr>) (get_cni px r) else get_cni px r)) \<and>
    (moved \<noteq> [] \<longrightarrow> (\<exists>d \<in> set ds'. disk_lat st (length (iq_q d) + 1) >
       net_lat st (iq_totBytes (networkQueue q') - (cr_length (last moved) + of_nat PerChunkResponseOverhead))))"
proof -
  let ?ds = "map (ILSUpdateDiskLatency st \<circ> sort_queue qsort) ds"
  let ?nq = "(sort_queue qsort (networkQueue q))\<lparr>iq_latency := net_lat st (iq_totBytes (networkQueue q))\<rparr>"
  have perm: "mset (qsort xs) = mset xs" for xs using assms(1) by (simp add: qsort_ok_def)
  have qs: "map iq_q ?ds = map (qsort \<circ> iq_q) ds" by (simp add: ILSUpdateDiskLatency_def sort_queue_def)
  have ms: "mset (concat (map iq_q ?ds)) = mset (concat (map iq_q ds))"
    unfolding qs by (induction ds) (simp_all add: perm)
  then have sz: "length (concat (map iq_q ?ds)) = length (concat (map iq_q ds))" by (metis size_mset)
  have "distinct (map loc (concat (map iq_q ?ds))) = distinct (map loc (concat (map iq_q ds)))"
    using ms by (intro mset_eq_imp_distinct_iff) (simp only: mset_map)
  moreover have "set (concat (map iq_q ?ds)) = set (concat (map iq_q ds))" using ms by (metis set_mset_mset)
  ultimately have mv: "movable px (concat (map iq_q ?ds))" using assms(3) unfolding movable_def by blast
  have "lat_ok st ?ds ?nq" by (auto simp: lat_ok_def ILSUpdateDiskLatency_def disk_lat_def sort_queue_def)
  moreover have "length (iq_q ?nq) = length (iq_q (networkQueue q))" using arg_cong[OF perm, of size] by (simp add: sort_queue_def)
  then have "length (iq_q ?nq) + length (concat (map iq_q ?ds)) < MAX_ILS_QUEUE" using assms(4) unfolding sz by simp
  ultimately obtain px' ds' nq' moved where
    b: "balance st px ?ds ?nq 0 = Inr (px', ds', nq', length moved)" "lat_ok st ds' nq'"
      "sheds st (map iq_q ?ds) (iq_totBytes ?nq) moved (map iq_q ds') (iq_totBytes nq')" "iq_q nq' = iq_q ?nq @ moved" "flagged px px' moved"
    using balance_ok[OF _ mv _ assms(5,6), of ?nq 0] by auto
  have u: "ILSUpdateNetworkLatency st (sort_queue qsort (networkQueue q)) = Inr ?nq"
    using assms(5) by (simp add: ILSUpdateNetworkLatency_def net_lat_def Let_def sort_queue_def)
  have run: "FindBestSchedule qsort st (length ds) px q = Inr (px', q\<lparr>diskQueue := Some ds', networkQueue := nq'\<rparr>, length moved)"
    using b(1) u assms(2) by (simp add: FindBestSchedule_def)
  have sh: "sheds st (map (qsort \<circ> iq_q) ds) (iq_totBytes (networkQueue q)) moved (map iq_q ds') (iq_totBytes nq')"
    using b(3) unfolding qs by (simp add: sort_queue_def)
  have fr: "length ds' = length ds" "\<forall>i < length ds. \<exists>k. iq_q (ds' ! i) = take k (qsort (iq_q (ds ! i)))"
    using sheds_fronts[OF sh] by auto
  have "sint (cr_length m) \<le> sint (cr_length r)"
    if "i < length ds" "r \<in> set (iq_q (ds' ! i))" "m \<in># mset (iq_q (ds ! i)) - mset (iq_q (ds' ! i))" for i r m
    using fr(2) that sorted_front_largest[OF assms(1)] by blast
  moreover have "\<forall>d \<in> set ds'. iq_latency d \<le> iq_latency nq'" using sheds_balances[OF sh] b(2) by (simp add: lat_ok_def)
  moreover have "mset (concat (map iq_q ds)) = mset (concat (map iq_q ds')) + mset moved" using sheds_conserves[OF b(3)] ms by simp
  moreover have "moved \<noteq> [] \<longrightarrow> (\<exists>d \<in> set ds'. disk_lat st (length (iq_q d) + 1) > net_lat st (iq_totBytes nq' - net_bytes (last moved)))"
    using sheds_last_needed[OF sh] by auto
  ultimately show ?thesis using run sh fr b(4,5)
    by (intro exI[of _ px'] exI[of _ "q\<lparr>diskQueue := Some ds', networkQueue := nq'\<rparr>"] exI[of _ ds'] exI[of _ moved])
      (simp add: flagged_def sort_queue_def)
qed

text \<open>
  A disk with one chunk and a disk with two, both slower than the network, which has a round trip of 10
  milliseconds: the smaller chunk of the second disk is moved, and that is enough.
\<close>

definition demo_ref :: "nat \<Rightarrow> u32 \<Rightarrow> ChunkRef" where
  "demo_ref pos len = \<lparr>cr_fd = 9, cr_seq = 0, cr_pos = pos, cr_length = len\<rparr>"

definition demo_name_info :: "u32 \<Rightarrow> byte \<Rightarrow> ChunkNameInfo" where
  "demo_name_info len b = \<lparr>cni_isHit = True, cni_inMemory = False, cni_length = len, cni_peerIdx = 0, cni_isNetwork = False, cni_sha1 = replicate 20 b\<rparr>"

definition demo_ready :: proxy where
  "demo_ready = demo_proxy (empty_cache 0) (snd (projr (CreateConnectionTables None)))
     (demo_conn (demo_user\<lparr>uc_reassembleList := [(demo_waiting 0)\<lparr>ri_nameList :=
        [demo_name_info 4000 1, demo_name_info 1000 2, demo_name_info 5000 3]\<rparr>]\<rparr>)) []"

definition demo_disks :: "ILSQueue list" where
  "demo_disks = [\<lparr>iq_q = [demo_ref 0 4000], iq_totBytes = 4000, iq_latency = 0\<rparr>,
     \<lparr>iq_q = [demo_ref 1 1000, demo_ref 2 5000], iq_totBytes = 6000, iq_latency = 0\<rparr>]"

definition demo_ils :: ils where
  "demo_ils = \<lparr>diskQueue = Some demo_disks, networkQueue = \<lparr>iq_q = [], iq_totBytes = 0, iq_latency = 0\<rparr>,
     sendQueue = \<lparr>iq_q = [demo_ref 0 4000, demo_ref 1 1000, demo_ref 2 5000], iq_totBytes = 10000, iq_latency = 0\<rparr>\<rparr>"

abbreviation demo_wan :: settings where
  "demo_wan \<equiv> demo_settings\<lparr>g_WanLinkRTT := 10\<rparr>"

lemma demo_latencies:
  "disk_lat demo_wan 1 < disk_lat demo_wan 2" "net_lat demo_wan 0 < disk_lat demo_wan 2" "disk_lat demo_wan 1 \<le> net_lat demo_wan (0 + (1000 + of_nat PerChunkResponseOverhead))"
  by code_simp+

text \<open>The specification allows one run only.\<close>

lemma demo_sheds:
  assumes "sheds demo_wan [[a], [b, c]] 0 moved qs' tot'" "cr_length c = 1000"
  shows "moved = [c] \<and> qs' = [[a], [b]]"
proof -
  have top: "\<not> (\<forall>xs \<in> set [[a], [b, c]]. disk_lat demo_wan (length xs) \<le> net_lat demo_wan 0)"
    using demo_latencies(2) by (simp add: numeral_2_eq_2)
  have fin: "\<not> net_lat demo_wan (0 + net_bytes c) < disk_lat demo_wan (length ([[a], [b]] ! i))" if "i < 2" for i
    using that demo_latencies(3) assms(2) by (auto simp: less_Suc_eq numeral_2_eq_2)
  from assms(1) show ?thesis
  proof cases
    case shed_none
    with top show ?thesis by blast
  next
    case (shed_one i xs r moved1)
    have "i = 1" using shed_one(2) demo_latencies(1) by (auto simp: slowest_def less_Suc_eq numeral_2_eq_2)
    then have x: "xs = [b]" "r = c" "[[a], [b, c]][i := xs] = [[a], [b]]" using shed_one(4) by (auto simp: append_eq_Cons_conv)
    have "sheds demo_wan [[a], [b]] (0 + net_bytes c) moved1 qs' tot'" using shed_one(5) unfolding x(3) unfolding x(2) .
    then show ?thesis
    proof cases
      case shed_none
      then show ?thesis using shed_one(1) x by simp
    next
      case (shed_one j ys s ms)
      then show ?thesis using fin[of j] by (simp add: slowest_def)
    qed
  qed
qed

theorem FindBestSchedule_balances_witness:
  "\<exists>px' q'. FindBestSchedule (sort_key (\<lambda>r. - sint (cr_length r))) demo_wan 2 demo_ready demo_ils = Inr (px', q', 1) \<and>
     map_option (map iq_q) (diskQueue q') = Some [[demo_ref 0 4000], [demo_ref 2 5000]] \<and> iq_q (networkQueue q') = [demo_ref 1 1000] \<and>
     map_option cni_isNetwork (get_cni px' (demo_ref 1 1000)) = Some True \<and> map_option cni_isNetwork (get_cni px' (demo_ref 0 4000)) = Some False"
proof -
  let ?sort = "sort_key (\<lambda>r. - sint (cr_length r))"
  have g: "get_cni demo_ready (demo_ref i n) = (if i = 0 then Some (demo_name_info 4000 1) else if i = 1 then Some (demo_name_info 1000 2)
      else if i = 2 then Some (demo_name_info 5000 3) else None)" for i n
    by (auto simp: get_cni_def ref_block_def demo_ready_def demo_proxy_def demo_conn_def demo_ref_def GetReassembleInfo_def demo_waiting_def nth_Cons')
  have h: "diskQueue demo_ils = Some demo_disks" "movable demo_ready (concat (map iq_q demo_disks))"
    "length (iq_q (networkQueue demo_ils)) + length (concat (map iq_q demo_disks)) < MAX_ILS_QUEUE" "0 < g_WanLinkBW demo_wan" "0 \<le> g_WanLinkRTT demo_wan"
    by (simp_all add: demo_ils_def demo_disks_def movable_def g demo_name_info_def MAX_ILS_QUEUE_def demo_settings_def) (simp add: loc_def demo_ref_def)
  have s: "map (?sort \<circ> iq_q) demo_disks = [[demo_ref 0 4000], [demo_ref 2 5000, demo_ref 1 1000]]" by (simp add: demo_disks_def demo_ref_def)
  have n: "iq_totBytes (networkQueue demo_ils) = 0" "iq_q (networkQueue demo_ils) = []" "length demo_disks = 2" by (simp_all add: demo_ils_def demo_disks_def)
  from FindBestSchedule_balances[OF sort_key_qsort_ok h] obtain px' q' ds' moved where
    r: "FindBestSchedule ?sort demo_wan 2 demo_ready demo_ils = Inr (px', q', length moved)" "diskQueue q' = Some ds'"
      "sheds demo_wan [[demo_ref 0 4000], [demo_ref 2 5000, demo_ref 1 1000]] 0 moved (map iq_q ds') (iq_totBytes (networkQueue q'))"
      "iq_q (networkQueue q') = moved"
      "\<forall>r. get_cni px' r = (if loc r \<in> set (map loc moved) then map_option (\<lambda>cni. cni\<lparr>cni_isNetwork := True\<rparr>) (get_cni demo_ready r) else get_cni demo_ready r)"
    unfolding s n by auto
  have m: "moved = [demo_ref 1 1000]" "map iq_q ds' = [[demo_ref 0 4000], [demo_ref 2 5000]]"
    using demo_sheds[OF r(3)] by (simp_all add: demo_ref_def)
  have "map_option cni_isNetwork (get_cni px' (demo_ref 1 1000)) = Some True" "map_option cni_isNetwork (get_cni px' (demo_ref 0 4000)) = Some False"
    using r(5) g by (simp_all add: m loc_def demo_ref_def demo_name_info_def)
  with r(1,2,4) m show ?thesis by auto
qed

end
