(* ===== verification/Exchange.thy ===== *)
theory Exchange
  imports Ils
begin

text \<open>
  The exchange of chunks between proxies (waprox/waprox.c: \<open>ProcessChunkData\<close> and its six handlers,
  and the distribution of new chunks to the peers).

  A handler takes the connection \<open>ci\<close> the message came from; it reads only its descriptor, its kind and
  its peer, which no handler changes. What a handler sends may go to the same connection, so the state
  of connections is that of \<open>px_conns\<close>. An entry that does not fit into the received bytes is read from
  memory the message does not cover, which is \<open>UndefinedBehaviour\<close>.
\<close>

section \<open>Requests for chunks\<close>

definition chunk_peer :: "ConnectionInfo \<Rightarrow> int res" where
  "chunk_peer ci = (case ci_stub ci of ChunkStub cci \<Rightarrow> Inr (cc_peerIdx cci) | _ \<Rightarrow> Inl UndefinedBehaviour)"

definition PostProcessBodyRequest :: "settings \<Rightarrow> proxy \<Rightarrow> ConnectionInfo \<Rightarrow> bool \<Rightarrow> ChunkRequestOpaque \<Rightarrow> byte list option \<Rightarrow> proxy res" where
  "PostProcessBodyRequest st px ci isHit opaque block =
     ensure (ci_type ci = ct_chunk)
       (let oneReq = co_request opaque; block_length = sint (rq_length oneReq) in
        ensure (block_length > 0)
          (if isHit then
             (case block of
                None \<Rightarrow> Inl AssertFail
              | Some b \<Rightarrow>
                  if nat block_length > length b then Inl UndefinedBehaviour
                  else rbind (BuildWABodyResponse (rq_sha1 oneReq) (take (nat block_length) b)) (\<lambda>response.
                       rbind (chunk_peer ci) (\<lambda>peerIdx.
                         WriteToChunkPeer st (px\<lparr>g_BytesBlockTX := g_BytesBlockTX px + rq_length oneReq\<rparr>) peerIdx response (int (ci_fd ci)))))
           else
             (case GetPeerInfoByAddr (px_peers px) (rq_orgPxyAddr oneReq) of
                None \<Rightarrow> if g_LocalInfo (px_peers px) = None then Inr px else Inl UndefinedBehaviour
              | Some i \<Rightarrow>
                  if g_LocalInfo (px_peers px) = Some i then Inr px
                  else if i \<ge> length (g_PeerInfo (px_peers px)) then Inl UndefinedBehaviour
                  else let idx = int (pi_idx (g_PeerInfo (px_peers px) ! i));
                           request = BuildWABodyRequest (rq_orgPxyAddr oneReq) (rq_sha1 oneReq) (rq_length oneReq)
                    in rbind (WriteToChunkPeer st (px\<lparr>g_NumChunkRequestSent := g_NumChunkRequestSent px + 1\<rparr>) idx request (int (ci_fd ci))) (\<lambda>px1.
                       rbind (PutChunkRequest (px_requests px1) (px_peers px1) (rq_sha1 oneReq) (co_cid opaque) True (co_prevPxyAddr opaque)
                           (rq_length oneReq) idx True) (\<lambda>(r, p).
                         Inr (px1\<lparr>g_MissRedirected := g_MissRedirected px1 + 1, px_requests := r, px_peers := p\<rparr>))))))"

text \<open>The look-up of a chunk in memory; a chunk that is being stored is copied to the temporary cache.\<close>

definition lookup_chunk :: "proxy \<Rightarrow> sha1 \<Rightarrow> (proxy \<times> CacheValue option) res" where
  "lookup_chunk px name =
     (case SearchCache (px_cache px) name of
        Some v \<Rightarrow> Inr (px, Some v)
      | None \<Rightarrow>
          (case GetTempDiskCache (px_cache px) name of
             None \<Rightarrow> Inr (px, None)
           | Some v \<Rightarrow>
               rbind (RefPutChunkCallback (px_cache px) name (take (block_length v) (pBlock v))) (\<lambda>s.
                 ensure (SearchCache s name \<noteq> None)
                   (Inr (px\<lparr>px_cache := s, g_NumPutTempHits := g_NumPutTempHits px + 1\<rparr>, SearchCache s name)))))"

definition body_request_one :: "settings \<Rightarrow> ConnectionInfo \<Rightarrow> WAOneRequest \<Rightarrow> proxy \<Rightarrow> proxy res" where
  "body_request_one st ci req px =
     (let px1 = px\<lparr>g_PdNumChunkRequests := g_PdNumChunkRequests px + 1, g_NumChunkRequests := g_NumChunkRequests px + 1\<rparr> in
      rbind (chunk_peer ci) (\<lambda>peerIdx.
        ensure (peerIdx \<noteq> -1)
          (if peerIdx < 0 \<or> nat peerIdx \<ge> length (g_PeerInfo (px_peers px1)) then Inl UndefinedBehaviour
           else let opq = \<lparr>co_cid = no_cid, co_request = req, co_prevPxyAddr = pi_netAddr (g_PeerInfo (px_peers px1) ! nat peerIdx)\<rparr> in
             rbind (lookup_chunk px1 (rq_sha1 req)) (\<lambda>(px2, pValue).
               case pValue of
                 Some v \<Rightarrow> ensure (int (block_length v) = sint (rq_length req)) (PostProcessBodyRequest st px2 ci True opq (Some (pBlock v)))
               | None \<Rightarrow>
                   if g_MemCacheOnly st then
                     (case GetMemory (px_cache px2) (rq_sha1 req) of
                        Some v \<Rightarrow> ensure (int (block_length v) = sint (rq_length req)) (PostProcessBodyRequest st px2 ci True opq (Some (pBlock v)))
                      | None \<Rightarrow> PostProcessBodyRequest st px2 ci False opq None)
                   else SendCacheRequest st px2 hc_get ps_bodyRequest (rq_sha1 req) (sint (rq_length req)) None (-1) (Some ci) (BodyOpaque opq)))))"

text \<open>
  The frame of every handler: the fixed part of 11 bytes, the total length, the number of entries.
  \<open>entries\<close> is the loop over them: each is read where the last one ended.
\<close>

fun entries :: "(byte list \<Rightarrow> ('a \<times> nat) option) \<Rightarrow> ('a \<Rightarrow> proxy \<Rightarrow> proxy res) \<Rightarrow> nat \<Rightarrow> byte list \<Rightarrow> proxy \<Rightarrow> proxy res" where
  "entries dec f 0 b px = Inr px"
| "entries dec f (Suc n) b px =
     (case dec b of
        None \<Rightarrow> Inl UndefinedBehaviour
      | Some (x, k) \<Rightarrow> rbind (f x px) (entries dec f n (drop k b)))"

definition chunk_handler :: "(byte list \<Rightarrow> ('a \<times> nat) option) \<Rightarrow> ('a \<Rightarrow> proxy \<Rightarrow> proxy res) \<Rightarrow> ConnectionInfo \<Rightarrow> proxy \<Rightarrow> byte list \<Rightarrow> (proxy \<times> int) res" where
  "chunk_handler dec f ci px buffer =
     ensure (ci_type ci = ct_chunk)
       (if length buffer < sizeof_WABodyRequest then Inl UndefinedBehaviour
        else let tot_len = sint (be32_at buffer 2); num = sint (be32_at buffer 7) in
          ensure (tot_len \<le> int (length buffer))
          (ensure (num \<ge> 1)
            (rbind (entries dec f (nat num) (drop sizeof_WABodyRequest buffer) px) (\<lambda>px1. Inr (px1, tot_len)))))"

definition next_request :: "byte list \<Rightarrow> (WAOneRequest \<times> nat) option" where
  "next_request b = (if length b < sizeof_WAOneRequest then None else Some (read_request b))"

definition next_response :: "byte list \<Rightarrow> (WAOneResponse \<times> nat) option" where
  "next_response b = (if length b < sizeof_WAOneResponse \<or> length b < snd (read_response b) then None else Some (read_response b))"

definition next_name :: "byte list \<Rightarrow> (sha1 \<times> nat) option" where
  "next_name b = (if length b < SHA1_LEN then None else Some (take SHA1_LEN b, SHA1_LEN))"

definition next_peek :: "byte list \<Rightarrow> ((sha1 \<times> bool) \<times> nat) option" where
  "next_peek b = (if length b < SHA1_LEN + 1 then None else Some ((take SHA1_LEN b, b ! SHA1_LEN \<noteq> 0), SHA1_LEN + 1))"

definition ProcessBodyRequest :: "settings \<Rightarrow> proxy \<Rightarrow> ConnectionInfo \<Rightarrow> byte list \<Rightarrow> (proxy \<times> int) res" where
  "ProcessBodyRequest st px ci buffer = chunk_handler next_request (body_request_one st ci) ci px buffer"

section \<open>Responses\<close>

text \<open>A chunk goes to the memory cache or to the disk.\<close>

definition store_chunk :: "settings \<Rightarrow> proxy \<Rightarrow> sha1 \<Rightarrow> byte list \<Rightarrow> proxy res" where
  "store_chunk st px name block =
     (if g_MemCacheOnly st then rbind (PutMemory (px_cache px) name block) (\<lambda>s. Inr (px\<lparr>px_cache := s\<rparr>))
      else PutDisk st px name block)"

definition ProcessOneChunkRequest :: "settings \<Rightarrow> proxy \<Rightarrow> ChunkRequestInfo \<Rightarrow> sha1 \<Rightarrow> byte list \<Rightarrow> int \<Rightarrow> proxy res" where
  "ProcessOneChunkRequest st px cri name block streamID =
     (if cri_isRedirected cri then
        rbind (BuildWABodyResponse name block) (\<lambda>response.
          case GetPeerInfoByAddr (px_peers px) (cri_pxyAddr cri) of
            None \<Rightarrow> Inl UndefinedBehaviour
          | Some i \<Rightarrow>
              if i \<ge> length (g_PeerInfo (px_peers px)) then Inl UndefinedBehaviour
              else rbind (WriteToChunkPeer st px (int (pi_idx (g_PeerInfo (px_peers px) ! i))) response streamID) (\<lambda>px1.
                if \<not> g_NoCache st then store_chunk st px1 name block else Inr px1))
      else
        rbind (RefPutChunkCallback (px_cache px) name block) (\<lambda>s.
          let px1 = px\<lparr>px_cache := s, g_TryReconstruction := True, g_NumChunkResponseReceived := g_NumChunkResponseReceived px + 1,
                       g_BytesBlockRX := g_BytesBlockRX px + of_nat (length block)\<rparr>
          in if cri_peerIdx cri < 0 \<or> nat (cri_peerIdx cri) \<ge> length (g_PeerInfo (px_peers px1)) then Inl UndefinedBehaviour
             else Inr (px1\<lparr>px_peers := update_peer (nat (cri_peerIdx cri))
               (\<lambda>pi. if cri_isNetwork cri then pi\<lparr>pi_networkPendingBytes := pi_networkPendingBytes pi - cri_length cri\<rparr>
                     else pi\<lparr>pi_diskPendingChunks := pi_diskPendingChunks pi - 1\<rparr>) (px_peers px1)\<rparr>)))"

definition body_response_one :: "settings \<Rightarrow> ConnectionInfo \<Rightarrow> WAOneResponse \<Rightarrow> proxy \<Rightarrow> proxy res" where
  "body_response_one st ci resp px =
     ensure (length (rs_block resp) > 0)
       (case GetChunkRequestList (px_requests px) (rs_sha1 resp) of
          None \<Rightarrow> rbind (RefPutChunkCallback (px_cache px) (rs_sha1 resp) (rs_block resp)) (\<lambda>s. Inr (px\<lparr>px_cache := s\<rparr>))
        | Some list \<Rightarrow>
            rbind (case list of
                     [] \<Rightarrow> Inr px
                   | req_walk # _ \<Rightarrow>
                       ensure (cri_length req_walk = of_nat (length (rs_block resp)))
                         (ProcessOneChunkRequest st px req_walk (rs_sha1 resp) (rs_block resp) (int (ci_fd ci)))) (\<lambda>px1.
            rbind (DestroyChunkRequestList (px_requests px1) (rs_sha1 resp)) (\<lambda>r.
              ensure (GetChunkRequestList r (rs_sha1 resp) = None) (Inr (px1\<lparr>px_requests := r\<rparr>)))))"

definition ProcessBodyResponse :: "settings \<Rightarrow> proxy \<Rightarrow> ConnectionInfo \<Rightarrow> byte list \<Rightarrow> (proxy \<times> int) res" where
  "ProcessBodyResponse st px ci buffer = chunk_handler next_response (body_response_one st ci) ci px buffer"

section \<open>Peeking\<close>

definition PostProcessPeekRequest :: "settings \<Rightarrow> proxy \<Rightarrow> ConnectionInfo \<Rightarrow> bool \<Rightarrow> sha1 \<Rightarrow> proxy res" where
  "PostProcessPeekRequest st px ci isHit name =
     ensure (ci_type ci = ct_chunk)
       (let (response, res_len) = BuildWAPeekResponse name (if isHit then 1 else 0) in
        rbind (chunk_peer ci) (\<lambda>peerIdx.
          if res_len > length response then Inl UndefinedBehaviour
          else WriteToChunkPeer st px peerIdx (take res_len response) (int (ci_fd ci))))"

definition peek_request_one :: "settings \<Rightarrow> ConnectionInfo \<Rightarrow> sha1 \<Rightarrow> proxy \<Rightarrow> proxy res" where
  "peek_request_one st ci name px =
     rbind (chunk_peer ci) (\<lambda>peerIdx.
       ensure (peerIdx \<noteq> -1)
         (if SearchCache (px_cache px) name \<noteq> None then PostProcessPeekRequest st px ci True name
          else if g_MemCacheOnly st then PostProcessPeekRequest st px ci (GetMemory (px_cache px) name \<noteq> None) name
          else SendCacheRequest st px hc_peek ps_peekRequest name 0 None (-1) (Some ci) (PeekOpaque name)))"

definition ProcessPeekRequest :: "settings \<Rightarrow> proxy \<Rightarrow> ConnectionInfo \<Rightarrow> byte list \<Rightarrow> (proxy \<times> int) res" where
  "ProcessPeekRequest st px ci buffer = chunk_handler next_name (peek_request_one st ci) ci px buffer"

text \<open>The result of a peek for the name at a position of a waiting block.\<close>

definition update_name :: "proxy \<Rightarrow> nat \<times> u32 \<Rightarrow> nat \<Rightarrow> bool \<Rightarrow> bool \<Rightarrow> proxy res" where
  "update_name px block pos isHit check =
     (case px_conns px (fst block) of
        None \<Rightarrow> Inl UndefinedBehaviour
      | Some ci \<Rightarrow>
          (case ci_stub ci of
             UserStub u \<Rightarrow>
               (case GetReassembleInfo (uc_reassembleList u) (snd block) of
                  None \<Rightarrow> Inl UndefinedBehaviour
                | Some ri \<Rightarrow>
                    if pos \<ge> length (ri_nameList ri) then Inl UndefinedBehaviour
                    else rbind (UpdatePeekResult px u ri (ri_nameList ri ! pos) isHit False) (\<lambda>(px1, u1, ri1, cni1).
                      let ri2 = ri1\<lparr>ri_nameList := (ri_nameList ri1)[pos := cni1]\<rparr>;
                          u2 = on_block (snd block) (\<lambda>_. ri2) u1;
                          u3 = (if check then CheckPeek u2 ri2 else u2)
                      in Inr (put_conn (ci\<lparr>ci_stub := UserStub u3\<rparr>) px1)))
           | _ \<Rightarrow> Inl UndefinedBehaviour))"

definition ProcessOnePeekRequest :: "PeekRequestInfo \<Rightarrow> bool \<Rightarrow> proxy \<Rightarrow> proxy res" where
  "ProcessOnePeekRequest pri isHit px =
     rbind (GetDestinationConnection (g_ConnMap px) (srcIP (pri_cid pri)) (srcPort (pri_cid pri)) (dstIP (pri_cid pri)) (dstPort (pri_cid pri))) (\<lambda>target.
       if target = None then Inl NiceExit
       else rbind (update_name px (pri_ri pri) (pri_cni pri) isHit True) (\<lambda>px1.
         Inr (px1\<lparr>g_NumPeekResponseReceived := g_NumPeekResponseReceived px1 + 1\<rparr>)))"

definition peek_response_one :: "sha1 \<times> bool \<Rightarrow> proxy \<Rightarrow> proxy res" where
  "peek_response_one resp px =
     (case resp of (name, isHit) \<Rightarrow>
       case GetPeekRequestList (px_requests px) name of
         None \<Rightarrow> Inr px
       | Some list \<Rightarrow>
           rbind (rfold (\<lambda>req_walk. ProcessOnePeekRequest req_walk isHit) list px) (\<lambda>px1.
           rbind (DestroyPeekRequestList (px_requests px1) name) (\<lambda>r.
             ensure (GetPeekRequestList r name = None) (Inr (px1\<lparr>px_requests := r\<rparr>)))))"

definition ProcessPeekResponse :: "proxy \<Rightarrow> ConnectionInfo \<Rightarrow> byte list \<Rightarrow> (proxy \<times> int) res" where
  "ProcessPeekResponse px ci buffer = chunk_handler next_peek peek_response_one ci px buffer"

section \<open>Storing chunks at a peer\<close>

definition put_request_one :: "settings \<Rightarrow> ConnectionInfo \<Rightarrow> WAOneResponse \<Rightarrow> proxy \<Rightarrow> proxy res" where
  "put_request_one st ci req px =
     rbind (store_chunk st px (rs_sha1 req) (rs_block req)) (\<lambda>px1.
     rbind (chunk_peer ci) (\<lambda>peerIdx.
       WriteToChunkPeer st (px1\<lparr>g_NumPutResponseReceived := g_NumPutResponseReceived px1 + 1\<rparr>) peerIdx (BuildWAPutResponse (rs_sha1 req)) (int (ci_fd ci))))"

definition ProcessPutRequest :: "settings \<Rightarrow> proxy \<Rightarrow> ConnectionInfo \<Rightarrow> byte list \<Rightarrow> (proxy \<times> int) res" where
  "ProcessPutRequest st px ci buffer = chunk_handler next_response (put_request_one st ci) ci px buffer"

definition put_response_one :: "sha1 \<Rightarrow> proxy \<Rightarrow> proxy res" where
  "put_response_one name px = rbind (PutDone (px_cache px) name) (\<lambda>s. Inr (px\<lparr>px_cache := s\<rparr>))"

definition ProcessPutResponse :: "proxy \<Rightarrow> ConnectionInfo \<Rightarrow> byte list \<Rightarrow> (proxy \<times> int) res" where
  "ProcessPutResponse px ci buffer = chunk_handler next_name put_response_one ci px buffer"

section \<open>The stream of chunk messages\<close>

definition chunk_message_step :: "settings \<Rightarrow> byte \<Rightarrow> proxy \<Rightarrow> ConnectionInfo \<Rightarrow> byte list \<Rightarrow> (proxy \<times> int) res" where
  "chunk_message_step st msgType px ci buffer =
     (if msgType = TYPE_WABODYREQUEST then ProcessBodyRequest st px ci buffer
      else if msgType = TYPE_WABODYRESPONSE then ProcessBodyResponse st px ci buffer
      else if msgType = TYPE_WAPEEKREQUEST then ProcessPeekRequest st px ci buffer
      else if msgType = TYPE_WAPEEKRESPONSE then ProcessPeekResponse px ci buffer
      else if msgType = TYPE_WAPUTREQUEST then ProcessPutRequest st px ci buffer
      else if msgType = TYPE_WAPUTRESPONSE then ProcessPutResponse px ci buffer
      else Inl AssertFail)"

function chunk_loop :: "settings \<Rightarrow> proxy \<Rightarrow> ConnectionInfo \<Rightarrow> byte list \<Rightarrow> nat \<Rightarrow> (proxy \<times> nat option) res" where
  "chunk_loop st px ci buffer num_processed =
     (if buffer = [] then Inr (px, Some num_processed)
      else case VerifyChunkHeader buffer of
        NeedMore \<Rightarrow> Inr (px, Some num_processed)
      | Bad \<Rightarrow> Inr (px, None)
      | Valid msgType \<Rightarrow>
          rbind (chunk_message_step st msgType px ci buffer) (\<lambda>(px1, one_process).
            if one_process = 0 then Inr (px1, Some num_processed)
            else if one_process = -1 then Inr (px1, None)
            else if one_process < 0 \<or> one_process > int (length buffer) then Inl UndefinedBehaviour
            else chunk_loop st px1 ci (drop (nat one_process) buffer) (num_processed + nat one_process)))"
  by pat_completeness auto
termination
proof (relation "measure (\<lambda>(st, px, ci, buffer, n). length buffer)", goal_cases)
  case (2 st px ci buffer n ty r px1 one)
  then show ?case by (cases buffer) auto
qed simp

declare chunk_loop.simps [simp del]

definition ProcessChunkData :: "settings \<Rightarrow> proxy \<Rightarrow> ConnectionInfo \<Rightarrow> byte list \<Rightarrow> (proxy \<times> int) res" where
  "ProcessChunkData st px ci buffer =
     ensure (ci_type ci = ct_chunk)
       (rbind (chunk_loop st px ci buffer 0) (\<lambda>(px1, r).
          case r of
            None \<Rightarrow> Inr (px1, -1)
          | Some n \<Rightarrow> Inr (px1\<lparr>g_BytesPeerRX := g_BytesPeerRX px1 + of_nat n\<rparr>, int n)))"

section \<open>Distribution of new chunks\<close>

definition DistributePutRequest :: "(u32 \<Rightarrow> u32) \<Rightarrow> settings \<Rightarrow> proxy \<Rightarrow> sha1 \<Rightarrow> byte list \<Rightarrow> int \<Rightarrow> proxy res" where
  "DistributePutRequest rotl st px name block dstPxyId =
     rbind (PickPeerToRedirect rotl (px_peers px) name) (\<lambda>idx.
       if idx = -1 then Inl NiceExit
       else if idx < 0 \<or> nat idx \<ge> length (g_PeerInfo (px_peers px)) then Inl UndefinedBehaviour
       else if pi_isLocalHost (g_PeerInfo (px_peers px) ! nat idx) \<or> idx = dstPxyId then store_chunk st px name block
       else rbind (BuildWAPutRequest name block) (\<lambda>request.
            rbind (WriteToChunkPeer st (px\<lparr>g_NumPutRequestSent := g_NumPutRequestSent px + 1\<rparr>) idx request 0) (\<lambda>px1.
              case GetTempDiskCache (px_cache px1) name of
                None \<Rightarrow> rbind (PutTempDiskCache (px_cache px1) name block) (\<lambda>s. Inr (px1\<lparr>px_cache := s\<rparr>))
              | Some _ \<Rightarrow> Inr px1)))"

text \<open>The loop over the names, which stops below the level that was resolved.\<close>

fun put_missing :: "(u32 \<Rightarrow> u32) \<Rightarrow> settings \<Rightarrow> nat \<Rightarrow> int \<Rightarrow> OneChunkName list \<Rightarrow> proxy \<Rightarrow> proxy res" where
  "put_missing rotl st lowLevel dstPxyId [] px = Inr px"
| "put_missing rotl st lowLevel dstPxyId (n # ns) px =
     (if cn_level n > lowLevel then Inr px
      else if cn_isHit n then put_missing rotl st lowLevel dstPxyId ns px
      else ensure (cn_isSha1Ready n)
        (rbind (if GetDiskHint (px_cache px) (cn_sha1 n) then Inr px
                else case cn_pChunk n of
                  None \<Rightarrow> Inl UndefinedBehaviour
                | Some chunk \<Rightarrow>
                    rbind (DistributePutRequest rotl st px (cn_sha1 n) chunk dstPxyId) (\<lambda>px1.
                    rbind (PutDiskHint (px_cache px1) (cn_sha1 n) (cn_length n)) (\<lambda>s. Inr (px1\<lparr>px_cache := s\<rparr>))))
          (put_missing rotl st lowLevel dstPxyId ns)))"

text \<open>The static scanner \<open>rctx\<close> is an argument and a result.\<close>

definition ActualPutMissingChunks :: "(byte list \<Rightarrow> sha1) \<Rightarrow> (u32 \<Rightarrow> u32) \<Rightarrow> settings \<Rightarrow> proxy \<Rightarrow> RabinCtx \<Rightarrow> byte list \<Rightarrow> int \<Rightarrow> (proxy \<times> RabinCtx) res" where
  "ActualPutMissingChunks sha rotl st px rctx buffer dstPxyId =
     rbind (DoPreMRC (st_mrc st) rctx buffer) (\<lambda>(rctx1, pNames, rb_size, pli).
       ensure (length pNames > 0)
       (ensure (rb_size = length buffer)
         (rbind (MakeTree pli pNames) (\<lambda>tree.
          rbind (ResolveWithHint sha (px_cache px) tree buffer rb_size pli False) (\<lambda>(names, lowLevel).
          rbind (put_missing rotl st lowLevel dstPxyId names px) (\<lambda>px1. Inr (px1, rctx1)))))))"

definition ProcessPutMessageQueue :: "(byte list \<Rightarrow> sha1) \<Rightarrow> (u32 \<Rightarrow> u32) \<Rightarrow> settings \<Rightarrow> proxy \<Rightarrow> RabinCtx \<Rightarrow> (proxy \<times> RabinCtx) res" where
  "ProcessPutMessageQueue sha rotl st px rctx =
     (case g_PutMessageList px of
        [] \<Rightarrow> Inr (px, rctx)
      | (msg, dst) # walks \<Rightarrow>
          rbind (ActualPutMissingChunks sha rotl st (px\<lparr>g_PutMessageList := walks\<rparr>) rctx msg dst) (\<lambda>(px1, rctx1).
            let px2 = px1\<lparr>g_NumPutMessages := g_NumPutMessages px1 - 1, g_CurPutQueueSize := g_CurPutQueueSize px1 - of_nat (length msg)\<rparr>
            in ensure (g_NumPutMessages px2 \<ge> 0) (Inr (px2, rctx1))))"

section \<open>Messages and their entries\<close>

lemma sint_of_nat_32: "n < 2 ^ 31 \<Longrightarrow> sint (of_nat n :: u32) = int n"
  by (simp add: signed_of_nat signed_take_bit_int_eq_self_iff)

lemma entries_all:
  assumes "\<forall>x \<in> set xs. \<forall>rest. dec (enc x @ rest) = Some (x, length (enc x))"
  shows "entries dec f (length xs) (concat (map enc xs) @ rest) px = rfold f xs px"
  using assms
proof (induction xs arbitrary: px)
  case (Cons x xs)
  then have "dec (enc x @ concat (map enc xs) @ rest) = Some (x, length (enc x))" by simp
  moreover have "entries dec f (length xs) (concat (map enc xs) @ rest) = rfold f xs" using Cons by auto
  ultimately show ?case by simp
qed simp

lemma chunk_handler_message:
  assumes "\<forall>x \<in> set xs. \<forall>rest. dec (enc x @ rest) = Some (x, length (enc x))" "ci_type ci = ct_chunk" "xs \<noteq> []"
    and "length (entries_message ty magic enc xs) < 2 ^ 31" "length xs < 2 ^ 31"
  shows "chunk_handler dec f ci px (entries_message ty magic enc xs @ rest) =
    rbind (rfold f xs px) (\<lambda>px1. Inr (px1, int (length (entries_message ty magic enc xs))))"
proof -
  let ?m = "entries_message ty magic enc xs"
  have m: "?m = [MAGIC_WAHEADER, ty] @ be32 (of_nat (length ?m)) @ [magic] @ be32 (of_nat (length xs)) @ concat (map enc xs)"
    by (rule entries_message_split)
  have "drop 11 (?m @ rest) = concat (map enc xs) @ rest" by (subst m) simp
  then have "entries dec f (length xs) (drop sizeof_WABodyRequest (?m @ rest)) px = rfold f xs px"
    using entries_all[OF assms(1), where rest = rest] by (simp add: sizeof_defs)
  moreover have "sint (be32_at (?m @ rest) 2) = int (length ?m)"
    using assms(4) by (subst m) (simp add: be32_at_def sint_of_nat_32)
  moreover have "sint (be32_at (?m @ rest) 7) = int (length xs)"
    using assms(5) by (subst m) (simp add: be32_at_def sint_of_nat_32)
  moreover have "sizeof_WABodyRequest \<le> length (?m @ rest)" by (simp add: length_entries_message sizeof_defs)
  moreover have "1 \<le> int (length xs)" using assms(3) by (cases xs) simp_all
  ultimately show ?thesis using assms(2) by (simp add: chunk_handler_def)
qed

lemma chunk_loop_step:
  assumes "VerifyChunkHeader (m @ rest) = Valid ty" "chunk_message_step st ty px ci (m @ rest) = Inr (px1, int (length m))" "m \<noteq> []"
  shows "chunk_loop st px ci (m @ rest) n = chunk_loop st px1 ci rest (n + length m)"
  using assms by (simp add: chunk_loop.simps[of st px ci "m @ rest" n])

lemma chunk_loop_stop: "tail = [] \<or> VerifyChunkHeader tail = NeedMore \<Longrightarrow> chunk_loop st px ci tail n = Inr (px, Some n)"
  by (auto simp: chunk_loop.simps[of st px ci tail n])

section \<open>Received chunks\<close>

abbreviation body_response :: "WAOneResponse list \<Rightarrow> byte list" where
  "body_response \<equiv> entries_message TYPE_WABODYRESPONSE MAGIC_WABODYRESPONSE enc_response"

lemma BuildWABodyResponse_eq: "b \<noteq> [] \<Longrightarrow> BuildWABodyResponse n b = Inr (body_response [\<lparr>rs_sha1 = n, rs_block = b\<rparr>])"
  by (simp add: BuildWABodyResponse_def entries_message_def enc_response_def)

lemma length_body_response: "length n = SHA1_LEN \<Longrightarrow> length (body_response [\<lparr>rs_sha1 = n, rs_block = b\<rparr>]) = 35 + length b"
  by (simp add: length_entries_message enc_response_def one_response_def name_bytes_20 SHA1_LEN_def)

lemma next_response_enc:
  assumes "length (rs_sha1 r) = SHA1_LEN" "length (rs_block r) < 2 ^ 32"
  shows "next_response (enc_response r @ rest) = Some (r, length (enc_response r))"
proof -
  have "read_response (enc_response r @ rest) = (r, length (enc_response r))" using response_codec.dec_enc[of r rest] assms by simp
  moreover have "sizeof_WAOneResponse \<le> length (enc_response r)" using assms(1) by (simp add: enc_response_def one_response_def name_bytes_20 sizeof_defs SHA1_LEN_def)
  ultimately show ?thesis by (simp add: next_response_def)
qed

text \<open>A request of this proxy that waits for the chunk, first in the list of its name.\<close>

definition awaited :: "proxy \<Rightarrow> sha1 \<times> byte list \<Rightarrow> bool" where
  "awaited px nb = (case nb of (n, b) \<Rightarrow> length n = SHA1_LEN \<and> b \<noteq> [] \<and> length b \<le> MAX_CHUNK_SIZE \<and>
     (case GetChunkRequestList (px_requests px) n of
        Some (c # cs) \<Rightarrow> \<not> cri_isRedirected c \<and> cri_length c = of_nat (length b) \<and> 0 \<le> cri_peerIdx c \<and>
          nat (cri_peerIdx c) < length (g_PeerInfo (px_peers px))
      | _ \<Rightarrow> False))"

text \<open>What one received chunk changes.\<close>

definition chunk_received :: "proxy \<Rightarrow> sha1 \<times> byte list \<Rightarrow> proxy \<Rightarrow> bool" where
  "chunk_received px nb px' \<longleftrightarrow> px_conns px' = px_conns px \<and> g_TryReconstruction px' \<and>
     length (g_PeerInfo (px_peers px')) = length (g_PeerInfo (px_peers px)) \<and>
     requests_ok (px_requests px') \<and> tmp_inv (px_cache px') \<and>
     (\<forall>m. GetChunkRequestList (px_requests px') m = (if take SHA1_LEN m = fst nb then None else GetChunkRequestList (px_requests px) m)) \<and>
     g_NumChunkRequestsInFlight (px_requests px') = g_NumChunkRequestsInFlight (px_requests px) - int (length (waiting_for (px_requests px) (fst nb))) \<and>
     (\<forall>m. tmp_refs (px_cache px') m = tmp_refs (px_cache px) m + (if take SHA1_LEN m = fst nb then 1 else 0)) \<and>
     (\<forall>m. tmp_content (px_cache px') m = (if take SHA1_LEN m = fst nb \<and> tmp_refs (px_cache px) (fst nb) = 0 then Some (snd nb) else tmp_content (px_cache px) m))"

lemma body_response_one_ok:
  assumes "requests_ok (px_requests px)" "tmp_inv (px_cache px)" "awaited px (n, b)"
  shows "\<exists>px'. body_response_one st ci \<lparr>rs_sha1 = n, rs_block = b\<rparr> px = Inr px' \<and> chunk_received px (n, b) px'"
proof -
  from assms(3) obtain c cs where b: "length n = SHA1_LEN" "b \<noteq> []" "length b \<le> MAX_CHUNK_SIZE"
    and l: "GetChunkRequestList (px_requests px) n = Some (c # cs)" and c: "\<not> cri_isRedirected c" "cri_length c = of_nat (length b)"
      "0 \<le> cri_peerIdx c" "nat (cri_peerIdx c) < length (g_PeerInfo (px_peers px))"
    by (auto simp: awaited_def split: option.splits list.splits)
  have n: "take SHA1_LEN n = n" using b(1) by simp
  from tmp_cache.put_ok[OF assms(2) b(2,3), of n] obtain s where s: "RefPutChunkCallback (px_cache px) n b = Inr s" "tmp_inv s"
    "\<forall>m. tmp_refs s m = tmp_refs (px_cache px) m + (if take SHA1_LEN m = take SHA1_LEN n then 1 else 0)"
    "\<forall>m. tmp_content s m = (if take SHA1_LEN m = take SHA1_LEN n \<and> tmp_refs (px_cache px) n = 0 then Some b else tmp_content (px_cache px) m)" by blast
  from DestroyChunkRequestList_ok[OF assms(1) l] obtain r where r: "DestroyChunkRequestList (px_requests px) n = Inr r" "requests_ok r"
    "g_NumChunkRequestsInFlight r = g_NumChunkRequestsInFlight (px_requests px) - int (length (c # cs))"
    "\<forall>m. GetChunkRequestList r m = (if take SHA1_LEN m = take SHA1_LEN n then None else GetChunkRequestList (px_requests px) m)" by blast
  show ?thesis using b c l s r n
    by (auto simp: body_response_one_def ProcessOneChunkRequest_def chunk_received_def Let_def)
qed

lemma awaited_kept: "chunk_received px (n, b) px' \<Longrightarrow> awaited px (m, d) \<Longrightarrow> m \<noteq> n \<Longrightarrow> awaited px' (m, d)"
  by (auto simp: awaited_def chunk_received_def split: option.splits list.splits)

text \<open>The chunks of a list of messages, received one after the other.\<close>

fun all_received :: "proxy \<Rightarrow> (sha1 \<times> byte list) list \<Rightarrow> proxy \<Rightarrow> bool" where
  "all_received px [] px' \<longleftrightarrow> px' = px"
| "all_received px (nb # nbs) px' \<longleftrightarrow> (\<exists>px1. chunk_received px nb px1 \<and> all_received px1 nbs px')"

lemma body_response_step:
  assumes "requests_ok (px_requests px)" "tmp_inv (px_cache px)" "awaited px (n, b)" "ci_type ci = ct_chunk"
  shows "\<exists>msg px'. BuildWABodyResponse n b = Inr msg \<and> chunk_received px (n, b) px' \<and>
    (\<forall>rest k. chunk_loop st px ci (msg @ rest) k = chunk_loop st px' ci rest (k + length msg))"
proof -
  from assms(3) have b: "length n = SHA1_LEN" "b \<noteq> []" "length b \<le> MAX_CHUNK_SIZE" by (auto simp: awaited_def)
  let ?r = "\<lparr>rs_sha1 = n, rs_block = b\<rparr>"
  let ?m = "body_response [?r]"
  from body_response_one_ok[OF assms(1-3), of st ci] obtain px' where p: "body_response_one st ci ?r px = Inr px'" "chunk_received px (n, b) px'" by blast
  have l: "length ?m < 2 ^ 31" using b(3) by (simp add: length_body_response[OF b(1)] MAX_CHUNK_SIZE_def)
  have "chunk_handler next_response (body_response_one st ci) ci px (?m @ rest) = Inr (px', int (length ?m))" for rest
    using chunk_handler_message[of "[?r]" next_response enc_response ci TYPE_WABODYRESPONSE MAGIC_WABODYRESPONSE "body_response_one st ci" px rest]
      next_response_enc[of ?r] b l p(1) assms(4) by (simp add: MAX_CHUNK_SIZE_def)
  then have "chunk_message_step st TYPE_WABODYRESPONSE px ci (?m @ rest) = Inr (px', int (length ?m))" for rest
    by (simp add: chunk_message_step_def ProcessBodyResponse_def type_defs)
  moreover have "VerifyChunkHeader (?m @ rest) = Valid TYPE_WABODYRESPONSE" for rest
    using l unfolding entries_message_def by (intro verify_chunk) (simp_all add: chunk_types_def)
  moreover have "?m \<noteq> []" using length_body_response[OF b(1), of b] by (metis list.size(3) add_is_0 zero_neq_numeral)
  ultimately show ?thesis using p(2) BuildWABodyResponse_eq[OF b(2), of n] by (intro exI[of _ ?m] exI[of _ px']) (auto intro: chunk_loop_step)
qed

lemma body_responses_loop:
  assumes "requests_ok (px_requests px)" "tmp_inv (px_cache px)" "\<forall>nb \<in> set nbs. awaited px nb" "distinct (map fst nbs)" "ci_type ci = ct_chunk"
    and "list_all2 (\<lambda>(n, b) msg. BuildWABodyResponse n b = Inr msg) nbs msgs"
  shows "\<exists>px'. all_received px nbs px' \<and> (\<forall>rest k. chunk_loop st px ci (concat msgs @ rest) k = chunk_loop st px' ci rest (k + length (concat msgs)))"
  using assms(6,1-4)
proof (induction nbs msgs arbitrary: px rule: list_all2_induct)
  case (Cons nb nbs msg msgs)
  obtain n b where nb: "nb = (n, b)" by fastforce
  from body_response_step[OF Cons.prems(1,2) _ assms(5), of n b st] Cons.prems(3) nb Cons.hyps(1) obtain px1 where
    p: "chunk_received px (n, b) px1" "\<And>rest k. chunk_loop st px ci (msg @ rest) k = chunk_loop st px1 ci rest (k + length msg)" by auto
  have "awaited px1 (m, d)" if "(m, d) \<in> set nbs" for m d
  proof (rule awaited_kept[OF p(1)])
    show "awaited px (m, d)" using Cons.prems(3) that by simp
    show "m \<noteq> n" using Cons.prems(4) that nb by force
  qed
  then have "\<forall>nb \<in> set nbs. awaited px1 nb" by auto
  moreover have "requests_ok (px_requests px1)" "tmp_inv (px_cache px1)" using p(1) by (simp_all add: chunk_received_def)
  ultimately obtain px' where "all_received px1 nbs px'"
    "\<And>rest k. chunk_loop st px1 ci (concat msgs @ rest) k = chunk_loop st px' ci rest (k + length (concat msgs))"
    using Cons.IH[of px1] Cons.prems(4) by (simp, blast)
  then show ?case using p nb by (intro exI[of _ px']) (auto simp: add.assoc)
qed simp

lemma all_received_sum:
  assumes "all_received px nbs px'" "requests_ok (px_requests px)" "tmp_inv (px_cache px)" "distinct (map fst nbs)" "\<forall>nb \<in> set nbs. length (fst nb) = SHA1_LEN"
  shows "px_conns px' = px_conns px" "nbs \<noteq> [] \<longrightarrow> g_TryReconstruction px'" "requests_ok (px_requests px')" "tmp_inv (px_cache px')"
    "GetChunkRequestList (px_requests px') m = (if take SHA1_LEN m \<in> fst ` set nbs then None else GetChunkRequestList (px_requests px) m)"
    "tmp_refs (px_cache px') m = tmp_refs (px_cache px) m + (if take SHA1_LEN m \<in> fst ` set nbs then 1 else 0)"
    "tmp_content (px_cache px') m = (if tmp_refs (px_cache px) m = 0 then map_of nbs (take SHA1_LEN m) else tmp_content (px_cache px) m)"
proof -
  have "px_conns px' = px_conns px \<and> (nbs \<noteq> [] \<or> g_TryReconstruction px \<longrightarrow> g_TryReconstruction px') \<and> requests_ok (px_requests px') \<and> tmp_inv (px_cache px') \<and>
    GetChunkRequestList (px_requests px') m = (if take SHA1_LEN m \<in> fst ` set nbs then None else GetChunkRequestList (px_requests px) m) \<and>
    tmp_refs (px_cache px') m = tmp_refs (px_cache px) m + (if take SHA1_LEN m \<in> fst ` set nbs then 1 else 0) \<and>
    tmp_content (px_cache px') m = (if tmp_refs (px_cache px) m = 0 then map_of nbs (take SHA1_LEN m) else tmp_content (px_cache px) m)"
    using assms
  proof (induction nbs arbitrary: px)
    case Nil
    have "tmp_content (px_cache px) m = None" if "tmp_refs (px_cache px) m = 0" using tmp_cache.content_refs[OF Nil(3), of m] that by auto
    with Nil show ?case by auto
  next
    case (Cons nb nbs)
    obtain n b where nb: "nb = (n, b)" by fastforce
    from Cons.prems(1) obtain px1 where p: "chunk_received px nb px1" "all_received px1 nbs px'" by auto
    then have ok: "requests_ok (px_requests px1)" "tmp_inv (px_cache px1)" by (simp_all add: chunk_received_def)
    note ih = Cons.IH[OF p(2) ok]
    have r: "tmp_refs (px_cache px) m = tmp_refs (px_cache px) n" if "take SHA1_LEN m = n"
      using tmp_cache.refs_name[OF Cons.prems(3), of m n] that by auto
    have "map_of nbs n = None" using Cons.prems(4) nb by (simp add: map_of_eq_None_iff)
    then show ?case using ih Cons.prems(4,5) p(1) nb r by (auto simp: chunk_received_def)
  qed
  then show "px_conns px' = px_conns px" "nbs \<noteq> [] \<longrightarrow> g_TryReconstruction px'" "requests_ok (px_requests px')" "tmp_inv (px_cache px')"
    "GetChunkRequestList (px_requests px') m = (if take SHA1_LEN m \<in> fst ` set nbs then None else GetChunkRequestList (px_requests px) m)"
    "tmp_refs (px_cache px') m = tmp_refs (px_cache px) m + (if take SHA1_LEN m \<in> fst ` set nbs then 1 else 0)"
    "tmp_content (px_cache px') m = (if tmp_refs (px_cache px) m = 0 then map_of nbs (take SHA1_LEN m) else tmp_content (px_cache px) m)"
    by blast+
qed

section \<open>Answered requests\<close>

text \<open>
  The connections for chunks of a peer, and what a write to one of them needs: the first connection is
  open, the connections in use are inside the array, and those that are open are consistent.
\<close>

definition chunk_conns :: "nat \<Rightarrow> peer_table \<Rightarrow> nat \<Rightarrow> nat set" where
  "chunk_conns maxConns p i = {fd. \<exists>f < maxConns. pi_chunkCI (g_PeerInfo p ! i) ! f = Some fd}"

definition serves :: "nat \<Rightarrow> proxy \<Rightarrow> nat \<Rightarrow> bool" where
  "serves maxConns px i \<longleftrightarrow> peers_ok (px_peers px) \<and> i < length (g_PeerInfo (px_peers px)) \<and> 0 < maxConns \<and>
     maxConns \<le> length (pi_chunkCI (g_PeerInfo (px_peers px) ! i)) \<and> pi_chunkCI (g_PeerInfo (px_peers px) ! i) ! 0 \<noteq> None \<and>
     (\<forall>fd \<in> chunk_conns maxConns (px_peers px) i. \<exists>ci. px_conns px fd = Some ci \<and> ci_fd ci = fd \<and> ci_type ci = ct_chunk \<and> queue_ok ci)"

abbreviation slots :: "peer_table \<Rightarrow> nat option list list" where
  "slots p \<equiv> map pi_chunkCI (g_PeerInfo p)"

lemma update_peer_slots:
  assumes "\<And>pi. pi_chunkCI (f pi) = pi_chunkCI pi"
  shows "slots (update_peer i f p) = slots p"
proof (rule nth_equalityI, goal_cases)
  case (2 j)
  then show ?case by (cases "i = j") (simp_all add: update_peer_def assms)
qed (simp add: update_peer_def)

lemma slots_nth: "slots p' = slots p \<Longrightarrow> i < length (g_PeerInfo p) \<Longrightarrow> i < length (g_PeerInfo p') \<and> pi_chunkCI (g_PeerInfo p' ! i) = pi_chunkCI (g_PeerInfo p ! i)"
  by (metis length_map nth_map)

lemma UpdatePeerLiveness_slots: "UpdatePeerLiveness now i p = Inr p' \<Longrightarrow> slots p' = slots p"
  using update_peer_slots[of "\<lambda>pi. pi\<lparr>pi_isAlive := True\<rparr>" i p] update_peer_slots[of "\<lambda>pi. pi\<lparr>pi_lastPingTime := now\<rparr>" i]
  by (auto simp: UpdatePeerLiveness_def Let_def rbind_eq_Inr ensure_eq_Inr split: if_splits)

lemma GetNextChunkFlowID_slots:
  assumes "peers_ok p" "i < length (g_PeerInfo p)" "0 < m" "pi_chunkCI (g_PeerInfo p ! i) ! 0 \<noteq> None" "m \<le> length (pi_chunkCI (g_PeerInfo p ! i))"
  shows "\<exists>p' f fd. GetNextChunkFlowID m p i = Inr (p', f) \<and> f < m \<and> pi_chunkCI (g_PeerInfo p ! i) ! f = Some fd \<and> peers_ok p' \<and> slots p' = slots p"
proof -
  from GetNextChunkFlowID_ok[OF assms(2-5)] obtain p' f where g: "GetNextChunkFlowID m p i = Inr (p', f)" "pi_chunkCI (g_PeerInfo p ! i) ! f \<noteq> None" by blast
  from g(1) obtain cur where "p' = update_peer i (\<lambda>pi. pi\<lparr>pi_chunkFlowID := cur\<rparr>) p" "f < m"
    by (auto simp: GetNextChunkFlowID_def Let_def res_simps split: if_splits)
  with g update_peer_same[OF assms(1), of "\<lambda>pi. pi\<lparr>pi_chunkFlowID := cur\<rparr>" i] show ?thesis by (auto simp: update_peer_slots)
qed

text \<open>What a write to a peer leaves alone.\<close>

definition write_only :: "proxy \<Rightarrow> proxy \<Rightarrow> bool" where
  "write_only px px' \<longleftrightarrow> px_cache px' = px_cache px \<and> px_requests px' = px_requests px \<and> slots (px_peers px') = slots (px_peers px) \<and>
     g_CacheConnections px' = g_CacheConnections px \<and> g_FirstClassRequestList px' = g_FirstClassRequestList px \<and>
     g_SecondClassRequestList px' = g_SecondClassRequestList px \<and> g_NumPendingFirstTransactions px' = g_NumPendingFirstTransactions px \<and>
     g_NumPendingSecondTransactions px' = g_NumPendingSecondTransactions px \<and>
     (\<forall>fd ci. px_conns px fd = Some ci \<longrightarrow> ci_type ci \<noteq> ct_chunk \<longrightarrow> px_conns px' fd = Some ci) \<and>
     (\<forall>fd. map_option (\<lambda>ci. (ci_fd ci, ci_type ci)) (px_conns px' fd) = map_option (\<lambda>ci. (ci_fd ci, ci_type ci)) (px_conns px fd))"

lemma WriteToChunkPeer_ok:
  assumes "serves (g_MaxPeerConns st) px i" "msg \<noteq> []" "g_NumDeadConns px + 1 < int MAX_NUM_CI"
  shows "\<exists>px' fd. WriteToChunkPeer st px (int i) msg sid = Inr px' \<and> fd \<in> chunk_conns (g_MaxPeerConns st) (px_peers px) i \<and>
    serves (g_MaxPeerConns st) px' i \<and> write_only px px' \<and> g_NumDeadConns px' \<le> g_NumDeadConns px + 1 \<and>
    out px' = (out px)(fd := out px fd @ msg)"
proof -
  let ?m = "g_MaxPeerConns st" and ?p = "px_peers px"
  have v: "peers_ok ?p" "i < length (g_PeerInfo ?p)" "0 < ?m" "pi_chunkCI (g_PeerInfo ?p ! i) ! 0 \<noteq> None"
      "?m \<le> length (pi_chunkCI (g_PeerInfo ?p ! i))"
    and con: "\<And>fd. fd \<in> chunk_conns ?m ?p i \<Longrightarrow> \<exists>ci. px_conns px fd = Some ci \<and> ci_fd ci = fd \<and> ci_type ci = ct_chunk \<and> queue_ok ci"
    using assms(1) by (auto simp: serves_def)
  from GetNextChunkFlowID_slots[OF v] obtain p f fd where g: "GetNextChunkFlowID ?m ?p i = Inr (p, f)" "f < ?m"
    "pi_chunkCI (g_PeerInfo ?p ! i) ! f = Some fd" "peers_ok p" "slots p = slots ?p" by blast
  have fd: "fd \<in> chunk_conns ?m ?p i" using g(2,3) by (auto simp: chunk_conns_def)
  from con[OF this] obtain ci where ci: "px_conns px fd = Some ci" "ci_fd ci = fd" "ci_type ci = ct_chunk" "queue_ok ci" by blast
  let ?px = "px\<lparr>px_peers := p\<rparr>"
  note sl = slots_nth[OF g(5) v(2)]
  from SendDataPrivate_net[of ci ?px msg sid] ci assms(2,3) obtain px1 ci1 where
    s: "SendDataPrivate ?px ci msg sid = Inr (px1, ci1)" "net_only ?px px1" "g_NumDeadConns px1 \<le> g_NumDeadConns px + 1"
      "same_conn ci ci1" "stream ci1 = stream ci @ msg" "queue_ok ci1" by auto
  have n: "px_peers px1 = p" "px_conns px1 = px_conns px" "px_cache px1 = px_cache px" "px_requests px1 = px_requests px"
    "g_CacheConnections px1 = g_CacheConnections px" "g_FirstClassRequestList px1 = g_FirstClassRequestList px"
    "g_SecondClassRequestList px1 = g_SecondClassRequestList px" "g_NumPendingFirstTransactions px1 = g_NumPendingFirstTransactions px"
    "g_NumPendingSecondTransactions px1 = g_NumPendingSecondTransactions px"
    using s(2) by (auto simp: net_only_ex)
  from UpdatePeerLiveness_ok[of p i "px_now px1"] g(4) sl obtain p1 where u: "UpdatePeerLiveness (px_now px1) i p = Inr p1" "peers_ok p1" by auto
  have sp: "slots p1 = slots ?p" using UpdatePeerLiveness_slots[OF u(1)] g(5) by simp
  let ?px' = "(put_conn ci1 px1)\<lparr>px_peers := p1\<rparr>"
  have run: "WriteToChunkPeer st px (int i) msg sid = Inr ?px'"
    using v(2-5) assms(2) g(1-3) sl ci(1) s(1) u(1) n(1) by (auto simp: WriteToChunkPeer_def send_to_peer_def ci_slot_def)
  have fd1: "ci_fd ci1 = fd" "ci_type ci1 = ct_chunk" using s(4) ci by (simp_all add: same_conn_def)
  have cc: "chunk_conns ?m p1 i = chunk_conns ?m ?p i" using slots_nth[OF sp v(2)] by (simp add: chunk_conns_def)
  have conns: "px_conns ?px' = (px_conns px)(fd := Some ci1)" by (simp add: put_conn_def n fd1)
  have "serves ?m ?px' i" using u(2) slots_nth[OF sp v(2)] v(3-5) con s(6) fd1 cc unfolding serves_def conns by auto
  moreover have "write_only px ?px'" using n sp ci(1-3) fd1 by (auto simp: write_only_def put_conn_def)
  moreover have "out ?px' = (out px)(fd := out px fd @ msg)" using conns ci(1) s(5) by (auto simp: out_def fun_eq_iff)
  ultimately show ?thesis using run fd s(3) by (intro exI[of _ ?px'] exI[of _ fd]) (simp add: put_conn_def)
qed

text \<open>A chunk that is in the temporary cache with the length that is asked for.\<close>

definition in_temp :: "proxy \<Rightarrow> WAOneRequest \<Rightarrow> bool" where
  "in_temp px r \<longleftrightarrow> length (rq_sha1 r) = SHA1_LEN \<and>
     (case tmp_content (px_cache px) (rq_sha1 r) of Some b \<Rightarrow> sint (rq_length r) = int (length b) | None \<Rightarrow> False)"

definition block_for :: "proxy \<Rightarrow> WAOneRequest \<Rightarrow> byte list" where
  "block_for px r = the (tmp_content (px_cache px) (rq_sha1 r))"

lemma body_request_one_ok:
  assumes "serves (g_MaxPeerConns st) px i" "tmp_inv (px_cache px)" "in_temp px r" "g_NumDeadConns px + 1 < int MAX_NUM_CI"
    and "ci_type ci = ct_chunk" "ci_stub ci = ChunkStub cci" "cc_peerIdx cci = int i"
  shows "\<exists>px' fd msg. body_request_one st ci r px = Inr px' \<and> BuildWABodyResponse (rq_sha1 r) (block_for px r) = Inr msg \<and>
    fd \<in> chunk_conns (g_MaxPeerConns st) (px_peers px) i \<and>
    serves (g_MaxPeerConns st) px' i \<and> write_only px px' \<and> g_NumDeadConns px' \<le> g_NumDeadConns px + 1 \<and>
    out px' = (out px)(fd := out px fd @ msg)"
proof -
  from assms(3) obtain v where v: "SearchCache (px_cache px) (rq_sha1 r) = Some v" "sint (rq_length r) = int (length (pBlock v))"
    by (auto simp: in_temp_def tmp_content_def split: option.splits)
  with assms(2) have b: "0 < block_length v" "block_length v = length (pBlock v)" unfolding tmp_inv_def SearchCache_def by metis+
  then have ne: "pBlock v \<noteq> []" by auto
  have bf: "block_for px r = pBlock v" using v(1) by (simp add: block_for_def tmp_content_def)
  let ?msg = "body_response [\<lparr>rs_sha1 = rq_sha1 r, rs_block = pBlock v\<rparr>]"
  have msg: "BuildWABodyResponse (rq_sha1 r) (pBlock v) = Inr ?msg" by (rule BuildWABodyResponse_eq[OF ne])
  let ?px = "px\<lparr>g_PdNumChunkRequests := g_PdNumChunkRequests px + 1, g_NumChunkRequests := g_NumChunkRequests px + 1,
    g_BytesBlockTX := g_BytesBlockTX px + rq_length r\<rparr>"
  have "?msg \<noteq> []" using length_entries_message[of TYPE_WABODYRESPONSE MAGIC_WABODYRESPONSE enc_response] by (metis add_is_0 list.size(3) zero_neq_numeral)
  moreover have "serves (g_MaxPeerConns st) ?px i" using assms(1) by (simp add: serves_def)
  ultimately obtain px' fd where w: "WriteToChunkPeer st ?px (int i) ?msg (int (ci_fd ci)) = Inr px'" "fd \<in> chunk_conns (g_MaxPeerConns st) (px_peers px) i"
    "serves (g_MaxPeerConns st) px' i" "write_only ?px px'" "g_NumDeadConns px' \<le> g_NumDeadConns px + 1" "out px' = (out ?px)(fd := out ?px fd @ ?msg)"
    using WriteToChunkPeer_ok[of st ?px i ?msg "int (ci_fd ci)"] assms(4) by auto
  have "i < length (g_PeerInfo (px_peers px))" using assms(1) by (simp add: serves_def)
  then have "body_request_one st ci r px = Inr px'"
    using v b msg w(1) assms(5-7) by (simp add: body_request_one_def chunk_peer_def lookup_chunk_def PostProcessBodyRequest_def Let_def)
  moreover have "out ?px = out px" "write_only px px'" using w(4) by (simp_all add: out_def fun_eq_iff write_only_def)
  ultimately show ?thesis using w msg bf by (intro exI[of _ px'] exI[of _ fd] exI[of _ ?msg]) simp
qed

text \<open>The streams of the connections after the messages \<open>sent\<close>, each with its connection.\<close>

definition delivered :: "proxy \<Rightarrow> (nat \<times> byte list) list \<Rightarrow> nat \<Rightarrow> byte list" where
  "delivered px sent c = out px c @ concat (map snd (filter (\<lambda>(d, msg). d = c) sent))"

lemma body_requests_fold:
  assumes "serves (g_MaxPeerConns st) px i" "tmp_inv (px_cache px)" "\<forall>r \<in> set rs. in_temp px r" "g_NumDeadConns px + int (length rs) < int MAX_NUM_CI"
    and "ci_type ci = ct_chunk" "ci_stub ci = ChunkStub cci" "cc_peerIdx cci = int i"
  shows "\<exists>px' sent. rfold (body_request_one st ci) rs px = Inr px' \<and>
    map (\<lambda>(fd, msg). Inr msg) sent = map (\<lambda>r. BuildWABodyResponse (rq_sha1 r) (block_for px r)) rs \<and>
    fst ` set sent \<subseteq> chunk_conns (g_MaxPeerConns st) (px_peers px) i \<and>
    serves (g_MaxPeerConns st) px' i \<and> write_only px px' \<and> g_NumDeadConns px' \<le> g_NumDeadConns px + int (length rs) \<and>
    out px' = delivered px sent"
  using assms(1-4)
proof (induction rs arbitrary: px)
  case Nil
  then show ?case by (intro exI[of _ px] exI[of _ "[]"]) (simp add: write_only_def delivered_def fun_eq_iff)
next
  case (Cons r rs)
  from body_request_one_ok[OF Cons.prems(1,2) _ _ assms(5-7), of r] Cons.prems(3,4) obtain px1 fd msg where
    o1: "body_request_one st ci r px = Inr px1" "BuildWABodyResponse (rq_sha1 r) (block_for px r) = Inr msg"
      "fd \<in> chunk_conns (g_MaxPeerConns st) (px_peers px) i" "serves (g_MaxPeerConns st) px1 i" "write_only px px1"
      "g_NumDeadConns px1 \<le> g_NumDeadConns px + 1" "out px1 = (out px)(fd := out px fd @ msg)" by auto
  have w: "px_cache px1 = px_cache px" "slots (px_peers px1) = slots (px_peers px)" using o1(5) by (simp_all add: write_only_def)
  have i: "i < length (g_PeerInfo (px_peers px))" using Cons.prems(1) by (simp add: serves_def)
  have cc: "chunk_conns (g_MaxPeerConns st) (px_peers px1) i = chunk_conns (g_MaxPeerConns st) (px_peers px) i"
    using slots_nth[OF w(2) i] by (simp add: chunk_conns_def)
  have bf: "block_for px1 = block_for px" "in_temp px1 = in_temp px" using w(1) by (simp_all add: block_for_def in_temp_def fun_eq_iff)
  from Cons.IH[OF o1(4)] w(1) Cons.prems(2-4) bf o1(6) obtain px' sent where
    i: "rfold (body_request_one st ci) rs px1 = Inr px'"
      "map (\<lambda>(fd, msg). Inr msg) sent = map (\<lambda>r. BuildWABodyResponse (rq_sha1 r) (block_for px r)) rs"
      "fst ` set sent \<subseteq> chunk_conns (g_MaxPeerConns st) (px_peers px) i" "serves (g_MaxPeerConns st) px' i" "write_only px1 px'"
      "g_NumDeadConns px' \<le> g_NumDeadConns px1 + int (length rs)" "out px' = delivered px1 sent" unfolding cc bf by auto
  have "delivered px1 sent = delivered px ((fd, msg) # sent)" using o1(7) by (auto simp: delivered_def fun_eq_iff)
  with i o1 show ?case by (intro exI[of _ px'] exI[of _ "(fd, msg) # sent"]) (auto simp: write_only_def)
qed

lemma next_request_enc:
  assumes "length (rq_sha1 r) = SHA1_LEN"
  shows "next_request (enc_request r @ rest) = Some (r, length (enc_request r))"
proof -
  have "read_request (enc_request r @ rest) = (r, length (enc_request r))" using request_codec.dec_enc[of r rest] assms by simp
  moreover have "sizeof_WAOneRequest \<le> length (enc_request r)" using assms by (simp add: enc_request_def one_request_def name_bytes_20 sizeof_defs SHA1_LEN_def)
  ultimately show ?thesis by (simp add: next_request_def)
qed

lemma body_request_step:
  assumes "\<forall>r \<in> set rs. length (rq_sha1 r) = SHA1_LEN" "rs \<noteq> []" "length rs < 2 ^ 26" "ci_type ci = ct_chunk"
    and "rfold (body_request_one st ci) rs px = Inr px'"
  shows "chunk_loop st px ci (body_request rs @ rest) k = chunk_loop st px' ci rest (k + length (body_request rs))"
proof (rule chunk_loop_step)
  have len: "length (body_request rs) = 11 + 28 * length rs" using length_requests[OF assms(1)] by (simp add: length_entries_message)
  then have l: "length (body_request rs) < 2 ^ 31" using assms(3) by simp
  show "body_request rs \<noteq> []" using len by auto
  show "VerifyChunkHeader (body_request rs @ rest) = Valid TYPE_WABODYREQUEST"
    using l unfolding entries_message_def by (intro verify_chunk) (simp_all add: chunk_types_def)
  show "chunk_message_step st TYPE_WABODYREQUEST px ci (body_request rs @ rest) = Inr (px', int (length (body_request rs)))"
    using chunk_handler_message[of rs next_request enc_request ci TYPE_WABODYREQUEST MAGIC_WABODYREQUEST "body_request_one st ci" px rest]
      next_request_enc assms l by (simp add: chunk_message_step_def ProcessBodyRequest_def)
qed

lemma body_requests_loop:
  assumes "\<forall>rs \<in> set rss. rs \<noteq> [] \<and> length rs < 2 ^ 26 \<and> (\<forall>r \<in> set rs. length (rq_sha1 r) = SHA1_LEN)" "ci_type ci = ct_chunk"
    and "rfold (body_request_one st ci) (concat rss) px = Inr px'"
  shows "chunk_loop st px ci (concat (map body_request rss) @ rest) k = chunk_loop st px' ci rest (k + length (concat (map body_request rss)))"
  using assms(1,3)
proof (induction rss arbitrary: px k)
  case (Cons rs rss)
  then obtain px1 where p: "rfold (body_request_one st ci) rs px = Inr px1" "rfold (body_request_one st ci) (concat rss) px1 = Inr px'"
    by (auto simp: rbind_eq_Inr)
  have "chunk_loop st px ci (body_request rs @ concat (map body_request rss) @ rest) k =
      chunk_loop st px1 ci (concat (map body_request rss) @ rest) (k + length (body_request rs))"
    using Cons.prems(1) by (intro body_request_step[OF _ _ _ assms(2) p(1)]) auto
  with Cons.IH[OF _ p(2)] Cons.prems(1) show ?case by (simp add: add.assoc)
qed simp

section \<open>Properties\<close>

text \<open>
  Claim C11: requests for chunks are answered in order. A stream of request messages, of any number of
  requests each, comes from a peer with open chunk connections, and every chunk is in the temporary
  cache with the length that is asked for. \<open>ProcessChunkData\<close> passes every assertion, consumes exactly
  the complete messages, and sends for each request, in their order, the message \<open>BuildWABodyResponse\<close>
  makes of the name and the cached block. Each goes as a whole to one of the chunk connections of that
  peer; nothing else is sent, and the caches and the waiting requests are left alone.
\<close>

theorem chunk_requests_answered:
  assumes "ci_type ci = ct_chunk" "ci_stub ci = ChunkStub cci" "cc_peerIdx cci = int i"
    and "serves (g_MaxPeerConns st) px i" "tmp_inv (px_cache px)" "\<forall>r \<in> set (concat rss). in_temp px r" "\<forall>rs \<in> set rss. rs \<noteq> [] \<and> length rs < 2 ^ 26"
    and "g_NumDeadConns px + int (length (concat rss)) < int MAX_NUM_CI" "tail = [] \<or> VerifyChunkHeader tail = NeedMore"
  shows "\<exists>px' sent. ProcessChunkData st px ci (concat (map body_request rss) @ tail) = Inr (px', int (length (concat (map body_request rss)))) \<and>
    map (\<lambda>(fd, msg). Inr msg) sent = map (\<lambda>r. BuildWABodyResponse (rq_sha1 r) (block_for px r)) (concat rss) \<and>
    fst ` set sent \<subseteq> chunk_conns (g_MaxPeerConns st) (px_peers px) i \<and>
    (\<forall>c. out px' c = out px c @ concat (map snd (filter (\<lambda>(fd, msg). fd = c) sent))) \<and>
    px_cache px' = px_cache px \<and> px_requests px' = px_requests px"
proof -
  from body_requests_fold[OF assms(4-6,8,1-3)] obtain px' sent where
    f: "rfold (body_request_one st ci) (concat rss) px = Inr px'"
      "map (\<lambda>(fd, msg). Inr msg) sent = map (\<lambda>r. BuildWABodyResponse (rq_sha1 r) (block_for px r)) (concat rss)"
      "fst ` set sent \<subseteq> chunk_conns (g_MaxPeerConns st) (px_peers px) i" "write_only px px'" "out px' = delivered px sent" by blast
  have ok: "\<forall>rs \<in> set rss. rs \<noteq> [] \<and> length rs < 2 ^ 26 \<and> (\<forall>r \<in> set rs. length (rq_sha1 r) = SHA1_LEN)"
    using assms(6,7) by (auto simp: in_temp_def)
  let ?n = "length (concat (map body_request rss))"
  have "chunk_loop st px ci (concat (map body_request rss) @ tail) 0 = Inr (px', Some ?n)"
    using body_requests_loop[OF ok assms(1) f(1), of tail 0] chunk_loop_stop[OF assms(9)] by simp
  then have "ProcessChunkData st px ci (concat (map body_request rss) @ tail) = Inr (px'\<lparr>g_BytesPeerRX := g_BytesPeerRX px' + of_nat ?n\<rparr>, int ?n)"
    using assms(1) by (simp add: ProcessChunkData_def)
  moreover have "out (px'\<lparr>g_BytesPeerRX := x\<rparr>) = delivered px sent" for x unfolding f(5)[symmetric] by (simp add: out_def fun_eq_iff)
  ultimately show ?thesis using f
    by (intro exI[of _ "px'\<lparr>g_BytesPeerRX := g_BytesPeerRX px' + of_nat ?n\<rparr>"] exI[of _ sent]) (simp add: write_only_def delivered_def)
qed

definition demo_chunk_conn :: ConnectionInfo where
  "demo_chunk_conn = (demo_conn demo_user)\<lparr>ci_type := ct_chunk, ci_isWritable := False, ci_stub := ChunkStub \<lparr>cc_peerIdx = 1, cc_flowIdx = 0\<rparr>\<rparr>"

text \<open>A proxy with the cache \<open>s\<close> and one chunk connection, to the peer 1.\<close>

definition demo_server :: "cache \<Rightarrow> proxy" where
  "demo_server s = (demo_proxy s (snd (projr (CreateConnectionTables None))) demo_chunk_conn [])\<lparr>
     px_peers := update_peer 1 (\<lambda>pi. pi\<lparr>pi_chunkCI := Some 9 # replicate 9 None\<rparr>) (three_peers True True)\<rparr>"

lemma demo_server:
  "px_cache (demo_server s) = s" "px_conns (demo_server s) = [9 \<mapsto> demo_chunk_conn]" "serves 1 (demo_server s) 1" "g_NumDeadConns (demo_server s) = 0"
  "out (demo_server s) 9 = []" "px_requests (demo_server s) = projr CreateChunkRequestTable" "length (g_PeerInfo (px_peers (demo_server s))) = 3"
proof -
  have c: "ci_fd demo_chunk_conn = 9" "ci_type demo_chunk_conn = ct_chunk" "queue_ok demo_chunk_conn" "stream demo_chunk_conn = []"
    by (simp_all add: demo_chunk_conn_def demo_conn_def queue_ok_def waiting_def stream_def)
  show s: "px_cache (demo_server s) = s" "px_conns (demo_server s) = [9 \<mapsto> demo_chunk_conn]" "g_NumDeadConns (demo_server s) = 0"
    "px_requests (demo_server s) = projr CreateChunkRequestTable" "length (g_PeerInfo (px_peers (demo_server s))) = 3"
    using c(1) by (simp_all add: demo_server_def demo_proxy_def three_peers)
  have "peers_ok (px_peers (demo_server s))" unfolding demo_server_def using three_peers(1) by (simp add: update_peer_same)
  moreover have "chunk_conns 1 (px_peers (demo_server s)) 1 = {9}" by (auto simp: chunk_conns_def demo_server_def three_peers)
  ultimately show "serves 1 (demo_server s) 1" using c s by (simp add: serves_def) (simp add: demo_server_def three_peers)
  show "out (demo_server s) 9 = []" using s c by (simp add: out_def)
qed

theorem chunk_requests_answered_witness:
  "\<exists>s px' msg. RefPutChunkCallback (empty_cache 0) (replicate 20 7) [1, 2, 3] = Inr s \<and>
     ProcessChunkData (demo_settings\<lparr>g_MaxPeerConns := 1\<rparr>) (demo_server s) demo_chunk_conn (BuildWABodyRequest 1 (replicate 20 7) 3 @ [MAGIC_WAHEADER]) =
       Inr (px', 39) \<and> BuildWABodyResponse (replicate 20 7) [1, 2, 3] = Inr msg \<and> out px' 9 = msg"
proof -
  let ?st = "demo_settings\<lparr>g_MaxPeerConns := 1\<rparr>" and ?r = "\<lparr>rq_orgPxyAddr = 1, rq_sha1 = replicate 20 7, rq_length = 3\<rparr>"
  from tmp_cache.put_ok[OF empty_cache(2)[of 0], of "[1, 2, 3]" "replicate 20 7"] obtain s where
    s: "RefPutChunkCallback (empty_cache 0) (replicate 20 7) [1, 2, 3] = Inr s" "tmp_inv s"
      "tmp_content s (replicate 20 7) = Some [1, 2, 3]"
    by (auto simp: MAX_CHUNK_SIZE_def tmp_refs_def empty_cache)
  have h: "ci_type demo_chunk_conn = ct_chunk" "ci_stub demo_chunk_conn = ChunkStub \<lparr>cc_peerIdx = 1, cc_flowIdx = 0\<rparr>"
    by (simp_all add: demo_chunk_conn_def)
  have in_temp: "in_temp (demo_server s) ?r" "block_for (demo_server s) ?r = [1, 2, 3]" using s(3) by (simp_all add: in_temp_def block_for_def demo_server SHA1_LEN_def)
  have p: "cc_peerIdx \<lparr>cc_peerIdx = 1, cc_flowIdx = 0\<rparr> = int 1" "serves (g_MaxPeerConns ?st) (demo_server s) 1" "tmp_inv (px_cache (demo_server s))"
    "\<forall>r \<in> set (concat [[?r]]). in_temp (demo_server s) r" "\<forall>rs \<in> set [[?r]]. rs \<noteq> [] \<and> length rs < 2 ^ 26"
    "g_NumDeadConns (demo_server s) + int (length (concat [[?r]])) < int MAX_NUM_CI" "[MAGIC_WAHEADER] = [] \<or> VerifyChunkHeader [MAGIC_WAHEADER] = NeedMore"
    using s(2) in_temp demo_server[of s] by (simp_all add: MAX_NUM_CI_def VerifyChunkHeader_def sizeof_defs)
  from chunk_requests_answered[OF h p] obtain px' sent where
    q: "ProcessChunkData ?st (demo_server s) demo_chunk_conn (concat (map body_request [[?r]]) @ [MAGIC_WAHEADER]) =
         Inr (px', int (length (concat (map body_request [[?r]]))))"
      "map (\<lambda>(fd, msg). Inr msg) sent = map (\<lambda>r. BuildWABodyResponse (rq_sha1 r) (block_for (demo_server s) r)) (concat [[?r]])"
      "fst ` set sent \<subseteq> chunk_conns (g_MaxPeerConns ?st) (px_peers (demo_server s)) 1"
      "\<forall>c. out px' c = out (demo_server s) c @ concat (map snd (filter (\<lambda>(fd, msg). fd = c) sent))" by blast
  have r: "ProcessChunkData ?st (demo_server s) demo_chunk_conn (body_request [?r] @ [MAGIC_WAHEADER]) = Inr (px', int (length (body_request [?r])))"
    "map (\<lambda>(fd, msg). Inr msg) sent = [BuildWABodyResponse (replicate 20 7) [1, 2, 3]]" "fst ` set sent \<subseteq> chunk_conns 1 (px_peers (demo_server s)) 1"
    "\<forall>c. out px' c = out (demo_server s) c @ concat (map snd (filter (\<lambda>(fd, msg). fd = c) sent))"
    using q in_temp(2) by simp_all
  then obtain fd msg where m: "sent = [(fd, msg)]" by (cases sent) auto
  have "chunk_conns 1 (px_peers (demo_server s)) 1 = {9}" by (auto simp: chunk_conns_def demo_server_def three_peers)
  then have "fd = 9" using r(3) m by auto
  moreover have "length (body_request [?r]) = 39" by (simp add: length_entries_message enc_request_def one_request_def name_bytes_20 SHA1_LEN_def)
  ultimately show ?thesis using s(1) r(1,2,4) m demo_server(5)[of s] by (auto simp: BuildWABodyRequest_eq)
qed

text \<open>
  Claim C12: chunks that arrive are kept for the blocks that wait. A stream of the messages that
  \<open>BuildWABodyResponse\<close> makes of chunks with distinct names arrives, in one piece or cut off after any
  of them, and for each of them a request of this proxy is the first that waits. \<open>ProcessChunkData\<close>
  passes every assertion and consumes exactly the complete messages. Each chunk gets one more
  reference in the temporary cache and is stored there if it was not; the requests for these names are
  removed and no others; reconstruction is asked for. Nothing is sent: a request that was redirected
  from a peer and waits behind the first for the same name is removed without an answer.
\<close>

theorem chunk_responses_kept:
  assumes "ci_type ci = ct_chunk" "requests_ok (px_requests px)" "tmp_inv (px_cache px)" "\<forall>nb \<in> set nbs. awaited px nb" "distinct (map fst nbs)"
    and "list_all2 (\<lambda>(n, b) msg. BuildWABodyResponse n b = Inr msg) nbs msgs" "tail = [] \<or> VerifyChunkHeader tail = NeedMore"
  shows "\<exists>px'. ProcessChunkData st px ci (concat msgs @ tail) = Inr (px', int (length (concat msgs))) \<and>
    (\<forall>n. tmp_content (px_cache px') n = (if tmp_refs (px_cache px) n = 0 then map_of nbs (take SHA1_LEN n) else tmp_content (px_cache px) n)) \<and>
    (\<forall>n. tmp_refs (px_cache px') n = tmp_refs (px_cache px) n + (if take SHA1_LEN n \<in> fst ` set nbs then 1 else 0)) \<and> tmp_inv (px_cache px') \<and>
    (\<forall>n. GetChunkRequestList (px_requests px') n = (if take SHA1_LEN n \<in> fst ` set nbs then None else GetChunkRequestList (px_requests px) n)) \<and>
    requests_ok (px_requests px') \<and> px_conns px' = px_conns px \<and> (nbs \<noteq> [] \<longrightarrow> g_TryReconstruction px')"
proof -
  from body_responses_loop[OF assms(2-5,1,6)] obtain px' where r: "all_received px nbs px'"
    "chunk_loop st px ci (concat msgs @ tail) 0 = chunk_loop st px' ci tail (length (concat msgs))" by (metis add_0)
  have l: "\<forall>nb \<in> set nbs. length (fst nb) = SHA1_LEN" using assms(4) by (auto simp: awaited_def)
  note sums = all_received_sum[OF r(1) assms(2,3,5) l]
  let ?n = "length (concat msgs)"
  have "ProcessChunkData st px ci (concat msgs @ tail) = Inr (px'\<lparr>g_BytesPeerRX := g_BytesPeerRX px' + of_nat ?n\<rparr>, int ?n)"
    using assms(1) r(2) chunk_loop_stop[OF assms(7)] by (simp add: ProcessChunkData_def)
  with sums show ?thesis by (intro exI[of _ "px'\<lparr>g_BytesPeerRX := g_BytesPeerRX px' + of_nat ?n\<rparr>"]) simp
qed

text \<open>A request of this proxy, and one that was redirected from the peer with address 5: the second is dropped.\<close>

theorem chunk_responses_kept_witness:
  "\<exists>r0 p0 r p px px' msg. PutChunkRequest (projr CreateChunkRequestTable) (three_peers True True) (replicate 20 7) demo_cid False 0 3 1 True = Inr (r0, p0) \<and>
     PutChunkRequest r0 p0 (replicate 20 7) demo_cid True 5 3 1 True = Inr (r, p) \<and> px = (demo_server (empty_cache 0))\<lparr>px_requests := r\<rparr> \<and>
     map cri_isRedirected (waiting_for (px_requests px) (replicate 20 7)) = [False, True] \<and> BuildWABodyResponse (replicate 20 7) [1, 2, 3] = Inr msg \<and>
     ProcessChunkData demo_settings px demo_chunk_conn msg = Inr (px', int (length msg)) \<and> tmp_content (px_cache px') (replicate 20 7) = Some [1, 2, 3] \<and>
     waiting_for (px_requests px') (replicate 20 7) = [] \<and> px_conns px' = px_conns px"
proof -
  let ?n = "replicate 20 7 :: sha1"
  from CreateChunkRequestTable_ok have c: "requests_ok (projr CreateChunkRequestTable)" "GetChunkRequestList (projr CreateChunkRequestTable) ?n = None"
    by (metis sum.sel(2))+
  from PutChunkRequest_ok[OF c(1), of 1 "three_peers True True" ?n demo_cid False 0 3 True] c(2) obtain r0 p0 where
    r0: "PutChunkRequest (projr CreateChunkRequestTable) (three_peers True True) ?n demo_cid False 0 3 1 True = Inr (r0, p0)" "requests_ok r0"
      "GetChunkRequestList r0 ?n = Some [new_request demo_cid False 0 3 1 True]" "length (g_PeerInfo p0) = 3" by (auto simp: three_peers)
  from PutChunkRequest_ok[OF r0(2), of 1 p0 ?n demo_cid True 5 3 True] r0(3,4) obtain r p where
    r: "PutChunkRequest r0 p0 ?n demo_cid True 5 3 1 True = Inr (r, p)" "requests_ok r"
      "GetChunkRequestList r ?n = Some [new_request demo_cid False 0 3 1 True, new_request demo_cid True 5 3 1 True]" by auto
  let ?px = "(demo_server (empty_cache 0))\<lparr>px_requests := r\<rparr>"
  have a: "awaited ?px (?n, [1, 2, 3])" using r(3) by (simp add: awaited_def new_request_def demo_server SHA1_LEN_def MAX_CHUNK_SIZE_def)
  obtain msg where m: "BuildWABodyResponse ?n [1, 2, 3] = Inr msg" using BuildWABodyResponse_eq[of "[1, 2, 3]" ?n] by simp
  have h: "ci_type demo_chunk_conn = ct_chunk" by (simp add: demo_chunk_conn_def)
  have e: "tmp_inv (px_cache ?px)" "tmp_refs (px_cache ?px) ?n = 0" using empty_cache by (simp_all add: demo_server tmp_refs_def)
  from chunk_responses_kept[OF h, of ?px "[(?n, [1, 2, 3])]" "[msg]" "[]" demo_settings] a m r(2) e obtain px' where
    k: "ProcessChunkData demo_settings ?px demo_chunk_conn msg = Inr (px', int (length msg))" "tmp_content (px_cache px') ?n = Some [1, 2, 3]"
      "GetChunkRequestList (px_requests px') ?n = None" "px_conns px' = px_conns ?px" by (auto simp: SHA1_LEN_def)
  have "map cri_isRedirected (waiting_for (px_requests ?px) ?n) = [False, True]" using r(3) by (simp add: new_request_def)
  with r0(1) r(1) m k show ?thesis
    by (intro exI[of _ r0] exI[of _ p0] exI[of _ r] exI[of _ p] exI[of _ ?px] exI[of _ px'] exI[of _ msg]) simp
qed

end
