(* ===== verification/Disk_Response.thy ===== *)
theory Disk_Response
  imports Exchange
begin

text \<open>
  The responses of the disk cache (waprox/waprox.c: \<open>ProcessCacheResponse\<close> and the functions that end a
  look-up, a peek or a store).

  The response is searched with \<open>strchr\<close> and \<open>atoi\<close>, which do not know its length: \<open>beyond\<close> is the memory
  behind the received bytes, and a search that leaves it is \<open>UndefinedBehaviour\<close>. The source of a
  transaction is the descriptor of its connection.
\<close>

section \<open>C strings\<close>

fun strchr :: "byte list \<Rightarrow> byte \<Rightarrow> nat option res" where
  "strchr [] c = Inl UndefinedBehaviour"
| "strchr (b # bs) c =
     (if b = c then Inr (Some 0) else if b = 0 then Inr None else rbind (strchr bs c) (\<lambda>r. Inr (map_option Suc r)))"

definition is_space :: "byte \<Rightarrow> bool" where
  "is_space b \<longleftrightarrow> b = 32 \<or> 9 \<le> b \<and> b \<le> 13"

fun read_digits :: "byte list \<Rightarrow> int \<Rightarrow> int res" where
  "read_digits [] n = Inl UndefinedBehaviour"
| "read_digits (b # bs) n = (if 48 \<le> b \<and> b \<le> 57 then read_digits bs (n * 10 + (uint b - 48)) else Inr n)"

definition atoi :: "byte list \<Rightarrow> int res" where
  "atoi s =
     (case dropWhile is_space s of
        [] \<Rightarrow> Inl UndefinedBehaviour
      | b # bs \<Rightarrow>
          rbind (if b = 45 then rbind (read_digits bs 0) (\<lambda>n. Inr (- n)) else if b = 43 then read_digits bs 0 else read_digits (b # bs) 0) (\<lambda>n.
            if - (2 ^ 31) \<le> n \<and> n < 2 ^ 31 then Inr n else Inl UndefinedBehaviour))"

section \<open>The end of a transaction\<close>

text \<open>A request to the sender of a block for one of its chunks.\<close>

definition ask_sender :: "settings \<Rightarrow> proxy \<Rightarrow> int \<Rightarrow> CacheTransactionInfo \<Rightarrow> int \<Rightarrow> proxy res" where
  "ask_sender st px dst cci streamID =
     (if dst < 0 \<or> nat dst \<ge> length (g_PeerInfo (px_peers px)) then Inl UndefinedBehaviour
      else let request = BuildWABodyRequest (pi_netAddr (g_PeerInfo (px_peers px) ! nat dst)) (ti_sha1 cci) (of_int (ti_chunkLen cci));
               px1 = px\<lparr>g_NumChunkRequestSent := g_NumChunkRequestSent px + 1,
                 px_peers := update_peer (nat dst) (\<lambda>pi. pi\<lparr>pi_numRedirected := pi_numRedirected pi + 1,
                   pi_bytesRedirected := pi_bytesRedirected pi + of_int (ti_chunkLen cci)\<rparr>) (px_peers px)\<rparr>
        in WriteToChunkPeer st px1 dst request streamID)"

definition PostProcessNameTreeDelivery2 :: "settings \<Rightarrow> proxy \<Rightarrow> CacheTransactionInfo \<Rightarrow> bool \<Rightarrow> byte list option \<Rightarrow> proxy res" where
  "PostProcessNameTreeDelivery2 st px cci isHit block =
     ensure (\<not> g_MemCacheOnly st)
       (case ti_sourceCI cci of
          None \<Rightarrow> Inl AssertFail
        | Some fd \<Rightarrow>
            (case px_conns px fd of
               None \<Rightarrow> Inl UndefinedBehaviour
             | Some ci \<Rightarrow>
                 ensure (ci_type ci = ct_user)
                   (case ci_stub ci of
                      UserStub uci \<Rightarrow>
                        if isHit then
                          (case block of
                             None \<Rightarrow> Inl AssertFail
                           | Some b \<Rightarrow>
                               ensure (length b > 0)
                               (ensure (int (length b) = ti_chunkLen cci)
                                 (rbind (RefPutChunkCallback (px_cache px) (ti_sha1 cci) b) (\<lambda>s.
                                    case g_LocalInfo (px_peers px) of
                                      None \<Rightarrow> Inl UndefinedBehaviour
                                    | Some l \<Rightarrow>
                                        Inr (px\<lparr>px_cache := s, g_TryReconstruction := True,
                                          px_peers := update_peer l (\<lambda>pi. pi\<lparr>pi_numRedirected := pi_numRedirected pi + 1,
                                            pi_bytesRedirected := pi_bytesRedirected pi + of_int (ti_chunkLen cci)\<rparr>) (px_peers px)\<rparr>)))))
                        else
                          rbind (ask_sender st (px\<lparr>g_RareMisses := g_RareMisses px + 1\<rparr>) (uc_dstPxyIdx uci) cci (int (ci_fd ci))) (\<lambda>px1.
                          rbind (PutChunkRequest (px_requests px1) (px_peers px1) (ti_sha1 cci)
                              \<lparr>srcIP = uc_dip uci, srcPort = uc_dport uci, dstIP = uc_sip uci, dstPort = uc_sport uci\<rparr> False
                              (pi_netAddr (g_PeerInfo (px_peers px1) ! nat (uc_dstPxyIdx uci))) (of_int (ti_chunkLen cci)) (uc_dstPxyIdx uci) True) (\<lambda>(r, p).
                            Inr (px1\<lparr>px_requests := r, px_peers := p\<rparr>)))
                    | _ \<Rightarrow> Inl AssertFail)))"

definition PostProcessCachePUT :: "proxy \<Rightarrow> CacheTransactionInfo \<Rightarrow> proxy res" where
  "PostProcessCachePUT px cci = rbind (PutDone (px_cache px) (ti_sha1 cci)) (\<lambda>s. Inr (px\<lparr>px_cache := s\<rparr>))"

text \<open>The connection a transaction was started for.\<close>

definition source_of :: "proxy \<Rightarrow> CacheTransactionInfo \<Rightarrow> ConnectionInfo res" where
  "source_of px cci = (case ti_sourceCI cci of
     None \<Rightarrow> Inl UndefinedBehaviour
   | Some fd \<Rightarrow> (case px_conns px fd of None \<Rightarrow> Inl UndefinedBehaviour | Some ci \<Rightarrow> Inr ci))"

definition live_target :: "proxy \<Rightarrow> CacheTransactionInfo \<Rightarrow> bool res" where
  "live_target px cci =
     rbind (GetDestinationConnection (g_ConnMap px) (srcIP (ti_cid cci)) (srcPort (ti_cid cci)) (dstIP (ti_cid cci)) (dstPort (ti_cid cci)))
       (\<lambda>target. Inr (target \<noteq> None))"

definition PostProcessCacheGET :: "settings \<Rightarrow> proxy \<Rightarrow> CacheTransactionInfo \<Rightarrow> bool \<Rightarrow> byte list option \<Rightarrow> proxy res" where
  "PostProcessCacheGET st px cci isHit block =
     (if ti_ps cci = ps_nameTreeDelivery then
        rbind (live_target px cci) (\<lambda>found.
        rbind (if found then
                 rbind (source_of px cci) (\<lambda>ci. ensure (ci_type ci = ct_user) (PostProcessNameTreeDelivery2 st px cci isHit block))
               else if isHit then
                 (case block of
                    None \<Rightarrow> Inl UndefinedBehaviour
                  | Some b \<Rightarrow> rbind (RefPutChunkCallback (px_cache px) (ti_sha1 cci) b) (\<lambda>s. Inr (px\<lparr>px_cache := s, g_TryReconstruction := True\<rparr>)))
               else ensure (ti_dstPxyId cci \<noteq> -1) (ask_sender st px (ti_dstPxyId cci) cci (-1))) (\<lambda>px1.
          case g_LocalInfo (px_peers px1) of
            None \<Rightarrow> Inl UndefinedBehaviour
          | Some l \<Rightarrow> Inr (px1\<lparr>px_peers := update_peer l (\<lambda>pi. pi\<lparr>pi_diskPendingChunks := pi_diskPendingChunks pi - 1\<rparr>) (px_peers px1)\<rparr>)))
      else if ti_ps cci = ps_bodyRequest then
        rbind (source_of px cci) (\<lambda>ci. ensure (ci_type ci = ct_chunk)
          (case ti_opaque cci of
             BodyOpaque opq \<Rightarrow> PostProcessBodyRequest st px ci isHit opq block
           | _ \<Rightarrow> Inl UndefinedBehaviour))
      else if ti_ps cci = ps_keepalive then Inr px
      else Inl AssertFail)"

definition PostProcessCachePEEK :: "settings \<Rightarrow> proxy \<Rightarrow> CacheTransactionInfo \<Rightarrow> bool \<Rightarrow> proxy res" where
  "PostProcessCachePEEK st px cci isHit =
     (if ti_ps cci = ps_nameTreeDelivery then
        rbind (live_target px cci) (\<lambda>found.
          if found then
            rbind (source_of px cci) (\<lambda>ci. ensure (ci_type ci = ct_user)
              (case ti_opaque cci of
                 PeekOpaque2 block pos \<Rightarrow> update_name px block pos isHit False
               | NoOpaque \<Rightarrow> Inl AssertFail
               | _ \<Rightarrow> Inl UndefinedBehaviour))
          else Inr px)
      else if ti_ps cci = ps_peekRequest then
        rbind (source_of px cci) (\<lambda>ci. ensure (ci_type ci = ct_chunk)
          (case ti_opaque cci of
             PeekOpaque name \<Rightarrow> PostProcessPeekRequest st px ci isHit name
           | NoOpaque \<Rightarrow> Inl AssertFail
           | _ \<Rightarrow> Inl UndefinedBehaviour))
      else if ti_ps cci = ps_userData then Inr px
      else if ti_ps cci = ps_putDisk then
        (if isHit then PostProcessCachePUT px cci
         else SendCacheRequest st px hc_put ps_none (ti_sha1 cci) (ti_chunkLen cci) (ti_pChunk cci) (-1) None NoOpaque)
      else if ti_ps cci = ps_keepalive then Inr px
      else Inl AssertFail)"

section \<open>Responses\<close>

text \<open>The connection takes the next request.\<close>

definition finish_transaction :: "settings \<Rightarrow> nat \<Rightarrow> nat \<Rightarrow> proxy \<Rightarrow> proxy res" where
  "finish_transaction st fd buf_len px =
     (case px_conns px fd of
        None \<Rightarrow> Inl UndefinedBehaviour
      | Some ci \<Rightarrow>
          (case ci_stub ci of
             CacheStub cache_info \<Rightarrow>
               IssuePendingCacheRequests st
                 ((put_conn (ci\<lparr>ci_stub := CacheStub (cache_info\<lparr>ca_pCurTrans := None\<rparr>)\<rparr>) px)\<lparr>
                   g_BytesCacheRX := g_BytesCacheRX px + of_nat buf_len, g_NumCacheResponseReceived := g_NumCacheResponseReceived px + 1\<rparr>)
           | _ \<Rightarrow> Inl UndefinedBehaviour))"

text \<open>
  A found chunk: the length is read from the second line, and the block follows two bytes after it.
  \<open>None\<close> stands for a response that is not complete.
\<close>

definition get_hit :: "settings \<Rightarrow> proxy \<Rightarrow> CacheTransactionInfo \<Rightarrow> byte list \<Rightarrow> byte list \<Rightarrow> nat \<Rightarrow> proxy option res" where
  "get_hit st px cci buffer beyond pos1 =
     rbind (strchr (drop (pos1 + 1) (buffer @ beyond)) 10) (\<lambda>p2.
       case p2 of
         None \<Rightarrow> Inr None
       | Some k \<Rightarrow>
           ensure (length buffer \<ge> 24)
             (rbind (atoi (drop (pos1 + 16) (buffer @ beyond))) (\<lambda>content_length.
                ensure (content_length = ti_chunkLen cci)
                  (let header_length = pos1 + 1 + k + 1 + 2 in
                   if content_length + int header_length > int (length buffer) then Inr None
                   else ensure (content_length + int header_length = int (length buffer))
                     (rbind (PostProcessCacheGET st px cci True (Some (drop header_length buffer))) (\<lambda>px1. Inr (Some px1)))))))"

definition ProcessCacheResponse :: "settings \<Rightarrow> proxy \<Rightarrow> ConnectionInfo \<Rightarrow> byte list \<Rightarrow> byte list \<Rightarrow> (proxy \<times> int) res" where
  "ProcessCacheResponse st px ci buffer beyond =
     ensure (length buffer > 0)
       (case ci_stub ci of
          CacheStub cache_info \<Rightarrow>
            (case ca_pCurTrans cache_info of
               None \<Rightarrow> Inl AssertFail
             | Some cci \<Rightarrow>
                 let mem = buffer @ beyond in
                 rbind (strchr mem 10) (\<lambda>p1.
                   case p1 of
                     None \<Rightarrow> Inr (px, 0)
                   | Some pos1 \<Rightarrow>
                       rbind (strchr mem 32) (\<lambda>ps.
                         case ps of
                           None \<Rightarrow> Inr (px, -1)
                         | Some pos_space \<Rightarrow>
                             ensure (length buffer \<ge> 12)
                               (rbind (atoi (drop (pos_space + 1) mem)) (\<lambda>respCode.
                                  let finish = (\<lambda>px1. rbind (finish_transaction st (ci_fd ci) (length buffer) px1) (\<lambda>px2. Inr (px2, int (length buffer))))
                                  in if respCode = 302 then
                                       (case ti_method cci of
                                          hc_get \<Rightarrow> rbind (get_hit st px cci buffer beyond pos1) (\<lambda>r. case r of None \<Rightarrow> Inr (px, 0) | Some px1 \<Rightarrow> finish px1)
                                        | hc_put \<Rightarrow> rbind (PostProcessCachePUT px cci) finish
                                        | hc_peek \<Rightarrow> rbind (PostProcessCachePEEK st px cci True) finish)
                                     else if respCode = 400 then
                                       (case ti_method cci of
                                          hc_get \<Rightarrow> rbind (PostProcessCacheGET st px cci False None) finish
                                        | hc_peek \<Rightarrow> rbind (PostProcessCachePEEK st px cci False) finish
                                        | hc_put \<Rightarrow> Inl AssertFail)
                                     else Inr (px, -1))))))
        | _ \<Rightarrow> Inl AssertFail)"

section \<open>Parsing\<close>

lemma strchr_found: "c \<notin> set xs \<Longrightarrow> 0 \<notin> set xs \<Longrightarrow> strchr (xs @ c # ys) c = Inr (Some (length xs))"
  by (induction xs) auto

lemma strchr_none: "c \<notin> set xs \<Longrightarrow> 0 \<notin> set xs \<Longrightarrow> c \<noteq> 0 \<Longrightarrow> strchr (xs @ 0 # ys) c = Inr None"
  by (induction xs) auto

lemma digit_byte:
  assumes "k < 10"
  shows "(of_nat (48 + k) :: byte) \<in> {48..57}" "uint (of_nat (48 + k) :: byte) = 48 + int k"
proof -
  have "unat (of_nat (48 + k) :: byte) = 48 + k" using assms by (simp add: unsigned_of_nat take_bit_nat_eq_self del: of_nat_add)
  then show "uint (of_nat (48 + k) :: byte) = 48 + int k" by (metis of_nat_add of_nat_numeral uint_nat)
  then show "(of_nat (48 + k) :: byte) \<in> {48..57}" using assms by (simp add: word_le_def del: of_nat_add)
qed

lemma digits_range: "set (digits n) \<subseteq> {48..57}" "digits n \<noteq> []"
proof -
  show "set (digits n) \<subseteq> {48..57}"
  proof (induction n rule: digits.induct)
    case (1 n)
    then show ?case using digit_byte(1)[of n] digit_byte(1)[of "n mod 10"] by (subst digits.simps) (auto simp del: of_nat_add)
  qed
  show "digits n \<noteq> []" by (subst digits.simps) simp
qed

lemma read_digits_append: "read_digits (digits n @ ys) m = read_digits ys (m * 10 ^ length (digits n) + int n)"
proof (induction n arbitrary: m ys rule: digits.induct)
  case (1 n)
  show ?case
  proof (cases "n < 10")
    case True
    then show ?thesis using digit_byte[OF True] by (simp add: digits.simps[of n] del: of_nat_add)
  next
    case False
    have d: "n mod 10 < 10" by simp
    have "int n = int (n div 10) * 10 + int (n mod 10)" by (metis div_mult_mod_eq of_nat_add of_nat_mult of_nat_numeral)
    then show ?thesis using 1[OF False] False digit_byte[OF d] by (simp add: digits.simps[of n] algebra_simps del: of_nat_add)
  qed
qed

lemma atoi_digits:
  assumes "int n < 2 ^ 31" "y \<notin> {48..57}"
  shows "atoi (digits n @ y # ys) = Inr (int n)" "atoi (32 # digits n @ y # ys) = Inr (int n)"
proof -
  obtain b bs where d: "digits n = b # bs" using digits_range(2)[of n] by (cases "digits n") auto
  then have b: "b \<in> {48..57}" using digits_range(1)[of n] by simp
  then have s: "\<not> is_space b" "b \<noteq> 45" "b \<noteq> 43" by (auto simp: is_space_def word_le_def)
  have space: "is_space 32" by (simp add: is_space_def)
  have "read_digits (y # ys) (int n) = Inr (int n)" using assms(2) by auto
  then have r: "read_digits (digits n @ y # ys) 0 = Inr (int n)" by (simp only: read_digits_append) simp
  then have "read_digits (b # bs @ y # ys) 0 = Inr (int n)" by (simp only: d append_Cons)
  then show "atoi (digits n @ y # ys) = Inr (int n)" "atoi (32 # digits n @ y # ys) = Inr (int n)"
    using s assms(1) space by (simp_all add: atoi_def d del: read_digits.simps)
qed

text \<open>The response to a look-up that finds the chunk, with the blank line that the code skips, and to one that does not.\<close>

definition hit_line :: "byte list" where
  "hit_line = ascii ''HTTP/0.9 302 OK'' @ [13]"

definition length_line :: "nat \<Rightarrow> byte list" where
  "length_line n = ascii ''Content-Length: '' @ digits n @ [13]"

definition hit_response :: "byte list \<Rightarrow> byte list" where
  "hit_response block = hit_line @ [10] @ length_line (length block) @ [10] @ crlf @ block"

definition miss_response :: "byte list" where
  "miss_response = ascii ''HTTP/0.9 400 NOT FOUND'' @ crlf"

lemma ascii_of: "ascii (c # s) = of_char c # ascii s" "ascii [] = []"
  by (simp_all add: ascii_def)

lemma hit_line_eq: "hit_line = [72, 84, 84, 80, 47, 48, 46, 57, 32, 51, 48, 50, 32, 79, 75, 13]"
  by (simp add: hit_line_def ascii_of)

lemma length_line_eq: "length_line n = [67, 111, 110, 116, 101, 110, 116, 45, 76, 101, 110, 103, 116, 104, 58, 32] @ digits n @ [13]"
  by (simp add: length_line_def ascii_of)

lemma length_line_plain: "10 \<notin> set (length_line n)" "0 \<notin> set (length_line n)" "length (length_line n) = 17 + length (digits n)"
  using digits_range(1)[of n] by (auto simp: length_line_eq)

lemma hit_code: "atoi (drop 9 (hit_line @ ys)) = Inr 302" "strchr (hit_line @ ys) 32 = Inr (Some 8)" "10 \<notin> set hit_line" "0 \<notin> set hit_line" "length hit_line = 16"
  by (simp_all add: hit_line_eq atoi_def is_space_def)

text \<open>A response with the status line of a hit, and the test of its second line.\<close>

lemma hit_status:
  assumes "ci_stub ci = CacheStub cc" "ca_pCurTrans cc = Some t" "ti_method t = hc_get" "buffer = hit_line @ [10] @ rest"
  shows "ProcessCacheResponse st px ci buffer beyond =
    rbind (get_hit st px t buffer beyond 16) (\<lambda>r. case r of None \<Rightarrow> Inr (px, 0)
      | Some px1 \<Rightarrow> rbind (finish_transaction st (ci_fd ci) (length buffer) px1) (\<lambda>px2. Inr (px2, int (length buffer))))"
proof -
  have mem: "buffer @ beyond = hit_line @ 10 # rest @ beyond" using assms(4) by simp
  have "strchr (buffer @ beyond) 10 = Inr (Some 16)" unfolding mem using strchr_found[of 10 hit_line] hit_code by simp
  moreover have "strchr (buffer @ beyond) 32 = Inr (Some 8)" "atoi (drop 9 (buffer @ beyond)) = Inr 302" unfolding mem by (rule hit_code)+
  moreover have "12 \<le> length buffer" "buffer \<noteq> []" using assms(4) hit_code(5) by simp_all
  ultimately show ?thesis using assms(1-3) by (simp add: ProcessCacheResponse_def)
qed

lemma get_hit_length:
  assumes "buffer @ beyond = hit_line @ 10 # length_line n @ 10 # rest" "24 \<le> length buffer" "int n < 2 ^ 31" "ti_chunkLen t = int n"
  shows "get_hit st px t buffer beyond 16 =
    (let header_length = 37 + length (digits n) in
     if int n + int header_length > int (length buffer) then Inr None
     else ensure (int n + int header_length = int (length buffer))
       (rbind (PostProcessCacheGET st px t True (Some (drop header_length buffer))) (\<lambda>px1. Inr (Some px1))))"
proof -
  have "drop 17 (hit_line @ 10 # length_line n @ 10 # rest) = length_line n @ 10 # rest" by (simp add: hit_line_eq)
  then have "strchr (drop (16 + 1) (buffer @ beyond)) 10 = Inr (Some (17 + length (digits n)))"
    using strchr_found[of 10 "length_line n" rest] length_line_plain[of n] unfolding assms(1) by simp
  moreover have "drop 32 (hit_line @ 10 # length_line n @ 10 # rest) = 32 # digits n @ 13 # 10 # rest" by (simp add: hit_line_eq length_line_eq)
  then have "atoi (drop (16 + 16) (buffer @ beyond)) = Inr (int n)" using atoi_digits(2)[OF assms(3), of 13] unfolding assms(1) by simp
  ultimately show ?thesis using assms(2,4) by (simp add: get_hit_def Let_def algebra_simps)
qed

lemma hit_complete:
  assumes "ci_stub ci = CacheStub cc" "ca_pCurTrans cc = Some t" "ti_method t = hc_get" "ti_chunkLen t = int (length block)" "length block < 2 ^ 31"
  shows "ProcessCacheResponse st px ci (hit_response block) beyond =
    rbind (PostProcessCacheGET st px t True (Some block)) (\<lambda>px1.
    rbind (finish_transaction st (ci_fd ci) (length (hit_response block)) px1) (\<lambda>px2. Inr (px2, int (length (hit_response block)))))"
proof -
  let ?n = "length block"
  have m: "hit_response block @ beyond = hit_line @ 10 # length_line ?n @ 10 # crlf @ block @ beyond" by (simp add: hit_response_def)
  have l: "length (hit_response block) = 37 + length (digits ?n) + ?n"
    using hit_code(5) length_line_plain(3)[of ?n] by (simp add: hit_response_def crlf_def)
  have "length (hit_line @ [10] @ length_line ?n @ [10] @ crlf) = 37 + length (digits ?n)" using hit_code(5) length_line_plain(3)[of ?n] by (simp add: crlf_def)
  moreover have "hit_response block = (hit_line @ [10] @ length_line ?n @ [10] @ crlf) @ block" by (simp add: hit_response_def)
  ultimately have "drop (37 + length (digits ?n)) (hit_response block) = block" by (metis append_eq_conv_conj)
  then have "get_hit st px t (hit_response block) beyond 16 = rbind (PostProcessCacheGET st px t True (Some block)) (\<lambda>px1. Inr (Some px1))"
    using get_hit_length[OF m, of t st px] l assms(4,5) by (simp add: Let_def)
  moreover have "hit_response block = hit_line @ [10] @ length_line ?n @ [10] @ crlf @ block" by (simp add: hit_response_def)
  ultimately show ?thesis using hit_status[OF assms(1-3), of "hit_response block" _ st px beyond]
    by (cases "PostProcessCacheGET st px t True (Some block)") simp_all
qed

lemma hit_prefix:
  assumes "ci_stub ci = CacheStub cc" "ca_pCurTrans cc = Some t" "ti_method t = hc_get" "ti_chunkLen t = int (length block)" "length block < 2 ^ 31"
    and "0 < k" "k < length (hit_response block)"
  shows "ProcessCacheResponse st px ci (take k (hit_response block)) (0 # beyond) = Inr (px, 0)"
proof -
  let ?n = "length block" and ?b = "take k (hit_response block)"
  have H: "hit_response block = hit_line @ 10 # length_line ?n @ 10 # crlf @ block" by (simp add: hit_response_def)
  have len: "length (hit_response block) = 37 + length (digits ?n) + ?n" "length ?b = k"
    using hit_code(5) length_line_plain(3)[of ?n] assms(7) by (simp_all add: hit_response_def crlf_def)
  consider "k \<le> 16" | j where "k = 17 + j" "j \<le> length (length_line ?n)" | j where "k = 17 + length (length_line ?n) + 1 + j"
  proof -
    assume a: "k \<le> 16 \<Longrightarrow> thesis" "\<And>j. k = 17 + j \<Longrightarrow> j \<le> length (length_line ?n) \<Longrightarrow> thesis" "\<And>j. k = 17 + length (length_line ?n) + 1 + j \<Longrightarrow> thesis"
    show thesis
    proof (cases "k \<le> 16")
      case False
      then show thesis using a(2)[of "k - 17"] a(3)[of "k - 18 - length (length_line ?n)"] by (cases "k - 17 \<le> length (length_line ?n)") auto
    qed (rule a(1))
  qed
  then show ?thesis
  proof cases
    case 1
    then have b: "?b = take k hit_line" using hit_code(5) by (simp add: H)
    then have "strchr (?b @ 0 # beyond) 10 = Inr None" using hit_code(3,4) by (intro strchr_none) (auto dest: in_set_takeD)
    then show ?thesis using assms(1-3,6) len(2) by (simp add: ProcessCacheResponse_def)
  next
    case (2 j)
    have b: "?b = hit_line @ [10] @ take j (length_line ?n)" using hit_code(5) 2 by (simp add: H)
    have "strchr (take j (length_line ?n) @ 0 # beyond) 10 = Inr None"
      using length_line_plain[of ?n] by (intro strchr_none) (auto dest: in_set_takeD)
    then have "get_hit st px t ?b (0 # beyond) 16 = Inr None" unfolding b using hit_code(5) by (simp add: get_hit_def)
    then show ?thesis using hit_status[OF assms(1-3) b, of st px "0 # beyond"] by simp
  next
    case (3 j)
    have b: "?b = hit_line @ [10] @ length_line ?n @ [10] @ take j (crlf @ block)" using hit_code(5) 3 by (simp add: H)
    then have m: "?b @ 0 # beyond = hit_line @ 10 # length_line ?n @ 10 # take j (crlf @ block) @ 0 # beyond" by simp
    have "24 \<le> length ?b" using 3 len(2) length_line_plain(3)[of ?n] by simp
    then have "get_hit st px t ?b (0 # beyond) 16 = Inr None" using get_hit_length[OF m, of t st px] assms(4,5,7) len by (simp add: Let_def)
    then show ?thesis using hit_status[OF assms(1-3) b, of st px "0 # beyond"] by simp
  qed
qed

lemma miss_complete:
  assumes "ci_stub ci = CacheStub cc" "ca_pCurTrans cc = Some t" "ti_method t = hc_get"
  shows "ProcessCacheResponse st px ci miss_response beyond =
    rbind (PostProcessCacheGET st px t False None) (\<lambda>px1.
    rbind (finish_transaction st (ci_fd ci) 24 px1) (\<lambda>px2. Inr (px2, 24)))"
proof -
  have m: "miss_response @ beyond = [72, 84, 84, 80, 47, 48, 46, 57, 32, 52, 48, 48, 32, 78, 79, 84, 32, 70, 79, 85, 78, 68, 13, 10] @ beyond"
    by (simp add: miss_response_def ascii_of crlf_def)
  have "strchr (miss_response @ beyond) 10 = Inr (Some 23)" "strchr (miss_response @ beyond) 32 = Inr (Some 8)"
    "atoi (drop 9 (miss_response @ beyond)) = Inr 400" unfolding m by (simp_all add: atoi_def is_space_def)
  moreover have "length miss_response = 24" by (simp add: miss_response_def ascii_of crlf_def)
  ultimately show ?thesis using assms by (simp add: ProcessCacheResponse_def)
qed

section \<open>The next request\<close>

text \<open>A request to the server touches only connections to the server.\<close>

definition fds_ok :: "proxy \<Rightarrow> bool" where
  "fds_ok px \<longleftrightarrow> (\<forall>fd ci. px_conns px fd = Some ci \<longrightarrow> ci_fd ci = fd)"

definition others_kept :: "proxy \<Rightarrow> proxy \<Rightarrow> bool" where
  "others_kept px px' \<longleftrightarrow> (\<forall>fd ci. px_conns px fd = Some ci \<longrightarrow> ci_type ci \<noteq> ct_cache \<longrightarrow> px_conns px' fd = Some ci)"

lemma find_idle_conn: "find_idle px is' = Inr (Some ci) \<Longrightarrow> \<exists>fd. px_conns px fd = Some ci"
  by (induction is') (auto split: if_splits option.splits stub.splits)

lemma IssueCacheRequest_conns:
  assumes "IssueCacheRequest px ci t = Inr (px1, ci1)"
  shows "px_conns px1 = px_conns px" "ci_fd ci1 = ci_fd ci" "ci_type ci = ct_cache"
  using assms by (auto simp: IssueCacheRequest_def Let_def ensure_eq_Inr rbind_eq_Inr keeps_conns_def retyped_def dest!: SendData_typed split: stub.splits)

lemma issue_list_kept:
  assumes "issue_list st tally ts px = Inr (px', r)" "fds_ok px" "\<And>px px'. tally px = Inr px' \<Longrightarrow> px_conns px' = px_conns px"
  shows "others_kept px px' \<and> fds_ok px'"
  using assms(1,2)
proof (induction ts arbitrary: px)
  case (Cons t ts)
  from Cons.prems(1) consider "px' = px"
    | ci px1 ci1 px2 where "GetIdleCacheConn st px = Inr (Some ci)" "IssueCacheRequest px ci t = Inr (px1, ci1)" "tally (put_conn ci1 px1) = Inr px2"
        "issue_list st tally ts px2 = Inr (px', r)"
    by (auto simp: rbind_eq_Inr split: option.splits)
  then show ?case
  proof cases
    case 1
    then show ?thesis using Cons.prems(2) by (simp add: others_kept_def)
  next
    case 2
    from 2(1) obtain fd where fd: "px_conns px fd = Some ci" unfolding GetIdleCacheConn_def by (blast dest: find_idle_conn)
    note i = IssueCacheRequest_conns[OF 2(2)]
    have c: "px_conns px2 = (px_conns px)(fd := Some ci1)" "ci_fd ci1 = fd"
      using assms(3)[OF 2(3)] i fd Cons.prems(2) by (simp_all add: put_conn_def fds_ok_def)
    then have "fds_ok px2" "others_kept px px2" using Cons.prems(2) fd i(3) by (auto simp: fds_ok_def others_kept_def)
    with Cons.IH[OF 2(4)] show ?thesis unfolding others_kept_def by blast
  qed
qed (simp add: others_kept_def)

lemma IssuePending_kept:
  assumes "IssuePendingCacheRequests st px = Inr px'" "fds_ok px"
  shows "others_kept px px' \<and> fds_ok px'"
proof -
  from assms(1) obtain px1 fi px2 se where i: "issue_list st count_first (g_FirstClassRequestList px) px = Inr (px1, fi)"
    "issue_list st count_second (g_SecondClassRequestList px1) (px1\<lparr>g_FirstClassRequestList := fi\<rparr>) = Inr (px2, se)" "px' = px2\<lparr>g_SecondClassRequestList := se\<rparr>"
    by (auto simp: IssuePendingCacheRequests_def rbind_eq_Inr)
  have t: "count_first p = Inr p' \<Longrightarrow> px_conns p' = px_conns p" "count_second p = Inr p' \<Longrightarrow> px_conns p' = px_conns p" for p p'
    by (auto simp: count_first_def count_second_def Let_def ensure_eq_Inr)
  have a: "others_kept px px1 \<and> fds_ok px1" by (rule issue_list_kept[OF i(1) assms(2) t(1)])
  then have "fds_ok (px1\<lparr>g_FirstClassRequestList := fi\<rparr>)" by (simp add: fds_ok_def)
  from issue_list_kept[OF i(2) this t(2)] a i(3) show ?thesis by (auto simp: others_kept_def fds_ok_def)
qed

text \<open>The connection whose transaction ends takes the request that waits longest.\<close>

definition waiting_requests :: "proxy \<Rightarrow> CacheTransactionInfo list" where
  "waiting_requests px = g_FirstClassRequestList px @ g_SecondClassRequestList px"

lemma filter_eq_upt: "j < n \<Longrightarrow> filter (\<lambda>i. i = j) [0..<n] = [j]"
  by (induction n) (auto simp: less_Suc_eq)

lemma release_ok:
  assumes "slots_ok st px" "j < g_MaxCacheConns st" "g_CacheConnections px j = Some fd" "ci_fd ci = fd" "ci_type ci = ct_cache"
    and "ci_stub ci = CacheStub cci" "ca_cacheConnIdx cci = j" "queue_ok ci" "ca_pCurTrans cci = None"
    and "px_conns px' = (px_conns px)(fd := Some ci)" "g_CacheConnections px' = g_CacheConnections px"
  shows "slots_ok st px'" "conn_at px' j = Some ci" "idle_slots st px = [] \<Longrightarrow> idle_slots st px' = [j]"
proof -
  have "slot_ok px' i fd'" if "i < g_MaxCacheConns st" "g_CacheConnections px i = Some fd'" for i fd'
  proof (cases "fd' = fd")
    case True
    then have "i = j" using slots_distinct[OF assms(1) that(1) assms(2), of fd] that(2) assms(3) by simp
    then show ?thesis using True assms(4-8,10) by (simp add: slot_ok_def)
  next
    case False
    have "slot_ok px i fd'" using assms(1) that by (simp add: slots_ok_def)
    then show ?thesis using False assms(10) by (simp add: slot_ok_def)
  qed
  then show "slots_ok st px'" using assms(1,11) unfolding slots_ok_def by simp
  show at: "conn_at px' j = Some ci" using assms(3,10,11) by (simp add: conn_at_def)
  have other: "conn_at px' i = conn_at px i" if "i < g_MaxCacheConns st" "i \<noteq> j" for i
    using conn_at_other[OF assms(1,2) that(1) _ assms(3,11,10)] that(2) by simp
  have idle: "slot_idle px' i = (i = j \<or> slot_idle px i)" if "i < g_MaxCacheConns st" for i
    using other[OF that] at assms(6,9) by (cases "i = j") (simp_all add: slot_idle_def trans_of_def)
  assume "idle_slots st px = []"
  then have none: "\<not> slot_idle px i" if "i < g_MaxCacheConns st" for i using that by (auto simp: idle_slots_def filter_empty_conv)
  have "idle_slots st px' = filter (\<lambda>i. i = j) [0..<g_MaxCacheConns st]" unfolding idle_slots_def using idle none by (intro filter_cong) auto
  also have "\<dots> = [j]" by (rule filter_eq_upt[OF assms(2)])
  finally show "idle_slots st px' = [j]" .
qed

lemma finish_transaction_ok:
  assumes "disk_ok st px" "fds_ok px" "j < g_MaxCacheConns st" "g_CacheConnections px j = Some fd" "px_conns px fd = Some ci"
    and "waiting_requests px \<noteq> [] \<longrightarrow> idle_slots st px = []" "g_NumDeadConns px + int (g_MaxCacheConns st) < int MAX_NUM_CI"
  shows "\<exists>px' ci'. finish_transaction st fd n px = Inr px' \<and> disk_ok st px' \<and> others_kept px px' \<and> px_cache px' = px_cache px \<and> px_requests px' = px_requests px \<and>
    conn_at px' j = Some ci' \<and> trans_of ci' = (case waiting_requests px of [] \<Rightarrow> None | q # _ \<Rightarrow> Some q) \<and> waiting_requests px' = drop 1 (waiting_requests px)"
proof -
  have sl: "slots_ok st px" using assms(1) by (simp add: disk_ok_def)
  with assms(3,4) have "slot_ok px j fd" by (simp add: slots_ok_def)
  with assms(5) obtain cci where ci: "ci_fd ci = fd" "ci_type ci = ct_cache" "ci_stub ci = CacheStub cci" "ca_cacheConnIdx cci = j" "queue_ok ci"
    by (auto simp: slot_ok_def)
  let ?ci = "ci\<lparr>ci_stub := CacheStub (cci\<lparr>ca_pCurTrans := None\<rparr>)\<rparr>"
  let ?px = "(put_conn ?ci px)\<lparr>g_BytesCacheRX := g_BytesCacheRX px + of_nat n, g_NumCacheResponseReceived := g_NumCacheResponseReceived px + 1\<rparr>"
  have c: "px_conns ?px = (px_conns px)(fd := Some ?ci)" "g_CacheConnections ?px = g_CacheConnections px" "waiting_requests ?px = waiting_requests px"
    "g_NumDeadConns ?px = g_NumDeadConns px" using ci(1) by (simp_all add: put_conn_def waiting_requests_def)
  have q: "queue_ok ?ci" using ci(5) by (simp add: queue_ok_def waiting_def split: list.splits)
  have "ca_pCurTrans (cci\<lparr>ca_pCurTrans := None\<rparr>) = None" "ci_stub ?ci = CacheStub (cci\<lparr>ca_pCurTrans := None\<rparr>)" "ca_cacheConnIdx (cci\<lparr>ca_pCurTrans := None\<rparr>) = j"
    "ci_fd ?ci = fd" "ci_type ?ci = ct_cache" using ci by simp_all
  note rel = release_ok[OF sl assms(3,4) this(4,5,2,3) q this(1) c(1,2)]
  have dk: "disk_ok st ?px" using assms(1) rel(1) by (simp add: disk_ok_def put_conn_def)
  have fo: "fds_ok ?px" "others_kept px ?px" using assms(2,5) c(1) ci(1,2) by (auto simp: fds_ok_def others_kept_def)
  have "length (idle_slots st ?px) \<le> g_MaxCacheConns st" unfolding idle_slots_def by (metis length_filter_le length_upt minus_nat.diff_0)
  with IssuePending_ok[OF dk] assms(7) c(4) obtain px' where i: "IssuePendingCacheRequests st ?px = Inr px'" "disk_ok st px'"
    "g_FirstClassRequestList px' = drop (length (idle_slots st ?px)) (g_FirstClassRequestList ?px)"
    "g_SecondClassRequestList px' = drop (length (idle_slots st ?px) - length (g_FirstClassRequestList ?px)) (g_SecondClassRequestList ?px)"
    "assigned st ?px px' (take (length (waiting_requests ?px)) (idle_slots st ?px)) (take (length (idle_slots st ?px)) (waiting_requests ?px))"
    "px_cache px' = px_cache ?px" "px_requests px' = px_requests ?px" unfolding waiting_requests_def by auto
  have run: "finish_transaction st fd n px = Inr px'" using i(1) assms(5) ci(3) by (simp add: finish_transaction_def)
  have k: "others_kept px px'" using IssuePending_kept[OF i(1) fo(1)] fo(2) unfolding others_kept_def by blast
  have w: "waiting_requests px' = drop (length (idle_slots st ?px)) (waiting_requests px)" using i(3,4) c(3) by (simp add: waiting_requests_def put_conn_def)
  have "\<exists>ci'. conn_at px' j = Some ci' \<and> trans_of ci' = (case waiting_requests px of [] \<Rightarrow> None | q # _ \<Rightarrow> Some q) \<and> waiting_requests px' = drop 1 (waiting_requests px)"
  proof (cases "waiting_requests px")
    case Nil
    then have "conn_at px' j = Some ?ci" using i(5) c(3) assms(3) rel(2) by (simp add: assigned_def)
    then show ?thesis using w Nil by (simp add: trans_of_def)
  next
    case (Cons q qs)
    then have "idle_slots st ?px = [j]" using assms(6) rel(3) by simp
    then have "issued st ?px px' j q" using i(5) c(3) Cons by (simp add: assigned_def)
    then show ?thesis using w Cons \<open>idle_slots st ?px = [j]\<close> by (auto simp: issued_def)
  qed
  with run i k show ?thesis by (auto simp: put_conn_def)
qed

section \<open>Properties\<close>

text \<open>What an answer to a peer leaves alone of the disk cache.\<close>

lemma write_only_disk:
  assumes "disk_ok st px" "write_only px px'"
  shows "disk_ok st px'" "idle_slots st px' = idle_slots st px" "waiting_requests px' = waiting_requests px"
    "i < g_MaxCacheConns st \<Longrightarrow> conn_at px' i = conn_at px i" "fds_ok px \<Longrightarrow> fds_ok px'"
proof -
  have s: "slots_ok st px" and c: "g_CacheConnections px' = g_CacheConnections px"
    and k: "\<And>fd ci. px_conns px fd = Some ci \<Longrightarrow> ci_type ci \<noteq> ct_chunk \<Longrightarrow> px_conns px' fd = Some ci"
    and t: "\<And>fd. map_option (\<lambda>ci. (ci_fd ci, ci_type ci)) (px_conns px' fd) = map_option (\<lambda>ci. (ci_fd ci, ci_type ci)) (px_conns px fd)"
    using assms by (auto simp: disk_ok_def write_only_def)
  have slot: "slot_ok px i fd" if "i < g_MaxCacheConns st" "g_CacheConnections px i = Some fd" for i fd using s that by (simp add: slots_ok_def)
  then have same: "px_conns px' fd = px_conns px fd" if "i < g_MaxCacheConns st" "g_CacheConnections px i = Some fd" for i fd
    using that k by (fastforce simp: slot_ok_def)
  then have at: "conn_at px' i = conn_at px i" if "i < g_MaxCacheConns st" for i using that c by (auto simp: conn_at_def split: option.split)
  then show "i < g_MaxCacheConns st \<Longrightarrow> conn_at px' i = conn_at px i" .
  show "idle_slots st px' = idle_slots st px" unfolding idle_slots_def using at by (intro filter_cong) (auto simp: slot_idle_def)
  have "slots_ok st px'" using s slot same c by (simp add: slots_ok_def slot_ok_def)
  then show "disk_ok st px'" "waiting_requests px' = waiting_requests px" using assms by (simp_all add: disk_ok_def write_only_def waiting_requests_def)
  show "fds_ok px \<Longrightarrow> fds_ok px'" unfolding fds_ok_def
  proof (intro allI impI)
    fix fd ci assume f: "\<forall>fd ci. px_conns px fd = Some ci \<longrightarrow> ci_fd ci = fd" "px_conns px' fd = Some ci"
    then show "ci_fd ci = fd" using t[of fd] by (cases "px_conns px fd") auto
  qed
qed

text \<open>A look-up of \<open>n\<close> bytes that was started by the request of the peer \<open>i\<close>.\<close>

definition peer_lookup :: "proxy \<Rightarrow> nat \<Rightarrow> CacheTransactionInfo \<Rightarrow> sha1 \<Rightarrow> nat \<Rightarrow> bool" where
  "peer_lookup px i t name n \<longleftrightarrow> ti_method t = hc_get \<and> ti_ps t = ps_bodyRequest \<and> ti_chunkLen t = int n \<and>
     (\<exists>opq sfd sci scc. ti_opaque t = BodyOpaque opq \<and> rq_sha1 (co_request opq) = name \<and> sint (rq_length (co_request opq)) = int n \<and>
        ti_sourceCI t = Some sfd \<and> px_conns px sfd = Some sci \<and> ci_type sci = ct_chunk \<and> ci_stub sci = ChunkStub scc \<and> cc_peerIdx scc = int i)"

lemma sint_less: "sint (w :: u32) < 2 ^ 31"
  using sint_lt[of w] by simp

lemma peer_lookup_hit:
  assumes "peer_lookup px i t name (length block)" "serves (g_MaxPeerConns st) px i" "block \<noteq> []" "g_NumDeadConns px + 1 < int MAX_NUM_CI"
  shows "\<exists>px1 fd msg. PostProcessCacheGET st px t True (Some block) = Inr px1 \<and> BuildWABodyResponse name block = Inr msg \<and>
    fd \<in> chunk_conns (g_MaxPeerConns st) (px_peers px) i \<and> write_only px px1 \<and> g_NumDeadConns px1 \<le> g_NumDeadConns px + 1 \<and>
    out px1 = (out px)(fd := out px fd @ msg)"
proof -
  from assms(1) obtain opq sfd sci scc where l: "ti_ps t = ps_bodyRequest" "ti_opaque t = BodyOpaque opq" "rq_sha1 (co_request opq) = name"
    "sint (rq_length (co_request opq)) = int (length block)" "ti_sourceCI t = Some sfd" "px_conns px sfd = Some sci" "ci_type sci = ct_chunk"
    "ci_stub sci = ChunkStub scc" "cc_peerIdx scc = int i" unfolding peer_lookup_def by blast
  let ?msg = "body_response [\<lparr>rs_sha1 = name, rs_block = block\<rparr>]"
  let ?px = "px\<lparr>g_BytesBlockTX := g_BytesBlockTX px + rq_length (co_request opq)\<rparr>"
  have msg: "BuildWABodyResponse name block = Inr ?msg" by (rule BuildWABodyResponse_eq[OF assms(3)])
  have "?msg \<noteq> []" using length_entries_message[of TYPE_WABODYRESPONSE MAGIC_WABODYRESPONSE enc_response] by (metis add_is_0 list.size(3) zero_neq_numeral)
  moreover have "serves (g_MaxPeerConns st) ?px i" using assms(2) by (simp add: serves_def)
  ultimately obtain px1 fd where w: "WriteToChunkPeer st ?px (int i) ?msg (int (ci_fd sci)) = Inr px1" "fd \<in> chunk_conns (g_MaxPeerConns st) (px_peers px) i"
    "write_only ?px px1" "g_NumDeadConns px1 \<le> g_NumDeadConns px + 1" "out px1 = (out ?px)(fd := out ?px fd @ ?msg)"
    using WriteToChunkPeer_ok[of st ?px i ?msg "int (ci_fd sci)"] assms(4) by auto
  have "PostProcessCacheGET st px t True (Some block) = Inr px1"
    using l msg w(1) assms(3) by (simp add: PostProcessCacheGET_def source_of_def PostProcessBodyRequest_def chunk_peer_def Let_def)
  moreover have "out ?px = out px" "write_only px px1" using w(3) by (simp_all add: out_def fun_eq_iff write_only_def)
  ultimately show ?thesis using w msg by (intro exI[of _ px1] exI[of _ fd] exI[of _ ?msg]) simp
qed

text \<open>
  Claim C13: a chunk that is found on disk is sent to the peer that asked for it. Take a connection to
  the disk cache whose transaction is a look-up for a peer. While the response of the server is not
  complete, and a zero byte follows what was received, \<open>ProcessCacheResponse\<close> waits and changes nothing.
  The complete response is consumed whole whatever follows it in memory, every assertion holds, and the
  message of the name and the block of the response is appended to one of the chunk connections of that
  peer and to no other. The connection takes the request that waits longest, look-ups first, or is idle
  when none waits, and the invariant of the queues is kept.
\<close>

theorem disk_hit_answers_peer:
  assumes "disk_ok st px" "fds_ok px" "serves (g_MaxPeerConns st) px i" "j < g_MaxCacheConns st" "conn_at px j = Some ci" "trans_of ci = Some t"
    and "peer_lookup px i t name (length block)" "block \<noteq> []" "waiting_requests px \<noteq> [] \<longrightarrow> idle_slots st px = []"
    and "g_NumDeadConns px + 1 + int (g_MaxCacheConns st) < int MAX_NUM_CI"
  shows "(\<forall>k. 0 < k \<longrightarrow> k < length (hit_response block) \<longrightarrow> ProcessCacheResponse st px ci (take k (hit_response block)) (0 # beyond) = Inr (px, 0)) \<and>
    (\<exists>px' fd msg ci'. ProcessCacheResponse st px ci (hit_response block) beyond = Inr (px', int (length (hit_response block))) \<and>
       BuildWABodyResponse name block = Inr msg \<and> fd \<in> chunk_conns (g_MaxPeerConns st) (px_peers px) i \<and>
       (\<forall>c. kinds px c = Some ct_chunk \<longrightarrow> out px' c = out px c @ (if c = fd then msg else [])) \<and>
       conn_at px' j = Some ci' \<and> trans_of ci' = (case waiting_requests px of [] \<Rightarrow> None | q # _ \<Rightarrow> Some q) \<and>
       waiting_requests px' = drop 1 (waiting_requests px) \<and> disk_ok st px' \<and> px_cache px' = px_cache px \<and> px_requests px' = px_requests px)"
proof -
  obtain fdc where fdc: "g_CacheConnections px j = Some fdc" "px_conns px fdc = Some ci" using assms(5) by (auto simp: conn_at_def split: option.splits)
  have fd: "ci_fd ci = fdc" using assms(2) fdc(2) by (simp add: fds_ok_def)
  from assms(6) obtain cc where cc: "ci_stub ci = CacheStub cc" "ca_pCurTrans cc = Some t" by (auto simp: trans_of_def split: stub.splits)
  have t: "ti_method t = hc_get" "ti_chunkLen t = int (length block)" and "\<exists>w :: u32. sint w = int (length block)"
    using assms(7) by (auto simp: peer_lookup_def)
  then have n: "length block < 2 ^ 31" using sint_less by (metis of_nat_less_iff of_nat_numeral of_nat_power)
  have room: "g_NumDeadConns px + 1 < int MAX_NUM_CI" using assms(10) by simp
  from peer_lookup_hit[OF assms(7,3,8) room] obtain px1 fdp msg where
    p: "PostProcessCacheGET st px t True (Some block) = Inr px1" "BuildWABodyResponse name block = Inr msg"
      "fdp \<in> chunk_conns (g_MaxPeerConns st) (px_peers px) i" "write_only px px1" "g_NumDeadConns px1 \<le> g_NumDeadConns px + 1"
      "out px1 = (out px)(fdp := out px fdp @ msg)" by blast
  note d = write_only_disk[OF assms(1) p(4)]
  have c1: "g_CacheConnections px1 j = Some fdc" "px_conns px1 fdc = Some ci"
    using p(4) fdc d(4)[OF assms(4)] by (simp_all add: write_only_def conn_at_def)
  have "waiting_requests px1 \<noteq> [] \<longrightarrow> idle_slots st px1 = []" "g_NumDeadConns px1 + int (g_MaxCacheConns st) < int MAX_NUM_CI"
    using assms(9,10) d(2,3) p(5) by simp_all
  from finish_transaction_ok[OF d(1) d(5)[OF assms(2)] assms(4) c1 this, of "length (hit_response block)"] obtain px' ci' where
    f: "finish_transaction st fdc (length (hit_response block)) px1 = Inr px'" "disk_ok st px'" "others_kept px1 px'" "px_cache px' = px_cache px1"
      "px_requests px' = px_requests px1" "conn_at px' j = Some ci'" "trans_of ci' = (case waiting_requests px of [] \<Rightarrow> None | q # _ \<Rightarrow> Some q)"
      "waiting_requests px' = drop 1 (waiting_requests px)" unfolding d(3) by blast
  have run: "ProcessCacheResponse st px ci (hit_response block) beyond = Inr (px', int (length (hit_response block)))"
    using hit_complete[OF cc t(1,2) n] p(1) f(1) fd by simp
  have "out px' c = out px1 c" if c: "kinds px c = Some ct_chunk" for c
  proof -
    have "map_option (\<lambda>ci. (ci_fd ci, ci_type ci)) (px_conns px1 c) = map_option (\<lambda>ci. (ci_fd ci, ci_type ci)) (px_conns px c)"
      using p(4) by (simp add: write_only_def)
    then obtain ci1 where "px_conns px1 c = Some ci1" "ci_type ci1 = ct_chunk" using c by (auto simp: kinds_def)
    then show ?thesis using f(3) by (auto simp: others_kept_def out_def)
  qed
  then have "\<forall>c. kinds px c = Some ct_chunk \<longrightarrow> out px' c = out px c @ (if c = fdp then msg else [])" using p(6) by auto
  moreover have "px_cache px1 = px_cache px" "px_requests px1 = px_requests px" using p(4) by (simp_all add: write_only_def)
  ultimately show ?thesis using hit_prefix[OF cc t(1,2) n] run p(2,3) f by (intro conjI allI impI) auto
qed

text \<open>A chunk connection of the peer 1, a connection to the server with its look-up, and a look-up that waits.\<close>

definition demo_lookup :: CacheTransactionInfo where
  "demo_lookup = demo_get\<lparr>ti_ps := ps_bodyRequest, ti_sourceCI := Some 9,
     ti_opaque := BodyOpaque \<lparr>co_cid = no_cid, co_request = \<lparr>rq_orgPxyAddr = 1, rq_sha1 = replicate 20 7, rq_length = 3\<rparr>, co_prevPxyAddr = 0\<rparr>\<rparr>"

definition demo_busy_conn :: ConnectionInfo where
  "demo_busy_conn = demo_cache_conn\<lparr>ci_fd := 10, ci_stub := CacheStub \<lparr>ca_pCurTrans = Some demo_lookup, ca_cacheConnIdx = 1, ca_lastAccessTime = 0\<rparr>\<rparr>"

definition demo_busy :: proxy where
  "demo_busy = (demo_server (empty_cache 0))\<lparr>px_conns := [9 \<mapsto> demo_chunk_conn, 10 \<mapsto> demo_busy_conn], g_CacheConnections := [1 \<mapsto> 10],
     g_FirstClassRequestList := [demo_get], g_SecondClassRequestList := [], g_NumPendingFirstTransactions := 1, g_NumPendingSecondTransactions := 0\<rparr>"

lemma demo_busy_ok:
  "disk_ok (demo_settings\<lparr>g_MaxPeerConns := 1\<rparr>) demo_busy" "fds_ok demo_busy" "serves 1 demo_busy 1" "conn_at demo_busy 1 = Some demo_busy_conn"
  "peer_lookup demo_busy 1 demo_lookup (replicate 20 7) 3" "waiting_requests demo_busy = [demo_get]" "idle_slots (demo_settings\<lparr>g_MaxPeerConns := 1\<rparr>) demo_busy = []"
  "g_NumDeadConns demo_busy = 0" "kinds demo_busy 9 = Some ct_chunk" "out demo_busy 9 = []" "chunk_conns 1 (px_peers demo_busy) 1 = {9}"
proof -
  let ?st = "demo_settings\<lparr>g_MaxPeerConns := 1\<rparr>"
  have c: "ci_fd demo_chunk_conn = 9" "ci_type demo_chunk_conn = ct_chunk" "ci_stub demo_chunk_conn = ChunkStub \<lparr>cc_peerIdx = 1, cc_flowIdx = 0\<rparr>"
    "ci_fd demo_busy_conn = 10" "ci_type demo_busy_conn = ct_cache" "queue_ok demo_busy_conn" "stream demo_chunk_conn = []"
    "ci_stub demo_busy_conn = CacheStub \<lparr>ca_pCurTrans = Some demo_lookup, ca_cacheConnIdx = 1, ca_lastAccessTime = 0\<rparr>"
    by (simp_all add: demo_chunk_conn_def demo_conn_def demo_busy_conn_def demo_cache_conn_def queue_ok_def waiting_def stream_def)
  have f: "px_conns demo_busy = [9 \<mapsto> demo_chunk_conn, 10 \<mapsto> demo_busy_conn]" "g_CacheConnections demo_busy = [1 \<mapsto> 10]"
    "px_peers demo_busy = px_peers (demo_server (empty_cache 0))" by (simp_all add: demo_busy_def)
  show at: "conn_at demo_busy 1 = Some demo_busy_conn" by (simp add: conn_at_def f)
  have "slot_ok demo_busy 1 10" using c f by (simp add: slot_ok_def)
  then have "slots_ok ?st demo_busy" using f(2) by (auto simp: slots_ok_def demo_settings_def MAX_CACHE_CONNS_def split: if_splits)
  then show "disk_ok ?st demo_busy" by (simp add: disk_ok_def demo_busy_def demo_get_def trans_ok_def)
  show "fds_ok demo_busy" using c f by (auto simp: fds_ok_def split: if_splits)
  show cc: "chunk_conns 1 (px_peers demo_busy) 1 = {9}" unfolding f(3) by (auto simp: chunk_conns_def demo_server_def three_peers)
  show "serves 1 demo_busy 1" using demo_server(3)[of "empty_cache 0"] demo_server(2)[of "empty_cache 0"] cc f by (auto simp: serves_def)
  show "peer_lookup demo_busy 1 demo_lookup (replicate 20 7) 3" using c f by (simp add: peer_lookup_def demo_lookup_def demo_get_def)
  show "waiting_requests demo_busy = [demo_get]" by (simp add: waiting_requests_def demo_busy_def)
  have "\<not> slot_idle demo_busy i" for i using c f by (simp add: slot_idle_def conn_at_def trans_of_def)
  then show "idle_slots ?st demo_busy = []" by (simp add: idle_slots_def)
  show "g_NumDeadConns demo_busy = 0" using demo_server(4) by (simp add: demo_busy_def)
  show "kinds demo_busy 9 = Some ct_chunk" "out demo_busy 9 = []" using c f by (simp_all add: kinds_def out_def)
qed

theorem disk_hit_answers_peer_witness:
  "\<exists>px' msg ci'. ProcessCacheResponse (demo_settings\<lparr>g_MaxPeerConns := 1\<rparr>) demo_busy demo_busy_conn (hit_response [1, 2, 3]) [] = Inr (px', 41) \<and>
     BuildWABodyResponse (replicate 20 7) [1, 2, 3] = Inr msg \<and> out px' 9 = msg \<and> conn_at px' 1 = Some ci' \<and> trans_of ci' = Some demo_get"
proof -
  let ?st = "demo_settings\<lparr>g_MaxPeerConns := 1\<rparr>"
  have h: "serves (g_MaxPeerConns ?st) demo_busy 1" "1 < g_MaxCacheConns ?st" "trans_of demo_busy_conn = Some demo_lookup"
    "peer_lookup demo_busy 1 demo_lookup (replicate 20 7) (length [1, 2, 3 :: byte])" "[1, 2, 3 :: byte] \<noteq> []"
    "waiting_requests demo_busy \<noteq> [] \<longrightarrow> idle_slots ?st demo_busy = []" "g_NumDeadConns demo_busy + 1 + int (g_MaxCacheConns ?st) < int MAX_NUM_CI"
    using demo_busy_ok by (simp_all add: demo_settings_def trans_of_def demo_busy_conn_def MAX_NUM_CI_def eval_nat_numeral)
  have "length (hit_response [1, 2, 3]) = 41"
    using hit_code(5) length_line_plain(3)[of 3] by (simp add: hit_response_def crlf_def digits.simps[of 3] flip: numeral_3_eq_3)
  with disk_hit_answers_peer[OF demo_busy_ok(1,2) h(1,2) demo_busy_ok(4) h(3-7), of "[]"] demo_busy_ok(6,9-11) show ?thesis by fastforce
qed

end
