(* ===== verification/Spec2Isabelle.thy ===== *)
theory Spec2Isabelle
  imports Hashtable_Itr Rabin Disk_Response
begin

text \<open>
  A verification library for Wanax, the WAN-accelerating proxy under src/waprox.

  \<^bold>\<open>The program.\<close> Two proxies sit at the ends of a slow link. What a user sends to one of them is cut into
  blocks at content-defined boundaries, each block into a tree of chunks, and the chunks are sent by
  name (their SHA-1 digest) when the other side should have them and by content otherwise. The other
  proxy collects the names, fetches missing chunks from its caches, from a peer near by or from the
  sender, reassembles the block, writes it to its own user and acknowledges it. One process handles all
  connections in an event loop; the state is global.

  \<^bold>\<open>The theories\<close>, from the bottom up, with the files they model:

  \<^item> \<open>Prelude\<close>: integer types, aborts as values of \<open>error\<close>, byte images of integers, list lemmas.
  \<^item> \<open>Hashtable\<close>, \<open>Hashtable_Itr\<close> (hashtable.c, hashtable_itr.c): the chained table and its iterator. The
    locales \<open>keyed_table\<close> and \<open>mutable_table\<close> state what clients rely on; every table of the proxy is an
    interpretation of them. Shown: insertion and removal refine map update and deletion, growth and
    failed allocations keep the invariant.
  \<^item> \<open>Rabin\<close> (rabinfinger2.c): fingerprints modulo a polynomial over GF(2). Shown: the table-driven
    rolling fingerprint equals the one computed afresh, and the boundaries are those of the reference
    scan.
  \<^item> \<open>Chunk_Cache\<close>, \<open>Chunk_Buffer\<close> (chunkcache.c, diskhelper.c): memory cache, temporary cache, hint tables,
    and the buffers of unacknowledged blocks. Locales \<open>hint_table\<close> and \<open>ref_store\<close>. Shown: FIFO eviction,
    bounded hint sets, balance of references, release by acknowledgement.
  \<^item> \<open>Chunk_Types\<close>, \<open>Mrc_Build\<close>, \<open>Mrc_Resolve\<close> (mrc_tree.c): the chunk tree of a block and the choice of
    the chunks that are sent. Shown: the levels tile the block and refine one another; the candidates
    tile the block and carry the digests of their bytes.
  \<^item> \<open>Protocol\<close> (protocol.c): every message. Locale \<open>wire_codec\<close>. Shown: framing, round trips, exact lengths.
  \<^item> \<open>Peer_Weights\<close>, \<open>Peer\<close> (peer.c): rendezvous hashing, quicksort, liveness, rotation of connections.
  \<^item> \<open>Chunk_Request\<close> (chunkrequest.c): requests in flight.
  \<^item> \<open>Connection\<close> (connection.c, connection.h, and the write functions of waprox.c): the record \<open>proxy\<close> with all
    global variables, the tables of connections, sending. Shown: no byte is lost or reordered.
  \<^item> \<open>Reassemble\<close> (reassemble.c, \<open>ProcessNameTreeDelivery2\<close>): waiting blocks and their delivery.
  \<^item> \<open>Sender\<close> (\<open>ProcessUserData\<close>, \<open>ProcessOneRabinChunking2\<close>, \<open>OpenUserConnection\<close>): the sending side.
    Shown: every block is queued once, and the named ones are kept until they are acknowledged.
  \<^item> \<open>Session\<close> (\<open>ProcessControlData\<close> and its five handlers): control messages. Shown: segmentation of the
    stream does not matter, connections stay of their kind, the flow control window.
  \<^item> \<open>Schedule\<close> (\<open>ScheduleNameDelivery\<close>, \<open>WriteToNamePeer\<close>, \<open>WriteToChunkPeer\<close>, \<open>CleanUpClosedConnections\<close>):
    output to peers. Shown: every queued message is sent once, in the order of its user.
  \<^item> \<open>Disk\<close> (disk.c): requests to the HashCache server. Shown: look-ups before stores, in order, and none
    waits while a connection is idle.
  \<^item> \<open>Ils\<close> (ils.c): load shedding. \<open>fl\<close> rounds as a \<open>float\<close> or \<open>double\<close> does. Shown: the schedule ends, leaves no
    disk slower than the network, takes what it moves from the slowest disk, keeps the large chunks on the
    disks and moves none in vain.
  \<^item> \<open>Exchange\<close> (\<open>ProcessChunkData\<close> and its six handlers, \<open>DistributePutRequest\<close>, \<open>ActualPutMissingChunks\<close>): chunk
    messages. Shown: requests are answered in order, chunks that arrive end the requests for them.
  \<^item> \<open>Disk_Response\<close> (\<open>ProcessCacheResponse\<close> and what ends a transaction): responses of the disk cache. Shown:
    a response is awaited until complete, its block goes to the peer that asked, the next request is issued.
  \<^item> This theory: the end-to-end properties. \<open>block_transfer\<close> and \<open>user_data_transfer\<close> connect the sender's
    chunking, the messages, the control loop and the reassembly of the receiver.

  \<^bold>\<open>Conventions.\<close> A C \<open>unsigned\<close> is a word of its width and wraps; a plain \<open>int\<close> is a HOL \<open>int\<close>, a length or an
  index a \<open>nat\<close>. An \<open>assert\<close> is a check (the build does not define NDEBUG), \<open>NiceExit\<close> and reads or writes
  outside an object are error values, also for the arrays of connections of a peer, whose size the
  settings do not respect. \<open>malloc\<close> succeeds except in the hash table, where its outcome is an
  argument. A buffer with its length is a list of bytes, a TAILQ a list, a connection pointer the
  descriptor of the connection. Results of the operating system (\<open>write\<close>, new descriptors, time) are
  fields of the state, those of the pings arguments. Code outside the repository is an argument: SHA-1, the rotation and the string
  hash of the peer weights, \<open>qsort\<close>, and what the HTTP helper returns.

  \<^bold>\<open>Termination and fuel.\<close> Loops are recursive functions with a termination proof (\<open>user_loop\<close>,
  \<open>control_loop\<close>, \<open>chunk_loop\<close>, \<open>write_loop\<close>, \<open>balance\<close>). Only \<open>schedule_peer\<close> takes fuel, because the loop of the code does not end
  when the count of users is wrong; \<open>ScheduleNameDelivery\<close> passes one more than the number of queued
  messages, and the property of \<open>Schedule\<close> shows that this is enough.

  \<^bold>\<open>Not modelled.\<close> The event loop with its callbacks, sockets, timers, statistics and the parsing of the
  configuration are input and output; so are the messages to the NAT table of the PPTP daemon and the
  DNS helper. \<open>PeekOneChunk\<close> and \<open>ProcessExceptionalCacheResponse\<close> have no caller in this build. The build with full trees (_WAPROX_FULL_MRC_TREE), SCTP and the
  response FIFO are switched off. HashCache is a separate server; Polygraph, libnids and the PPTP daemon
  are third-party code; the analysis tools and the Lua prototype are not part of the proxy.
\<close>

section \<open>From the user on one side to the user on the other\<close>

text \<open>
  A cache that can be trusted for a block: its contents have the digests of their names, and none of
  them collides with a part of the block.
\<close>

definition trusted :: "(byte list \<Rightarrow> sha1) \<Rightarrow> cache \<Rightarrow> byte list \<Rightarrow> bool" where
  "trusted sha s block \<longleftrightarrow> tmp_true sha s \<and>
     (\<forall>n b off len. tmp_content s n = Some b \<longrightarrow> sha b = sha (take len (drop off block)) \<longrightarrow> b = take len (drop off block))"

lemma tiled_concat:
  assumes "tiled off cs" "off + span cs \<le> length psrc"
  shows "concat (map (\<lambda>c. take (ca_length c) (drop (ca_offset c) psrc)) cs) = take (span cs) (drop off psrc)"
  using assms
proof (induction cs arbitrary: off)
  case (Cons c cs)
  have "concat (map (\<lambda>c. take (ca_length c) (drop (ca_offset c) psrc)) cs) = take (span cs) (drop (off + ca_length c) psrc)"
    using Cons by simp
  then show ?case using Cons.prems by (simp add: take_add add.commute)
qed simp

text \<open>The chunks of a queued block, taken from a trusted cache that has them all, make up the block.\<close>

lemma chunks_are_block:
  assumes "tiled 0 cs" "named_block sha psrc pNames cs block" "block_of ri pNames cs" "trusted sha s block" "\<forall>b. length (sha b) = SHA1_LEN"
    and "\<forall>n \<in> set (names_of (ri_nameList ri)). tmp_content s n \<noteq> None"
  shows "chunk_bytes s (ri_nameList ri) = block"
proof -
  have nb: "block = take (span cs) psrc" "span cs \<le> length psrc"
    "\<forall>c \<in> set cs. cn_sha1 (pNames ! ca_index c) = sha (take (ca_length c) (drop (ca_offset c) psrc))"
    using assms(2) by (simp_all add: named_block_def)
  have names: "names_of (ri_nameList ri) = map (\<lambda>c. cn_sha1 (pNames ! ca_index c)) cs" using assms(3) by (simp add: block_of_def)
  have content: "tmp_content s (cn_sha1 (pNames ! ca_index c)) = Some (take (ca_length c) (drop (ca_offset c) psrc))" if c: "c \<in> set cs" for c
  proof -
    let ?n = "cn_sha1 (pNames ! ca_index c)"
    have "?n \<in> set (names_of (ri_nameList ri))" unfolding names using c by simp
    with assms(6) obtain b where b: "tmp_content s ?n = Some b" by fast
    then have "take SHA1_LEN (sha b) = take SHA1_LEN ?n" using assms(4) by (simp add: trusted_def tmp_true_def)
    then have "sha b = ?n" using assms(5) nb(3) c by simp
    moreover have "take (ca_length c) (drop (ca_offset c) block) = take (ca_length c) (drop (ca_offset c) psrc)"
      using tiled_bounds[OF assms(1) c] by (simp add: nb(1) drop_take)
    ultimately have "b = take (ca_length c) (drop (ca_offset c) psrc)"
      using assms(4) b nb(3) c unfolding trusted_def by metis
    with b show ?thesis by simp
  qed
  have "chunk_bytes s (ri_nameList ri) = concat (map (\<lambda>n. case tmp_content s n of None \<Rightarrow> [] | Some b \<Rightarrow> b) (names_of (ri_nameList ri)))"
    by (simp add: chunk_bytes_def comp_def)
  also have "\<dots> = concat (map (\<lambda>c. take (ca_length c) (drop (ca_offset c) psrc)) cs)"
    unfolding names map_map comp_def using content by (auto intro!: arg_cong[of _ _ concat])
  also have "\<dots> = block" using tiled_concat[OF assms(1), of psrc] nb(1,2) by simp
  finally show ?thesis .
qed

text \<open>A raw message at the receiver.\<close>

lemma raw_received:
  assumes "BuildWARawMessage cid block = Inr msg" "length msg < 2 ^ 31" "target_conn px cid = Inr (Some ci)" "user_ok px ci u" "conns_typed px"
    and "ci_lenWrite ci + int (length block) < uint (uc_maxWindowSize u * 2)"
  shows "\<exists>px' ci' u'. VerifyControlHeader (msg @ rest) = Valid TYPE_WARAWMESSAGE \<and> ProcessRawMessage st px (msg @ rest) = Inr (px', int (length msg)) \<and>
    px_conns px' (ci_fd ci) = Some ci' \<and> ci_stub ci' = UserStub u' \<and> stream ci' = stream ci @ block \<and> uc_reassembleList u' = uc_reassembleList u"
proof -
  have m: "control_message cid TYPE_WARAWMESSAGE ([MAGIC_WARAWMESSAGE] @ be32 (of_nat (length block)) @ block) = Inr msg" and ne: "block \<noteq> []"
    using assms(1) by (auto simp: BuildWARawMessage_def ensure_eq_Inr)
  have l32: "length msg < 2 ^ 32" using assms(2) by simp
  note p = control_message_props[OF m l32]
  have len: "length msg = 23 + length block" using p(1) by simp
  have d: "drop 18 msg = MAGIC_WARAWMESSAGE # be32 (of_nat (length block)) @ block" using p(2) by simp
  have "drop 19 (msg @ rest) = be32 (of_nat (length block)) @ block @ rest" "drop 23 (msg @ rest) = block @ rest"
    using arg_cong[OF d, of "drop 1"] arg_cong[OF d, of "drop 5"] len by simp_all
  then have at: "be32_at (msg @ rest) 19 = of_nat (length block)" "take (length block) (drop 23 (msg @ rest)) = block"
    by (simp_all add: be32_at_def)
  have u: "unat (be32_at (msg @ rest) 19) = length block" "unat (be32_at (msg @ rest) 2) = length msg"
    using assms(2) len p(4)[of rest] unfolding at(1) by (simp_all add: unat_of_nat_32)
  have num: "sint (be32_at (msg @ rest) 19) = int (length block)" "sint (be32_at (msg @ rest) 2) = int (length msg)"
    using sint_small[of "be32_at (msg @ rest) 19", unfolded u(1)] sint_small[of "be32_at (msg @ rest) 2", unfolded u(2)] assms(2) len by simp_all
  from SendData_ok[OF assms(4) ne assms(6)] obtain px1 ci1 u1 where
    s: "SendData px ci block = Inr (px1, ci1)" "stream ci1 = stream ci @ block" "acked_write px ci u px1 ci1 u1" by blast
  have st1: "ci_stub ci1 = UserStub u1" "ci_fd ci1 = ci_fd ci" "uc_reassembleList u1 = uc_reassembleList u"
    using s(3) rx_only_facts(6)[of u u1] by (simp_all add: acked_write_def same_conn_def)
  let ?u2 = "u1\<lparr>uc_missBytes := uc_missBytes u1 + of_nat (length block), uc_seq_no := uc_seq_no u1 + 1\<rparr>"
  let ?ci2 = "ci1\<lparr>ci_stub := UserStub ?u2\<rparr>"
  let ?put = "\<not> g_NoCache st \<and> ((g_ClientChunking st \<and> \<not> uc_isForward u1) \<or> (g_ServerChunking st \<and> uc_isForward u1))"
  obtain px2 where "(if ?put then QueuePutMessage st px1 block (uc_dstPxyIdx u1) (uc_seq_no u1) None else Inr px1) = Inr px2"
    using QueuePutMessage_ok[of st px1 block "uc_dstPxyIdx u1" "uc_seq_no u1" None] by (cases ?put) auto
  then have px2: "ProcessRawMessage st px (msg @ rest) = Inr (put_conn ?ci2 px2, int (length msg))"
    using num at(2) len ne assms(3) p(3)[of rest] s(1) st1(1) by (simp add: ProcessRawMessage_def sizeof_session Let_def cong: if_cong)
  have "stream ?ci2 = stream ci1" by (rule queue_same) simp_all
  moreover have "VerifyControlHeader (msg @ rest) = Valid TYPE_WARAWMESSAGE" by (rule verify_control[OF m l32]) (simp add: control_types_def)
  ultimately show ?thesis using px2 s(2) st1
    by (intro exI[of _ "put_conn ?ci2 px2"] exI[of _ ?ci2] exI[of _ ?u2]) (simp add: put_conn_def)
qed


text \<open>A name delivery at the receiver.\<close>

lemma names_received:
  assumes "names_block sha cid block msg" "\<forall>b. length (sha b) = SHA1_LEN"
    and "conns_typed px" "target_conn px cid = Inr (Some ci)" "ci_stub ci = UserStub u" "tmp_inv (px_cache px)" "peers_live px"
  shows "\<exists>px' u' ri. VerifyControlHeader (msg @ rest) = Valid TYPE_WANAMEDELIVERY \<and> 0 < length msg \<and>
    control_message_step rotl st zero TYPE_WANAMEDELIVERY px pci (msg @ rest) = Inr (px', int (length msg)) \<and>
    px_conns px' = (px_conns px)(ci_fd ci := Some (ci\<lparr>ci_stub := UserStub u'\<rparr>)) \<and> uc_reassembleList u' = uc_reassembleList u @ [ri] \<and>
    (\<forall>s. trusted sha s block \<and> (\<forall>n \<in> set (names_of (ri_nameList ri)). tmp_content s n \<noteq> None) \<longrightarrow> chunk_bytes s (ri_nameList ri) = block) \<and>
    conns_typed px' \<and> target_conn px' cid = Inr (Some (ci\<lparr>ci_stub := UserStub u'\<rparr>)) \<and> tmp_inv (px_cache px') \<and> peers_live px'"
proof -
  obtain psrc pNames cs where d: "delivery cid psrc pNames cs msg" "named_block sha psrc pNames cs block"
    using assms(1) by (auto simp: names_block_def)
  have ci: "px_conns px (ci_fd ci) = Some ci" "ci_type ci = ct_user" using target_conn_some[OF assms(4,3)] by simp_all
  have dl: "tiled 0 cs" "\<exists>l. BuildWANameTreeDelivery3 cid psrc pNames cs (of_nat (length cs)) l = Inr msg" "length msg < 2 ^ 31"
    "\<forall>c \<in> set cs. ok_candidate pNames psrc c \<and> 0 < ca_length c \<and> ca_length c \<le> MAX_CHUNK_SIZE" using d(1) by (simp_all add: delivery_def)
  then obtain body where b: "control_message cid TYPE_WANAMEDELIVERY body = Inr msg" by (auto simp: BuildWANameTreeDelivery3_def rbind_eq_Inr)
  have l32: "length msg < 2 ^ 32" using dl(3) by simp
  have v: "VerifyControlHeader (msg @ rest) = Valid TYPE_WANAMEDELIVERY" by (rule verify_control[OF b l32]) (simp add: control_types_def)
  have g: "GetDestinationConnection (g_ConnMap px) (srcIP cid) (srcPort cid) (dstIP cid) (dstPort cid) = Inr (Some (ci_fd ci))"
    using assms(3,4) by (auto simp: target_conn_def rbind_eq_Inr conns_typed_def split: option.splits)
  from ProcessNameTreeDelivery2_ok[OF d(1) assms(7,6) g ci assms(5), of rotl rest] obtain px' u' ri where
    r: "ProcessNameTreeDelivery2 rotl px (msg @ rest) = Inr (px', int (length msg))"
      "px_conns px' = (px_conns px)(ci_fd ci := Some (ci\<lparr>ci_stub := UserStub u'\<rparr>))" "uc_reassembleList u' = uc_reassembleList u @ [ri]"
      "block_of ri pNames cs" "put_carried (map (chunk_of pNames psrc) cs) (px_cache px) = Inr (px_cache px')" by blast
  have k: "g_ConnMap px' = g_ConnMap px" "px_peers px' = px_peers px" using NameTree_keeps[OF r(1)] by simp_all
  have "\<forall>ck \<in> set (map (chunk_of pNames psrc) cs). recv_ok ck" using dl(4) recv_ok_chunk_of by auto
  from put_carried_ok[OF assms(6) this] r(5) have "tmp_inv (px_cache px')" by auto
  moreover have "conns_typed px'" by (rule NameTree_typed[OF r(1) assms(3)])
  moreover have "target_conn px' cid = Inr (Some (ci\<lparr>ci_stub := UserStub u'\<rparr>))" using g k(1) r(2) by (simp add: target_conn_def)
  moreover have "peers_live px'" using assms(7) k(2) by (simp add: peers_live_def)
  moreover have "control_message_step rotl st zero TYPE_WANAMEDELIVERY px pci (msg @ rest) = Inr (px', int (length msg))"
    using r(1) by (simp add: control_message_step_def TYPE_WAOPENCONNECTION_def TYPE_WANAMEDELIVERY_def)
  moreover have "0 < length msg" using control_message_props(1)[OF b l32] by simp
  ultimately show ?thesis using v r(2,3) chunks_are_block[OF dl(1) d(2) r(4) _ assms(2)]
    by (intro exI[of _ px'] exI[of _ u'] exI[of _ ri]) blast
qed

text \<open>A sequence of name deliveries.\<close>

lemma names_stream:
  assumes "list_all2 (names_block sha cid) blocks msgs" "\<forall>b. length (sha b) = SHA1_LEN"
    and "conns_typed px" "target_conn px cid = Inr (Some ci)" "ci_stub ci = UserStub u" "tmp_inv (px_cache px)" "peers_live px"
  shows "\<exists>px' u' ris. control_loop rotl st zero px pci (concat msgs) k = Inr (px', Some (k + length (concat msgs))) \<and>
    px_conns px' (ci_fd ci) = Some (ci\<lparr>ci_stub := UserStub u'\<rparr>) \<and> uc_reassembleList u' = uc_reassembleList u @ ris \<and> length ris = length blocks \<and>
    (\<forall>s. (\<forall>b \<in> set blocks. trusted sha s b) \<and> (\<forall>ri \<in> set ris. \<forall>n \<in> set (names_of (ri_nameList ri)). tmp_content s n \<noteq> None) \<longrightarrow>
       map (\<lambda>ri. chunk_bytes s (ri_nameList ri)) ris = blocks)"
  using assms
proof (induction blocks msgs arbitrary: px ci u k rule: list_all2_induct)
  case Nil
  have "ci\<lparr>ci_stub := UserStub u\<rparr> = ci" using Nil.prems(4) by (intro ConnectionInfo.equality) simp_all
  then show ?case using target_conn_some(1)[OF Nil.prems(3,2)]
    by (intro exI[of _ px] exI[of _ u] exI[of _ "[]"]) (simp add: control_loop.simps)
next
  case (Cons block blocks msg msgs)
  from names_received[OF Cons.hyps(1) Cons.prems, of "concat msgs" rotl st zero pci] obtain px1 u1 ri where
    r: "VerifyControlHeader (msg @ concat msgs) = Valid TYPE_WANAMEDELIVERY" "0 < length msg"
      "control_message_step rotl st zero TYPE_WANAMEDELIVERY px pci (msg @ concat msgs) = Inr (px1, int (length msg))"
      "uc_reassembleList u1 = uc_reassembleList u @ [ri]"
      "\<forall>s. trusted sha s block \<and> (\<forall>n \<in> set (names_of (ri_nameList ri)). tmp_content s n \<noteq> None) \<longrightarrow> chunk_bytes s (ri_nameList ri) = block"
      "conns_typed px1" "target_conn px1 cid = Inr (Some (ci\<lparr>ci_stub := UserStub u1\<rparr>))" "tmp_inv (px_cache px1)" "peers_live px1" by blast
  have step: "control_loop rotl st zero px pci (concat (msg # msgs)) k = control_loop rotl st zero px1 pci (concat msgs) (k + length msg)"
    using control_loop_valid[OF r(1,3,2), of k] by simp
  have stub: "ci_stub (ci\<lparr>ci_stub := UserStub u1\<rparr>) = UserStub u1" by simp
  from Cons.IH[OF Cons.prems(1) r(6,7) stub r(8,9), of "k + length msg"] obtain px' u' ris where
    i: "control_loop rotl st zero px1 pci (concat msgs) (k + length msg) = Inr (px', Some (k + length msg + length (concat msgs)))"
      "px_conns px' (ci_fd ci) = Some (ci\<lparr>ci_stub := UserStub u'\<rparr>)" "uc_reassembleList u' = uc_reassembleList u1 @ ris" "length ris = length blocks"
      "\<forall>s. (\<forall>b \<in> set blocks. trusted sha s b) \<and> (\<forall>ri \<in> set ris. \<forall>n \<in> set (names_of (ri_nameList ri)). tmp_content s n \<noteq> None) \<longrightarrow>
         map (\<lambda>ri. chunk_bytes s (ri_nameList ri)) ris = blocks" by auto
  show ?case using step i r(4,5) by (intro exI[of _ px'] exI[of _ u'] exI[of _ "ri # ris"]) simp
qed

lemma trusted_part:
  assumes "trusted sha s (xs @ b @ ys)"
  shows "trusted sha s b"
proof -
  have "take len (drop off b) = take (min len (length b - off)) (drop (length xs + off) (xs @ b @ ys))" for len off
    by (simp add: min_def)
  then show ?thesis using assms unfolding trusted_def by metis
qed

lemma trusted_blocks: "trusted sha s (concat blocks) \<Longrightarrow> b \<in> set blocks \<Longrightarrow> trusted sha s b"
  by (metis concat.simps(2) concat_append split_list trusted_part)

lemma carries_names: "\<not> raw \<Longrightarrow> carries raw sha cid = names_block sha cid"
  by (simp add: carries_def fun_eq_iff)

text \<open>
  Claim C1: what one user sends is what the other receives. Let \<open>ProcessUserData\<close> of the sending proxy
  take \<open>n\<close> bytes from its user, with chunking on in that direction. When the receiving proxy has the
  connection and reads the messages that were queued for them, in order, from the stream of its peer,
  its loop passes every assertion and consumes exactly these messages; it appends waiting blocks to the
  connection, and from every cache that holds their chunks, whose contents have the digests of their
  names and do not collide with parts of the data, the bytes that \<open>ReconstructOriginalData\<close> delivers for
  these blocks are exactly the \<open>n\<close> bytes.
\<close>

theorem user_data_transfer:
  assumes "mrc_config_ok (st_mrc st)" "\<forall>b. length (sha b) = SHA1_LEN" "sender_ok sha px ci u" "open_window px u" "ci_status ci \<noteq> cs_block"
    and "\<not> may_raw st u" "ProcessUserData sha http st px ci f = Inr (px1, ci1, n)"
    and "conns_typed pr" "target_conn pr (uc_id u) = Inr (Some cr)" "ci_stub cr = UserStub ur" "tmp_inv (px_cache pr)" "peers_live pr"
  shows "\<exists>u1 msgs closing pr' ur' ris. ci_stub ci1 = UserStub u1 \<and>
    uc_controlMsgList u1 = uc_controlMsgList u @ map (\<lambda>m. \<lparr>mi_msg = m, mi_streamID = int (ci_fd ci)\<rparr>) (msgs @ closing) \<and>
    control_loop rotl st' zero pr pci (concat msgs) 0 = Inr (pr', Some (length (concat msgs))) \<and>
    px_conns pr' (ci_fd cr) = Some (cr\<lparr>ci_stub := UserStub ur'\<rparr>) \<and> uc_reassembleList ur' = uc_reassembleList ur @ ris \<and>
    (\<forall>s. trusted sha s (take n (ci_bufRead ci)) \<and> (\<forall>ri \<in> set ris. \<forall>m \<in> set (names_of (ri_nameList ri)). tmp_content s m \<noteq> None) \<longrightarrow>
       concat (map (\<lambda>ri. chunk_bytes s (ri_nameList ri)) ris) = take n (ci_bufRead ci))"
proof -
  have "WAPROX_MRC_MAX \<le> 2 ^ 20" "(2 ^ 20 :: nat) < 2 ^ 31" "raw_mode st u \<longrightarrow> length (ci_bufRead ci) \<le> 2 ^ 20"
    using assms(6) by (simp_all add: WAPROX_MRC_MAX_def)
  from ProcessUserData_ok[OF assms(1-5) this, of http f] assms(7) obtain v u1 closing where
    p: "ci_stub ci1 = UserStub u1" "sent_blocks (may_raw st u) sha ci u v (ci_bufRead ci) n"
      "u1 = v\<lparr>uc_controlMsgList := uc_controlMsgList v @ map (\<lambda>m. \<lparr>mi_msg = m, mi_streamID = int (ci_fd ci)\<rparr>) closing\<rparr>" by auto
  from p(2) obtain blocks msgs where b: "concat blocks = take n (ci_bufRead ci)" "list_all2 (names_block sha (uc_id u)) blocks msgs"
    "uc_controlMsgList v = uc_controlMsgList u @ map (\<lambda>m. \<lparr>mi_msg = m, mi_streamID = int (ci_fd ci)\<rparr>) msgs"
    unfolding sent_blocks_def carries_names[OF assms(6)] by blast
  from names_stream[OF b(2) assms(2,8-12), of rotl st' zero pci 0] obtain pr' ur' ris where
    r: "control_loop rotl st' zero pr pci (concat msgs) 0 = Inr (pr', Some (length (concat msgs)))"
      "px_conns pr' (ci_fd cr) = Some (cr\<lparr>ci_stub := UserStub ur'\<rparr>)" "uc_reassembleList ur' = uc_reassembleList ur @ ris"
      "\<forall>s. (\<forall>b \<in> set blocks. trusted sha s b) \<and> (\<forall>ri \<in> set ris. \<forall>n \<in> set (names_of (ri_nameList ri)). tmp_content s n \<noteq> None) \<longrightarrow>
         map (\<lambda>ri. chunk_bytes s (ri_nameList ri)) ris = blocks" by auto
  have "uc_controlMsgList u1 = uc_controlMsgList u @ map (\<lambda>m. \<lparr>mi_msg = m, mi_streamID = int (ci_fd ci)\<rparr>) (msgs @ closing)"
    using b(3) unfolding p(3) by simp
  moreover have "concat (map (\<lambda>ri. chunk_bytes s (ri_nameList ri)) ris) = take n (ci_bufRead ci)"
    if "trusted sha s (take n (ci_bufRead ci))" "\<forall>ri \<in> set ris. \<forall>m \<in> set (names_of (ri_nameList ri)). tmp_content s m \<noteq> None" for s
    using r(4) that trusted_blocks[of sha s blocks] unfolding b(1)[symmetric] by simp
  ultimately show ?thesis using p(1) r(1-3) by blast
qed

text \<open>A digest for examples.\<close>

definition demo_sha :: "byte list \<Rightarrow> sha1" where
  "demo_sha b = take 20 (b @ replicate 20 0)"

lemma demo_sha_length [simp]: "length (demo_sha b) = SHA1_LEN"
  by (simp add: demo_sha_def SHA1_LEN_def min_def)

lemma demo_receiver:
  "\<exists>cm cm'. CreateConnectionTables None = Inr (cm, cm) \<and> PutConnection cm (demo_conn demo_user) = Inr cm' \<and>
     conns_typed (demo_proxy (empty_cache 0) cm' (demo_conn demo_user) []) \<and>
     target_conn (demo_proxy (empty_cache 0) cm' (demo_conn demo_user) []) (uc_id demo_user) = Inr (Some (demo_conn demo_user)) \<and>
     tmp_inv (px_cache (demo_proxy (empty_cache 0) cm' (demo_conn demo_user) [])) \<and> peers_live (demo_proxy (empty_cache 0) cm' (demo_conn demo_user) [])"
proof -
  have d: "ci_type (demo_conn demo_user) = ct_user" "ci_stub (demo_conn demo_user) = UserStub demo_user" "ci_fd (demo_conn demo_user) = 9"
    by (simp_all add: demo_conn_def)
  from demo_registered[OF d refl, of "empty_cache 0" "[]"] show ?thesis
    by (auto simp: peers_live_def demo_proxy_def three_peers three_peers_remote empty_cache)
qed

lemma demo_user_data:
  "\<exists>px1 ci1. ProcessUserData demo_sha (\<lambda>px ci. Inr (px, ci, 0)) demo_settings demo_px ((demo_conn demo_user)\<lparr>ci_bufRead := [1, 2, 3], ci_status := cs_active\<rparr>) True = Inr (px1, ci1, 3)"
proof -
  let ?ci = "(demo_conn demo_user)\<lparr>ci_bufRead := [1, 2, 3], ci_status := cs_active\<rparr>"
  have c: "mrc_config_ok (st_mrc demo_settings)" "\<forall>b. length (demo_sha b) = SHA1_LEN" "ci_status ?ci \<noteq> cs_block" "WAPROX_MRC_MAX \<le> 2 ^ 20"
    "raw_mode demo_settings demo_user \<longrightarrow> length (ci_bufRead ?ci) \<le> 2 ^ 20" "\<not> g_ChunkSize (st_mrc demo_settings) < length (ci_bufRead ?ci)"
    using default_config_ok by (simp_all add: demo_settings_def SHA1_LEN_def WAPROX_MRC_MAX_def default_config_def)
  from ProcessUserData_ok[OF c(1,2) demo_sender c(3,4) _ c(5), of "\<lambda>px ci. Inr (px, ci, 0)" True] c(6) obtain px1 ci1 v u1 n closing where
    r: "ProcessUserData demo_sha (\<lambda>px ci. Inr (px, ci, 0)) demo_settings demo_px ?ci True = Inr (px1, ci1, n)"
      "sent_blocks (may_raw demo_settings demo_user) demo_sha ?ci demo_user v (ci_bufRead ?ci) n"
      "u1 = v\<lparr>uc_controlMsgList := uc_controlMsgList v @ map (\<lambda>m. \<lparr>mi_msg = m, mi_streamID = int (ci_fd ?ci)\<rparr>) closing\<rparr>"
      "user_end demo_settings True demo_px ?ci px1 ci1 u1 n closing" by auto
  have z: "uc_numSent demo_user = 0" "unat (uc_maxWindowSize demo_user) = 62914560" by (simp_all add: demo_user_def new_user_def MAX_WINDOW_SIZE_def)
  have s: "n \<le> 3" "uc_numSent u1 = of_nat n" "unat (uc_maxWindowSize u1) = 62914560" using r(2,3) z by (simp_all add: sent_blocks_def)
  then have "unat (uc_numSent u1) \<le> 3" by (simp add: unat_of_nat take_bit_nat_eq_self)
  then have "n = 3" using r(4) s(3) by (auto simp: user_end_def waits_def)
  with r(1) show ?thesis by blast
qed

theorem user_data_transfer_witness:
  "\<exists>cm cm' msgs pr' ur' ris. CreateConnectionTables None = Inr (cm, cm) \<and> PutConnection cm (demo_conn demo_user) = Inr cm' \<and>
     control_loop id demo_settings blank_scanner (demo_proxy (empty_cache 0) cm' (demo_conn demo_user) []) demo_peer_conn (concat msgs) 0 =
       Inr (pr', Some (length (concat msgs))) \<and> px_conns pr' 9 = Some (demo_conn ur') \<and> uc_reassembleList ur' = ris \<and>
     (\<forall>s. trusted demo_sha s [1, 2, 3] \<and> (\<forall>ri \<in> set ris. \<forall>m \<in> set (names_of (ri_nameList ri)). tmp_content s m \<noteq> None) \<longrightarrow>
        concat (map (\<lambda>ri. chunk_bytes s (ri_nameList ri)) ris) = [1, 2, 3])"
proof -
  let ?ci = "(demo_conn demo_user)\<lparr>ci_bufRead := [1, 2, 3], ci_status := cs_active\<rparr>"
  have c: "mrc_config_ok (st_mrc demo_settings)" "\<forall>b. length (demo_sha b) = SHA1_LEN" "ci_status ?ci \<noteq> cs_block" "\<not> may_raw demo_settings demo_user"
    using default_config_ok by (simp_all add: demo_settings_def raw_mode_def demo_user_def new_user_def)
  have d: "ci_stub (demo_conn demo_user) = UserStub demo_user" "ci_fd (demo_conn demo_user) = 9" "uc_reassembleList demo_user = []"
    "(demo_conn demo_user)\<lparr>ci_stub := UserStub v\<rparr> = demo_conn v" for v by (simp_all add: demo_conn_def demo_user_def new_user_def)
  obtain px1 ci1 where p: "ProcessUserData demo_sha (\<lambda>px ci. Inr (px, ci, 0)) demo_settings demo_px ?ci True = Inr (px1, ci1, 3)"
    using demo_user_data by blast
  obtain cm cm' where r: "CreateConnectionTables None = Inr (cm, cm)" "PutConnection cm (demo_conn demo_user) = Inr cm'"
    "conns_typed (demo_proxy (empty_cache 0) cm' (demo_conn demo_user) [])"
    "target_conn (demo_proxy (empty_cache 0) cm' (demo_conn demo_user) []) (uc_id demo_user) = Inr (Some (demo_conn demo_user))"
    "tmp_inv (px_cache (demo_proxy (empty_cache 0) cm' (demo_conn demo_user) []))" "peers_live (demo_proxy (empty_cache 0) cm' (demo_conn demo_user) [])"
    using demo_receiver by blast
  from user_data_transfer[OF c(1,2) demo_sender c(3,4) p r(3,4) d(1) r(5,6), of id demo_settings blank_scanner demo_peer_conn]
  show ?thesis using r(1,2) unfolding d by (fastforce simp: demo_conn_def)
qed

text \<open>
  Claim C2: a block arrives as it was sent. Let a message of the sender carry a block,
  as every message of \<open>ProcessUserData\<close> does. When the receiver has the connection, reading the message
  from the stream of its peer passes every assertion and consumes exactly the message. A raw message is
  appended to what the user receives. A name delivery leaves that alone and appends one waiting block
  to the list, and from every cache that holds its chunks, whose contents have the digests of their
  names and do not collide with parts of the block, the bytes that \<open>ReconstructOriginalData\<close> delivers for
  it are the block the sender was given.
\<close>

theorem block_transfer:
  assumes "carries raw sha cid block msg" "\<forall>b. length (sha b) = SHA1_LEN" "length msg < 2 ^ 31"
    and "conns_typed px" "target_conn px cid = Inr (Some ci)" "user_ok px ci u" "tmp_inv (px_cache px)" "peers_live px"
    and "ci_lenWrite ci + int (length block) < uint (uc_maxWindowSize u * 2)"
  shows "\<exists>ty px' ci' u'. VerifyControlHeader (msg @ rest) = Valid ty \<and>
    control_message_step rotl st zero ty px pci (msg @ rest) = Inr (px', int (length msg)) \<and>
    px_conns px' (ci_fd ci) = Some ci' \<and> ci_stub ci' = UserStub u' \<and>
    (stream ci' = stream ci @ block \<and> uc_reassembleList u' = uc_reassembleList u \<or>
     stream ci' = stream ci \<and> (\<exists>ri. uc_reassembleList u' = uc_reassembleList u @ [ri] \<and>
       (\<forall>s. trusted sha s block \<and> (\<forall>n \<in> set (names_of (ri_nameList ri)). tmp_content s n \<noteq> None) \<longrightarrow>
          chunk_bytes s (ri_nameList ri) = block)))"
proof -
  have ci: "px_conns px (ci_fd ci) = Some ci" "ci_type ci = ct_user" "ci_stub ci = UserStub u"
    using target_conn_some[OF assms(5,4)] assms(6) by (simp_all add: user_ok_def user_conn_def)
  from assms(1) consider "BuildWARawMessage cid block = Inr msg"
    | "names_block sha cid block msg"
    by (auto simp: carries_def)
  then show ?thesis
  proof cases
    case 1
    from raw_received[OF 1 assms(3,5,6,4,9), of rest st] obtain px' ci' u' where
      r: "VerifyControlHeader (msg @ rest) = Valid TYPE_WARAWMESSAGE" "ProcessRawMessage st px (msg @ rest) = Inr (px', int (length msg))"
        "px_conns px' (ci_fd ci) = Some ci'" "ci_stub ci' = UserStub u'" "stream ci' = stream ci @ block" "uc_reassembleList u' = uc_reassembleList u" by blast
    then show ?thesis
      by (intro exI[of _ TYPE_WARAWMESSAGE] exI[of _ px'] exI[of _ ci'] exI[of _ u'])
        (simp add: control_message_step_def TYPE_WARAWMESSAGE_def TYPE_WAOPENCONNECTION_def TYPE_WANAMEDELIVERY_def TYPE_WANAMEACK_def TYPE_WACLOSECONNECTION_def)
  next
    case 2
    from names_received[OF 2 assms(2,4,5) ci(3) assms(7,8), of rest rotl st zero pci] obtain px' u' ri where
      r: "VerifyControlHeader (msg @ rest) = Valid TYPE_WANAMEDELIVERY"
        "control_message_step rotl st zero TYPE_WANAMEDELIVERY px pci (msg @ rest) = Inr (px', int (length msg))"
        "px_conns px' = (px_conns px)(ci_fd ci := Some (ci\<lparr>ci_stub := UserStub u'\<rparr>))" "uc_reassembleList u' = uc_reassembleList u @ [ri]"
        "\<forall>s. trusted sha s block \<and> (\<forall>n \<in> set (names_of (ri_nameList ri)). tmp_content s n \<noteq> None) \<longrightarrow> chunk_bytes s (ri_nameList ri) = block"
      by blast
    have "stream (ci\<lparr>ci_stub := UserStub u'\<rparr>) = stream ci" by (rule queue_same) simp_all
    with r show ?thesis
      by (intro exI[of _ TYPE_WANAMEDELIVERY] exI[of _ px'] exI[of _ "ci\<lparr>ci_stub := UserStub u'\<rparr>"] exI[of _ u']) auto
  qed
qed


text \<open>The raw message of a sender without chunking.\<close>

theorem block_transfer_witness:
  "\<exists>cm cm' msg px' ci'. CreateConnectionTables None = Inr (cm, cm) \<and> PutConnection cm (demo_conn demo_user) = Inr cm' \<and>
     BuildWARawMessage (uc_id demo_user) [1, 2, 3] = Inr msg \<and> VerifyControlHeader msg = Valid TYPE_WARAWMESSAGE \<and>
     control_message_step id demo_settings blank_scanner TYPE_WARAWMESSAGE (demo_proxy (empty_cache 0) cm' (demo_conn demo_user) []) demo_peer_conn msg = Inr (px', int (length msg)) \<and>
     px_conns px' 9 = Some ci' \<and> stream ci' = [1, 2, 3]"
proof -
  obtain cm cm' where r: "CreateConnectionTables None = Inr (cm, cm)" "PutConnection cm (demo_conn demo_user) = Inr cm'"
    "conns_typed (demo_proxy (empty_cache 0) cm' (demo_conn demo_user) [])"
    "target_conn (demo_proxy (empty_cache 0) cm' (demo_conn demo_user) []) (uc_id demo_user) = Inr (Some (demo_conn demo_user))"
    "tmp_inv (px_cache (demo_proxy (empty_cache 0) cm' (demo_conn demo_user) []))" "peers_live (demo_proxy (empty_cache 0) cm' (demo_conn demo_user) [])"
    using demo_receiver by blast
  let ?px = "demo_proxy (empty_cache 0) cm' (demo_conn demo_user) []" and ?ci = "demo_conn demo_user"
  have u: "user_ok ?px ?ci demo_user" by (rule demo_user_ok) (simp_all add: demo_user_def new_user_def)
  have "ok_cid (uc_id demo_user)" by (simp add: ok_cid_def uc_id_def demo_user_def)
  then obtain msg where m: "BuildWARawMessage (uc_id demo_user) [1, 2, 3] = Inr msg" "length msg < 2 ^ 31"
    by (simp add: BuildWARawMessage_def control_message_eq)
  have w: "ci_lenWrite ?ci + int (length [1, 2, 3 :: byte]) < uint (uc_maxWindowSize demo_user * 2)"
    by (simp add: demo_conn_def demo_user_def new_user_def MAX_WINDOW_SIZE_def)
  from raw_received[OF m r(4) u r(3) w, of "[]" demo_settings] obtain px2 ci2 where
    x: "VerifyControlHeader msg = Valid TYPE_WARAWMESSAGE" "ProcessRawMessage demo_settings ?px msg = Inr (px2, int (length msg))"
      "px_conns px2 (ci_fd ?ci) = Some ci2" "stream ci2 = stream ?ci @ [1, 2, 3]" by auto
  have c: "carries True demo_sha (uc_id demo_user) [1, 2, 3] msg" using m(1) by (simp add: carries_def)
  have sl: "\<forall>b. length (demo_sha b) = SHA1_LEN" by simp
  from block_transfer[OF c sl m(2) r(3,4) u r(5,6) w, of "[]" id demo_settings blank_scanner demo_peer_conn] x(1) obtain px' ci' where
    y: "control_message_step id demo_settings blank_scanner TYPE_WARAWMESSAGE ?px demo_peer_conn msg = Inr (px', int (length msg))"
      "px_conns px' (ci_fd ?ci) = Some ci'" by auto
  have "px' = px2" using y(1) x(2)
    by (simp add: control_message_step_def TYPE_WARAWMESSAGE_def TYPE_WAOPENCONNECTION_def TYPE_WANAMEDELIVERY_def TYPE_WANAMEACK_def TYPE_WACLOSECONNECTION_def)
  then have "ci' = ci2" using y(2) x(3) by simp
  then have "stream ci' = [1, 2, 3]" using x(4) by (simp add: stream_def waiting_def demo_conn_def)
  moreover have "px_conns px' 9 = Some ci'" using y(2) by (simp add: demo_conn_def)
  ultimately show ?thesis using r(1,2) m(1) x(1) y(1) by blast
qed

end
